(* ===== verification/Prelude.thy ===== *)
theory Prelude
  imports Main "HOL-Library.Word"
begin

text \<open>
  Shared vocabulary of the development: the return codes of \<^verbatim>\<open>ossErr.h\<close> that the
  modelled functions use, truncation to the machine widths of \<^verbatim>\<open>ossTypes.h\<close>, the
  \<^verbatim>\<open>std::map\<close> of the C++ code as a list of bindings in ascending key order, and the
  generic facts on such lists that the component theories use.
\<close>

named_theorems width_simps \<open>rewriting of truncations that lose nothing\<close>
named_theorems map_laws \<open>what a lookup returns after an update of an ordered map\<close>

section \<open>Return codes\<close>

text \<open>
  An operation of the engine returns an \<^verbatim>\<open>INT32\<close>: \<^verbatim>\<open>SDB_OK\<close> or one of the error
  codes below, which keep their names.
\<close>

datatype sdb_rc =
    SDB_OK
  | SDB_SYS
  | SDB_PERM
  | SDB_TIMEOUT
  | SDB_INTERRUPT
  | SDB_INVALIDARG
  | SDB_DMS_NOSPC
  | SDB_DPS_TRANS_LOCK_INCOMPATIBLE
  | SDB_DPS_TRANS_APPEND_TO_WAIT
  | SDB_LOB_LOCK_CONFLICTED
  | SDB_LOB_IS_IN_USE
  | SDB_APP_INTERRUPT
  | SDB_CLS_EMPTY_HEAP
  | SDB_CLS_WAIT_SYNC_FAILED
  | SDB_CLS_VOTE_FAILED
  | SDB_CLS_NOT_PRIMARY
  | SDB_CLS_NODE_BSFAULT
  | SDB_CLS_INVALID_GROUP_NUM
  | SDB_CLS_CAN_NOT_STEP_UP
  | SDB_CLS_NODE_INFO_EXPIRED
  | SDB_CLS_UNKNOW_MSG
  | SDB_REPL_GROUP_NOT_ACTIVE
  | SDB_REPL_INVALID_GROUP_MEMBER
  | SDB_REPL_REMOTE_G_V_EXPIRED
  | SDB_REPL_LOCAL_G_V_EXPIRED
  | SDB_OOM
  | SDB_UTIL_COMPRESS_ABORT

section \<open>Machine widths\<close>

text \<open>Assignment to a \<^verbatim>\<open>UINT16\<close> or a \<^verbatim>\<open>UINT32\<close> keeps the low bits.\<close>

definition u16 :: "nat \<Rightarrow> nat" where
  "u16 n = n mod 65536"

definition u32 :: "nat \<Rightarrow> nat" where
  "u32 n = n mod 4294967296"

lemma u16_id [width_simps]: "n < 65536 \<Longrightarrow> u16 n = n"
  by (simp add: u16_def)

lemma u32_id [width_simps]: "n < 4294967296 \<Longrightarrow> u32 n = n"
  by (simp add: u32_def)

text \<open>Subtraction on an unsigned 32-bit counter wraps around below zero.\<close>

definition u32_sub :: "nat \<Rightarrow> nat \<Rightarrow> nat" where
  "u32_sub a b = (a + 4294967296 - b mod 4294967296) mod 4294967296"

lemma u32_sub_id [width_simps]:
  assumes "b \<le> a" and "a < 4294967296"
  shows "u32_sub a b = a - b"
proof -
  from assms have eq: "a + 4294967296 - b mod 4294967296 = (a - b) + 4294967296" by simp
  show ?thesis unfolding u32_sub_def eq mod_add_self2
    using assms by (intro mod_less) simp
qed

definition u16_sub :: "nat \<Rightarrow> nat \<Rightarrow> nat" where
  "u16_sub a b = (a + 65536 - b mod 65536) mod 65536"

lemma u16_sub_id [width_simps]:
  assumes "b \<le> a" and "a < 65536"
  shows "u16_sub a b = a - b"
proof -
  from assms have eq: "a + 65536 - b mod 65536 = (a - b) + 65536" by simp
  show ?thesis unfolding u16_sub_def eq mod_add_self2
    using assms by (intro mod_less) simp
qed


section \<open>Invalid values\<close>

definition DMS_INVALID_EXTENT :: int where
  "DMS_INVALID_EXTENT = -1"

section \<open>Ordered maps\<close>

text \<open>
  A \<^verbatim>\<open>std::map\<close> is the list of its bindings in ascending key order, which is the order its
  iterators visit. \<open>smap_put\<close> is \<^verbatim>\<open>m[k] = v\<close>, \<open>smap_insert\<close> is
  \<^verbatim>\<open>m.insert(k, v)\<close>, which keeps an existing binding, and \<open>smap_erase\<close> is
  \<^verbatim>\<open>m.erase(k)\<close>; \<^verbatim>\<open>m.find(k)\<close> is \<open>map_of m k\<close>.
\<close>

fun smap_put :: "'k::linorder \<Rightarrow> 'v \<Rightarrow> ('k \<times> 'v) list \<Rightarrow> ('k \<times> 'v) list" where
  "smap_put k v [] = [(k, v)]"
| "smap_put k v ((k', v') # m) =
     (if k = k' then (k, v) # m
      else if k < k' then (k, v) # (k', v') # m
      else (k', v') # smap_put k v m)"

definition smap_insert :: "'k::linorder \<Rightarrow> 'v \<Rightarrow> ('k \<times> 'v) list \<Rightarrow> ('k \<times> 'v) list" where
  "smap_insert k v m = (case map_of m k of None \<Rightarrow> smap_put k v m | Some _ \<Rightarrow> m)"

definition smap_erase :: "'k \<Rightarrow> ('k \<times> 'v) list \<Rightarrow> ('k \<times> 'v) list" where
  "smap_erase k m = filter (\<lambda>b. fst b \<noteq> k) m"

definition smap_ok :: "('k::linorder \<times> 'v) list \<Rightarrow> bool" where
  "smap_ok m \<longleftrightarrow> sorted_wrt (<) (map fst m)"

lemma map_of_smap_put [map_laws, simp]: "map_of (smap_put k v m) = (map_of m)(k \<mapsto> v)"
  by (induction k v m rule: smap_put.induct) (auto simp: fun_eq_iff)

lemma map_of_smap_erase [map_laws, simp]: "map_of (smap_erase k m) = (map_of m)(k := None)"
  unfolding smap_erase_def by (induction m) (auto simp: fun_eq_iff)

lemma set_smap_put: "fst ` set (smap_put k v m) = insert k (fst ` set m)"
  by (induction k v m rule: smap_put.induct) auto

lemma smap_ok_Nil [simp]: "smap_ok []"
  by (simp add: smap_ok_def)

lemma smap_ok_Cons [simp]: "smap_ok ((k, v) # m) \<longleftrightarrow> (\<forall>k' \<in> fst ` set m. k < k') \<and> smap_ok m"
  by (auto simp: smap_ok_def)

lemma smap_ok_put [simp]: "smap_ok m \<Longrightarrow> smap_ok (smap_put k v m)"
proof (induction k v m rule: smap_put.induct)
  case (2 k v k' v' m)
  then show ?case by (auto simp: set_smap_put simp del: set_map)
qed simp

lemma smap_ok_erase [simp]: "smap_ok m \<Longrightarrow> smap_ok (smap_erase k m)"
  unfolding smap_erase_def by (induction m) auto

lemma smap_ok_distinct: "smap_ok m \<Longrightarrow> distinct (map fst m)"
  unfolding smap_ok_def by (simp add: strict_sorted_iff)

lemma smap_mem [map_laws]: "smap_ok m \<Longrightarrow> (k, v) \<in> set m \<longleftrightarrow> map_of m k = Some v"
  by (simp add: smap_ok_distinct)

text \<open>A key that is not bound yet.\<close>

lemma smap_insert_new: "k \<notin> fst ` set m \<Longrightarrow> smap_insert k v m = smap_put k v m"
  by (simp add: smap_insert_def map_of_eq_None_iff [THEN iffD2])

lemma set_smap_put_new: "k \<notin> fst ` set m \<Longrightarrow> set (smap_put k v m) = insert (k, v) (set m)"
  by (induction k v m rule: smap_put.induct) auto

lemma smap_put_last: "\<forall>k' \<in> fst ` set m. k' < k \<Longrightarrow> smap_put k v m = m @ [(k, v)]"
  by (induction k v m rule: smap_put.induct) (auto dest: less_imp_neq)

lemma smap_erase_absent: "k \<notin> fst ` set m \<Longrightarrow> smap_erase k m = m"
  unfolding smap_erase_def by (rule filter_True) auto

lemma smap_erase_put: "k \<notin> fst ` set m \<Longrightarrow> smap_erase k (smap_put k v m) = m"
  by (induction k v m rule: smap_put.induct) (auto simp: smap_erase_def intro!: filter_True)

end
