(* ===== verification/PageAllocator.thy ===== *)
theory PageAllocator
  imports Prelude
begin

text \<open>
  The contract of an allocator of runs of pages, as the storage unit uses it: what
  \<open>reserve\<close> and \<open>release\<close> promise about the set of free pages, and what
  follows for any sequence of calls. The segment (theory \<open>SegmentSpace\<close>) and the
  space manager (theory \<open>SMEMgr\<close>) both implement it.
\<close>

section \<open>Client programs\<close>

text \<open>
  A client holds a list of reservations \<open>(first page, number of pages)\<close>. It asks for
  \<open>n\<close> pages, or gives back the \<open>k\<close>-th reservation it holds.
\<close>

datatype alloc_op = Reserve nat | Release nat

fun alloc_run ::
  "(nat \<Rightarrow> 's \<Rightarrow> int option \<times> 's) \<Rightarrow> (int \<Rightarrow> nat \<Rightarrow> 's \<Rightarrow> bool \<times> 's) \<Rightarrow>
   alloc_op list \<Rightarrow> 's \<times> (int \<times> nat) list \<Rightarrow> 's \<times> (int \<times> nat) list" where
  "alloc_run res rel [] st = st"
| "alloc_run res rel (Reserve n # ops) (s, out) =
     (case res n s of
        (Some p, s') \<Rightarrow> alloc_run res rel ops (s', (p, n) # out)
      | (None, s') \<Rightarrow> alloc_run res rel ops (s', out))"
| "alloc_run res rel (Release k # ops) (s, out) =
     (if k < length out then
        (case rel (fst (out ! k)) (snd (out ! k)) s of
           (True, s') \<Rightarrow> alloc_run res rel ops (s', take k out @ drop (Suc k) out)
         | (False, s') \<Rightarrow> alloc_run res rel ops (s', out))
      else alloc_run res rel ops (s, out))"

definition run_pages :: "int \<times> nat \<Rightarrow> int set" where
  "run_pages r = {fst r ..< fst r + int (snd r)}"

definition held_pages :: "(int \<times> nat) list \<Rightarrow> int set" where
  "held_pages out = (\<Union>r \<in> set out. run_pages r)"

definition asks_pages :: "alloc_op \<Rightarrow> bool" where
  "asks_pages op = (case op of Reserve n \<Rightarrow> 0 < n | Release k \<Rightarrow> True)"

text \<open>The reservations are pairwise disjoint and contain no free page.\<close>

definition exclusive :: "int set \<Rightarrow> (int \<times> nat) list \<Rightarrow> bool" where
  "exclusive F out \<longleftrightarrow>
     sorted_wrt (\<lambda>a b. run_pages a \<inter> run_pages b = {}) out \<and> F \<inter> held_pages out = {}"

lemma held_pages_simps [simp]:
  "held_pages [] = {}"
  "held_pages (r # out) = run_pages r \<union> held_pages out"
  "held_pages (out @ out') = held_pages out \<union> held_pages out'"
  by (auto simp: held_pages_def)

lemma exclusive_Cons:
  assumes "exclusive F out" and "run_pages r \<subseteq> F"
  shows "exclusive (F - run_pages r) (r # out)"
  using assms by (auto simp: exclusive_def held_pages_def)

lemma exclusive_remove:
  assumes "exclusive F out" and "k < length out"
  shows "exclusive (F \<union> run_pages (out ! k)) (take k out @ drop (Suc k) out)"
    and "held_pages (take k out @ drop (Suc k) out) = held_pages out - run_pages (out ! k)"
    and "F \<inter> run_pages (out ! k) = {}"
proof -
  have split: "out = take k out @ out ! k # drop (Suc k) out"
    using assms(2) by (rule id_take_nth_drop)
  from assms(1) have "exclusive F (take k out @ out ! k # drop (Suc k) out)"
    using split by simp
  then have ex: "sorted_wrt (\<lambda>a b. run_pages a \<inter> run_pages b = {}) (take k out @ drop (Suc k) out)"
    "\<forall>a \<in> set (take k out @ drop (Suc k) out). run_pages a \<inter> run_pages (out ! k) = {}"
    "F \<inter> (held_pages (take k out @ drop (Suc k) out) \<union> run_pages (out ! k)) = {}"
    unfolding exclusive_def by (auto simp: sorted_wrt_append Int_commute)
  then have disj: "held_pages (take k out @ drop (Suc k) out) \<inter> run_pages (out ! k) = {}"
    by (auto simp: held_pages_def)
  have "held_pages out = held_pages (take k out @ drop (Suc k) out) \<union> run_pages (out ! k)"
    by (subst split) auto
  with disj show "held_pages (take k out @ drop (Suc k) out) = held_pages out - run_pages (out ! k)"
    by auto
  show "exclusive (F \<union> run_pages (out ! k)) (take k out @ drop (Suc k) out)"
    unfolding exclusive_def using ex disj by auto
  show "F \<inter> run_pages (out ! k) = {}" using ex(3) by auto
qed

section \<open>The contract\<close>

locale page_allocator =
  fixes invar :: "'s \<Rightarrow> bool"
    and free :: "'s \<Rightarrow> int set"
    and block :: "'s \<Rightarrow> int \<Rightarrow> nat \<Rightarrow> bool"
    and reserve :: "nat \<Rightarrow> 's \<Rightarrow> int option \<times> 's"
    and release :: "int \<Rightarrow> nat \<Rightarrow> 's \<Rightarrow> bool \<times> 's"
  assumes reserve_Some:
      "invar s \<Longrightarrow> 0 < n \<Longrightarrow> reserve n s = (Some p, s') \<Longrightarrow>
       invar s' \<and> block s = block s' \<and> block s p n \<and> run_pages (p, n) \<subseteq> free s \<and>
       free s' = free s - run_pages (p, n)"
    and reserve_None:
      "invar s \<Longrightarrow> 0 < n \<Longrightarrow> reserve n s = (None, s') \<Longrightarrow>
       invar s' \<and> block s = block s' \<and> free s' = free s \<and>
       \<not> (\<exists>p. block s p n \<and> run_pages (p, n) \<subseteq> free s)"
    and release_ok:
      "invar s \<Longrightarrow> 0 < n \<Longrightarrow> block s p n \<Longrightarrow> free s \<inter> run_pages (p, n) = {} \<Longrightarrow>
       \<exists>s'. release p n s = (True, s') \<and> invar s' \<and> block s = block s' \<and>
            free s' = free s \<union> run_pages (p, n)"
    and release_refused:
      "invar s \<Longrightarrow> 0 < n \<Longrightarrow> \<not> block s p n \<or> free s \<inter> run_pages (p, n) \<noteq> {} \<Longrightarrow>
       release p n s = (False, s)"
begin

text \<open>A reservation that is given back leaves the free pages as they were.\<close>

lemma reserve_release:
  assumes "invar s" and "0 < n" and "reserve n s = (Some p, s1)"
  shows "\<exists>s2. release p n s1 = (True, s2) \<and> invar s2 \<and> free s2 = free s"
proof -
  note r = reserve_Some [OF assms]
  then have "free s1 \<inter> run_pages (p, n) = {}" by blast
  with r assms(2) obtain s2 where "release p n s1 = (True, s2)" "invar s2"
    "free s2 = free s1 \<union> run_pages (p, n)"
    using release_ok [of s1 n p] by metis
  with r show ?thesis by auto
qed

text \<open>A second release of the same pages is refused and changes nothing.\<close>

lemma double_release:
  assumes "invar s" and "0 < n" and "release p n s = (True, s1)"
  shows "release p n s1 = (False, s1)"
proof -
  have "block s p n \<and> free s \<inter> run_pages (p, n) = {}"
    using release_refused [OF assms(1,2)] assms(3) by fastforce
  then obtain s' where "release p n s = (True, s')" "invar s'" "free s' = free s \<union> run_pages (p, n)"
    using release_ok [OF assms(1,2)] by blast
  moreover have "run_pages (p, n) \<noteq> {}" using assms(2) by (auto simp: run_pages_def)
  ultimately show ?thesis using assms(2,3) release_refused [of s1 n p] by auto
qed

definition good :: "'s \<times> (int \<times> nat) list \<Rightarrow> bool" where
  "good st \<longleftrightarrow> invar (fst st) \<and> exclusive (free (fst st)) (snd st) \<and>
     (\<forall>(p, n) \<in> set (snd st). 0 < n \<and> block (fst st) p n)"

lemma run_good:
  assumes "good st" and "\<forall>op \<in> set ops. asks_pages op"
  shows "good (alloc_run reserve release ops st) \<and>
         free (fst (alloc_run reserve release ops st)) \<union> held_pages (snd (alloc_run reserve release ops st))
         = free (fst st) \<union> held_pages (snd st)"
  using assms
proof (induction ops arbitrary: st)
  case Nil
  then show ?case by simp
next
  case (Cons op ops)
  obtain s out where st: "st = (s, out)" by force
  from Cons.prems st have g: "invar s" "exclusive (free s) out" "\<forall>(p, n) \<in> set out. 0 < n \<and> block s p n"
    by (auto simp: good_def)
  have ops: "\<forall>op \<in> set ops. asks_pages op" using Cons.prems(2) by simp
  show ?case
  proof (cases op)
    case (Reserve n)
    then have n: "0 < n" using Cons.prems(2) by (simp add: asks_pages_def)
    obtain r s' where r: "reserve n s = (r, s')" by force
    show ?thesis
    proof (cases r)
      case None
      from reserve_None [OF g(1) n r [unfolded None]] g have "good (s', out)" "free s' = free s"
        by (auto simp: good_def)
      with Cons.IH [of "(s', out)"] ops r None Reserve st show ?thesis by simp
    next
      case (Some p)
      from reserve_Some [OF g(1) n r [unfolded Some]] g n
      have "good (s', (p, n) # out)" "free s' = free s - run_pages (p, n)" "run_pages (p, n) \<subseteq> free s"
        by (auto simp: good_def intro: exclusive_Cons)
      with Cons.IH [of "(s', (p, n) # out)"] ops r Some Reserve st show ?thesis by auto
    qed
  next
    case (Release k)
    show ?thesis
    proof (cases "k < length out")
      case False
      with Cons.IH [of st] Cons.prems(1) ops Release st show ?thesis by simp
    next
      case True
      obtain p n where pn: "out ! k = (p, n)" by force
      with True g(3) have b: "0 < n" "block s p n" by (metis case_prodD nth_mem)+
      note ex = exclusive_remove [OF g(2) True, unfolded pn]
      obtain s' where s': "release p n s = (True, s')" "invar s'" "block s = block s'"
        "free s' = free s \<union> run_pages (p, n)"
        using release_ok [OF g(1) b ex(3)] by blast
      have "set (take k out @ drop (Suc k) out) \<subseteq> set out"
        by (auto dest: in_set_takeD in_set_dropD)
      with s' g(3) ex(1) have "good (s', take k out @ drop (Suc k) out)"
        by (auto simp: good_def)
      moreover have "run_pages (p, n) \<subseteq> held_pages out"
        using pn True by (metis (no_types, lifting) UN_upper held_pages_def nth_mem)
      ultimately show ?thesis
        using Cons.IH [of "(s', take k out @ drop (Suc k) out)"] ops s' True pn ex(2) Release st by auto
    qed
  qed
qed

text \<open>
  Starting with nothing held, whatever the client asks for and gives back, no page is ever
  in two reservations or both reserved and free, and no page is lost.
\<close>

lemma run_exclusive:
  assumes "invar s" and "\<forall>op \<in> set ops. asks_pages op"
  shows "exclusive (free (fst (alloc_run reserve release ops (s, []))))
           (snd (alloc_run reserve release ops (s, [])))"
    and "free (fst (alloc_run reserve release ops (s, []))) \<union>
         held_pages (snd (alloc_run reserve release ops (s, []))) = free s"
    and "invar (fst (alloc_run reserve release ops (s, [])))"
  using run_good [of "(s, [])" ops] assms by (auto simp: good_def exclusive_def)

end

end
