(* ===== verification/SegmentSpace.thy ===== *)
theory SegmentSpace
  imports Prelude PageAllocator
begin

text \<open>
  One segment of a storage unit: class \<^verbatim>\<open>_dmsSegmentSpace\<close> of
  \<^verbatim>\<open>dms/dmsSMEMgr.cpp\<close>, and the page bitmap \<^verbatim>\<open>_dmsSpaceManagementExtent\<close> of
  \<^verbatim>\<open>include/dmsStorageBase.hpp\<close> that it keeps in step with its list of free runs.
  A free run is a packed \<^verbatim>\<open>UINT32\<close>, start page in the high half and length in the low
  half; the list is in ascending order and adjacent runs are merged.
\<close>

unbundle bit_operations_syntax

section \<open>The page bitmap\<close>

text \<open>
  The mask is an array of bytes, here a function from the byte index. Page \<open>n\<close> is bit
  \<open>7 - n mod 8\<close> of byte \<open>n div 8\<close>; a set bit is an allocated page.
\<close>

type_synonym sme_mask = "nat \<Rightarrow> 8 word"

definition getBitMask :: "sme_mask \<Rightarrow> nat \<Rightarrow> nat" where
  "getBitMask msk bitNum =
     unat (drop_bit (7 - bitNum mod 8) (msk (bitNum div 8)) AND 1)"

definition freeBitMask :: "nat \<Rightarrow> sme_mask \<Rightarrow> sme_mask" where
  "freeBitMask bitNum msk =
     msk(bitNum div 8 := msk (bitNum div 8) AND NOT (push_bit (7 - bitNum mod 8) 1))"

definition setBitMask :: "nat \<Rightarrow> sme_mask \<Rightarrow> sme_mask" where
  "setBitMask bitNum msk =
     msk(bitNum div 8 := msk (bitNum div 8) OR push_bit (7 - bitNum mod 8) 1)"

definition DMS_SME_FREE :: nat where
  "DMS_SME_FREE = 0"

definition DMS_SME_ALLOCATED :: nat where
  "DMS_SME_ALLOCATED = 1"

section \<open>Packed free runs\<close>

type_synonym dmsSegmentNode = "32 word"

definition node_start :: "dmsSegmentNode \<Rightarrow> nat" where
  "node_start x = u16 (unat (drop_bit 16 x))"

definition node_size :: "dmsSegmentNode \<Rightarrow> nat" where
  "node_size x = unat (65535 AND x)"

definition node_set :: "nat \<Rightarrow> nat \<Rightarrow> dmsSegmentNode" where
  "node_set y z = push_bit 16 (word_of_nat y) OR (65535 AND word_of_nat z)"

definition node_set_size :: "dmsSegmentNode \<Rightarrow> nat \<Rightarrow> dmsSegmentNode" where
  "node_set_size x y = word_of_nat (u16 y) OR (4294901760 AND x)"

section \<open>The segment\<close>

record segSpace =
  freeSpaceList :: "dmsSegmentNode list"
  maxNode :: nat
  startExtent :: int
  totalSize :: nat
  segTotalFree :: nat

text \<open>
  What a segment reaches through its pointer to the manager: the bitmap, the manager's
  count of free pages and the index of the first segment worth searching.
\<close>

record smeShared =
  smeMask :: sme_mask
  mgrTotalFree :: nat
  freePos :: nat

definition dmsSegmentSpace_new :: "int \<Rightarrow> nat \<Rightarrow> segSpace" where
  "dmsSegmentSpace_new start maxNodes =
     \<lparr>freeSpaceList = [], maxNode = 0, startExtent = start,
      totalSize = u16 maxNodes, segTotalFree = 0\<rparr>"

fun resetMax_loop :: "nat \<Rightarrow> dmsSegmentNode list \<Rightarrow> nat" where
  "resetMax_loop m [] = m"
| "resetMax_loop m (x # xs) =
     resetMax_loop (if node_size x > m then node_size x else m) xs"

definition resetMax :: "segSpace \<Rightarrow> segSpace" where
  "resetMax s = s\<lparr>maxNode := resetMax_loop 0 (freeSpaceList s)\<rparr>"

fun set_bits :: "nat \<Rightarrow> nat \<Rightarrow> sme_mask \<Rightarrow> sme_mask" where
  "set_bits bitStart 0 msk = msk"
| "set_bits bitStart (Suc n) msk = set_bits (Suc bitStart) n (setBitMask bitStart msk)"

fun free_bits :: "nat \<Rightarrow> nat \<Rightarrow> sme_mask \<Rightarrow> sme_mask" where
  "free_bits bitStart 0 msk = msk"
| "free_bits bitStart (Suc n) msk = free_bits (Suc bitStart) n (freeBitMask bitStart msk)"

text \<open>
  The search loop of \<^verbatim>\<open>reservePages\<close>: the first run that is long enough. The result
  is the start of the run, its length before the reservation and the list after it.
\<close>

fun reserve_loop ::
  "nat \<Rightarrow> dmsSegmentNode list \<Rightarrow> (nat \<times> nat \<times> dmsSegmentNode list) option" where
  "reserve_loop numPages [] = None"
| "reserve_loop numPages (x # xs) =
     (let oldsize = node_size x; foundPage = node_start x in
      if oldsize \<ge> numPages then
        (if node_size x = numPages then Some (foundPage, oldsize, xs)
         else Some (foundPage, oldsize,
                    node_set (foundPage + numPages) (u16_sub oldsize numPages) # xs))
      else map_option (\<lambda>(f, old, ys). (f, old, x # ys)) (reserve_loop numPages xs))"

definition seg_reservePages ::
  "nat \<Rightarrow> nat \<Rightarrow> int \<Rightarrow> segSpace \<Rightarrow> smeShared \<Rightarrow> sdb_rc \<times> int \<times> segSpace \<times> smeShared" where
  "seg_reservePages numPages pos foundPage s g =
     (let g1 = (if segTotalFree s = 0
                then (if freePos g = pos then g\<lparr>freePos := pos + 1\<rparr> else g) else g)
      in if numPages > maxNode s then (SDB_DMS_NOSPC, foundPage, s, g1)
         else case reserve_loop numPages (freeSpaceList s) of
           None \<Rightarrow> (SDB_SYS, foundPage, s, g1)
         | Some (found, oldsize, lst) \<Rightarrow>
             (let found' = int found + startExtent s;
                  s1 = s\<lparr>freeSpaceList := lst,
                         segTotalFree := u16_sub (segTotalFree s) numPages\<rparr>;
                  s2 = (if oldsize = maxNode s then resetMax s1 else s1);
                  g2 = g1\<lparr>smeMask := set_bits (nat found') numPages (smeMask g1),
                          mgrTotalFree := u32_sub (mgrTotalFree g1) numPages\<rparr>
              in (SDB_OK, found', s2, g2)))"

text \<open>
  The placement loop of \<^verbatim>\<open>releasePages\<close>. The nodes already passed are kept reversed in
  \<open>acc\<close>, so the last of them (\<^verbatim>\<open>oldit\<close>) is its head. On success the result
  is the passed nodes, the remaining list whose head is the node that now holds the
  released pages (\<^verbatim>\<open>it1\<close>), that node's size and the new maximum.
\<close>

fun release_loop ::
  "nat \<Rightarrow> nat \<Rightarrow> nat \<Rightarrow> dmsSegmentNode list \<Rightarrow> dmsSegmentNode list \<Rightarrow>
   sdb_rc + (dmsSegmentNode list \<times> dmsSegmentNode list \<times> nat \<times> nat)" where
  "release_loop relaStart numPages mx acc [] =
     Inr (acc, [node_set relaStart numPages], numPages, if numPages > mx then numPages else mx)"
| "release_loop relaStart numPages mx acc (x # xs) =
     (if relaStart < node_start x then
        (if relaStart + numPages > node_start x then Inl SDB_SYS
         else if relaStart + numPages = node_start x then
           (let newSize = u16 (node_size x + numPages) in
            Inr (acc, node_set relaStart newSize # xs, newSize,
                 if newSize > mx then newSize else mx))
         else Inr (acc, node_set relaStart numPages # x # xs, numPages,
                   if numPages > mx then numPages else mx))
      else if relaStart = node_start x \<or> node_start x + node_size x > relaStart then Inl SDB_SYS
      else release_loop relaStart numPages mx (x # acc) xs)"

text \<open>The merge with the preceding run that follows the loop.\<close>

fun merge_prev ::
  "nat \<Rightarrow> dmsSegmentNode list \<Rightarrow> dmsSegmentNode list \<Rightarrow> nat \<Rightarrow> nat \<Rightarrow>
   sdb_rc \<times> dmsSegmentNode list \<times> nat" where
  "merge_prev relaStart [] rest newSize mx = (SDB_OK, rest, mx)"
| "merge_prev relaStart (p # acc) rest newSize mx =
     (if node_start p + node_size p > relaStart then (SDB_SYS, rev (p # acc) @ rest, mx)
      else if node_start p + node_size p = relaStart then
        (SDB_OK, rev acc @ node_set_size p (newSize + node_size p) # tl rest,
         if newSize + node_size p > mx then u16 (newSize + node_size p) else mx)
      else (SDB_OK, rev (p # acc) @ rest, mx))"

definition release_list ::
  "nat \<Rightarrow> nat \<Rightarrow> segSpace \<Rightarrow> sdb_rc \<times> segSpace" where
  "release_list relaStart numPages s =
     (if freeSpaceList s = [] then
        (SDB_OK, s\<lparr>freeSpaceList := [node_set relaStart numPages], maxNode := numPages\<rparr>)
      else case release_loop relaStart numPages (maxNode s) [] (freeSpaceList s) of
        Inl rc \<Rightarrow> (rc, s)
      | Inr (acc, rest, newSize, mx) \<Rightarrow>
          (case merge_prev relaStart acc rest newSize mx of
             (rc, lst, mx') \<Rightarrow> (rc, s\<lparr>freeSpaceList := lst, maxNode := mx'\<rparr>)))"

definition seg_releasePages ::
  "int \<Rightarrow> nat \<Rightarrow> bool \<Rightarrow> segSpace \<Rightarrow> smeShared \<Rightarrow> sdb_rc \<times> segSpace \<times> smeShared" where
  "seg_releasePages start numPages bitSet s g =
     (let relaStart = nat ((start - startExtent s) mod 65536);
          (rc, s1) =
            (if start < startExtent s \<or>
                start + int numPages > startExtent s + int (totalSize s) then (SDB_SYS, s)
             else if numPages = 0 then (SDB_OK, s)
             else release_list relaStart numPages s)
      in if rc = SDB_OK then
           (let s2 = s1\<lparr>segTotalFree := u16 (segTotalFree s1 + numPages)\<rparr>
            in (rc, s2,
                if bitSet then
                  g\<lparr>smeMask := free_bits (nat start) numPages (smeMask g),
                    mgrTotalFree := u32 (mgrTotalFree g + numPages)\<rparr>
                else g))
         else (rc, s1, g))"

definition seg_totalFree :: "segSpace \<Rightarrow> nat" where
  "seg_totalFree s = segTotalFree s"

section \<open>Facts about packed runs and the bitmap\<close>

lemma low16:
  assumes "y < 65536"
  shows "(word_of_nat y :: 32 word) = take_bit 16 (word_of_nat y)"
proof -
  have "take_bit 16 y = y" using assms by (simp add: take_bit_nat_eq_self_iff)
  then show ?thesis by (simp add: take_bit_of_nat)
qed

lemma and_low16: "65535 AND (x :: 32 word) = take_bit 16 x"
  by (simp add: take_bit_eq_mask mask_eq_exp_minus_1 and.commute)

lemma node_size_eq: "node_size x = unat (take_bit 16 x)"
  by (simp add: node_size_def and_low16)

lemma node_size_less [simp]: "node_size x < 65536"
proof -
  have "unat (take_bit 16 x) = take_bit 16 (unat x)" by (simp add: unsigned_take_bit_eq)
  then show ?thesis by (simp add: node_size_eq take_bit_eq_mod)
qed

lemma node_start_less [simp]: "node_start x < 65536"
  by (simp add: node_start_def u16_def)

lemma node_set_start [simp]:
  assumes "y < 65536"
  shows "node_start (node_set y z) = y"
proof -
  obtain w :: "32 word" where w: "word_of_nat y = take_bit 16 w" using low16 [OF assms] by blast
  have "drop_bit 16 (node_set y z) = (word_of_nat y :: 32 word)"
    by (rule bit_word_eqI) (auto simp: node_set_def and_low16 w bit_simps)
  with assms show ?thesis by (simp add: node_start_def u16_def unat_of_nat)
qed

lemma node_set_size [simp]:
  assumes "z < 65536"
  shows "node_size (node_set y z) = z"
proof -
  obtain w :: "32 word" where w: "word_of_nat z = take_bit 16 w" using low16 [OF assms] by blast
  have "take_bit 16 (node_set y z) = (word_of_nat z :: 32 word)"
    by (rule bit_word_eqI) (auto simp: node_set_def and_low16 w bit_simps)
  with assms show ?thesis by (simp add: node_size_eq unat_of_nat)
qed

lemma node_set_size_eq:
  assumes "z < 65536"
  shows "node_set_size x z = node_set (node_start x) z"
proof -
  obtain w :: "32 word" where w: "word_of_nat z = take_bit 16 w" using low16 [OF assms] by blast
  have mask: "4294901760 = (push_bit 16 (mask 16) :: 32 word)"
    by (simp add: mask_eq_exp_minus_1 push_bit_eq_mult)
  have "unat (drop_bit 16 x) = drop_bit 16 (unat x)" by (rule unat_drop_bit_eq)
  moreover have "unat x < 4294967296" using unsigned_less [where ?'a = nat, of x] by simp
  ultimately have "unat (drop_bit 16 x) < 65536" by (simp only: drop_bit_eq_div) simp
  then have start: "(word_of_nat (node_start x) :: 32 word) = drop_bit 16 x"
    by (simp add: node_start_def u16_def)
  show ?thesis
    by (rule bit_word_eqI)
       (use assms in \<open>auto simp: node_set_size_def node_set_def start u16_def mask and_low16 w bit_simps\<close>)
qed

lemma getBitMask_alt: "getBitMask m n = (if bit (m (n div 8)) (7 - n mod 8) then 1 else 0)"
  by (simp add: getBitMask_def and_one_eq mod_2_eq_odd bit_iff_odd_drop_bit)

lemma byte_bit_inj:
  assumes "(m::nat) div 8 = n div 8" and "7 - m mod 8 = 7 - n mod 8"
  shows "m = n"
proof -
  have "m mod 8 = n mod 8" using assms(2) mod_less_divisor [of 8 m] mod_less_divisor [of 8 n] by linarith
  with assms(1) show ?thesis by (metis div_mult_mod_eq)
qed

lemma getBitMask_set:
  "getBitMask (setBitMask n m) k = (if k = n then DMS_SME_ALLOCATED else getBitMask m k)"
  by (auto simp: getBitMask_alt setBitMask_def DMS_SME_ALLOCATED_def bit_simps dest: byte_bit_inj)

lemma getBitMask_free:
  "getBitMask (freeBitMask n m) k = (if k = n then DMS_SME_FREE else getBitMask m k)"
  by (auto simp: getBitMask_alt freeBitMask_def DMS_SME_FREE_def bit_simps dest: byte_bit_inj)

lemma getBitMask_set_bits:
  "getBitMask (set_bits b n m) k = (if b \<le> k \<and> k < b + n then DMS_SME_ALLOCATED else getBitMask m k)"
  by (induction b n m rule: set_bits.induct) (auto simp: getBitMask_set)

lemma getBitMask_free_bits:
  "getBitMask (free_bits b n m) k = (if b \<le> k \<and> k < b + n then DMS_SME_FREE else getBitMask m k)"
  by (induction b n m rule: free_bits.induct) (auto simp: getBitMask_free)

section \<open>Lists of free runs\<close>

definition node_pages :: "dmsSegmentNode \<Rightarrow> nat set" where
  "node_pages x = {node_start x ..< node_start x + node_size x}"

definition free_pages :: "dmsSegmentNode list \<Rightarrow> nat set" where
  "free_pages xs = (\<Union>x \<in> set xs. node_pages x)"

fun runs_ok :: "nat \<Rightarrow> nat \<Rightarrow> dmsSegmentNode list \<Rightarrow> bool" where
  "runs_ok lo hi [] = True"
| "runs_ok lo hi (x # xs) =
     (lo \<le> node_start x \<and> 0 < node_size x \<and> node_start x + node_size x \<le> hi \<and>
      runs_ok (Suc (node_start x + node_size x)) hi xs)"

definition is_max :: "nat \<Rightarrow> dmsSegmentNode list \<Rightarrow> bool" where
  "is_max m xs \<longleftrightarrow> (\<forall>x \<in> set xs. node_size x \<le> m) \<and> (m = 0 \<or> (\<exists>x \<in> set xs. node_size x = m))"

definition total_size :: "dmsSegmentNode list \<Rightarrow> nat" where
  "total_size xs = sum_list (map node_size xs)"

lemma free_pages_simps [simp]:
  "free_pages [] = {}"
  "free_pages (x # xs) = node_pages x \<union> free_pages xs"
  "free_pages (xs @ ys) = free_pages xs \<union> free_pages ys"
  by (auto simp: free_pages_def)

lemma total_size_simps [simp]:
  "total_size [] = 0"
  "total_size (x # xs) = node_size x + total_size xs"
  by (simp_all add: total_size_def)

lemma runs_ok_mono: "runs_ok lo hi xs \<Longrightarrow> lo' \<le> lo \<Longrightarrow> runs_ok lo' hi xs"
  by (cases xs) auto

lemma runs_ok_bounds: "runs_ok lo hi xs \<Longrightarrow> p \<in> free_pages xs \<Longrightarrow> lo \<le> p \<and> p < hi"
  by (induction lo hi xs rule: runs_ok.induct) (auto simp: node_pages_def)

lemma runs_ok_free_subset: "runs_ok lo hi xs \<Longrightarrow> free_pages xs \<subseteq> {lo..<hi}"
  using runs_ok_bounds by fastforce

lemma finite_free_pages [simp]: "finite (free_pages xs)"
  by (simp add: free_pages_def node_pages_def)

lemma card_free_pages: "runs_ok lo hi xs \<Longrightarrow> card (free_pages xs) = total_size xs"
proof (induction lo hi xs rule: runs_ok.induct)
  case (2 lo hi x xs)
  from 2 have "node_pages x \<inter> free_pages xs = {}"
    using runs_ok_bounds [of "Suc (node_start x + node_size x)" hi xs] by (fastforce simp: node_pages_def)
  moreover have "card (node_pages x) = node_size x" by (simp add: node_pages_def)
  moreover have "finite (node_pages x)" by (simp add: node_pages_def)
  ultimately show ?case using 2 by (simp add: card_Un_disjoint)
qed simp

lemma total_size_le:
  assumes "runs_ok lo hi xs"
  shows "total_size xs \<le> hi"
proof -
  have "card (free_pages xs) \<le> card {lo..<hi}"
    by (rule card_mono) (use runs_ok_free_subset [OF assms] in auto)
  with card_free_pages [OF assms] show ?thesis by simp
qed

lemma is_max_resetMax_loop:
  "(\<forall>x \<in> set ys. node_size x \<le> m) \<Longrightarrow> m = 0 \<or> (\<exists>x \<in> set ys. node_size x = m) \<Longrightarrow>
   is_max (resetMax_loop m xs) (ys @ xs)"
proof (induction m xs arbitrary: ys rule: resetMax_loop.induct)
  case (1 m)
  then show ?case by (simp add: is_max_def)
next
  case (2 m x xs)
  have "is_max (resetMax_loop (if node_size x > m then node_size x else m) xs) ((ys @ [x]) @ xs)"
    by (rule 2(1)) (use 2(2,3) in \<open>auto simp: not_less\<close>)
  then show ?case by simp
qed

lemma is_max_resetMax: "is_max (resetMax_loop 0 xs) xs"
  using is_max_resetMax_loop [of "[]" 0 xs] by simp

text \<open>A run of free pages lies inside one node, since nodes are never adjacent.\<close>

lemma free_run_in_node:
  assumes "runs_ok lo hi xs" and "0 < n" and "{p ..< p + n} \<subseteq> free_pages xs"
  shows "\<exists>x \<in> set xs. {p ..< p + n} \<subseteq> node_pages x"
  using assms
proof (induction lo hi xs rule: runs_ok.induct)
  case (2 lo hi x xs)
  let ?e = "node_start x + node_size x"
  have rest: "q \<in> free_pages xs \<Longrightarrow> Suc ?e \<le> q" for q
    using 2(2) runs_ok_bounds by fastforce
  from 2(3) have "p \<in> {p ..< p + n}" by simp
  with 2(4) have p: "p \<in> node_pages x \<or> p \<in> free_pages xs"
    by (simp only: free_pages_simps) blast
  show ?case
  proof (cases "p \<in> node_pages x")
    case True
    have "\<not> (?e < p + n)"
    proof
      assume "?e < p + n"
      with True have "?e \<in> {p ..< p + n}" by (auto simp: node_pages_def)
      with 2(4) have "?e \<in> node_pages x \<union> free_pages xs" by auto
      then show False using rest [of ?e] by (auto simp: node_pages_def)
    qed
    with True have "{p ..< p + n} \<subseteq> node_pages x" by (auto simp: node_pages_def)
    then show ?thesis by auto
  next
    case False
    with p rest have "Suc ?e \<le> p" by auto
    then have "{p ..< p + n} \<inter> node_pages x = {}" by (auto simp: node_pages_def)
    with 2(4) have "{p ..< p + n} \<subseteq> free_pages xs" by auto
    with 2(1) [of ] 2(2,3) show ?thesis by auto
  qed
qed auto

lemma reserve_loop_None: "reserve_loop n xs = None \<longleftrightarrow> (\<forall>x \<in> set xs. node_size x < n)"
  by (induction n xs rule: reserve_loop.induct) (auto simp: Let_def not_le)

lemma reserve_loop_Some:
  assumes "reserve_loop n xs = Some (f, old, ys)" and "runs_ok lo hi xs" and "0 < n" and "hi < 65536"
  shows "runs_ok lo hi ys \<and> {f ..< f + n} \<subseteq> free_pages xs \<and>
         free_pages ys = free_pages xs - {f ..< f + n}"
  using assms
proof (induction n xs arbitrary: lo f old ys rule: reserve_loop.induct)
  case (2 n x xs)
  let ?e = "node_start x + node_size x"
  from 2(3) have ok: "lo \<le> node_start x" "0 < node_size x" "?e \<le> hi" "runs_ok (Suc ?e) hi xs" by auto
  have rest: "q \<in> free_pages xs \<Longrightarrow> Suc ?e \<le> q" for q
    using ok(4) runs_ok_bounds by fastforce
  show ?case
  proof (cases "node_size x \<ge> n")
    case True
    show ?thesis
    proof (cases "node_size x = n")
      case eq: True
      with 2(2) True have "f = node_start x" "ys = xs" by (auto simp: Let_def)
      with eq ok rest show ?thesis
        by (fastforce simp: node_pages_def intro: runs_ok_mono)
    next
      case False
      with True have less: "n < node_size x" by simp
      have "u16_sub (node_size x) n = node_size x - n" using less by (simp add: width_simps)
      with False 2(2) True have r: "f = node_start x" "ys = node_set (f + n) (node_size x - n) # xs"
        by (auto simp: Let_def)
      have b: "f + n < 65536" "node_size x - n < 65536" using r(1) less ok(3) 2(5) by auto
      show ?thesis using r b less ok rest
        by (fastforce simp: node_pages_def)
    qed
  next
    case False
    with 2(2) obtain zs where zs: "reserve_loop n xs = Some (f, old, zs)" "ys = x # zs"
      by (auto simp: Let_def)
    have IH: "runs_ok (Suc ?e) hi zs \<and> {f ..< f + n} \<subseteq> free_pages xs \<and>
         free_pages zs = free_pages xs - {f ..< f + n}"
      using 2(1) [OF refl refl False zs(1) ok(4) 2(4) 2(5)] .
    then have "f \<in> free_pages xs" using 2(4) by auto
    then have "Suc ?e \<le> f" using rest by simp
    with IH zs ok show ?thesis by (auto simp: node_pages_def)
  qed
qed simp

lemma reserve_loop_sizes:
  assumes "reserve_loop n xs = Some (f, old, ys)" and "0 < n" and "runs_ok lo hi xs" and "hi < 65536"
  shows "(\<exists>x \<in> set xs. node_size x = old) \<and> (\<forall>y \<in> set ys. y \<in> set xs \<or> node_size y < old) \<and>
         (\<forall>x \<in> set xs. node_size x \<noteq> old \<longrightarrow> x \<in> set ys) \<and> total_size ys + n = total_size xs"
  using assms
proof (induction n xs arbitrary: lo f old ys rule: reserve_loop.induct)
  case (2 n x xs)
  show ?case
  proof (cases "node_size x \<ge> n")
    case True
    with 2 show ?thesis by (auto simp: Let_def width_simps split: if_splits)
  next
    case False
    with 2(2) obtain zs where zs: "reserve_loop n xs = Some (f, old, zs)" "ys = x # zs"
      by (auto simp: Let_def)
    from 2(4) have "runs_ok (Suc (node_start x + node_size x)) hi xs" by simp
    from 2(1) [OF refl refl False zs(1) 2(3) this 2(5)] zs(2) show ?thesis by auto
  qed
qed simp

subsection \<open>Giving pages back\<close>

text \<open>Reference definition of giving a run back to a list of free runs.\<close>

fun coalesce :: "nat \<Rightarrow> nat \<Rightarrow> dmsSegmentNode list \<Rightarrow> dmsSegmentNode list" where
  "coalesce r n [] = [node_set r n]"
| "coalesce r n (x # xs) =
     (if r + n < node_start x then node_set r n # x # xs
      else if r + n = node_start x then node_set r (n + node_size x) # xs
      else if node_start x + node_size x < r then x # coalesce r n xs
      else coalesce (node_start x) (node_size x + n) xs)"

lemma coalesce_spec:
  assumes "runs_ok lo hi xs" and "lo \<le> r" and "0 < n" and "r + n \<le> hi" and "hi < 65536"
    and "{r ..< r + n} \<inter> free_pages xs = {}"
  shows "runs_ok lo hi (coalesce r n xs) \<and>
         free_pages (coalesce r n xs) = free_pages xs \<union> {r ..< r + n}"
  using assms
proof (induction r n xs arbitrary: lo rule: coalesce.induct)
  case (1 r n)
  then show ?case by (auto simp: node_pages_def)
next
  case (2 r n x xs)
  let ?e = "node_start x + node_size x"
  from 2(3) have ok: "lo \<le> node_start x" "0 < node_size x" "?e \<le> hi" "runs_ok (Suc ?e) hi xs" by auto
  have rest: "q \<in> free_pages xs \<Longrightarrow> Suc ?e \<le> q" for q
    using ok(4) runs_ok_bounds by fastforce
  consider (before) "r + n < node_start x" | (left) "r + n = node_start x"
    | (after) "\<not> r + n \<le> node_start x" "?e < r" | (merge) "\<not> r + n \<le> node_start x" "\<not> ?e < r"
    by linarith
  then show ?case
  proof cases
    case before
    with 2(4-8) ok show ?thesis by (auto simp: node_pages_def)
  next
    case left
    then have e: "r + (n + node_size x) = ?e" by simp
    from left 2(4-8) ok have "r < 65536" "n + node_size x < 65536" by auto
    moreover from ok(4) e have "runs_ok (Suc (r + (n + node_size x))) hi xs" by (simp only:)
    ultimately show ?thesis using left 2(4-8) ok(1-3) by (auto simp: node_pages_def)
  next
    case after
    have "{r ..< r + n} \<inter> free_pages xs = {}" using 2(8) by auto
    with 2(1) [of "Suc ?e"] after 2(5-7) ok show ?thesis by auto
  next
    case merge
    have "?e = r"
    proof (rule ccontr)
      assume "?e \<noteq> r"
      with merge have "max r (node_start x) \<in> {r ..< r + n} \<inter> node_pages x"
        using 2(5) ok(2) by (auto simp: node_pages_def max_def)
      with 2(8) show False by (simp only: free_pages_simps) blast
    qed
    then have eq: "{node_start x ..< node_start x + (node_size x + n)} = node_pages x \<union> {r ..< r + n}"
      by (auto simp: node_pages_def)
    have "node_pages x \<inter> free_pages xs = {}" using rest by (fastforce simp: node_pages_def)
    with 2(8) have "{node_start x ..< node_start x + (node_size x + n)} \<inter> free_pages xs = {}"
      unfolding eq by auto
    moreover have "runs_ok lo hi xs" by (rule runs_ok_mono [OF ok(4)]) (use ok(1) in simp)
    ultimately have "runs_ok lo hi (coalesce (node_start x) (node_size x + n) xs) \<and>
      free_pages (coalesce (node_start x) (node_size x + n) xs) =
      free_pages xs \<union> {node_start x ..< node_start x + (node_size x + n)}"
      using 2(2) [of lo] merge \<open>?e = r\<close> ok(1,2) 2(6,7) by simp
    with merge eq show ?thesis by auto
  qed
qed


lemma is_max_replace:
  assumes "is_max m (as @ ws @ bs)" and "\<forall>x \<in> set ws. node_size x \<le> node_size w"
  shows "is_max (max m (node_size w)) (as @ w # bs)"
proof (cases "m \<le> node_size w")
  case True
  then have "\<forall>x \<in> set (as @ ws @ bs). node_size x \<le> node_size w"
    using assms(1) by (auto simp: is_max_def intro: le_trans)
  with True show ?thesis by (auto simp: is_max_def max_def)
next
  case False
  then obtain x where "x \<in> set (as @ ws @ bs)" "node_size x = m"
    using assms(1) by (auto simp: is_max_def)
  moreover with False assms(2) have "x \<notin> set ws" by auto
  ultimately show ?thesis using False assms(1) by (auto simp: is_max_def max_def)
qed

lemma release_loop_Inr:
  assumes "release_loop r n mx acc xs = Inr (acc', rest, newSize, mx')"
  shows "\<exists>ys zs. xs = ys @ zs \<and> acc' = rev ys @ acc \<and>
     (\<forall>y \<in> set ys. node_start y + node_size y \<le> r) \<and> mx' = max mx newSize \<and>
     ((newSize = n \<and> rest = node_set r n # zs \<and> (zs = [] \<or> r + n < node_start (hd zs))) \<or>
      (\<exists>z zs'. zs = z # zs' \<and> r + n = node_start z \<and> newSize = u16 (node_size z + n) \<and>
               rest = node_set r newSize # zs'))"
  using assms
proof (induction xs arbitrary: acc)
  case Nil
  then show ?case by (auto simp: max_def)
next
  case (Cons x xs)
  show ?case
  proof (cases "r < node_start x")
    case True
    with Cons.prems show ?thesis
      by (intro exI [of _ "[]"] exI [of _ "x # xs"]) (auto simp: Let_def max_def split: if_splits)
  next
    case False
    with Cons.prems have "node_start x + node_size x \<le> r"
      and "release_loop r n mx (x # acc) xs = Inr (acc', rest, newSize, mx')"
      by (auto split: if_splits)
    with Cons.IH [OF this(2)] obtain ys zs where "xs = ys @ zs" "acc' = rev ys @ x # acc"
      "\<forall>y \<in> set ys. node_start y + node_size y \<le> r" "mx' = max mx newSize"
      "(newSize = n \<and> rest = node_set r n # zs \<and> (zs = [] \<or> r + n < node_start (hd zs))) \<or>
      (\<exists>z zs'. zs = z # zs' \<and> r + n = node_start z \<and> newSize = u16 (node_size z + n) \<and>
               rest = node_set r newSize # zs')" by blast
    with \<open>node_start x + node_size x \<le> r\<close> show ?thesis
      by (intro exI [of _ "x # ys"] exI [of _ zs]) auto
  qed
qed

lemma release_loop_Inl:
  assumes "runs_ok lo hi xs" and "0 < n"
  shows "(\<exists>rc. release_loop r n mx acc xs = Inl rc) \<longleftrightarrow> {r ..< r + n} \<inter> free_pages xs \<noteq> {}"
  using assms
proof (induction xs arbitrary: lo acc)
  case Nil
  then show ?case by simp
next
  case (Cons x xs)
  let ?e = "node_start x + node_size x"
  from Cons.prems have ok: "0 < node_size x" "runs_ok (Suc ?e) hi xs" by auto
  have rest: "q \<in> free_pages xs \<Longrightarrow> Suc ?e \<le> q" for q
    using ok(2) runs_ok_bounds by fastforce
  consider (before) "r + n \<le> node_start x" | (after) "?e \<le> r"
    | (overlap) "node_start x < r + n" "r < ?e" by linarith
  then show ?case
  proof cases
    case before
    then have "r < node_start x" using Cons.prems(2) by simp
    moreover from before have "{r ..< r + n} \<inter> free_pages (x # xs) = {}"
      using rest by (fastforce simp: node_pages_def)
    ultimately show ?thesis using before by (auto simp: Let_def)
  next
    case after
    then have "{r ..< r + n} \<inter> free_pages (x # xs) = {r ..< r + n} \<inter> free_pages xs"
      by (auto simp: node_pages_def)
    with after ok Cons.IH [OF ok(2) Cons.prems(2), of "x # acc"] show ?thesis by simp
  next
    case overlap
    then have "max r (node_start x) \<in> {r ..< r + n} \<inter> node_pages x"
      using Cons.prems(2) ok(1) by (auto simp: node_pages_def max_def)
    then have "{r ..< r + n} \<inter> free_pages (x # xs) \<noteq> {}" by (simp only: free_pages_simps) blast
    moreover have "\<exists>rc. release_loop r n mx acc (x # xs) = Inl rc" using overlap by auto
    ultimately show ?thesis by blast
  qed
qed

lemma release_loop_Inl_SYS: "release_loop r n mx acc xs = Inl rc \<Longrightarrow> rc = SDB_SYS"
  by (induction xs arbitrary: acc) (auto simp: Let_def split: if_splits)

lemma coalesce_skip:
  "\<forall>y \<in> set ys. node_start y + node_size y < r \<Longrightarrow> coalesce r n (ys @ zs) = ys @ coalesce r n zs"
  by (induction ys) auto

lemma runs_ok_start: "runs_ok lo hi (ys @ p # zs) \<Longrightarrow> lo \<le> node_start p"
  by (induction ys arbitrary: lo) fastforce+

lemma runs_ok_gap:
  "runs_ok lo hi (ys @ p # zs) \<Longrightarrow> y \<in> set ys \<Longrightarrow> node_start y + node_size y < node_start p"
  by (induction ys arbitrary: lo) (auto dest: runs_ok_start)

lemma runs_ok_mem: "runs_ok lo hi xs \<Longrightarrow> x \<in> set xs \<Longrightarrow> 0 < node_size x \<and> node_start x + node_size x \<le> hi"
  by (induction lo hi xs rule: runs_ok.induct) auto

text \<open>What the loop and the merge of \<^verbatim>\<open>releasePages\<close> compute together.\<close>

lemma release_merge:
  assumes loop: "release_loop r n mx [] xs = Inr (acc, rest, newSize, mx')"
    and ok: "runs_ok 0 hi xs" and hi: "hi < 65536" and n: "0 < n" and r: "r + n \<le> hi"
    and mx: "is_max mx xs"
  shows "\<exists>mx''. merge_prev r acc rest newSize mx' = (SDB_OK, coalesce r n xs, mx'') \<and>
               is_max mx'' (coalesce r n xs)"
proof -
  obtain ys zs where split: "xs = ys @ zs" "acc = rev ys"
      "\<forall>y \<in> set ys. node_start y + node_size y \<le> r" and mx': "mx' = max mx newSize"
    and cases: "(newSize = n \<and> rest = node_set r n # zs \<and> (zs = [] \<or> r + n < node_start (hd zs))) \<or>
      (\<exists>z zs'. zs = z # zs' \<and> r + n = node_start z \<and> newSize = u16 (node_size z + n) \<and>
               rest = node_set r newSize # zs')"
    using release_loop_Inr [OF loop] by auto
  obtain ws zs' where zs: "zs = ws @ zs'" "rest = node_set r newSize # zs'" "newSize < 65536"
      "r + newSize \<le> hi" "coalesce r n zs = rest" "\<forall>w \<in> set ws. node_size w \<le> newSize"
      "\<And>q m. q + m = r + n \<Longrightarrow> coalesce q m zs = node_set q (m + newSize - n) # zs'" "n \<le> newSize"
    using cases
  proof
    assume "newSize = n \<and> rest = node_set r n # zs \<and> (zs = [] \<or> r + n < node_start (hd zs))"
    then show ?thesis using that [of "[]" zs] hi r by (cases zs) auto
  next
    assume "\<exists>z zs'. zs = z # zs' \<and> r + n = node_start z \<and> newSize = u16 (node_size z + n) \<and>
               rest = node_set r newSize # zs'"
    then obtain z zs' where z: "zs = z # zs'" "r + n = node_start z" "newSize = u16 (node_size z + n)"
      "rest = node_set r newSize # zs'" by blast
    have "node_start z + node_size z \<le> hi" using runs_ok_mem [OF ok] split(1) z(1) by auto
    then have "node_size z + n < 65536" using z(2) hi by linarith
    then show ?thesis using that [of "[z]" zs'] z \<open>node_start z + node_size z \<le> hi\<close>
      by (auto simp: width_simps add.commute)
  qed
  show ?thesis
  proof (cases "rev ys")
    case Nil
    then have "merge_prev r acc rest newSize mx' = (SDB_OK, rest, mx')" using split(2) by simp
    moreover have "is_max mx' rest"
      using is_max_replace [of mx "[]" ws zs' "node_set r newSize"] mx mx' zs Nil split(1) by simp
    ultimately show ?thesis using Nil split(1) zs(5) by simp
  next
    case (Cons p qs)
    then have ys: "ys = rev qs @ [p]" by (metis rev.simps(2) rev_rev_ident)
    have acc: "acc = p # qs" using Cons split(2) by simp
    have gap: "\<forall>y \<in> set (rev qs). node_start y + node_size y < node_start p"
      using runs_ok_gap [of 0 hi "rev qs" p zs] ok split(1) ys by auto
    have p: "0 < node_size p" "node_start p + node_size p \<le> r"
      using runs_ok_mem [OF ok, of p] split ys by auto
    show ?thesis
    proof (cases "node_start p + node_size p = r")
      case True
      let ?w = "node_set (node_start p) (newSize + node_size p)"
      have small: "newSize + node_size p < 65536" using True zs(4) hi by linarith
      have "\<forall>y \<in> set (rev qs). node_start y + node_size y < r" using gap True by fastforce
      then have "coalesce r n xs = rev qs @ coalesce r n (p # zs)"
        using split(1) ys by (simp only: append_assoc append.simps coalesce_skip)
      also have "coalesce r n (p # zs) = coalesce (node_start p) (node_size p + n) zs"
        using True n by auto
      also have "\<dots> = ?w # zs'" using zs(7) [of "node_start p" "node_size p + n"] True zs(8)
        by (simp add: add.commute)
      finally have co: "coalesce r n xs = rev qs @ ?w # zs'" .
      have "merge_prev r acc rest newSize mx' =
          (SDB_OK, rev qs @ ?w # zs', max mx' (newSize + node_size p))"
        using acc True zs(2) small by (simp add: node_set_size_eq width_simps max_def)
      moreover have "is_max (max mx (node_size ?w)) (rev qs @ ?w # zs')"
        by (rule is_max_replace [of _ _ "p # ws"]) (use mx split(1) ys zs(1,6) small in auto)
      moreover have "max mx' (newSize + node_size p) = max mx (node_size ?w)"
        using mx' small by (simp add: max_def)
      ultimately show ?thesis using co by simp
    next
      case False
      with p have less: "node_start p + node_size p < r" by simp
      then have "merge_prev r acc rest newSize mx' = (SDB_OK, rev (p # qs) @ rest, mx')"
        using acc by simp
      moreover have "\<forall>y \<in> set ys. node_start y + node_size y < r" using gap less ys by fastforce
      then have "coalesce r n xs = ys @ rest" using split(1) zs(5) by (simp only: coalesce_skip)
      moreover have "is_max mx' (ys @ rest)"
        using is_max_replace [of mx ys ws zs' "node_set r newSize"] mx mx' zs split(1) by simp
      ultimately show ?thesis using ys by simp
    qed
  qed
qed

section \<open>The segment invariant\<close>

definition seg_inv :: "segSpace \<Rightarrow> bool" where
  "seg_inv s \<longleftrightarrow> totalSize s < 65536 \<and> runs_ok 0 (totalSize s) (freeSpaceList s) \<and>
     is_max (maxNode s) (freeSpaceList s) \<and> segTotalFree s = total_size (freeSpaceList s)"

definition seg_free :: "segSpace \<Rightarrow> int set" where
  "seg_free s = (\<lambda>p. startExtent s + int p) ` free_pages (freeSpaceList s)"

definition seg_range :: "segSpace \<Rightarrow> int set" where
  "seg_range s = {startExtent s ..< startExtent s + int (totalSize s)}"

lemma image_shift_atLeastLessThan:
  "(\<lambda>p. a + int p) ` {f ..< f + n} = {a + int f ..< a + int f + int n}"
proof (rule set_eqI)
  fix q
  have "q \<in> {a + int f ..< a + int f + int n} \<Longrightarrow> q = a + int (nat (q - a)) \<and> nat (q - a) \<in> {f ..< f + n}"
    by auto
  then show "q \<in> (\<lambda>p. a + int p) ` {f ..< f + n} \<longleftrightarrow> q \<in> {a + int f ..< a + int f + int n}"
    by force
qed

lemma inj_shift: "inj (\<lambda>p. a + int p)"
  by (rule injI) simp

lemma seg_free_range: "seg_inv s \<Longrightarrow> seg_free s \<subseteq> seg_range s"
  using runs_ok_bounds by (fastforce simp: seg_inv_def seg_free_def seg_range_def)

lemma card_seg_free: "seg_inv s \<Longrightarrow> card (seg_free s) = segTotalFree s"
  unfolding seg_inv_def seg_free_def
  by (metis card_free_pages card_image inj_on_subset inj_shift subset_UNIV)

lemma finite_seg_free [simp]: "finite (seg_free s)"
  by (simp add: seg_free_def)

lemma seg_new_inv:
  "n < 65536 \<Longrightarrow> seg_inv (dmsSegmentSpace_new a n) \<and> seg_free (dmsSegmentSpace_new a n) = {}"
  by (simp add: seg_inv_def seg_free_def dmsSegmentSpace_new_def is_max_def width_simps)

text \<open>A reservation succeeds exactly when some run of free pages is long enough.\<close>

lemma seg_reserve_fits:
  assumes "seg_inv s" and "0 < n"
  shows "n \<le> maxNode s \<longleftrightarrow> (\<exists>p. {p ..< p + int n} \<subseteq> seg_free s)"
proof
  assume "n \<le> maxNode s"
  then obtain x where x: "x \<in> set (freeSpaceList s)" "n \<le> node_size x"
    using assms by (auto simp: seg_inv_def is_max_def)
  then have "{node_start x ..< node_start x + n} \<subseteq> free_pages (freeSpaceList s)"
    by (auto simp: free_pages_def node_pages_def)
  then show "\<exists>p. {p ..< p + int n} \<subseteq> seg_free s"
    unfolding seg_free_def using image_shift_atLeastLessThan by (metis image_mono)
next
  assume "\<exists>p. {p ..< p + int n} \<subseteq> seg_free s"
  then obtain p where p: "{p ..< p + int n} \<subseteq> seg_free s" by blast
  then have "p \<in> seg_free s" using assms(2) by auto
  then obtain f where f: "p = startExtent s + int f" by (auto simp: seg_free_def)
  have "{f ..< f + n} \<subseteq> free_pages (freeSpaceList s)"
    using p unfolding f seg_free_def image_shift_atLeastLessThan [symmetric]
    by (simp add: inj_image_subset_iff [OF inj_shift])
  then obtain x where x: "x \<in> set (freeSpaceList s)" "{f ..< f + n} \<subseteq> node_pages x"
    using free_run_in_node assms unfolding seg_inv_def by blast
  from x(2) assms(2) have "n \<le> node_size x" by (auto simp: node_pages_def)
  with x(1) assms(1) show "n \<le> maxNode s" by (auto simp: seg_inv_def is_max_def)
qed

lemma seg_reserve_OK:
  assumes inv: "seg_inv s" and n: "0 < n" and fits: "n \<le> maxNode s"
  obtains p s' where "seg_reservePages n pos fp s g =
      (SDB_OK, p, s',
       g\<lparr>smeMask := set_bits (nat p) n (smeMask g), mgrTotalFree := u32_sub (mgrTotalFree g) n\<rparr>)"
    and "seg_inv s'" and "{p ..< p + int n} \<subseteq> seg_free s" and "seg_free s' = seg_free s - {p ..< p + int n}"
    and "startExtent s' = startExtent s" and "totalSize s' = totalSize s"
    and "segTotalFree s' + n = segTotalFree s"
proof -
  let ?xs = "freeSpaceList s"
  from inv have ok: "runs_ok 0 (totalSize s) ?xs" and hi: "totalSize s < 65536"
    and mx: "is_max (maxNode s) ?xs" and tot: "segTotalFree s = total_size ?xs"
    by (auto simp: seg_inv_def)
  obtain x where "x \<in> set ?xs" "n \<le> node_size x" using mx fits n by (auto simp: is_max_def)
  then obtain f old ys where loop: "reserve_loop n ?xs = Some (f, old, ys)"
    using reserve_loop_None [of n ?xs] by (cases "reserve_loop n ?xs") auto
  note pages = reserve_loop_Some [OF loop ok n hi]
  note sizes = reserve_loop_sizes [OF loop n ok hi]
  have "total_size ?xs < 65536" using total_size_le [OF ok] hi by simp
  moreover have sum: "total_size ?xs = total_size ys + n" using sizes by simp
  ultimately have sub: "u16_sub (segTotalFree s) n = total_size ys"
    unfolding tot sum by (simp add: width_simps)
  let ?s1 = "s\<lparr>freeSpaceList := ys, segTotalFree := total_size ys\<rparr>"
  let ?s' = "if old = maxNode s then resetMax ?s1 else ?s1"
  let ?p = "int f + startExtent s"
  have "is_max (maxNode ?s') ys"
  proof (cases "old = maxNode s")
    case True
    then show ?thesis by (simp add: resetMax_def is_max_resetMax)
  next
    case False
    have "old \<le> maxNode s" using sizes mx by (auto simp: is_max_def)
    then have "is_max (maxNode s) ys" using sizes mx False n fits by (fastforce simp: is_max_def)
    with False show ?thesis by simp
  qed
  then have inv': "seg_inv ?s'" using pages hi by (auto simp: seg_inv_def resetMax_def split: if_splits)
  have img: "{?p ..< ?p + int n} = (\<lambda>p. startExtent s + int p) ` {f ..< f + n}"
    by (simp only: image_shift_atLeastLessThan add.commute [of "int f"])
  have sub_free: "{?p ..< ?p + int n} \<subseteq> seg_free s"
    unfolding img seg_free_def using pages by (intro image_mono) simp
  have free': "seg_free ?s' = seg_free s - {?p ..< ?p + int n}"
    unfolding img seg_free_def using pages
    by (simp add: resetMax_def image_set_diff [OF inj_shift])
  have "segTotalFree s \<noteq> 0" using sizes tot n by simp
  then have "seg_reservePages n pos fp s g = (SDB_OK, ?p, ?s',
       g\<lparr>smeMask := set_bits (nat ?p) n (smeMask g), mgrTotalFree := u32_sub (mgrTotalFree g) n\<rparr>)"
    using loop fits sub by (simp add: seg_reservePages_def Let_def)
  moreover have "startExtent ?s' = startExtent s" "totalSize ?s' = totalSize s"
    "segTotalFree ?s' + n = segTotalFree s"
    using sizes tot by (simp_all add: resetMax_def)
  ultimately show thesis using that inv' sub_free free' by blast
qed

lemma seg_reserve_NOSPC:
  assumes "maxNode s < n"
  shows "seg_reservePages n pos fp s g = (SDB_DMS_NOSPC, fp, s,
           if segTotalFree s = 0 \<and> freePos g = pos then g\<lparr>freePos := pos + 1\<rparr> else g)"
  using assms by (simp add: seg_reservePages_def)

text \<open>A release succeeds exactly on pages of the segment that are not free.\<close>

lemma seg_relative:
  assumes "seg_inv s" and "0 < n" and "{p ..< p + int n} \<subseteq> seg_range s"
  obtains r where "r + n \<le> totalSize s" and "nat ((p - startExtent s) mod 65536) = r"
    and "{p ..< p + int n} = (\<lambda>p. startExtent s + int p) ` {r ..< r + n}"
    and "\<not> (p < startExtent s \<or> p + int n > startExtent s + int (totalSize s))"
    and "{p ..< p + int n} \<inter> seg_free s = {} \<longleftrightarrow> {r ..< r + n} \<inter> free_pages (freeSpaceList s) = {}"
proof -
  have bounds: "startExtent s \<le> p" "p + int n \<le> startExtent s + int (totalSize s)"
    using assms(2,3) by (auto simp: seg_range_def)
  then obtain r where r: "p - startExtent s = int r" by (metis nonneg_int_cases diff_ge_0_iff_ge)
  then have p: "p = startExtent s + int r" by simp
  have le: "r + n \<le> totalSize s" using bounds r by linarith
  have "r < 65536" using le assms(1,2) by (simp add: seg_inv_def)
  then have rela: "nat ((p - startExtent s) mod 65536) = r" unfolding r by simp
  have img: "{p ..< p + int n} = (\<lambda>p. startExtent s + int p) ` {r ..< r + n}"
    by (simp add: image_shift_atLeastLessThan p)
  have "{p ..< p + int n} \<inter> seg_free s = {} \<longleftrightarrow> {r ..< r + n} \<inter> free_pages (freeSpaceList s) = {}"
    unfolding img seg_free_def by (simp flip: image_Int [OF inj_shift])
  with that le rela img bounds show thesis by simp
qed

lemma seg_release_OK:
  assumes inv: "seg_inv s" and n: "0 < n"
    and range: "{p ..< p + int n} \<subseteq> seg_range s" and disj: "{p ..< p + int n} \<inter> seg_free s = {}"
  obtains s' where "seg_releasePages p n b s g = (SDB_OK, s',
      if b then g\<lparr>smeMask := free_bits (nat p) n (smeMask g),
                  mgrTotalFree := u32 (mgrTotalFree g + n)\<rparr> else g)"
    and "seg_inv s'" and "seg_free s' = seg_free s \<union> {p ..< p + int n}"
    and "startExtent s' = startExtent s" and "totalSize s' = totalSize s"
    and "segTotalFree s' = segTotalFree s + n"
proof -
  let ?xs = "freeSpaceList s"
  from inv have ok: "runs_ok 0 (totalSize s) ?xs" and hi: "totalSize s < 65536"
    and mx: "is_max (maxNode s) ?xs" and tot: "segTotalFree s = total_size ?xs"
    by (auto simp: seg_inv_def)
  obtain r where r: "r + n \<le> totalSize s" and rela: "nat ((p - startExtent s) mod 65536) = r"
    and img: "{p ..< p + int n} = (\<lambda>p. startExtent s + int p) ` {r ..< r + n}"
    and bounds: "\<not> (p < startExtent s \<or> p + int n > startExtent s + int (totalSize s))"
    and disj': "{r ..< r + n} \<inter> free_pages ?xs = {}"
    using seg_relative [OF inv n range] disj by metis
  note co = coalesce_spec [OF ok le0 n r hi disj']
  have tot': "total_size (coalesce r n ?xs) = total_size ?xs + n"
    using co disj' card_free_pages [OF ok] card_free_pages [of 0 "totalSize s" "coalesce r n ?xs"]
    by (simp add: card_Un_disjoint Int_commute)
  have "\<exists>mx'. release_list r n s = (SDB_OK, s\<lparr>freeSpaceList := coalesce r n ?xs, maxNode := mx'\<rparr>) \<and>
      is_max mx' (coalesce r n ?xs)"
  proof (cases "?xs = []")
    case True
    with r hi show ?thesis by (intro exI [of _ n]) (simp add: release_list_def is_max_def)
  next
    case False
    obtain acc rest newSize mx' where
      loop: "release_loop r n (maxNode s) [] ?xs = Inr (acc, rest, newSize, mx')"
      using release_loop_Inl [OF ok n, of r "maxNode s" "[]"] disj'
      by (cases "release_loop r n (maxNode s) [] ?xs") auto
    from release_merge [OF loop ok hi n r mx] False loop show ?thesis
      by (auto simp: release_list_def)
  qed
  then obtain mx' where
    list: "release_list r n s = (SDB_OK, s\<lparr>freeSpaceList := coalesce r n ?xs, maxNode := mx'\<rparr>)"
    and mx': "is_max mx' (coalesce r n ?xs)" by blast
  let ?s' = "s\<lparr>freeSpaceList := coalesce r n ?xs, maxNode := mx', segTotalFree := total_size ?xs + n\<rparr>"
  have "total_size ?xs + n < 65536"
    using total_size_le [of 0 "totalSize s" "coalesce r n ?xs"] co tot' hi by simp
  then have "seg_releasePages p n b s g = (SDB_OK, ?s',
      if b then g\<lparr>smeMask := free_bits (nat p) n (smeMask g),
                  mgrTotalFree := u32 (mgrTotalFree g + n)\<rparr> else g)"
    using bounds n tot rela list by (simp add: seg_releasePages_def Let_def width_simps)
  moreover have "seg_inv ?s'" using co hi mx' tot' by (simp add: seg_inv_def)
  moreover have "seg_free ?s' = seg_free s \<union> {p ..< p + int n}"
    unfolding img seg_free_def using co by (simp add: image_Un)
  ultimately show thesis using that tot by simp
qed

lemma seg_release_SYS:
  assumes inv: "seg_inv s" and n: "0 < n"
    and bad: "\<not> {p ..< p + int n} \<subseteq> seg_range s \<or> {p ..< p + int n} \<inter> seg_free s \<noteq> {}"
  shows "seg_releasePages p n b s g = (SDB_SYS, s, g)"
proof (cases "{p ..< p + int n} \<subseteq> seg_range s")
  case False
  then have "p < startExtent s \<or> p + int n > startExtent s + int (totalSize s)"
    by (auto simp: seg_range_def)
  then show ?thesis by (auto simp: seg_releasePages_def)
next
  case True
  let ?xs = "freeSpaceList s"
  from inv have ok: "runs_ok 0 (totalSize s) ?xs" by (auto simp: seg_inv_def)
  obtain r where rela: "nat ((p - startExtent s) mod 65536) = r"
    and bounds: "\<not> (p < startExtent s \<or> p + int n > startExtent s + int (totalSize s))"
    and over: "{r ..< r + n} \<inter> free_pages ?xs \<noteq> {}"
    using seg_relative [OF inv n True] bad True by metis
  then obtain rc where "release_loop r n (maxNode s) [] ?xs = Inl rc"
    using release_loop_Inl [OF ok n, of r "maxNode s" "[]"] by blast
  moreover with release_loop_Inl_SYS have "rc = SDB_SYS" by blast
  moreover have "?xs \<noteq> []" using over by auto
  ultimately have "release_list r n s = (SDB_SYS, s)" by (simp add: release_list_def)
  with bounds n rela show ?thesis by (simp add: seg_releasePages_def Let_def)
qed

section \<open>The segment as a page allocator\<close>

definition seg_alloc :: "nat \<Rightarrow> segSpace \<times> smeShared \<Rightarrow> int option \<times> (segSpace \<times> smeShared)" where
  "seg_alloc n st =
     (case seg_reservePages n 0 (-1) (fst st) (snd st) of
        (rc, p, st') \<Rightarrow> (if rc = SDB_OK then Some p else None, st'))"

definition seg_dealloc :: "int \<Rightarrow> nat \<Rightarrow> segSpace \<times> smeShared \<Rightarrow> bool \<times> (segSpace \<times> smeShared)" where
  "seg_dealloc p n st =
     (case seg_releasePages p n True (fst st) (snd st) of (rc, st') \<Rightarrow> (rc = SDB_OK, st'))"

interpretation segment: page_allocator
  "\<lambda>st. seg_inv (fst st)" "\<lambda>st. seg_free (fst st)"
  "\<lambda>st p n. {p ..< p + int n} \<subseteq> seg_range (fst st)" seg_alloc seg_dealloc
proof
  fix st st' :: "segSpace \<times> smeShared" and n p
  assume inv: "seg_inv (fst st)" and n: "0 < n" and r: "seg_alloc n st = (Some p, st')"
  have fits: "n \<le> maxNode (fst st)"
    using r seg_reserve_NOSPC [of "fst st" n] by (fastforce simp: seg_alloc_def)
  obtain q s' g' where res: "seg_reservePages n 0 (-1) (fst st) (snd st) = (SDB_OK, q, s', g')" "seg_inv s'"
    "{q ..< q + int n} \<subseteq> seg_free (fst st)" "seg_free s' = seg_free (fst st) - {q ..< q + int n}"
    "startExtent s' = startExtent (fst st)" "totalSize s' = totalSize (fst st)"
    using seg_reserve_OK [OF inv n fits, of 0 "-1" "snd st"] by metis
  moreover have "seg_range s' = seg_range (fst st)" using res(5,6) by (simp add: seg_range_def)
  moreover have "{q ..< q + int n} \<subseteq> seg_range (fst st)" using res(3) seg_free_range [OF inv] by (rule order.trans)
  moreover have "p = q" "st' = (s', g')" using r res(1) by (simp_all add: seg_alloc_def)
  ultimately show "seg_inv (fst st') \<and>
    (\<lambda>p n. {p ..< p + int n} \<subseteq> seg_range (fst st)) = (\<lambda>p n. {p ..< p + int n} \<subseteq> seg_range (fst st')) \<and>
    {p ..< p + int n} \<subseteq> seg_range (fst st) \<and> run_pages (p, n) \<subseteq> seg_free (fst st) \<and>
    seg_free (fst st') = seg_free (fst st) - run_pages (p, n)"
    by (simp add: run_pages_def)
next
  fix st st' :: "segSpace \<times> smeShared" and n
  assume inv: "seg_inv (fst st)" and n: "0 < n" and r: "seg_alloc n st = (None, st')"
  have full: "maxNode (fst st) < n"
  proof (rule ccontr)
    assume "\<not> maxNode (fst st) < n"
    then have "n \<le> maxNode (fst st)" by simp
    from seg_reserve_OK [OF inv n this, of 0 "-1" "snd st"] obtain q s' g' where
      "seg_reservePages n 0 (-1) (fst st) (snd st) = (SDB_OK, q, s', g')" by metis
    with r show False by (simp add: seg_alloc_def)
  qed
  then have "fst st' = fst st" using r seg_reserve_NOSPC [OF full] by (auto simp: seg_alloc_def)
  then show "seg_inv (fst st') \<and>
    (\<lambda>p n. {p ..< p + int n} \<subseteq> seg_range (fst st)) = (\<lambda>p n. {p ..< p + int n} \<subseteq> seg_range (fst st')) \<and>
    seg_free (fst st') = seg_free (fst st) \<and>
    \<not> (\<exists>p. {p ..< p + int n} \<subseteq> seg_range (fst st) \<and> run_pages (p, n) \<subseteq> seg_free (fst st))"
    using seg_reserve_fits [OF inv n] full inv by (auto simp: run_pages_def)
next
  fix st :: "segSpace \<times> smeShared" and n p
  assume a: "seg_inv (fst st)" "0 < n" "{p ..< p + int n} \<subseteq> seg_range (fst st)"
    "seg_free (fst st) \<inter> run_pages (p, n) = {}"
  then have "{p ..< p + int n} \<inter> seg_free (fst st) = {}" by (auto simp: run_pages_def)
  from seg_release_OK [OF a(1,2,3) this, of True "snd st"] obtain s' g' where
    "seg_releasePages p n True (fst st) (snd st) = (SDB_OK, s', g')" "seg_inv s'"
    "seg_free s' = seg_free (fst st) \<union> {p ..< p + int n}"
    "startExtent s' = startExtent (fst st)" "totalSize s' = totalSize (fst st)" by metis
  then show "\<exists>st'. seg_dealloc p n st = (True, st') \<and> seg_inv (fst st') \<and>
    (\<lambda>p n. {p ..< p + int n} \<subseteq> seg_range (fst st)) = (\<lambda>p n. {p ..< p + int n} \<subseteq> seg_range (fst st')) \<and>
    seg_free (fst st') = seg_free (fst st) \<union> run_pages (p, n)"
    by (auto simp: seg_dealloc_def run_pages_def seg_range_def)
next
  fix st :: "segSpace \<times> smeShared" and n p
  assume a: "seg_inv (fst st)" "0 < n"
    "\<not> {p ..< p + int n} \<subseteq> seg_range (fst st) \<or> seg_free (fst st) \<inter> run_pages (p, n) \<noteq> {}"
  then have "seg_releasePages p n True (fst st) (snd st) = (SDB_SYS, fst st, snd st)"
    by (intro seg_release_SYS) (simp_all add: run_pages_def Int_commute)
  then show "seg_dealloc p n st = (False, st)" by (simp add: seg_dealloc_def)
qed

section \<open>The list of runs is determined by the set of free pages\<close>

lemma node_eqI:
  assumes "node_start x = node_start y" and "node_size x = node_size y"
  shows "x = y"
proof -
  have node: "z = node_set (node_start z) (node_size z)" for z
  proof -
    have "unat (drop_bit 16 z) = drop_bit 16 (unat z)" by (rule unat_drop_bit_eq)
    moreover have "unat z < 4294967296" using unsigned_less [where ?'a = nat, of z] by simp
    ultimately have "unat (drop_bit 16 z) < 65536" by (simp only: drop_bit_eq_div) simp
    then have start: "(word_of_nat (node_start z) :: 32 word) = drop_bit 16 z"
      by (simp add: node_start_def u16_def)
    have size: "(word_of_nat (node_size z) :: 32 word) = take_bit 16 z" by (simp add: node_size_eq)
    show ?thesis
      by (rule bit_word_eqI) (auto simp: node_set_def start size and_low16 bit_simps)
  qed
  from node [of x] node [of y] assms show ?thesis by metis
qed

lemma runs_ok_unique:
  assumes "runs_ok lo hi xs" and "runs_ok lo' hi' ys" and "free_pages xs = free_pages ys"
  shows "xs = ys"
  using assms
proof (induction xs arbitrary: lo lo' ys)
  case Nil
  then have "free_pages ys = {}" by simp
  with Nil.prems(2) show ?case by (cases ys) (auto simp: node_pages_def)
next
  case (Cons x xs)
  have x_first: "node_start x \<in> free_pages (x # xs)" using Cons.prems(1) by (auto simp: node_pages_def)
  then have "ys \<noteq> []" using Cons.prems(3) by auto
  then obtain y ys' where ys: "ys = y # ys'" by (cases ys) auto
  let ?e = "\<lambda>z. node_start z + node_size z"
  have x: "0 < node_size x" "runs_ok (Suc (?e x)) hi xs" using Cons.prems(1) by auto
  have y: "0 < node_size y" "runs_ok (Suc (?e y)) hi' ys'" using Cons.prems(2) ys by auto
  have in_x: "q \<in> free_pages (x # xs) \<longleftrightarrow> node_start x \<le> q \<and> q < ?e x \<or> q \<in> free_pages xs" for q
    by (simp add: node_pages_def)
  have in_y: "q \<in> free_pages (x # xs) \<longleftrightarrow> node_start y \<le> q \<and> q < ?e y \<or> q \<in> free_pages ys'" for q
    using Cons.prems(3) ys by (simp add: node_pages_def)
  have rest_x: "q \<in> free_pages xs \<Longrightarrow> ?e x < q" for q using runs_ok_bounds [OF x(2)] by fastforce
  have rest_y: "q \<in> free_pages ys' \<Longrightarrow> ?e y < q" for q using runs_ok_bounds [OF y(2)] by fastforce
  have start: "node_start x = node_start y"
    using in_x [of "node_start y"] in_y [of "node_start x"] in_x [of "node_start x"] in_y [of "node_start y"]
      x(1) y(1) rest_x [of "node_start y"] rest_y [of "node_start x"] by linarith
  moreover have size: "node_size x = node_size y"
    using in_x [of "?e x"] in_y [of "?e x"] in_x [of "?e y"] in_y [of "?e y"]
      rest_x [of "?e x"] rest_y [of "?e y"] rest_x [of "?e y"] rest_y [of "?e x"] start
    by linarith
  ultimately have "x = y" by (rule node_eqI)
  moreover have "q \<in> free_pages xs \<longleftrightarrow> q \<in> free_pages ys'" for q
    using in_x [of q] in_y [of q] rest_x [of q] rest_y [of q] unfolding \<open>x = y\<close> by linarith
  then have "free_pages xs = free_pages ys'" by blast
  ultimately show ?case using Cons.IH [OF x(2) y(2)] ys by simp
qed

lemma is_max_le: "is_max a xs \<Longrightarrow> is_max b xs \<Longrightarrow> a \<le> b"
  by (auto simp: is_max_def)

lemma seg_determined:
  assumes "seg_inv s" and "seg_inv t" and "seg_free s = seg_free t"
    and "startExtent s = startExtent t" and "totalSize s = totalSize t"
  shows "s = t"
proof -
  from assms have ok: "runs_ok 0 (totalSize s) (freeSpaceList s)" "runs_ok 0 (totalSize t) (freeSpaceList t)"
    by (auto simp: seg_inv_def)
  have "free_pages (freeSpaceList s) = free_pages (freeSpaceList t)"
    using assms(3,4) unfolding seg_free_def by (simp add: inj_image_eq_iff [OF inj_shift])
  then have list: "freeSpaceList s = freeSpaceList t" by (rule runs_ok_unique [OF ok])
  moreover have "maxNode s = maxNode t"
    using assms(1,2) list by (auto simp: seg_inv_def intro: antisym is_max_le)
  moreover have "segTotalFree s = segTotalFree t" using assms(1,2) list by (simp add: seg_inv_def)
  ultimately show ?thesis using assms(4,5) by simp
qed

section \<open>Properties of a segment\<close>

text \<open>
  A reservation that is given back at once restores the segment exactly: the same list of
  packed runs, the same longest run and the same count, so splitting and merging never fragment
  the free space.
\<close>

theorem seg_reserve_release_restores:
  assumes "seg_inv s" and "0 < n" and "seg_reservePages n pos fp s g = (SDB_OK, p, s1, g1)"
  shows "\<exists>g2. seg_releasePages p n True s1 g1 = (SDB_OK, s, g2)"
proof -
  have fits: "n \<le> maxNode s" using assms(3) seg_reserve_NOSPC [of s n pos fp g] by fastforce
  from seg_reserve_OK [OF assms(1,2) fits, of pos fp g] assms(3)
  have s1: "seg_inv s1" "{p ..< p + int n} \<subseteq> seg_free s" "seg_free s1 = seg_free s - {p ..< p + int n}"
    "startExtent s1 = startExtent s" "totalSize s1 = totalSize s" by (metis prod.inject)+
  have range: "{p ..< p + int n} \<subseteq> seg_range s1"
  proof -
    have "seg_range s1 = seg_range s" using s1(4,5) by (simp add: seg_range_def)
    with s1(2) seg_free_range [OF assms(1)] show ?thesis by simp
  qed
  have disj: "{p ..< p + int n} \<inter> seg_free s1 = {}" using s1(3) by blast
  from seg_release_OK [OF s1(1) assms(2) range disj, of True g1] obtain s2 g2 where
    s2: "seg_releasePages p n True s1 g1 = (SDB_OK, s2, g2)" "seg_inv s2"
    "seg_free s2 = seg_free s1 \<union> {p ..< p + int n}" "startExtent s2 = startExtent s1" "totalSize s2 = totalSize s1"
    by metis
  have "s2 = s" by (rule seg_determined [OF s2(2) assms(1)]) (use s2 s1 in auto)
  with s2(1) show ?thesis by blast
qed

theorem seg_reserve_release_restores_witness:
  "\<exists>g2. seg_releasePages 104 3 True
     \<lparr>freeSpaceList = [node_set 7 3], maxNode = 3, startExtent = 100, totalSize = 16, segTotalFree = 3\<rparr>
     \<lparr>smeMask = set_bits 104 3 (\<lambda>_. 0), mgrTotalFree = 3, freePos = 0\<rparr> =
   (SDB_OK,
    \<lparr>freeSpaceList = [node_set 4 6], maxNode = 6, startExtent = 100, totalSize = 16, segTotalFree = 6\<rparr>, g2)"
  by (rule seg_reserve_release_restores [where n = 3 and pos = 0 and fp = "-1" and
        g = "\<lparr>smeMask = (\<lambda>_. 0), mgrTotalFree = 6, freePos = 0\<rparr>"])
     (simp_all add: seg_inv_def is_max_def total_size_def seg_reservePages_def resetMax_def width_simps)

text \<open>
  C33. Giving back a run of pages of the segment that are not free puts exactly the list of runs that
  the reference definition \<open>coalesce\<close> builds in place, and keeps the cached longest run right; any
  other release is refused with \<^verbatim>\<open>SDB_SYS\<close> and leaves segment and bitmap alone.
\<close>

theorem seg_release_is_coalesce:
  assumes "seg_inv s" and "0 < n"
  shows "if {p ..< p + int n} \<subseteq> seg_range s \<and> {p ..< p + int n} \<inter> seg_free s = {}
         then \<exists>s' g'. seg_releasePages p n b s g = (SDB_OK, s', g') \<and> seg_inv s' \<and>
                freeSpaceList s' = coalesce (nat (p - startExtent s)) n (freeSpaceList s)
         else seg_releasePages p n b s g = (SDB_SYS, s, g)"
proof (cases "{p ..< p + int n} \<subseteq> seg_range s \<and> {p ..< p + int n} \<inter> seg_free s = {}")
  case False
  then show ?thesis using seg_release_SYS [OF assms] by auto
next
  case True
  then obtain s' g' where s': "seg_releasePages p n b s g = (SDB_OK, s', g')" "seg_inv s'"
    "seg_free s' = seg_free s \<union> {p ..< p + int n}" "startExtent s' = startExtent s" "totalSize s' = totalSize s"
    using seg_release_OK [OF assms, of p b g] by metis
  obtain r where r: "r + n \<le> totalSize s" "nat ((p - startExtent s) mod 65536) = r"
    and img: "{p ..< p + int n} = (\<lambda>p. startExtent s + int p) ` {r ..< r + n}"
    and disj: "{r ..< r + n} \<inter> free_pages (freeSpaceList s) = {}"
    using seg_relative [OF assms, of p] True by metis
  have inv: "runs_ok 0 (totalSize s) (freeSpaceList s)" "totalSize s < 65536"
    using assms(1) by (auto simp: seg_inv_def)
  note co = coalesce_spec [OF inv(1) le0 assms(2) r(1) inv(2) disj]
  have "p \<in> {p ..< p + int n}" using assms(2) by simp
  then have "0 \<le> p - startExtent s \<and> p - startExtent s < 65536"
    using True inv(2) unfolding seg_range_def by fastforce
  then have rel: "nat (p - startExtent s) = r" using r(2) by simp
  have "free_pages (freeSpaceList s') = free_pages (coalesce r n (freeSpaceList s))"
    using s'(3,4) co unfolding seg_free_def img
    by (simp add: inj_image_eq_iff [OF inj_shift] flip: image_Un)
  moreover have "runs_ok 0 (totalSize s') (freeSpaceList s')" using s'(2) by (simp add: seg_inv_def)
  ultimately have "freeSpaceList s' = coalesce r n (freeSpaceList s)"
    using co by (intro runs_ok_unique) auto
  with True s' rel show ?thesis by auto
qed

theorem seg_release_is_coalesce_witness:
  "\<exists>s' g'. seg_releasePages 104 3 True
     \<lparr>freeSpaceList = [node_set 0 4, node_set 7 2], maxNode = 4, startExtent = 100, totalSize = 16,
      segTotalFree = 6\<rparr>
     \<lparr>smeMask = set_bits 104 3 (\<lambda>_. 0), mgrTotalFree = 6, freePos = 0\<rparr> = (SDB_OK, s', g') \<and>
   seg_inv s' \<and> freeSpaceList s' = [node_set 0 9]"
proof -
  let ?s = "\<lparr>freeSpaceList = [node_set 0 4, node_set 7 2], maxNode = 4, startExtent = 100, totalSize = 16,
    segTotalFree = 6\<rparr>" and ?g = "\<lparr>smeMask = set_bits 104 3 (\<lambda>_. 0), mgrTotalFree = 6, freePos = 0\<rparr>"
  have inv: "seg_inv ?s" by (simp add: seg_inv_def is_max_def total_size_def)
  have "{104 ..< 104 + int 3} \<subseteq> seg_range ?s \<and> {104 ..< 104 + int 3} \<inter> seg_free ?s = {}"
    by (auto simp: seg_range_def seg_free_def node_pages_def)
  with seg_release_is_coalesce [OF inv, of 3 104 True ?g] show ?thesis by simp
qed

end
