(* ===== verification/SMEMgr.thy ===== *)
theory SMEMgr
  imports SegmentSpace PageAllocator
begin

text \<open>
  The space manager of a storage unit: class \<^verbatim>\<open>_dmsSMEMgr\<close> of
  \<^verbatim>\<open>dms/dmsSMEMgr.cpp\<close>. It owns one segment per \<open>2 ^ segmentPagesSquare\<close> pages of the
  file, rebuilds the segments from the page bitmap when the file is opened, and hands out and
  takes back runs of pages. The latch of the manager and of each segment make every operation
  here one atomic step.
\<close>

section \<open>The manager\<close>

text \<open>
  The geometry fields \<open>segmentPages\<close> and \<open>segmentPagesSquare\<close> belong to the storage unit
  behind \<^verbatim>\<open>_pStorageBase\<close>; \<open>shared\<close> is what the segments reach through their pointer
  to the manager.
\<close>

record smeMgr =
  segments :: "segSpace list"
  shared :: smeShared
  segmentPages :: nat
  segmentPagesSquare :: nat

definition DMS_MAX_PG :: nat where
  "DMS_MAX_PG = 128 * 1024 * 1024"

definition dmsSMEMgr_new :: "nat \<Rightarrow> nat \<Rightarrow> sme_mask \<Rightarrow> smeMgr" where
  "dmsSMEMgr_new segPages sq msk =
     \<lparr>segments = [], shared = \<lparr>smeMask = msk, mgrTotalFree = 0, freePos = 0\<rparr>,
      segmentPages = segPages, segmentPagesSquare = sq\<rparr>"

text \<open>The call of \<^verbatim>\<open>newspace->releasePages\<close> made by \<^verbatim>\<open>init\<close>, with its count.\<close>

definition release_last :: "nat \<Rightarrow> nat \<Rightarrow> smeMgr \<Rightarrow> sdb_rc \<times> smeMgr" where
  "release_last begin i m =
     (case seg_releasePages (int begin) (u16 (u32_sub i begin)) False (last (segments m)) (shared m) of
        (rc, s, g) \<Rightarrow>
          (let m1 = m\<lparr>segments := butlast (segments m) @ [s], shared := g\<rparr> in
           if rc \<noteq> SDB_OK then (rc, m1)
           else (rc, m1\<lparr>shared := g\<lparr>mgrTotalFree := u32 (mgrTotalFree g + u32_sub i begin)\<rparr>\<rparr>)))"

text \<open>The second half of a turn of the loop of \<^verbatim>\<open>init\<close>: a look at the bit of page \<open>i\<close>.\<close>

definition init_bit :: "nat \<Rightarrow> smeMgr \<times> nat \<times> bool \<Rightarrow> sdb_rc \<times> smeMgr \<times> nat \<times> bool" where
  "init_bit i st =
     (case st of (m2, begin2, inUse2) \<Rightarrow>
        if getBitMask (smeMask (shared m2)) i \<noteq> DMS_SME_FREE \<and> \<not> inUse2 then
          (case release_last begin2 i m2 of
             (rc2, m3) \<Rightarrow> (rc2, m3, begin2, if rc2 = SDB_OK then True else inUse2))
        else if getBitMask (smeMask (shared m2)) i = DMS_SME_FREE \<and> inUse2 then
          (SDB_OK, m2, i, False)
        else (SDB_OK, m2, begin2, inUse2))"

text \<open>
  One turn of the loop of \<^verbatim>\<open>init\<close>. The loop variables are the manager,
  \<^verbatim>\<open>releaseBegin\<close> and \<^verbatim>\<open>inUse\<close>; \<^verbatim>\<open>newspace\<close> is null in the first turn and the
  last segment from then on, since the first turn always creates one.
\<close>

definition init_step :: "nat \<Rightarrow> smeMgr \<times> nat \<times> bool \<Rightarrow> sdb_rc \<times> smeMgr \<times> nat \<times> bool" where
  "init_step i st =
     (case st of (m, releaseBegin, inUse) \<Rightarrow>
      (let boundary = (i mod 2 ^ segmentPagesSquare m = 0);
           (rc, m1) = (if boundary \<and> 0 < i \<and> \<not> inUse
                       then release_last releaseBegin i m else (SDB_OK, m))
       in if rc \<noteq> SDB_OK then (rc, m1, releaseBegin, inUse)
          else
            (let (m2, begin2, inUse2) =
               (if boundary
                then (m1\<lparr>segments := segments m1 @ [dmsSegmentSpace_new (int i) (segmentPages m1)]\<rparr>, i, False)
                else (m1, releaseBegin, inUse))
             in init_bit i (m2, begin2, inUse2))))"

fun init_loop :: "nat list \<Rightarrow> smeMgr \<times> nat \<times> bool \<Rightarrow> sdb_rc \<times> smeMgr \<times> nat \<times> bool" where
  "init_loop [] st = (SDB_OK, st)"
| "init_loop (i # is) st =
     (case init_step i st of
        (rc, st') \<Rightarrow> if rc \<noteq> SDB_OK then (rc, st') else init_loop is st')"

definition sme_init :: "nat \<Rightarrow> smeMgr \<Rightarrow> sdb_rc \<times> smeMgr" where
  "sme_init pageNum m =
     (case init_loop [0 ..< pageNum] (m, 0, False) of
        (rc, m1, releaseBegin, inUse) \<Rightarrow>
          if rc \<noteq> SDB_OK then (rc, m1)
          else if 0 < pageNum \<and> getBitMask (smeMask (shared m1)) (pageNum - 1) = DMS_SME_FREE
          then release_last releaseBegin pageNum m1
          else (SDB_OK, m1))"

text \<open>The search of \<^verbatim>\<open>reservePages\<close> over the segments, from \<open>pos\<close> on.\<close>

function sme_reserve_loop :: "nat \<Rightarrow> nat \<Rightarrow> int \<Rightarrow> smeMgr \<Rightarrow> sdb_rc \<times> int \<times> smeMgr" where
  "sme_reserve_loop numPages pos foundPage m =
     (if pos < length (segments m) then
        (case seg_reservePages numPages pos foundPage (segments m ! pos) (shared m) of
           (rc, found, s, g) \<Rightarrow>
             (let m' = m\<lparr>segments := (segments m)[pos := s], shared := g\<rparr> in
              if rc = SDB_OK then (rc, found, m')
              else if rc \<noteq> SDB_DMS_NOSPC then (rc, found, m')
              else sme_reserve_loop numPages (pos + 1) found m'))
      else (SDB_OK, DMS_INVALID_EXTENT, m))"
  by pat_completeness auto
termination
  by (relation "measure (\<lambda>(n, pos, f, m). length (segments m) - pos)") auto

declare sme_reserve_loop.simps [simp del]

definition sme_reservePages :: "nat \<Rightarrow> int \<Rightarrow> smeMgr \<Rightarrow> sdb_rc \<times> int \<times> smeMgr" where
  "sme_reservePages numPages foundPage m =
     sme_reserve_loop numPages (freePos (shared m)) foundPage m"

text \<open>\<^verbatim>\<open>start >> segmentPagesSqure\<close> as a \<^verbatim>\<open>UINT32\<close>; the shift of a negative page is arithmetic.\<close>

definition segment_id :: "int \<Rightarrow> smeMgr \<Rightarrow> nat" where
  "segment_id start m = nat ((start div 2 ^ segmentPagesSquare m) mod 4294967296)"

definition sme_releasePages :: "int \<Rightarrow> nat \<Rightarrow> smeMgr \<Rightarrow> sdb_rc \<times> smeMgr" where
  "sme_releasePages start numPages m =
     (let segmentID = segment_id start m in
      if segmentID \<ge> length (segments m) then (SDB_SYS, m)
      else case seg_releasePages start numPages True (segments m ! segmentID) (shared m) of
        (rc, s, g) \<Rightarrow>
          (let m1 = m\<lparr>segments := (segments m)[segmentID := s], shared := g\<rparr> in
           if rc \<noteq> SDB_OK then (rc, m1)
           else (rc, m1\<lparr>shared := g\<lparr>freePos := min (freePos g) segmentID\<rparr>\<rparr>)))"

definition depositASegment :: "int \<Rightarrow> smeMgr \<Rightarrow> sdb_rc \<times> smeMgr" where
  "depositASegment start m =
     (let segPages = u16 (segmentPages m); segmentID = segment_id start m in
      if segmentID \<noteq> length (segments m) then (SDB_SYS, m)
      else case seg_releasePages start segPages False (dmsSegmentSpace_new start segPages) (shared m) of
        (rc, s, g) \<Rightarrow>
          (let m1 = m\<lparr>segments := segments m @ [s], shared := g\<rparr> in
           if rc \<noteq> SDB_OK then (rc, m1)
           else (rc, m1\<lparr>shared := g\<lparr>mgrTotalFree := u32 (mgrTotalFree g + segPages)\<rparr>\<rparr>)))"

definition segmentNum :: "smeMgr \<Rightarrow> nat" where
  "segmentNum m = length (segments m)"

definition sme_totalFree :: "smeMgr \<Rightarrow> nat" where
  "sme_totalFree m = mgrTotalFree (shared m)"

section \<open>The invariant of the manager\<close>

definition sme_free :: "smeMgr \<Rightarrow> int set" where
  "sme_free m = (\<Union>i < length (segments m). seg_free (segments m ! i))"

text \<open>Every segment is in order and covers its slice of the pages.\<close>

definition sme_geom :: "smeMgr \<Rightarrow> bool" where
  "sme_geom m \<longleftrightarrow>
     segmentPages m = 2 ^ segmentPagesSquare m \<and> segmentPages m < 65536 \<and>
     length (segments m) * segmentPages m \<le> DMS_MAX_PG \<and>
     (\<forall>i < length (segments m). seg_inv (segments m ! i) \<and>
        startExtent (segments m ! i) = int (i * segmentPages m) \<and>
        totalSize (segments m ! i) = segmentPages m)"

definition sme_count :: "smeMgr \<Rightarrow> bool" where
  "sme_count m \<longleftrightarrow> mgrTotalFree (shared m) = sum_list (map segTotalFree (segments m))"

definition sme_pos :: "smeMgr \<Rightarrow> bool" where
  "sme_pos m \<longleftrightarrow> freePos (shared m) \<le> length (segments m) \<and>
     (\<forall>i < freePos (shared m). segTotalFree (segments m ! i) = 0)"

definition sme_bits :: "smeMgr \<Rightarrow> bool" where
  "sme_bits m \<longleftrightarrow> (\<forall>p < length (segments m) * segmentPages m.
     getBitMask (smeMask (shared m)) p = DMS_SME_FREE \<longleftrightarrow> int p \<in> sme_free m)"

definition sme_inv :: "smeMgr \<Rightarrow> bool" where
  "sme_inv m \<longleftrightarrow> sme_geom m \<and> sme_count m \<and> sme_pos m \<and> sme_bits m"

text \<open>The pages of one segment: what one reservation can return and one release can take.\<close>

definition sme_block :: "smeMgr \<Rightarrow> int \<Rightarrow> nat \<Rightarrow> bool" where
  "sme_block m p n \<longleftrightarrow>
     (\<exists>i < length (segments m). {p ..< p + int n} \<subseteq>
        {int (i * segmentPages m) ..< int (Suc i * segmentPages m)})"

definition same_shape :: "smeMgr \<Rightarrow> smeMgr \<Rightarrow> bool" where
  "same_shape m m' \<longleftrightarrow> length (segments m') = length (segments m) \<and>
     segmentPages m' = segmentPages m \<and> segmentPagesSquare m' = segmentPagesSquare m"

lemma same_shape_block: "same_shape m m' \<Longrightarrow> sme_block m' = sme_block m"
  by (simp add: same_shape_def sme_block_def fun_eq_iff)

lemma sme_geomD:
  assumes "sme_geom m" and "i < length (segments m)"
  shows "seg_inv (segments m ! i)"
    and "startExtent (segments m ! i) = int (i * segmentPages m)"
    and "totalSize (segments m ! i) = segmentPages m"
    and "seg_range (segments m ! i) = {int (i * segmentPages m) ..< int (Suc i * segmentPages m)}"
    and "seg_free (segments m ! i) \<subseteq> {int (i * segmentPages m) ..< int (Suc i * segmentPages m)}"
proof -
  show s: "seg_inv (segments m ! i)" "startExtent (segments m ! i) = int (i * segmentPages m)"
    "totalSize (segments m ! i) = segmentPages m"
    using assms by (auto simp: sme_geom_def)
  then show r: "seg_range (segments m ! i) = {int (i * segmentPages m) ..< int (Suc i * segmentPages m)}"
    by (simp add: seg_range_def add.commute)
  show "seg_free (segments m ! i) \<subseteq> {int (i * segmentPages m) ..< int (Suc i * segmentPages m)}"
    using seg_free_range [OF s(1)] r by simp
qed

lemma slice_unique:
  fixes P i j :: nat and q :: int
  assumes "q \<in> {int (i * P) ..< int (Suc i * P)}" and "q \<in> {int (j * P) ..< int (Suc j * P)}"
  shows "i = j"
proof (rule ccontr)
  assume "i \<noteq> j"
  then have "Suc i \<le> j \<or> Suc j \<le> i" by linarith
  then have "Suc i * P \<le> j * P \<or> Suc j * P \<le> i * P" by (meson mult_le_mono1)
  moreover have "int (j * P) < int (Suc i * P)" "int (i * P) < int (Suc j * P)"
    using assms by auto
  ultimately show False by linarith
qed

lemma sme_free_slice:
  assumes "sme_geom m" and "i < length (segments m)"
    and "q \<in> {int (i * segmentPages m) ..< int (Suc i * segmentPages m)}"
  shows "q \<in> sme_free m \<longleftrightarrow> q \<in> seg_free (segments m ! i)"
proof
  assume "q \<in> sme_free m"
  then obtain j where j: "j < length (segments m)" "q \<in> seg_free (segments m ! j)"
    by (auto simp: sme_free_def)
  with sme_geomD(5) [OF assms(1) j(1)] have "i = j" using slice_unique [OF assms(3)] by blast
  with j show "q \<in> seg_free (segments m ! i)" by simp
qed (use assms in \<open>auto simp: sme_free_def\<close>)

lemma sme_free_range:
  assumes "sme_geom m"
  shows "sme_free m \<subseteq> {0 ..< int (length (segments m) * segmentPages m)}"
proof
  fix q assume "q \<in> sme_free m"
  then obtain i where i: "i < length (segments m)" "q \<in> seg_free (segments m ! i)"
    by (auto simp: sme_free_def)
  then have "q \<in> {int (i * segmentPages m) ..< int (Suc i * segmentPages m)}"
    using sme_geomD(5) [OF assms] by blast
  moreover have "Suc i * segmentPages m \<le> length (segments m) * segmentPages m"
    using i by (intro mult_le_mono1) simp
  ultimately have "0 \<le> int (i * segmentPages m)" "int (i * segmentPages m) \<le> q"
    "q < int (Suc i * segmentPages m)"
    "int (Suc i * segmentPages m) \<le> int (length (segments m) * segmentPages m)"
    by (simp_all only: atLeastLessThan_iff of_nat_le_iff of_nat_0_le_iff)
  then show "q \<in> {0 ..< int (length (segments m) * segmentPages m)}"
    by (simp only: atLeastLessThan_iff) linarith
qed

lemma sme_total_bound:
  assumes "sme_geom m"
  shows "sum_list (map segTotalFree (segments m)) \<le> length (segments m) * segmentPages m"
proof -
  have "segTotalFree s \<le> segmentPages m" if s: "s \<in> set (segments m)" for s
  proof -
    obtain i where "i < length (segments m)" "s = segments m ! i" using s by (metis in_set_conv_nth)
    then have "seg_inv s" "totalSize s = segmentPages m" using sme_geomD [OF assms] by auto
    then show ?thesis using total_size_le [of 0] by (auto simp: seg_inv_def)
  qed
  then have "sum_list (map segTotalFree (segments m)) \<le> sum_list (map (\<lambda>_. segmentPages m) (segments m))"
    by (intro sum_list_mono)
  then show ?thesis by (simp add: sum_list_triv)
qed

text \<open>Replacing one segment by a segment of the same place.\<close>

lemma sme_replace:
  fixes m :: smeMgr and g :: smeShared and s :: segSpace and i :: nat
  assumes geom: "sme_geom m" and i: "i < length (segments m)"
    and s: "seg_inv s" "startExtent s = startExtent (segments m ! i)" "totalSize s = totalSize (segments m ! i)"
  defines "m' \<equiv> m\<lparr>segments := (segments m)[i := s], shared := g\<rparr>"
  shows "sme_geom m'" and "same_shape m m'"
    and "sme_free m' = (sme_free m - seg_free (segments m ! i)) \<union> seg_free s"
proof -
  show geom': "sme_geom m'"
    using geom i s by (auto simp: sme_geom_def m'_def nth_list_update)
  show "same_shape m m'" by (simp add: same_shape_def m'_def)
  show "sme_free m' = (sme_free m - seg_free (segments m ! i)) \<union> seg_free s"
  proof (rule set_eqI)
    fix q
    have s_i: "seg_free s \<subseteq> {int (i * segmentPages m) ..< int (Suc i * segmentPages m)}"
      using sme_geomD(5) [OF geom', of i] i by (simp add: m'_def)
    show "q \<in> sme_free m' \<longleftrightarrow> q \<in> (sme_free m - seg_free (segments m ! i)) \<union> seg_free s"
    proof (cases "q \<in> {int (i * segmentPages m) ..< int (Suc i * segmentPages m)}")
      case True
      have "i < length (segments m')" "segments m' ! i = s" "segmentPages m' = segmentPages m"
        using i by (simp_all add: m'_def)
      then have "q \<in> sme_free m' \<longleftrightarrow> q \<in> seg_free s"
        using sme_free_slice [OF geom', of i q] True by metis
      with sme_free_slice [OF geom i True] show ?thesis by blast
    next
      case False
      then have "q \<notin> seg_free s" "q \<notin> seg_free (segments m ! i)"
        using s_i sme_geomD(5) [OF geom i] by auto
      moreover have "q \<in> seg_free ((segments m)[i := s] ! j) \<longleftrightarrow> q \<in> seg_free (segments m ! j)" for j
        using calculation i by (cases "j = i") simp_all
      ultimately show ?thesis unfolding sme_free_def m'_def by simp
    qed
  qed
qed

lemma sum_list_replace:
  fixes f :: "'a \<Rightarrow> nat"
  assumes "i < length xs"
  shows "sum_list (map f (xs[i := x])) + f (xs ! i) = sum_list (map f xs) + f x"
  using assms
proof (induction xs arbitrary: i)
  case (Cons y ys)
  then show ?case by (cases i) simp_all
qed simp


text \<open>Bitmap, counter and free position after a change of one segment.\<close>

lemma sme_bits_update:
  assumes "sme_bits m" and "same_shape m m'"
    and "\<And>q. q < length (segments m) * segmentPages m \<Longrightarrow>
      (getBitMask (smeMask (shared m')) q = DMS_SME_FREE) =
      (if int q \<in> A then b else getBitMask (smeMask (shared m)) q = DMS_SME_FREE)"
    and "\<And>q. 0 \<le> q \<Longrightarrow> (q \<in> sme_free m') = (if q \<in> A then b else q \<in> sme_free m)"
  shows "sme_bits m'"
  using assms by (auto simp: sme_bits_def same_shape_def)

lemma sme_inv_total:
  assumes "sme_inv m"
  shows "mgrTotalFree (shared m) = sum_list (map segTotalFree (segments m))"
    and "sum_list (map segTotalFree (segments m)) \<le> DMS_MAX_PG"
proof -
  from assms show "mgrTotalFree (shared m) = sum_list (map segTotalFree (segments m))"
    by (simp add: sme_inv_def sme_count_def)
  from assms have "sme_geom m" by (simp add: sme_inv_def)
  then have "length (segments m) * segmentPages m \<le> DMS_MAX_PG" unfolding sme_geom_def by blast
  with sme_total_bound [OF \<open>sme_geom m\<close>] show "sum_list (map segTotalFree (segments m)) \<le> DMS_MAX_PG"
    by (rule order.trans)
qed

lemma member_total:
  assumes "i < length (segments m)"
  shows "segTotalFree (segments m ! i) \<le> sum_list (map segTotalFree (segments m))"
  using assms by (simp add: member_le_sum_list)

section \<open>Reserving pages\<close>

lemma sme_reserve_at:
  assumes inv: "sme_inv m" and i: "i < length (segments m)" and n: "0 < n"
    and fits: "n \<le> maxNode (segments m ! i)"
  obtains p s g where "seg_reservePages n i fp (segments m ! i) (shared m) = (SDB_OK, p, s, g)"
    and "sme_inv (m\<lparr>segments := (segments m)[i := s], shared := g\<rparr>)"
    and "same_shape m (m\<lparr>segments := (segments m)[i := s], shared := g\<rparr>)"
    and "sme_block m p n" and "{p ..< p + int n} \<subseteq> sme_free m"
    and "sme_free (m\<lparr>segments := (segments m)[i := s], shared := g\<rparr>) = sme_free m - {p ..< p + int n}"
proof -
  from inv have geom: "sme_geom m" and pos: "sme_pos m" and bits: "sme_bits m"
    by (auto simp: sme_inv_def)
  note seg = sme_geomD [OF geom i]
  obtain p s where r: "seg_reservePages n i fp (segments m ! i) (shared m) = (SDB_OK, p, s,
      shared m\<lparr>smeMask := set_bits (nat p) n (smeMask (shared m)),
               mgrTotalFree := u32_sub (mgrTotalFree (shared m)) n\<rparr>)" (is "_ = (_, _, _, ?g)")
    and s: "seg_inv s" "startExtent s = startExtent (segments m ! i)"
      "totalSize s = totalSize (segments m ! i)"
    and sub: "{p ..< p + int n} \<subseteq> seg_free (segments m ! i)"
    and free: "seg_free s = seg_free (segments m ! i) - {p ..< p + int n}"
    and tot: "segTotalFree s + n = segTotalFree (segments m ! i)"
    using seg_reserve_OK [OF seg(1) n fits] by metis
  let ?m = "m\<lparr>segments := (segments m)[i := s], shared := ?g\<rparr>"
  note rep = sme_replace [OF geom i s, of ?g]
  have sub': "{p ..< p + int n} \<subseteq> sme_free m"
    using sub i by (auto simp: sme_free_def)
  have free': "sme_free ?m = sme_free m - {p ..< p + int n}"
    using rep(3) free sub sub' i by (auto simp: sme_free_def)
  have p0: "0 \<le> p" using sub' n sme_free_range [OF geom] by fastforce
  have sum: "sum_list (map segTotalFree ((segments m)[i := s])) + n = sum_list (map segTotalFree (segments m))"
    using sum_list_replace [OF i, of segTotalFree s] tot by simp
  have "sme_count ?m"
    using sme_inv_total [OF inv] sum by (simp add: sme_count_def width_simps DMS_MAX_PG_def)
  moreover have "segTotalFree (segments m ! i) \<noteq> 0" using tot n by linarith
  then have "sme_pos ?m"
    using pos i by (auto simp: sme_pos_def nth_list_update)
  moreover have "sme_bits ?m"
    by (rule sme_bits_update [OF bits rep(2), where A = "{p ..< p + int n}" and b = False])
       (use p0 free' sub' in \<open>auto simp: getBitMask_set_bits DMS_SME_FREE_def DMS_SME_ALLOCATED_def\<close>)
  ultimately have "sme_inv ?m" using rep(1) by (simp add: sme_inv_def)
  moreover have "sme_block m p n"
    unfolding sme_block_def using i sub seg(5) by blast
  ultimately show thesis using that r rep(2) sub' free' by blast
qed

lemma sme_skip_segment:
  assumes inv: "sme_inv m" and i: "i < length (segments m)" and "maxNode (segments m ! i) < n"
  obtains g where "seg_reservePages n i fp (segments m ! i) (shared m) = (SDB_DMS_NOSPC, fp, segments m ! i, g)"
    and "sme_inv (m\<lparr>shared := g\<rparr>)" and "smeMask g = smeMask (shared m)"
    and "freePos (shared m) \<le> i \<Longrightarrow> freePos g \<le> Suc i"
proof -
  let ?g = "if segTotalFree (segments m ! i) = 0 \<and> freePos (shared m) = i
            then (shared m)\<lparr>freePos := i + 1\<rparr> else shared m"
  have "sme_pos (m\<lparr>shared := ?g\<rparr>)"
    using inv i by (auto simp: sme_inv_def sme_pos_def less_Suc_eq)
  then have "sme_inv (m\<lparr>shared := ?g\<rparr>)"
    using inv by (auto simp: sme_inv_def sme_geom_def sme_count_def sme_bits_def sme_free_def)
  with that [of ?g] seg_reserve_NOSPC [OF assms(3)] show thesis by auto
qed

lemma sme_free_shared [simp]:
  "sme_free (m\<lparr>shared := g\<rparr>) = sme_free m"
  "sme_block (m\<lparr>shared := g\<rparr>) = sme_block m"
  by (simp_all add: sme_free_def sme_block_def fun_eq_iff)

lemma sme_reserve_loop_spec:
  assumes "sme_inv m" and "0 < n" and "freePos (shared m) \<le> pos"
    and "\<forall>i < length (segments m). i < pos \<longrightarrow> maxNode (segments m ! i) < n"
  shows "\<exists>p m'. sme_reserve_loop n pos fp m = (SDB_OK, p, m') \<and> sme_inv m' \<and> same_shape m m' \<and>
     (sme_block m p n \<and> {p ..< p + int n} \<subseteq> sme_free m \<and> sme_free m' = sme_free m - {p ..< p + int n} \<or>
      p = DMS_INVALID_EXTENT \<and> sme_free m' = sme_free m \<and>
      (\<forall>i < length (segments m). maxNode (segments m ! i) < n))"
  using assms
proof (induction n pos fp m rule: sme_reserve_loop.induct)
  case (1 n pos fp m)
  consider (stop) "length (segments m) \<le> pos"
    | (hit) "pos < length (segments m)" "n \<le> maxNode (segments m ! pos)"
    | (skip) "pos < length (segments m)" "maxNode (segments m ! pos) < n"
    by linarith
  then show ?case
  proof cases
    case stop
    then show ?thesis
      using 1(2,5) by (simp add: sme_reserve_loop.simps [of n pos] same_shape_def)
  next
    case hit
    obtain p s g where r: "seg_reservePages n pos fp (segments m ! pos) (shared m) = (SDB_OK, p, s, g)"
      and rest: "sme_inv (m\<lparr>segments := (segments m)[pos := s], shared := g\<rparr>)"
      "same_shape m (m\<lparr>segments := (segments m)[pos := s], shared := g\<rparr>)"
      "sme_block m p n" "{p ..< p + int n} \<subseteq> sme_free m"
      "sme_free (m\<lparr>segments := (segments m)[pos := s], shared := g\<rparr>) = sme_free m - {p ..< p + int n}"
      using sme_reserve_at [OF 1(2) hit(1) 1(3) hit(2)] by metis
    have "sme_reserve_loop n pos fp m = (SDB_OK, p, m\<lparr>segments := (segments m)[pos := s], shared := g\<rparr>)"
      using hit r by (simp add: sme_reserve_loop.simps [of n pos])
    with rest show ?thesis by blast
  next
    case skip
    obtain g where r: "seg_reservePages n pos fp (segments m ! pos) (shared m)
        = (SDB_DMS_NOSPC, fp, segments m ! pos, g)"
      and inv: "sme_inv (m\<lparr>shared := g\<rparr>)" and fpos: "freePos g \<le> Suc pos"
      using sme_skip_segment [OF 1(2) skip] 1(4) by metis
    have upd: "m\<lparr>segments := (segments m)[pos := segments m ! pos], shared := g\<rparr> = m\<lparr>shared := g\<rparr>"
      by simp
    have all: "\<forall>i < length (segments (m\<lparr>shared := g\<rparr>)). i < pos + 1 \<longrightarrow>
        maxNode (segments (m\<lparr>shared := g\<rparr>) ! i) < n"
      using 1(5) skip(2) by (auto simp: less_Suc_eq)
    have eq: "sme_reserve_loop n pos fp m = sme_reserve_loop n (pos + 1) fp (m\<lparr>shared := g\<rparr>)"
      using skip(1) r upd by (simp add: sme_reserve_loop.simps [of n pos fp m])
    show ?thesis
      using 1(1) [OF skip(1) r [symmetric] refl refl upd [symmetric] _ _ inv 1(3) _ all] fpos eq
      by (simp add: same_shape_def)
  qed
qed

text \<open>No segment whose longest run is shorter than \<open>n\<close> holds a block of \<open>n\<close> free pages.\<close>

lemma sme_no_block:
  assumes "sme_geom m" and "0 < n" and "\<forall>i < length (segments m). maxNode (segments m ! i) < n"
  shows "\<not> (\<exists>p. sme_block m p n \<and> {p ..< p + int n} \<subseteq> sme_free m)"
proof
  assume "\<exists>p. sme_block m p n \<and> {p ..< p + int n} \<subseteq> sme_free m"
  then obtain p i where i: "i < length (segments m)"
    and slice: "{p ..< p + int n} \<subseteq> {int (i * segmentPages m) ..< int (Suc i * segmentPages m)}"
    and free: "{p ..< p + int n} \<subseteq> sme_free m" by (auto simp: sme_block_def)
  have "{p ..< p + int n} \<subseteq> seg_free (segments m ! i)"
    using sme_free_slice [OF assms(1) i] slice free by blast
  then have "n \<le> maxNode (segments m ! i)"
    using seg_reserve_fits [OF sme_geomD(1) [OF assms(1) i] assms(2)] by blast
  with assms(3) i show False by fastforce
qed

lemma sme_exhausted:
  assumes inv: "sme_inv m" and n: "0 < n" and i: "i < freePos (shared m)" "i < length (segments m)"
  shows "maxNode (segments m ! i) < n"
proof -
  from inv i have s: "seg_inv (segments m ! i)" "segTotalFree (segments m ! i) = 0"
    by (auto simp: sme_inv_def sme_geom_def sme_pos_def)
  then have "seg_free (segments m ! i) = {}" using card_seg_free [OF s(1)] by simp
  then have "\<not> (\<exists>p. {p ..< p + int n} \<subseteq> seg_free (segments m ! i))" using n by auto
  then show ?thesis using seg_reserve_fits [OF s(1) n] by auto
qed

lemma sme_reservePages_spec:
  assumes inv: "sme_inv m" and n: "0 < n"
  obtains (found) p m' where "sme_reservePages n fp m = (SDB_OK, p, m')" "sme_inv m'" "same_shape m m'"
      "0 \<le> p" "sme_block m p n" "{p ..< p + int n} \<subseteq> sme_free m" "sme_free m' = sme_free m - {p ..< p + int n}"
  | (none) m' where "sme_reservePages n fp m = (SDB_OK, DMS_INVALID_EXTENT, m')" "sme_inv m'" "same_shape m m'"
      "sme_free m' = sme_free m" "\<not> (\<exists>p. sme_block m p n \<and> {p ..< p + int n} \<subseteq> sme_free m)"
proof -
  have geom: "sme_geom m" using inv by (simp add: sme_inv_def)
  obtain p m' where r: "sme_reservePages n fp m = (SDB_OK, p, m')" "sme_inv m'" "same_shape m m'"
    and cases: "sme_block m p n \<and> {p ..< p + int n} \<subseteq> sme_free m \<and> sme_free m' = sme_free m - {p ..< p + int n} \<or>
      p = DMS_INVALID_EXTENT \<and> sme_free m' = sme_free m \<and> (\<forall>i < length (segments m). maxNode (segments m ! i) < n)"
    using sme_reserve_loop_spec [OF inv n order.refl, of fp] sme_exhausted [OF inv n]
    unfolding sme_reservePages_def by blast
  from cases show thesis
  proof
    assume a: "sme_block m p n \<and> {p ..< p + int n} \<subseteq> sme_free m \<and> sme_free m' = sme_free m - {p ..< p + int n}"
    then have "p \<in> sme_free m" using n by auto
    then have "0 \<le> p" using sme_free_range [OF geom] by fastforce
    with a r show thesis by (intro found) auto
  next
    assume "p = DMS_INVALID_EXTENT \<and> sme_free m' = sme_free m \<and> (\<forall>i < length (segments m). maxNode (segments m ! i) < n)"
    with r sme_no_block [OF geom n] show thesis by (intro none [of m']) auto
  qed
qed


section \<open>Releasing pages\<close>

lemma segment_id_slice:
  assumes geom: "sme_geom m" and i: "i < length (segments m)"
    and p: "p \<in> {int (i * segmentPages m) ..< int (Suc i * segmentPages m)}"
  shows "segment_id p m = i"
proof -
  from geom have P: "segmentPages m = 2 ^ segmentPagesSquare m"
    and max: "length (segments m) * segmentPages m \<le> DMS_MAX_PG" unfolding sme_geom_def by blast+
  have "length (segments m) \<le> length (segments m) * segmentPages m" unfolding P by simp
  with i max have "i < 4294967296" unfolding DMS_MAX_PG_def by linarith
  moreover have "p div 2 ^ segmentPagesSquare m = int i"
    using p unfolding P
    by (intro int_div_pos_eq [of p _ "int i" "p - int i * 2 ^ segmentPagesSquare m"]) (auto simp: algebra_simps)
  ultimately show ?thesis by (simp add: segment_id_def)
qed

lemma sme_block_segment:
  assumes "sme_geom m" and "0 < n" and "sme_block m p n"
  obtains i where "i < length (segments m)" and "segment_id p m = i"
    and "{p ..< p + int n} \<subseteq> seg_range (segments m ! i)"
    and "sme_free m \<inter> {p ..< p + int n} = seg_free (segments m ! i) \<inter> {p ..< p + int n}"
proof -
  from assms(3) obtain i where i: "i < length (segments m)"
    and slice: "{p ..< p + int n} \<subseteq> {int (i * segmentPages m) ..< int (Suc i * segmentPages m)}"
    by (auto simp: sme_block_def)
  have "p \<in> {p ..< p + int n}" using assms(2) by simp
  with slice have "p \<in> {int (i * segmentPages m) ..< int (Suc i * segmentPages m)}" by blast
  then have "segment_id p m = i" by (rule segment_id_slice [OF assms(1) i])
  moreover have "{p ..< p + int n} \<subseteq> seg_range (segments m ! i)"
    using slice sme_geomD(4) [OF assms(1) i] by simp
  moreover have "sme_free m \<inter> {p ..< p + int n} = seg_free (segments m ! i) \<inter> {p ..< p + int n}"
    using sme_free_slice [OF assms(1) i] slice by blast
  ultimately show thesis using that i by blast
qed

lemma sme_release_ok:
  assumes inv: "sme_inv m" and n: "0 < n" and block: "sme_block m p n"
    and disj: "sme_free m \<inter> {p ..< p + int n} = {}"
  obtains m' where "sme_releasePages p n m = (SDB_OK, m')" and "sme_inv m'" and "same_shape m m'"
    and "sme_free m' = sme_free m \<union> {p ..< p + int n}"
proof -
  from inv have geom: "sme_geom m" and pos: "sme_pos m" and bits: "sme_bits m"
    by (auto simp: sme_inv_def)
  obtain i where i: "i < length (segments m)" "segment_id p m = i"
    and range: "{p ..< p + int n} \<subseteq> seg_range (segments m ! i)"
    and eq: "sme_free m \<inter> {p ..< p + int n} = seg_free (segments m ! i) \<inter> {p ..< p + int n}"
    using sme_block_segment [OF geom n block] .
  have disj': "{p ..< p + int n} \<inter> seg_free (segments m ! i) = {}" using disj eq by blast
  note seg = sme_geomD [OF geom i(1)]
  let ?g = "(shared m)\<lparr>smeMask := free_bits (nat p) n (smeMask (shared m)),
                       mgrTotalFree := u32 (mgrTotalFree (shared m) + n)\<rparr>"
  obtain s where r: "seg_releasePages p n True (segments m ! i) (shared m) = (SDB_OK, s, ?g)"
    and s: "seg_inv s" "startExtent s = startExtent (segments m ! i)"
      "totalSize s = totalSize (segments m ! i)"
    and free: "seg_free s = seg_free (segments m ! i) \<union> {p ..< p + int n}"
    and tot: "segTotalFree s = segTotalFree (segments m ! i) + n"
    using seg_release_OK [OF seg(1) n range disj', of True "shared m"] by auto
  let ?g' = "?g\<lparr>freePos := min (freePos ?g) i\<rparr>"
  let ?m = "m\<lparr>segments := (segments m)[i := s], shared := ?g'\<rparr>"
  note rep = sme_replace [OF geom i(1) s, of ?g']
  have free': "sme_free ?m = sme_free m \<union> {p ..< p + int n}"
    using rep(3) free i(1) by (auto simp: sme_free_def)
  have "p \<in> {p ..< p + int n}" using n by simp
  then have "p \<in> seg_range (segments m ! i)" using range by blast
  then have p0: "0 \<le> p" unfolding seg(4) by (meson atLeastLessThan_iff of_nat_0_le_iff order.trans)
  have sum: "sum_list (map segTotalFree ((segments m)[i := s])) = sum_list (map segTotalFree (segments m)) + n"
    using sum_list_replace [OF i(1), of segTotalFree s] tot by simp
  have "sum_list (map segTotalFree (segments ?m)) \<le> length (segments m) * segmentPages m"
    using sme_total_bound [OF rep(1)] by simp
  also have "... \<le> DMS_MAX_PG" using geom unfolding sme_geom_def by blast
  finally have "sme_count ?m"
    using sme_inv_total(1) [OF inv] sum by (simp add: sme_count_def width_simps DMS_MAX_PG_def)
  moreover have "sme_pos ?m"
    using pos i(1) by (auto simp: sme_pos_def nth_list_update)
  moreover have "sme_bits ?m"
    by (rule sme_bits_update [OF bits rep(2), where A = "{p ..< p + int n}" and b = True])
       (use p0 free' in \<open>auto simp: getBitMask_free_bits\<close>)
  ultimately have "sme_inv ?m" using rep(1) by (simp add: sme_inv_def)
  moreover have "sme_releasePages p n m = (SDB_OK, ?m)"
    using i r by (simp add: sme_releasePages_def)
  ultimately show thesis using that rep(2) free' by blast
qed

lemma sme_release_refused:
  assumes inv: "sme_inv m" and n: "0 < n"
    and bad: "\<not> sme_block m p n \<or> sme_free m \<inter> {p ..< p + int n} \<noteq> {}"
  shows "sme_releasePages p n m = (SDB_SYS, m)"
proof (cases "segment_id p m < length (segments m)")
  case False
  then show ?thesis by (simp add: sme_releasePages_def)
next
  case True
  have geom: "sme_geom m" using inv by (simp add: sme_inv_def)
  let ?s = "segments m ! segment_id p m"
  have "\<not> {p ..< p + int n} \<subseteq> seg_range ?s \<or> {p ..< p + int n} \<inter> seg_free ?s \<noteq> {}"
  proof (cases "sme_block m p n")
    case False
    then show ?thesis using True sme_geomD(4) [OF geom True] by (auto simp: sme_block_def)
  next
    case block: True
    with sme_block_segment [OF geom n block] bad show ?thesis by (metis Int_commute)
  qed
  then have "seg_releasePages p n True ?s (shared m) = (SDB_SYS, ?s, shared m)"
    by (rule seg_release_SYS [OF sme_geomD(1) [OF geom True] n])
  with True show ?thesis by (simp add: sme_releasePages_def)
qed

section \<open>Adding a segment\<close>

lemma sme_append:
  fixes m :: smeMgr and g :: smeShared and s :: segSpace
  assumes geom: "sme_geom m" and s: "seg_inv s"
    "startExtent s = int (length (segments m) * segmentPages m)" "totalSize s = segmentPages m"
    and max: "Suc (length (segments m)) * segmentPages m \<le> DMS_MAX_PG"
  defines "m' \<equiv> m\<lparr>segments := segments m @ [s], shared := g\<rparr>"
  shows "sme_geom m'" and "sme_free m' = sme_free m \<union> seg_free s"
proof -
  show "sme_geom m'"
    using geom s max unfolding sme_geom_def m'_def by (auto simp: nth_append less_Suc_eq)
  show "sme_free m' = sme_free m \<union> seg_free s"
    by (simp add: sme_free_def m'_def lessThan_Suc nth_append Un_commute)
qed

lemma deposit_ok:
  assumes inv: "sme_inv m" and start: "start = int (length (segments m) * segmentPages m)"
    and max: "Suc (length (segments m)) * segmentPages m \<le> DMS_MAX_PG"
    and fresh: "\<forall>p. p < Suc (length (segments m)) * segmentPages m \<longrightarrow>
      length (segments m) * segmentPages m \<le> p \<longrightarrow> getBitMask (smeMask (shared m)) p = DMS_SME_FREE"
  obtains m' where "depositASegment start m = (SDB_OK, m')" and "sme_inv m'"
    and "segmentNum m' = Suc (segmentNum m)"
    and "sme_free m' = sme_free m \<union> {start ..< start + int (segmentPages m)}"
    and "sme_totalFree m' = sme_totalFree m + segmentPages m"
proof -
  let ?P = "segmentPages m" and ?L = "length (segments m)"
  from inv have geom: "sme_geom m" and pos: "sme_pos m" and bits: "sme_bits m" by (auto simp: sme_inv_def)
  from geom have P: "?P = 2 ^ segmentPagesSquare m" and P16: "?P < 65536" unfolding sme_geom_def by blast+
  have P0: "0 < ?P" unfolding P by simp
  let ?new = "dmsSegmentSpace_new start ?P"
  have new: "seg_inv ?new" "seg_free ?new = {}" "startExtent ?new = start" "totalSize ?new = ?P"
    "seg_range ?new = {start ..< start + int ?P}" "segTotalFree ?new = 0"
    using seg_new_inv [OF P16] P16 by (simp_all add: dmsSegmentSpace_new_def width_simps seg_range_def)
  have range: "{start ..< start + int ?P} \<subseteq> seg_range ?new"
    and disj: "{start ..< start + int ?P} \<inter> seg_free ?new = {}" by (simp_all add: new)
  obtain s where r: "seg_releasePages start ?P False ?new (shared m) = (SDB_OK, s, shared m)"
    and s: "seg_inv s" "startExtent s = start" "totalSize s = ?P"
    and free: "seg_free s = {start ..< start + int ?P}" and tot: "segTotalFree s = ?P"
    using seg_release_OK [OF new(1) P0 range disj, of False "shared m"] unfolding new by auto
  let ?g = "(shared m)\<lparr>mgrTotalFree := u32 (mgrTotalFree (shared m) + ?P)\<rparr>"
  let ?m = "m\<lparr>segments := segments m @ [s], shared := ?g\<rparr>"
  note app = sme_append [OF geom s(1) s(2) [unfolded start] s(3) max, of ?g]
  have len: "?L < 4294967296"
  proof -
    have "?L \<le> ?L * ?P" using P0 by simp
    then show ?thesis using max unfolding DMS_MAX_PG_def mult_Suc by linarith
  qed
  have id: "segment_id start m = ?L"
    using len P0 by (simp add: segment_id_def start P)
  have small: "mgrTotalFree (shared m) + ?P < 4294967296"
    using sme_inv_total [OF inv] P16 unfolding DMS_MAX_PG_def by linarith
  have "sme_count ?m" using sme_inv_total(1) [OF inv] tot small by (simp add: sme_count_def width_simps)
  moreover have "sme_pos ?m" using pos by (auto simp: sme_pos_def nth_append)
  moreover have "sme_bits ?m"
    unfolding sme_bits_def
  proof (intro allI impI)
    fix p assume p: "p < length (segments ?m) * segmentPages ?m"
    show "(getBitMask (smeMask (shared ?m)) p = DMS_SME_FREE) = (int p \<in> sme_free ?m)"
    proof (cases "p < ?L * ?P")
      case True
      then have "int p \<notin> seg_free s"
        using free start by (simp only: atLeastLessThan_iff) linarith
      with True bits app(2) show ?thesis by (simp add: sme_bits_def)
    next
      case False
      moreover have "p < ?L * ?P + ?P" using p by simp
      ultimately have "int p \<in> seg_free s" unfolding free start atLeastLessThan_iff by linarith
      with False p fresh app(2) show ?thesis by simp
    qed
  qed
  ultimately have "sme_inv ?m" using app(1) by (simp add: sme_inv_def)
  moreover have "depositASegment start m = (SDB_OK, ?m)"
    using id r P16 by (simp add: depositASegment_def width_simps)
  moreover have "sme_totalFree ?m = sme_totalFree m + ?P" using small by (simp add: sme_totalFree_def width_simps)
  ultimately show thesis using that app(2) free by (simp add: segmentNum_def)
qed


section \<open>Opening a storage unit\<close>

text \<open>The pages below \<open>i\<close> that the bitmap marks free.\<close>

definition bit_free :: "sme_mask \<Rightarrow> nat \<Rightarrow> int set" where
  "bit_free msk i = int ` {p. p < i \<and> getBitMask msk p = DMS_SME_FREE}"

lemma bit_free_0 [simp]: "bit_free msk 0 = {}"
  by (simp add: bit_free_def)

lemma bit_free_Suc:
  "bit_free msk (Suc i) =
     (if getBitMask msk i = DMS_SME_FREE then insert (int i) (bit_free msk i) else bit_free msk i)"
  by (auto simp: bit_free_def less_Suc_eq)

lemma bit_free_less: "q \<in> bit_free msk i \<Longrightarrow> 0 \<le> q \<and> q < int i"
  by (auto simp: bit_free_def)

lemma bit_free_run:
  assumes "b \<le> i" and "\<forall>p. b \<le> p \<longrightarrow> p < i \<longrightarrow> getBitMask msk p = DMS_SME_FREE"
  shows "bit_free msk i = bit_free msk b \<union> {int b ..< int i}"
proof (rule set_eqI)
  fix q
  show "q \<in> bit_free msk i \<longleftrightarrow> q \<in> bit_free msk b \<union> {int b ..< int i}"
  proof (cases "0 \<le> q")
    case True
    then obtain p where "q = int p" using nonneg_int_cases by blast
    then show ?thesis using assms by (auto simp: bit_free_def)
  qed (auto simp: bit_free_def)
qed

lemma release_last_ok:
  assumes geom: "sme_geom m" and count: "sme_count m" and ne: "segments m \<noteq> []"
    and b: "(length (segments m) - 1) * segmentPages m \<le> b" "b \<le> i" "i \<le> length (segments m) * segmentPages m"
    and disj: "sme_free m \<inter> {int b ..< int i} = {}"
  obtains m' where "release_last b i m = (SDB_OK, m')" and "sme_geom m'" and "sme_count m'"
    and "same_shape m m'" and "sme_free m' = sme_free m \<union> {int b ..< int i}"
    and "smeMask (shared m') = smeMask (shared m)" and "freePos (shared m') = freePos (shared m)"
proof -
  let ?k = "length (segments m) - 1" and ?P = "segmentPages m"
  have k: "?k < length (segments m)" "length (segments m) = Suc ?k" using ne by (cases "segments m"; simp)+
  note seg = sme_geomD [OF geom k(1)]
  have last: "last (segments m) = segments m ! ?k" using ne by (simp add: last_conv_nth)
  have upd: "butlast (segments m) @ [s] = (segments m)[?k := s]" for s
    using ne by (cases "segments m" rule: rev_cases) simp_all
  from geom have P16: "?P < 65536" and max: "length (segments m) * ?P \<le> DMS_MAX_PG"
    unfolding sme_geom_def by blast+
  have len: "length (segments m) * ?P = ?k * ?P + ?P" by (subst k(2)) simp
  have small: "i - b < 65536" "i < 4294967296" using b len P16 max unfolding DMS_MAX_PG_def by linarith+
  then have cnt: "u32_sub i b = i - b" "u16 (u32_sub i b) = i - b"
    using b(2) by (simp_all add: width_simps)
  show thesis
  proof (cases "b = i")
    case True
    have "seg_releasePages (int b) 0 False (last (segments m)) (shared m) = (SDB_OK, last (segments m), shared m)"
    proof -
      have "int (?k * ?P) \<le> int b" "int b \<le> int (?k * ?P) + int ?P" using b len True by linarith+
      moreover have "segTotalFree (last (segments m)) < 65536"
        using seg(1) total_size_le [of 0] last by (auto simp: seg_inv_def intro: le_less_trans)
      ultimately show ?thesis
        using seg(2,3) last by (simp add: seg_releasePages_def width_simps)
    qed
    moreover have "mgrTotalFree (shared m) < 4294967296"
      using count sme_total_bound [OF geom] max unfolding sme_count_def DMS_MAX_PG_def by linarith
    ultimately have "release_last b i m = (SDB_OK, m)"
      using True ne cnt by (simp add: release_last_def width_simps)
    with that [of m] geom count True show thesis by (simp add: same_shape_def)
  next
    case False
    then have n: "0 < i - b" using b by simp
    have run: "{int b ..< int b + int (i - b)} = {int b ..< int i}" using b by simp
    have "int (?k * ?P) \<le> int b" "int i \<le> int (Suc ?k * ?P)"
      using b(1,3) k(2) by (simp_all only: of_nat_le_iff)
    then have "{int b ..< int i} \<subseteq> {int (?k * ?P) ..< int (Suc ?k * ?P)}"
      by (intro subsetI) (simp only: atLeastLessThan_iff, linarith)
    then have range: "{int b ..< int b + int (i - b)} \<subseteq> seg_range (segments m ! ?k)"
      unfolding run seg(4) .
    have disj': "{int b ..< int b + int (i - b)} \<inter> seg_free (segments m ! ?k) = {}"
      unfolding run using disj k(1) by (auto simp: sme_free_def)
    obtain s where r: "seg_releasePages (int b) (i - b) False (segments m ! ?k) (shared m) = (SDB_OK, s, shared m)"
      and s: "seg_inv s" "startExtent s = startExtent (segments m ! ?k)" "totalSize s = totalSize (segments m ! ?k)"
      and free: "seg_free s = seg_free (segments m ! ?k) \<union> {int b ..< int i}"
      and tot: "segTotalFree s = segTotalFree (segments m ! ?k) + (i - b)"
      using seg_release_OK [OF seg(1) n range disj', of False "shared m"] unfolding run by auto
    let ?g = "(shared m)\<lparr>mgrTotalFree := u32 (mgrTotalFree (shared m) + (i - b))\<rparr>"
    let ?m = "m\<lparr>segments := (segments m)[?k := s], shared := ?g\<rparr>"
    note rep = sme_replace [OF geom k(1) s, of ?g]
    have free': "sme_free ?m = sme_free m \<union> {int b ..< int i}"
      using rep(3) free k(1) by (auto simp: sme_free_def)
    have sum: "sum_list (map segTotalFree ((segments m)[?k := s])) =
        sum_list (map segTotalFree (segments m)) + (i - b)"
      using sum_list_replace [OF k(1), of segTotalFree s] tot by simp
    have "sum_list (map segTotalFree (segments ?m)) \<le> length (segments m) * ?P"
      using sme_total_bound [OF rep(1)] by simp
    then have "sme_count ?m"
      using count sum max by (simp add: sme_count_def width_simps DMS_MAX_PG_def)
    moreover have "release_last b i m = (SDB_OK, ?m)"
      using r cnt last upd by (simp add: release_last_def)
    ultimately show thesis using that [of ?m] rep(1,2) free' by simp
  qed
qed


definition init_base :: "sme_mask \<Rightarrow> smeMgr \<Rightarrow> bool" where
  "init_base msk m \<longleftrightarrow> sme_geom m \<and> sme_count m \<and> freePos (shared m) = 0 \<and> smeMask (shared m) = msk"

text \<open>
  What the loop has put into the segments before page \<open>i\<close>: everything free below it, or, inside a
  free run, everything free below the start of that run.
\<close>

definition init_run :: "sme_mask \<Rightarrow> nat \<Rightarrow> smeMgr \<Rightarrow> nat \<Rightarrow> bool \<Rightarrow> bool" where
  "init_run msk i m b inUse \<longleftrightarrow> segments m \<noteq> [] \<and>
     (if inUse then sme_free m = bit_free msk i
      else (length (segments m) - 1) * segmentPages m \<le> b \<and> b \<le> i \<and>
           (\<forall>p. b \<le> p \<longrightarrow> p < i \<longrightarrow> getBitMask msk p = DMS_SME_FREE) \<and> sme_free m = bit_free msk b)"

definition init_inv :: "sme_mask \<Rightarrow> nat \<Rightarrow> smeMgr \<Rightarrow> nat \<Rightarrow> bool \<Rightarrow> bool" where
  "init_inv msk i m b inUse \<longleftrightarrow> init_base msk m \<and>
     (if i = 0 then segments m = [] \<and> \<not> inUse
      else init_run msk i m b inUse \<and> (inUse \<longleftrightarrow> getBitMask msk (i - 1) \<noteq> DMS_SME_FREE) \<and>
           (length (segments m) - 1) * segmentPages m < i \<and> i \<le> length (segments m) * segmentPages m)"

lemma init_close:
  assumes base: "init_base msk m" and run: "init_run msk i m b False"
    and i: "i \<le> length (segments m) * segmentPages m"
  obtains m' where "release_last b i m = (SDB_OK, m')" and "init_base msk m'" and "same_shape m m'"
    and "sme_free m' = bit_free msk i"
proof -
  from run have ne: "segments m \<noteq> []" and b: "(length (segments m) - 1) * segmentPages m \<le> b" "b \<le> i"
    and bits: "\<forall>p. b \<le> p \<longrightarrow> p < i \<longrightarrow> getBitMask msk p = DMS_SME_FREE" and free: "sme_free m = bit_free msk b"
    by (auto simp: init_run_def)
  from base have geom: "sme_geom m" and count: "sme_count m" by (auto simp: init_base_def)
  have "sme_free m \<inter> {int b ..< int i} = {}" unfolding free using bit_free_less by fastforce
  from release_last_ok [OF geom count ne b i this] obtain m' where
    "release_last b i m = (SDB_OK, m')" "sme_geom m'" "sme_count m'" "same_shape m m'"
    "sme_free m' = sme_free m \<union> {int b ..< int i}"
    "smeMask (shared m') = smeMask (shared m)" "freePos (shared m') = freePos (shared m)" .
  with that base bit_free_run [OF b(2) bits] free show thesis by (simp add: init_base_def)
qed

text \<open>The part of a turn before the bit of page \<open>i\<close> is looked at, at a segment boundary.\<close>

lemma init_boundary:
  assumes base: "init_base msk m" and free: "sme_free m = bit_free msk i"
    and i: "i = length (segments m) * segmentPages m"
    and max: "Suc (length (segments m)) * segmentPages m \<le> DMS_MAX_PG"
  defines "m' \<equiv> m\<lparr>segments := segments m @ [dmsSegmentSpace_new (int i) (segmentPages m)]\<rparr>"
  shows "init_base msk m'" and "init_run msk i m' i False"
proof -
  let ?s = "dmsSegmentSpace_new (int i) (segmentPages m)"
  from base have geom: "sme_geom m" by (simp add: init_base_def)
  then have P: "segmentPages m < 65536" unfolding sme_geom_def by blast
  then have s: "seg_inv ?s" "seg_free ?s = {}" using seg_new_inv by auto
  have fields: "startExtent ?s = int (length (segments m) * segmentPages m)" "totalSize ?s = segmentPages m"
    "segTotalFree ?s = 0"
    using P i by (simp_all add: dmsSegmentSpace_new_def width_simps)
  note app = sme_append [OF geom s(1) fields(1,2) max, of "shared m"]
  have eq: "m' = m\<lparr>segments := segments m @ [?s], shared := shared m\<rparr>" by (simp add: m'_def)
  show "init_base msk m'"
    using base app(1) fields(3) unfolding init_base_def eq by (simp add: sme_count_def)
  show "init_run msk i m' i False"
    using app(2) s(2) free i unfolding init_run_def eq by simp
qed

lemma init_bit_inv:
  assumes base: "init_base msk m" and run: "init_run msk i m b u"
    and i: "(length (segments m) - 1) * segmentPages m \<le> i" "i < length (segments m) * segmentPages m"
  obtains m' b' u' where "init_bit i (m, b, u) = (SDB_OK, m', b', u')" and "init_inv msk (Suc i) m' b' u'"
    and "same_shape m m'"
proof -
  have msk: "smeMask (shared m) = msk" using base by (simp add: init_base_def)
  have ne: "segments m \<noteq> []" using run by (simp add: init_run_def)
  have shape: "same_shape m m" by (simp add: same_shape_def)
  consider (close) "getBitMask msk i \<noteq> DMS_SME_FREE" "\<not> u" | (alloc) "getBitMask msk i \<noteq> DMS_SME_FREE" u
    | (start) "getBitMask msk i = DMS_SME_FREE" u | (free) "getBitMask msk i = DMS_SME_FREE" "\<not> u"
    by blast
  then show thesis
  proof cases
    case close
    from run close have run': "init_run msk i m b False" by simp
    have le: "i \<le> length (segments m) * segmentPages m" using i(2) by simp
    from init_close [OF base run' le] obtain m' where m': "release_last b i m = (SDB_OK, m')" "init_base msk m'"
      "same_shape m m'" "sme_free m' = bit_free msk i" .
    then have "segments m' \<noteq> []" using ne by (auto simp: same_shape_def)
    with m' close i have "init_inv msk (Suc i) m' b True"
      by (auto simp: init_inv_def init_run_def bit_free_Suc same_shape_def)
    with m' close msk show thesis by (intro that [of m' b True]) (simp_all add: init_bit_def)
  next
    case alloc
    with run base i have "init_inv msk (Suc i) m b True"
      by (auto simp: init_inv_def init_run_def bit_free_Suc)
    with alloc msk shape show thesis by (intro that [of m b True]) (simp_all add: init_bit_def)
  next
    case start
    with run base i have "init_inv msk (Suc i) m i False"
      by (auto simp: init_inv_def init_run_def less_Suc_eq_le dest: antisym)
    with start msk shape show thesis by (intro that [of m i False]) (simp_all add: init_bit_def)
  next
    case free
    with run base i have "init_inv msk (Suc i) m b False"
      by (auto simp: init_inv_def init_run_def less_Suc_eq)
    with free msk shape show thesis by (intro that [of m b False]) (simp_all add: init_bit_def)
  qed
qed

lemma slice_end:
  fixes i P L :: nat
  assumes "0 < P" and "0 < L" and "(L - 1) * P < i" and "i \<le> L * P"
  shows "i mod P = 0 \<longleftrightarrow> i = L * P"
proof
  assume "i mod P = 0"
  then have "i = i div P * P" using div_mult_mod_eq [of i P] by simp
  then obtain k where k: "i = k * P" ..
  with assms have "L - 1 < k" "k \<le> L" by simp_all
  with assms(2) k show "i = L * P" by (metis Suc_diff_1 Suc_leI le_antisym)
qed simp

lemma init_step_inv:
  assumes inv: "init_inv msk i m b u" and i: "i < k * segmentPages m" and k: "k * segmentPages m \<le> DMS_MAX_PG"
  obtains m' b' u' where "init_step i (m, b, u) = (SDB_OK, m', b', u')" and "init_inv msk (Suc i) m' b' u'"
    and "segmentPages m' = segmentPages m"
proof -
  let ?P = "segmentPages m" and ?L = "length (segments m)"
  from inv have base: "init_base msk m" by (simp add: init_inv_def)
  then have P: "?P = 2 ^ segmentPagesSquare m" unfolding init_base_def sme_geom_def by blast
  have P0: "0 < ?P" unfolding P by simp
  show thesis
  proof (cases "i mod ?P = 0")
    case False
    then have i0: "0 < i" by (auto intro: gr0I)
    with inv have run: "init_run msk i m b u" and slice: "(?L - 1) * ?P < i" "i \<le> ?L * ?P"
      by (auto simp: init_inv_def)
    have L: "0 < ?L" using run by (simp add: init_run_def)
    have "i < ?L * ?P" using slice False slice_end [OF P0 L slice] by simp
    from init_bit_inv [OF base run less_imp_le [OF slice(1)] this] obtain m' b' u' where
      r: "init_bit i (m, b, u) = (SDB_OK, m', b', u')" "init_inv msk (Suc i) m' b' u'" "same_shape m m'" .
    have "init_step i (m, b, u) = init_bit i (m, b, u)"
      using False by (simp add: init_step_def P)
    with r that show thesis by (simp add: same_shape_def)
  next
    case True
    obtain m1 where m1: "(if 0 < i \<and> \<not> u then release_last b i m else (SDB_OK, m)) = (SDB_OK, m1)"
      "init_base msk m1" "same_shape m m1" "sme_free m1 = bit_free msk i" "i = ?L * ?P"
    proof (cases "i = 0")
      case True
      with inv have "segments m = []" by (simp add: init_inv_def)
      with True base that [of m] show thesis by (simp add: same_shape_def sme_free_def)
    next
      case i0: False
      with inv have run: "init_run msk i m b u" and slice: "(?L - 1) * ?P < i" "i \<le> ?L * ?P"
        by (auto simp: init_inv_def)
      have L: "0 < ?L" using run by (simp add: init_run_def)
      have eq: "i = ?L * ?P" by (rule iffD1 [OF slice_end [OF P0 L slice] True])
      show thesis
      proof (cases u)
        case True
        with run base eq that [of m] show thesis by (simp add: init_run_def same_shape_def)
      next
        case False
        with run have "init_run msk i m b False" by simp
        from init_close [OF base this slice(2)] obtain m1 where "release_last b i m = (SDB_OK, m1)"
          "init_base msk m1" "same_shape m m1" "sme_free m1 = bit_free msk i" .
        with that [of m1] i0 False eq show thesis by simp
      qed
    qed
    let ?m2 = "m1\<lparr>segments := segments m1 @ [dmsSegmentSpace_new (int i) (segmentPages m1)]\<rparr>"
    have shape: "length (segments m1) = ?L" "segmentPages m1 = ?P" using m1(3) by (simp_all add: same_shape_def)
    have "?L < k" using i m1(5) by simp
    then have "Suc ?L * ?P \<le> k * ?P" by (intro mult_le_mono1) simp
    with k have max: "Suc (length (segments m1)) * segmentPages m1 \<le> DMS_MAX_PG" unfolding shape by linarith
    have eq1: "i = length (segments m1) * segmentPages m1" using m1(5) shape by simp
    note b2 = init_boundary [OF m1(2,4) eq1 max]
    have slice2: "(length (segments ?m2) - 1) * segmentPages ?m2 \<le> i" "i < length (segments ?m2) * segmentPages ?m2"
      using eq1 P0 shape by simp_all
    from init_bit_inv [OF b2 slice2] obtain m' b' u' where
      r: "init_bit i (?m2, i, False) = (SDB_OK, m', b', u')" "init_inv msk (Suc i) m' b' u'" "same_shape ?m2 m'" .
    have "init_step i (m, b, u) = init_bit i (?m2, i, False)"
      using True m1(1) by (auto simp: init_step_def P split: if_splits)
    with r that shape show thesis by (simp add: same_shape_def)
  qed
qed

lemma init_loop_inv:
  assumes "init_inv msk i m b u" and "i \<le> k * segmentPages m" and "k * segmentPages m \<le> DMS_MAX_PG"
  shows "\<exists>m' b' u'. init_loop [i ..< k * segmentPages m] (m, b, u) = (SDB_OK, m', b', u') \<and>
           init_inv msk (k * segmentPages m) m' b' u' \<and> segmentPages m' = segmentPages m"
  using assms
proof (induction "k * segmentPages m - i" arbitrary: i m b u)
  case 0
  then show ?case by simp
next
  case (Suc d)
  then have i: "i < k * segmentPages m" by simp
  from init_step_inv [OF Suc(3) i Suc(5)] obtain m1 b1 u1 where
    r: "init_step i (m, b, u) = (SDB_OK, m1, b1, u1)" "init_inv msk (Suc i) m1 b1 u1" "segmentPages m1 = segmentPages m" .
  moreover have "[i ..< k * segmentPages m] = i # [Suc i ..< k * segmentPages m]" using i by (rule upt_conv_Cons)
  ultimately show ?case using Suc(1) [of m1 "Suc i" b1 u1] Suc(2,5) i by simp
qed

lemma sme_init_ok:
  assumes P: "segPages = 2 ^ sq" "segPages < 65536" and N: "k * segPages \<le> DMS_MAX_PG"
  shows "\<exists>m. sme_init (k * segPages) (dmsSMEMgr_new segPages sq msk) = (SDB_OK, m) \<and> sme_inv m \<and>
    segmentNum m = k \<and> segmentPages m = segPages \<and> sme_free m = bit_free msk (k * segPages) \<and>
    smeMask (shared m) = msk"
proof -
  let ?m0 = "dmsSMEMgr_new segPages sq msk" and ?N = "k * segPages"
  have P0: "0 < segPages" using P by simp
  have m0: "segmentPages ?m0 = segPages" by (simp add: dmsSMEMgr_new_def)
  have "init_inv msk 0 ?m0 0 False"
    using P by (simp add: init_inv_def init_base_def sme_geom_def sme_count_def dmsSMEMgr_new_def)
  from init_loop_inv [OF this, of k] N obtain m1 b u where
    loop: "init_loop [0 ..< ?N] (?m0, 0, False) = (SDB_OK, m1, b, u)" "init_inv msk ?N m1 b u" "segmentPages m1 = segPages"
    unfolding m0 by auto
  have base: "init_base msk m1" using loop(2) by (simp add: init_inv_def)
  then have msk: "smeMask (shared m1) = msk" by (simp add: init_base_def)
  have finish: ?thesis if "sme_init ?N ?m0 = (SDB_OK, m)" "init_base msk m" "sme_free m = bit_free msk ?N"
    "length (segments m) = k" "segmentPages m = segPages" for m
  proof -
    have "sme_inv m" using that by (auto simp: sme_inv_def init_base_def sme_pos_def sme_bits_def bit_free_def)
    moreover have "smeMask (shared m) = msk" using that(2) by (simp add: init_base_def)
    ultimately show ?thesis using that by (auto simp: segmentNum_def)
  qed
  show ?thesis
  proof (cases "k = 0")
    case True
    with loop have "segments m1 = []" by (simp add: init_inv_def)
    with True loop base finish [of m1] show ?thesis by (simp add: sme_init_def sme_free_def)
  next
    case False
    then have N0: "0 < ?N" using P0 by simp
    with loop have run: "init_run msk ?N m1 b u" "u \<longleftrightarrow> getBitMask msk (?N - 1) \<noteq> DMS_SME_FREE"
      and slice: "(length (segments m1) - 1) * segPages < ?N" "?N \<le> length (segments m1) * segPages"
      by (auto simp: init_inv_def)
    have L: "0 < length (segments m1)" using run by (simp add: init_run_def)
    have "?N mod segPages = 0" by simp
    from iffD1 [OF slice_end [OF P0 L slice] this]
    have "k * segPages = length (segments m1) * segPages" .
    then have len: "length (segments m1) = k" using P0 by simp
    show ?thesis
    proof (cases u)
      case True
      with run N0 loop msk base len finish [of m1] show ?thesis by (simp add: sme_init_def init_run_def)
    next
      case u: False
      with run(1) have run': "init_run msk ?N m1 b False" by simp
      have le: "?N \<le> length (segments m1) * segmentPages m1" using len loop(3) by simp
      from init_close [OF base run' le] obtain m where "release_last b ?N m1 = (SDB_OK, m)"
        "init_base msk m" "same_shape m1 m" "sme_free m = bit_free msk ?N" .
      with u run(2) N0 loop msk len finish [of m] show ?thesis by (simp add: sme_init_def same_shape_def)
    qed
  qed
qed


section \<open>The manager as a page allocator\<close>

definition sme_alloc :: "nat \<Rightarrow> smeMgr \<Rightarrow> int option \<times> smeMgr" where
  "sme_alloc n m =
     (case sme_reservePages n DMS_INVALID_EXTENT m of
        (rc, p, m') \<Rightarrow> (if rc = SDB_OK \<and> p \<noteq> DMS_INVALID_EXTENT then Some p else None, m'))"

definition sme_dealloc :: "int \<Rightarrow> nat \<Rightarrow> smeMgr \<Rightarrow> bool \<times> smeMgr" where
  "sme_dealloc p n m = (case sme_releasePages p n m of (rc, m') \<Rightarrow> (rc = SDB_OK, m'))"

interpretation mgr: page_allocator sme_inv sme_free sme_block sme_alloc sme_dealloc
proof
  fix m m' n p
  assume inv: "sme_inv m" and n: "0 < n" and r: "sme_alloc n m = (Some p, m')"
  show "sme_inv m' \<and> sme_block m = sme_block m' \<and> sme_block m p n \<and> run_pages (p, n) \<subseteq> sme_free m \<and>
        sme_free m' = sme_free m - run_pages (p, n)"
  proof (cases rule: sme_reservePages_spec [OF inv n, of DMS_INVALID_EXTENT, case_names found none])
    case (found q m1)
    then show ?thesis using r same_shape_block [OF found(3)]
      by (auto simp: sme_alloc_def run_pages_def split: if_splits)
  next
    case (none m1)
    then show ?thesis using r by (simp add: sme_alloc_def)
  qed
next
  fix m m' n
  assume inv: "sme_inv m" and n: "0 < n" and r: "sme_alloc n m = (None, m')"
  show "sme_inv m' \<and> sme_block m = sme_block m' \<and> sme_free m' = sme_free m \<and>
        \<not> (\<exists>p. sme_block m p n \<and> run_pages (p, n) \<subseteq> sme_free m)"
  proof (cases rule: sme_reservePages_spec [OF inv n, of DMS_INVALID_EXTENT, case_names found none])
    case (found q m1)
    then show ?thesis using r by (simp add: sme_alloc_def DMS_INVALID_EXTENT_def)
  next
    case (none m1)
    then show ?thesis using r same_shape_block [OF none(3)] by (auto simp: sme_alloc_def run_pages_def)
  qed
next
  fix m n p
  assume a: "sme_inv m" "0 < n" "sme_block m p n" "sme_free m \<inter> run_pages (p, n) = {}"
  then have "sme_free m \<inter> {p ..< p + int n} = {}" by (simp add: run_pages_def)
  from sme_release_ok [OF a(1,2,3) this] obtain m' where "sme_releasePages p n m = (SDB_OK, m')" "sme_inv m'"
    "same_shape m m'" "sme_free m' = sme_free m \<union> {p ..< p + int n}" .
  then show "\<exists>m'. sme_dealloc p n m = (True, m') \<and> sme_inv m' \<and> sme_block m = sme_block m' \<and>
        sme_free m' = sme_free m \<union> run_pages (p, n)"
    using same_shape_block by (simp add: sme_dealloc_def run_pages_def)
next
  fix m n p
  assume "sme_inv m" "0 < n" "\<not> sme_block m p n \<or> sme_free m \<inter> run_pages (p, n) \<noteq> {}"
  then show "sme_dealloc p n m = (False, m)"
    using sme_release_refused [of m n p] by (simp add: sme_dealloc_def run_pages_def)
qed

lemma card_sme_free:
  assumes "sme_inv m"
  shows "card (sme_free m) = sme_totalFree m"
proof -
  have geom: "sme_geom m" using assms by (simp add: sme_inv_def)
  have "card (sme_free m) = (\<Sum>i < length (segments m). card (seg_free (segments m ! i)))"
    unfolding sme_free_def
  proof (rule card_UN_disjoint)
    show "\<forall>i \<in> {..<length (segments m)}. \<forall>j \<in> {..<length (segments m)}. i \<noteq> j \<longrightarrow>
        seg_free (segments m ! i) \<inter> seg_free (segments m ! j) = {}"
      using sme_geomD(5) [OF geom] slice_unique by (meson disjoint_iff lessThan_iff subsetD)
  qed auto
  also have "... = (\<Sum>i < length (segments m). segTotalFree (segments m ! i))"
    using sme_geomD(1) [OF geom] by (intro sum.cong) (auto simp: card_seg_free)
  also have "... = sum_list (map segTotalFree (segments m))"
    by (simp add: sum_list_sum_nth atLeast0LessThan)
  finally show ?thesis using sme_inv_total(1) [OF assms] by (simp add: sme_totalFree_def)
qed



section \<open>Properties of the manager\<close>

text \<open>
  C7. A reservation of \<open>n\<close> pages is sound and complete. When some segment has \<open>n\<close> consecutive free
  pages, the call returns a run inside one segment that was free, and takes exactly that run out of
  the free pages; otherwise it returns \<^verbatim>\<open>DMS_INVALID_EXTENT\<close> and the free pages are the same. Starting
  the search at \<open>freePos\<close> therefore never misses space, and the invariant (bitmap, counters, lists)
  is kept.
\<close>

theorem sme_reserve_correct:
  assumes "sme_inv m" and "0 < n"
  shows "\<exists>p m'. sme_reservePages n fp m = (SDB_OK, p, m') \<and> sme_inv m' \<and>
     (if \<exists>q. sme_block m q n \<and> {q ..< q + int n} \<subseteq> sme_free m
      then 0 \<le> p \<and> sme_block m p n \<and> {p ..< p + int n} \<subseteq> sme_free m \<and>
           sme_free m' = sme_free m - {p ..< p + int n}
      else p = DMS_INVALID_EXTENT \<and> sme_free m' = sme_free m)"
  by (rule sme_reservePages_spec [OF assms, of fp]) (simp_all, blast+)

theorem sme_reserve_correct_witness:
  "\<exists>m. sme_init 16 (dmsSMEMgr_new 8 3 (\<lambda>_. 0)) = (SDB_OK, m) \<and>
     (\<exists>p m'. sme_reservePages 5 (-1) m = (SDB_OK, p, m') \<and> 0 \<le> p \<and>
        sme_free m = {0 ..< 16} \<and> sme_free m' = {0 ..< 16} - {p ..< p + 5})"
proof -
  obtain m where m: "sme_init 16 (dmsSMEMgr_new 8 3 (\<lambda>_. 0)) = (SDB_OK, m)" "sme_inv m"
    "segmentNum m = 2" "segmentPages m = 8" "sme_free m = bit_free (\<lambda>_. 0) 16"
    using sme_init_ok [of 8 3 2 "\<lambda>_. 0"] by (auto simp: DMS_MAX_PG_def)
  have free: "sme_free m = {0 ..< 16}"
    unfolding m(5) using bit_free_run [of 0 16 "\<lambda>_. 0"] by (simp add: getBitMask_def DMS_SME_FREE_def)
  have ex: "\<exists>q. sme_block m q 5 \<and> {q ..< q + int 5} \<subseteq> sme_free m"
    using m(3,4) free by (intro exI [of _ 0]) (auto simp: sme_block_def segmentNum_def intro!: exI [of _ 0])
  from sme_reserve_correct [OF m(2), of 5 "-1"] obtain p m' where
    "sme_reservePages 5 (-1) m = (SDB_OK, p, m')" "0 \<le> p" "sme_free m' = sme_free m - {p ..< p + int 5}"
    unfolding if_P [OF ex] by auto
  with m(1) free show ?thesis by auto
qed

text \<open>
  C16. A release is accepted exactly for a run inside one segment none of whose pages is free, and
  adds exactly those pages to the free ones; every other release is refused with \<^verbatim>\<open>SDB_SYS\<close> and
  changes nothing. In particular a double release never corrupts the lists or the bitmap.
\<close>

theorem sme_release_correct:
  assumes "sme_inv m" and "0 < n"
  shows "if sme_block m p n \<and> sme_free m \<inter> {p ..< p + int n} = {}
         then \<exists>m'. sme_releasePages p n m = (SDB_OK, m') \<and> sme_inv m' \<and>
                sme_free m' = sme_free m \<union> {p ..< p + int n} \<and> sme_releasePages p n m' = (SDB_SYS, m')
         else sme_releasePages p n m = (SDB_SYS, m)"
proof (cases "sme_block m p n \<and> sme_free m \<inter> {p ..< p + int n} = {}")
  case False
  then show ?thesis using sme_release_refused [OF assms] by auto
next
  case True
  then obtain m' where m': "sme_releasePages p n m = (SDB_OK, m')" "sme_inv m'"
    "sme_free m' = sme_free m \<union> {p ..< p + int n}"
    using sme_release_ok [OF assms] by metis
  have "sme_dealloc p n m = (True, m')" using m'(1) by (simp add: sme_dealloc_def)
  from mgr.double_release [OF assms this] have "sme_dealloc p n m' = (False, m')" .
  moreover have "sme_free m' \<inter> {p ..< p + int n} \<noteq> {}" using m'(3) assms(2) by auto
  ultimately have "sme_releasePages p n m' = (SDB_SYS, m')"
    using sme_release_refused [OF m'(2) assms(2)] by blast
  with True m' show ?thesis by auto
qed

theorem sme_release_correct_witness:
  "\<exists>m m'. sme_init 16 (dmsSMEMgr_new 8 3 (set_bits 9 2 (\<lambda>_. 0))) = (SDB_OK, m) \<and>
     sme_releasePages 9 2 m = (SDB_OK, m') \<and> sme_free m' = sme_free m \<union> {9 ..< 11} \<and>
     sme_releasePages 9 2 m' = (SDB_SYS, m')"
proof -
  obtain m where m: "sme_init 16 (dmsSMEMgr_new 8 3 (set_bits 9 2 (\<lambda>_. 0))) = (SDB_OK, m)" "sme_inv m"
    "segmentNum m = 2" "segmentPages m = 8" "sme_free m = bit_free (set_bits 9 2 (\<lambda>_. 0)) 16"
    using sme_init_ok [of 8 3 2 "set_bits 9 2 (\<lambda>_. 0)"] by (auto simp: DMS_MAX_PG_def)
  have "sme_block m 9 2" using m(3,4) by (auto simp: sme_block_def segmentNum_def intro!: exI [of _ 1])
  moreover have "sme_free m \<inter> {9 ..< 9 + int 2} = {}"
    unfolding m(5) by (auto simp: bit_free_def getBitMask_set_bits DMS_SME_FREE_def DMS_SME_ALLOCATED_def
        simp del: set_bits.simps)
  ultimately show ?thesis using sme_release_correct [OF m(2), of 2 9] m(1) by auto
qed

text \<open>
  C18. Opening a storage unit whose pages fill whole segments succeeds, and rebuilds exactly the free
  pages that the bitmap on disk records: runs are split at the segment boundaries and none is lost,
  whatever the bitmap holds.
\<close>

theorem sme_init_rebuilds:
  assumes "segPages = 2 ^ sq" and "segPages < 65536" and "k * segPages \<le> DMS_MAX_PG"
  shows "\<exists>m. sme_init (k * segPages) (dmsSMEMgr_new segPages sq msk) = (SDB_OK, m) \<and> sme_inv m \<and>
     segmentNum m = k \<and>
     sme_free m = {int p | p. p < k * segPages \<and> getBitMask msk p = DMS_SME_FREE}"
proof -
  have "bit_free msk (k * segPages) = {int p | p. p < k * segPages \<and> getBitMask msk p = DMS_SME_FREE}"
    by (auto simp: bit_free_def)
  with sme_init_ok [OF assms, of msk] show ?thesis by metis
qed

theorem sme_init_rebuilds_witness:
  "\<exists>m. sme_init 16 (dmsSMEMgr_new 8 3 (set_bits 6 4 (\<lambda>_. 0))) = (SDB_OK, m) \<and> sme_inv m \<and>
     segmentNum m = 2 \<and>
     sme_free m = {int p | p. p < 16 \<and> getBitMask (set_bits 6 4 (\<lambda>_. 0)) p = DMS_SME_FREE}"
  using sme_init_rebuilds [of 8 3 2 "set_bits 6 4 (\<lambda>_. 0)"] by (simp add: DMS_MAX_PG_def)

text \<open>
  C26. Restart: rebuilding the manager from the bitmap that a running manager maintains gives back the
  same free pages, the same number of segments and the same total count.
\<close>

theorem sme_reopen_same:
  assumes "sme_inv m"
  shows "\<exists>m'. sme_init (segmentNum m * segmentPages m)
             (dmsSMEMgr_new (segmentPages m) (segmentPagesSquare m) (smeMask (shared m))) = (SDB_OK, m') \<and>
           sme_free m' = sme_free m \<and> segmentNum m' = segmentNum m \<and> sme_totalFree m' = sme_totalFree m"
proof -
  let ?N = "segmentNum m * segmentPages m"
  from assms have geom: "sme_geom m" and bits: "sme_bits m" by (auto simp: sme_inv_def)
  from geom have P: "segmentPages m = 2 ^ segmentPagesSquare m" "segmentPages m < 65536" "?N \<le> DMS_MAX_PG"
    unfolding sme_geom_def segmentNum_def by blast+
  have "bit_free (smeMask (shared m)) ?N = sme_free m"
  proof (rule set_eqI)
    fix q
    show "q \<in> bit_free (smeMask (shared m)) ?N \<longleftrightarrow> q \<in> sme_free m"
    proof (cases "0 \<le> q \<and> q < int ?N")
      case True
      then obtain p where "q = int p" "p < ?N" using zero_le_imp_eq_int by fastforce
      then show ?thesis using bits by (auto simp: bit_free_def sme_bits_def segmentNum_def)
    next
      case False
      then show ?thesis using bit_free_less [of q] sme_free_range [OF geom]
        unfolding segmentNum_def by fastforce
    qed
  qed
  with sme_init_ok [OF P] card_sme_free [OF assms] card_sme_free show ?thesis by metis
qed

theorem sme_reopen_same_witness:
  "\<exists>m m'. sme_init 16 (dmsSMEMgr_new 8 3 (set_bits 6 4 (\<lambda>_. 0))) = (SDB_OK, m) \<and>
     sme_init (segmentNum m * segmentPages m)
       (dmsSMEMgr_new (segmentPages m) (segmentPagesSquare m) (smeMask (shared m))) = (SDB_OK, m') \<and>
     sme_free m' = sme_free m \<and> sme_totalFree m' = sme_totalFree m"
proof -
  obtain m where "sme_init 16 (dmsSMEMgr_new 8 3 (set_bits 6 4 (\<lambda>_. 0))) = (SDB_OK, m)" "sme_inv m"
    using sme_init_ok [of 8 3 2 "set_bits 6 4 (\<lambda>_. 0)"] by (auto simp: DMS_MAX_PG_def)
  with sme_reopen_same [of m] show ?thesis by blast
qed

text \<open>
  C1. No page is ever handed out twice. After opening a storage unit, for every sequence of
  reservations and releases of what was reserved: the reservations held are pairwise disjoint, none
  of them contains a free page, together with the free pages they are exactly the pages that were
  free at the start, and the manager is still in order.
\<close>

theorem sme_no_double_allocation:
  assumes "sme_inv m" and "\<forall>op \<in> set ops. asks_pages op"
    and "alloc_run sme_alloc sme_dealloc ops (m, []) = (m', out)"
  shows "sme_inv m' \<and> exclusive (sme_free m') out \<and> sme_free m' \<union> held_pages out = sme_free m"
  using mgr.run_exclusive [OF assms(1,2)] assms(3) by simp

theorem sme_no_double_allocation_witness:
  "\<exists>m m' out. sme_init 16 (dmsSMEMgr_new 8 3 (\<lambda>_. 0)) = (SDB_OK, m) \<and>
     alloc_run sme_alloc sme_dealloc [Reserve 3, Reserve 6, Release 0, Reserve 5] (m, []) = (m', out) \<and>
     sme_inv m' \<and> exclusive (sme_free m') out \<and> sme_free m' \<union> held_pages out = sme_free m"
proof -
  obtain m where m: "sme_init 16 (dmsSMEMgr_new 8 3 (\<lambda>_. 0)) = (SDB_OK, m)" "sme_inv m"
    using sme_init_ok [of 8 3 2 "\<lambda>_. 0"] by (auto simp: DMS_MAX_PG_def)
  obtain m' out where "alloc_run sme_alloc sme_dealloc [Reserve 3, Reserve 6, Release 0, Reserve 5] (m, []) = (m', out)"
    by (meson surj_pair)
  with sme_no_double_allocation [OF m(2) _ this] m(1) show ?thesis by (fastforce simp: asks_pages_def)
qed

text \<open>
  Adding the next segment of the file, whose bits are still clear, succeeds, makes its pages free
  and counts them; a segment out of order is refused with \<^verbatim>\<open>SDB_SYS\<close>.
\<close>

theorem sme_deposit_correct:
  assumes "sme_inv m" and "Suc (segmentNum m) * segmentPages m \<le> DMS_MAX_PG"
    and "\<And>p. segmentNum m * segmentPages m \<le> p \<Longrightarrow> p < Suc (segmentNum m) * segmentPages m \<Longrightarrow>
           getBitMask (smeMask (shared m)) p = DMS_SME_FREE"
  shows "(\<exists>m'. depositASegment (int (segmentNum m * segmentPages m)) m = (SDB_OK, m') \<and> sme_inv m' \<and>
            segmentNum m' = Suc (segmentNum m) \<and>
            sme_free m' = sme_free m \<union>
              {int (segmentNum m * segmentPages m) ..< int (Suc (segmentNum m) * segmentPages m)} \<and>
            sme_totalFree m' = sme_totalFree m + segmentPages m) \<and>
         (segment_id start m \<noteq> segmentNum m \<longrightarrow> depositASegment start m = (SDB_SYS, m))"
proof
  let ?a = "int (segmentNum m * segmentPages m)"
  have fresh: "\<forall>p. p < Suc (length (segments m)) * segmentPages m \<longrightarrow>
      length (segments m) * segmentPages m \<le> p \<longrightarrow> getBitMask (smeMask (shared m)) p = DMS_SME_FREE"
    using assms(3) unfolding segmentNum_def by blast
  from deposit_ok [OF assms(1) _ assms(2) [unfolded segmentNum_def] fresh, of ?a]
  obtain m' where "depositASegment ?a m = (SDB_OK, m')" "sme_inv m'" "segmentNum m' = Suc (segmentNum m)"
    "sme_free m' = sme_free m \<union> {?a ..< ?a + int (segmentPages m)}"
    "sme_totalFree m' = sme_totalFree m + segmentPages m" unfolding segmentNum_def by blast
  moreover have "?a + int (segmentPages m) = int (Suc (segmentNum m) * segmentPages m)" by simp
  ultimately show "\<exists>m'. depositASegment ?a m = (SDB_OK, m') \<and> sme_inv m' \<and>
      segmentNum m' = Suc (segmentNum m) \<and>
      sme_free m' = sme_free m \<union> {?a ..< int (Suc (segmentNum m) * segmentPages m)} \<and>
      sme_totalFree m' = sme_totalFree m + segmentPages m" by metis
  show "segment_id start m \<noteq> segmentNum m \<longrightarrow> depositASegment start m = (SDB_SYS, m)"
    by (simp add: depositASegment_def segmentNum_def)
qed

theorem sme_deposit_correct_witness:
  "\<exists>m m'. sme_init 16 (dmsSMEMgr_new 8 3 (\<lambda>_. 0)) = (SDB_OK, m) \<and>
     depositASegment 16 m = (SDB_OK, m') \<and> segmentNum m' = 3 \<and> sme_free m' = sme_free m \<union> {16 ..< 24}"
proof -
  obtain m where m: "sme_init 16 (dmsSMEMgr_new 8 3 (\<lambda>_. 0)) = (SDB_OK, m)" "sme_inv m"
    "segmentNum m = 2" "segmentPages m = 8" "smeMask (shared m) = (\<lambda>_. 0)"
    using sme_init_ok [of 8 3 2 "\<lambda>_. 0"] by (auto simp: DMS_MAX_PG_def)
  have "Suc (segmentNum m) * segmentPages m \<le> DMS_MAX_PG" using m by (simp add: DMS_MAX_PG_def)
  from sme_deposit_correct [OF m(2) this, of 0] m show ?thesis
    by (auto simp: getBitMask_def DMS_SME_FREE_def)
qed

end
