(* ===== verification/TransLockDef.thy ===== *)
theory TransLockDef
  imports Prelude
begin

text \<open>
  The vocabulary of the transaction locks: \<^verbatim>\<open>dps/dpsTransLockDef.cpp\<close> (lock modes, lock
  identifiers and their order, the lock information an EDU keeps per lock),
  \<^verbatim>\<open>include/dpsTransLockUnit.hpp\<close> (the run list and wait queue of a lock) and the lock list
  of an EDU, an engine thread, from \<^verbatim>\<open>pmd/pmdEDU.cpp\<close>. EDUs are named by their thread id.
\<close>

unbundle bit_operations_syntax

section \<open>Modes\<close>

datatype DPS_TRANSLOCK_TYPE = DPS_TRANSLOCK_IS | DPS_TRANSLOCK_IX | DPS_TRANSLOCK_S | DPS_TRANSLOCK_X

primrec mode_num :: "DPS_TRANSLOCK_TYPE \<Rightarrow> int" where
  "mode_num DPS_TRANSLOCK_IS = 0"
| "mode_num DPS_TRANSLOCK_IX = 1"
| "mode_num DPS_TRANSLOCK_S = 2"
| "mode_num DPS_TRANSLOCK_X = 3"

definition isLockCompatible :: "DPS_TRANSLOCK_TYPE \<Rightarrow> DPS_TRANSLOCK_TYPE \<Rightarrow> bool" where
  "isLockCompatible first second \<longleftrightarrow>
     \<not> (mode_num first OR mode_num second) = mode_num DPS_TRANSLOCK_X"

definition upgradeCheck :: "DPS_TRANSLOCK_TYPE \<Rightarrow> DPS_TRANSLOCK_TYPE \<Rightarrow> sdb_rc" where
  "upgradeCheck srcType dstType =
     (if (mode_num dstType - mode_num srcType = 1 \<and> srcType \<noteq> DPS_TRANSLOCK_IX) \<or>
         (mode_num dstType - mode_num srcType = 2 \<and> dstType \<noteq> DPS_TRANSLOCK_X)
      then SDB_OK else SDB_PERM)"

section \<open>Lock identifiers\<close>

text \<open>
  A lock is on a record, on a collection (extent and offset invalid) or on a collection space
  (collection invalid too).
\<close>

datatype dpsTransLockId =
  LockId (logicCSID: nat) (collectionID: nat) (recordExtentID: int) (recordOffset: int)

definition DMS_INVALID_MBID :: nat where
  "DMS_INVALID_MBID = 65535"

definition DMS_INVALID_OFFSET :: int where
  "DMS_INVALID_OFFSET = -1"

definition INVALID_CSID :: nat where
  "INVALID_CSID = 4294967295"

definition LockId_new :: "nat \<Rightarrow> nat \<Rightarrow> (int \<times> int) option \<Rightarrow> dpsTransLockId" where
  "LockId_new cs coll recordID =
     (case recordID of
        Some (ext, off) \<Rightarrow> LockId cs coll ext off
      | None \<Rightarrow> LockId cs coll DMS_INVALID_EXTENT DMS_INVALID_OFFSET)"

definition LockId_reset :: dpsTransLockId where
  "LockId_reset = LockId INVALID_CSID DMS_INVALID_MBID DMS_INVALID_EXTENT DMS_INVALID_OFFSET"

definition isValid :: "dpsTransLockId \<Rightarrow> bool" where
  "isValid l \<longleftrightarrow> \<not> logicCSID l = INVALID_CSID"

definition lockId_less :: "dpsTransLockId \<Rightarrow> dpsTransLockId \<Rightarrow> bool" where
  "lockId_less a b =
     (if logicCSID a < logicCSID b then True
      else if logicCSID a > logicCSID b then False
      else if collectionID a < collectionID b then True
      else if collectionID a > collectionID b then False
      else if recordExtentID a < recordExtentID b then True
      else if recordExtentID a > recordExtentID b then False
      else recordOffset a < recordOffset b)"

definition lockId_equal :: "dpsTransLockId \<Rightarrow> dpsTransLockId \<Rightarrow> bool" where
  "lockId_equal a b \<longleftrightarrow>
     logicCSID a = logicCSID b \<and> collectionID a = collectionID b \<and>
     recordExtentID a = recordExtentID b \<and> recordOffset a = recordOffset b"

instantiation dpsTransLockId :: linorder
begin

definition less_dpsTransLockId :: "dpsTransLockId \<Rightarrow> dpsTransLockId \<Rightarrow> bool" where
  "less_dpsTransLockId = lockId_less"

definition less_eq_dpsTransLockId :: "dpsTransLockId \<Rightarrow> dpsTransLockId \<Rightarrow> bool" where
  "less_eq_dpsTransLockId a b \<longleftrightarrow> lockId_less a b \<or> lockId_equal a b"

instance
proof
  fix a b c :: dpsTransLockId
  show "a < b \<longleftrightarrow> a \<le> b \<and> \<not> b \<le> a"
    by (auto simp: less_dpsTransLockId_def less_eq_dpsTransLockId_def lockId_less_def lockId_equal_def)
  show "a \<le> a" by (simp add: less_eq_dpsTransLockId_def lockId_equal_def)
  show "a \<le> b \<Longrightarrow> b \<le> c \<Longrightarrow> a \<le> c"
    by (auto simp: less_eq_dpsTransLockId_def lockId_less_def lockId_equal_def split: if_splits)
  show "a \<le> b \<Longrightarrow> b \<le> a \<Longrightarrow> a = b"
    by (cases a; cases b) (auto simp: less_eq_dpsTransLockId_def lockId_less_def lockId_equal_def split: if_splits)
  show "a \<le> b \<or> b \<le> a"
    by (auto simp: less_eq_dpsTransLockId_def lockId_less_def lockId_equal_def)
qed

end

section \<open>Lock information of an EDU\<close>

type_synonym tid = nat

record dpsTransCBLockInfo =
  nextWaitCB :: "tid option"
  lockType :: DPS_TRANSLOCK_TYPE
  lockRef :: int

definition LockInfo_new :: "DPS_TRANSLOCK_TYPE \<Rightarrow> dpsTransCBLockInfo" where
  "LockInfo_new type = \<lparr>nextWaitCB = None, lockType = type, lockRef = 0\<rparr>"

definition isLockMatch :: "dpsTransCBLockInfo \<Rightarrow> DPS_TRANSLOCK_TYPE \<Rightarrow> bool" where
  "isLockMatch info type =
     (if lockType info = type then True
      else if type = DPS_TRANSLOCK_IS then True
      else if lockType info = DPS_TRANSLOCK_X then True
      else False)"

text \<open>\<^verbatim>\<open>inc\<close> and \<^verbatim>\<open>dec\<close> of \<^verbatim>\<open>ossAtomicSigned64\<close> return the value before the change.\<close>

definition incRef :: "dpsTransCBLockInfo \<Rightarrow> int \<times> dpsTransCBLockInfo" where
  "incRef info = (lockRef info, info\<lparr>lockRef := lockRef info + 1\<rparr>)"

definition decRef :: "dpsTransCBLockInfo \<Rightarrow> int \<times> dpsTransCBLockInfo" where
  "decRef info = (lockRef info, info\<lparr>lockRef := lockRef info - 1\<rparr>)"

section \<open>The lock list and event queue of an EDU\<close>

datatype eduEvent =
    PMD_EDU_EVENT_NONE
  | PMD_EDU_EVENT_TERM
  | PMD_EDU_EVENT_RESUME
  | PMD_EDU_EVENT_ACTIVE
  | PMD_EDU_EVENT_DEACTIVE
  | PMD_EDU_EVENT_MSG
  | PMD_EDU_EVENT_TIMEOUT
  | PMD_EDU_EVENT_LOCKWAKEUP
  | PMD_EDU_EVENT_BP_RESUME
  | PMD_EDU_EVENT_TRANS_STOP
  | PMD_EDU_EVENT_STEP_DOWN
  | PMD_EDU_EVENT_STEP_UP
  | PMD_EDU_EVENT_MAX

record eduCB =
  transLockLst :: "(dpsTransLockId \<times> dpsTransCBLockInfo) list"
  waitLock_id :: dpsTransLockId
  eventQueue :: "eduEvent list"

definition eduCB_new :: eduCB where
  "eduCB_new = \<lparr>transLockLst = [], waitLock_id = LockId_reset, eventQueue = []\<rparr>"

definition setWaitLock :: "dpsTransLockId \<Rightarrow> eduCB \<Rightarrow> eduCB" where
  "setWaitLock l e = e\<lparr>waitLock_id := l\<rparr>"

definition clearWaitLock :: "eduCB \<Rightarrow> eduCB" where
  "clearWaitLock e = e\<lparr>waitLock_id := LockId_reset\<rparr>"

definition getTransLock :: "eduCB \<Rightarrow> dpsTransLockId \<Rightarrow> dpsTransCBLockInfo option" where
  "getTransLock e l = map_of (transLockLst e) l"

definition addLockInfo :: "dpsTransLockId \<Rightarrow> DPS_TRANSLOCK_TYPE \<Rightarrow> eduCB \<Rightarrow> eduCB" where
  "addLockInfo l type e = e\<lparr>transLockLst := smap_put l (LockInfo_new type) (transLockLst e)\<rparr>"

definition delLockInfo :: "dpsTransLockId \<Rightarrow> eduCB \<Rightarrow> eduCB" where
  "delLockInfo l e =
     (case map_of (transLockLst e) l of
        None \<Rightarrow> e
      | Some _ \<Rightarrow> e\<lparr>transLockLst := smap_erase l (transLockLst e)\<rparr>)"

definition clearLockList :: "eduCB \<Rightarrow> eduCB" where
  "clearLockList e = e\<lparr>transLockLst := []\<rparr>"

text \<open>A write through the pointer that \<^verbatim>\<open>getTransLock\<close> returned.\<close>

definition putLockInfo :: "dpsTransLockId \<Rightarrow> dpsTransCBLockInfo \<Rightarrow> eduCB \<Rightarrow> eduCB" where
  "putLockInfo l info e = e\<lparr>transLockLst := smap_put l info (transLockLst e)\<rparr>"

definition postEvent :: "eduEvent \<Rightarrow> eduCB \<Rightarrow> eduCB" where
  "postEvent ev e = e\<lparr>eventQueue := eventQueue e @ [ev]\<rparr>"

section \<open>Lock units\<close>

record dpsTransLockUnit =
  unitWaitCB :: "tid option"
  runList :: "(tid \<times> DPS_TRANSLOCK_TYPE) list"

definition LockUnit_new :: dpsTransLockUnit where
  "LockUnit_new = \<lparr>unitWaitCB = None, runList = []\<rparr>"

section \<open>Facts about modes\<close>

lemma isLockCompatible_table:
  "isLockCompatible a b \<longleftrightarrow>
     (case a of
        DPS_TRANSLOCK_IS \<Rightarrow> b \<noteq> DPS_TRANSLOCK_X
      | DPS_TRANSLOCK_IX \<Rightarrow> b = DPS_TRANSLOCK_IS \<or> b = DPS_TRANSLOCK_IX
      | DPS_TRANSLOCK_S \<Rightarrow> b = DPS_TRANSLOCK_IS \<or> b = DPS_TRANSLOCK_S
      | DPS_TRANSLOCK_X \<Rightarrow> False)"
  by (cases a; cases b) (simp_all add: isLockCompatible_def)

lemma isLockCompatible_sym: "isLockCompatible a b = isLockCompatible b a"
  by (simp add: isLockCompatible_def or.commute)

text \<open>\<open>covers a b\<close>: whoever is compatible with \<open>a\<close> is compatible with \<open>b\<close>.\<close>

definition covers :: "DPS_TRANSLOCK_TYPE \<Rightarrow> DPS_TRANSLOCK_TYPE \<Rightarrow> bool" where
  "covers a b \<longleftrightarrow> a = b \<or> b = DPS_TRANSLOCK_IS \<or> a = DPS_TRANSLOCK_X"

lemma covers_compatible: "covers a b \<Longrightarrow> isLockCompatible a c \<Longrightarrow> isLockCompatible b c"
  by (cases a; cases b; cases c) (simp_all add: covers_def isLockCompatible_table)

lemma covers_iff: "covers a b \<longleftrightarrow> (\<forall>c. isLockCompatible a c \<longrightarrow> isLockCompatible b c)"
proof
  assume h: "\<forall>c. isLockCompatible a c \<longrightarrow> isLockCompatible b c"
  show "covers a b"
    using h [rule_format, of DPS_TRANSLOCK_IX] h [rule_format, of DPS_TRANSLOCK_S]
    by (cases a; cases b) (simp_all add: covers_def isLockCompatible_table)
qed (blast dest: covers_compatible)

lemma isLockMatch_covers: "isLockMatch info m \<longleftrightarrow> covers (lockType info) m"
  by (auto simp: isLockMatch_def covers_def)

lemma upgrade_covers: "upgradeCheck a b = SDB_OK \<Longrightarrow> covers b a"
  by (cases a; cases b) (simp_all add: upgradeCheck_def covers_def)

lemma covers_refl [simp]: "covers a a"
  by (simp add: covers_def)

lemma covers_trans: "covers a b \<Longrightarrow> covers b c \<Longrightarrow> covers a c"
  by (auto simp: covers_def)

end
