(* ===== verification/TransLockBucket.thy ===== *)
theory TransLockBucket
  imports TransLockDef
begin

text \<open>
  The buckets of the lock manager: \<^verbatim>\<open>dps/dpsTransLockBucket.cpp\<close>. A bucket maps lock
  identifiers to lock units; a unit has the run list of the EDUs that hold the lock and the head of
  the queue of those that wait, which is linked through the lock information of the waiting EDUs.
  The bucket latch makes every operation one step, except that a waiting EDU gives it up: the steps
  of all other EDUs in the meantime are an argument of the blocking operations.
\<close>

section \<open>State of the lock manager\<close>

definition MAX_LOCKBUCKET_NUM :: nat where
  "MAX_LOCKBUCKET_NUM = 1000"

type_synonym lockBucket = "(dpsTransLockId \<times> dpsTransLockUnit) list"

record lockSys =
  bucketLst :: "nat \<Rightarrow> lockBucket option"
  edus :: "tid \<Rightarrow> eduCB"

definition lockSys_new :: lockSys where
  "lockSys_new = \<lparr>bucketLst = (\<lambda>_. None), edus = (\<lambda>_. eduCB_new)\<rparr>"

definition upd_edu :: "tid \<Rightarrow> (eduCB \<Rightarrow> eduCB) \<Rightarrow> lockSys \<Rightarrow> lockSys" where
  "upd_edu t f st = st\<lparr>edus := (edus st)(t := f (edus st t))\<rparr>"

definition getInfo :: "tid \<Rightarrow> dpsTransLockId \<Rightarrow> lockSys \<Rightarrow> dpsTransCBLockInfo option" where
  "getInfo t l st = getTransLock (edus st t) l"

text \<open>
  An offset of -1 stands for no record; the offset of a record is not negative, so C's remainder is
  the remainder of natural numbers.
\<close>

definition getBucketNo :: "dpsTransLockId \<Rightarrow> nat" where
  "getBucketNo l =
     (if recordOffset l \<noteq> DMS_INVALID_OFFSET then nat (recordOffset l) mod MAX_LOCKBUCKET_NUM
      else if collectionID l \<noteq> DMS_INVALID_MBID then collectionID l mod MAX_LOCKBUCKET_NUM
      else logicCSID l mod MAX_LOCKBUCKET_NUM)"

definition getBucket :: "dpsTransLockId \<Rightarrow> lockSys \<Rightarrow> lockSys" where
  "getBucket l st =
     (case bucketLst st (getBucketNo l) of
        None \<Rightarrow> st\<lparr>bucketLst := (bucketLst st)(getBucketNo l := Some [])\<rparr>
      | Some b \<Rightarrow> st)"

text \<open>\<^verbatim>\<open>_lockLst.find\<close>, \<^verbatim>\<open>_lockLst[ lockId ] = pLockUnit\<close> and \<^verbatim>\<open>_lockLst.erase\<close> in the bucket of the lock.\<close>

definition findUnit :: "dpsTransLockId \<Rightarrow> lockSys \<Rightarrow> dpsTransLockUnit option" where
  "findUnit l st =
     (case bucketLst st (getBucketNo l) of None \<Rightarrow> None | Some b \<Rightarrow> map_of b l)"

definition putUnit :: "dpsTransLockId \<Rightarrow> dpsTransLockUnit \<Rightarrow> lockSys \<Rightarrow> lockSys" where
  "putUnit l u st =
     (case bucketLst st (getBucketNo l) of
        None \<Rightarrow> st
      | Some b \<Rightarrow> st\<lparr>bucketLst := (bucketLst st)(getBucketNo l := Some (smap_put l u b))\<rparr>)"

definition eraseUnit :: "dpsTransLockId \<Rightarrow> lockSys \<Rightarrow> lockSys" where
  "eraseUnit l st =
     (case bucketLst st (getBucketNo l) of
        None \<Rightarrow> st
      | Some b \<Rightarrow> st\<lparr>bucketLst := (bucketLst st)(getBucketNo l := Some (smap_erase l b))\<rparr>)"

text \<open>The unit of a lock, made if the bucket has none: the opening of every acquiring operation.\<close>

definition needUnit :: "dpsTransLockId \<Rightarrow> lockSys \<Rightarrow> dpsTransLockUnit" where
  "needUnit l st = (case findUnit l st of None \<Rightarrow> LockUnit_new | Some u \<Rightarrow> u)"

section \<open>Run list\<close>

text \<open>
  The walk over the run list stops at the first entry that has the requested mode, unless the mode
  is X, and at the first conflict; the entry of the EDU itself is skipped.
\<close>

fun check_walk :: "tid \<Rightarrow> DPS_TRANSLOCK_TYPE \<Rightarrow> (tid \<times> DPS_TRANSLOCK_TYPE) list \<Rightarrow> bool" where
  "check_walk t type [] = True"
| "check_walk t type ((t', type') # rs) =
     (if type' = type \<and> type \<noteq> DPS_TRANSLOCK_X then True
      else if t' \<noteq> t then
        (if \<not> isLockCompatible type' type then False else check_walk t type rs)
      else check_walk t type rs)"

definition checkCompatible :: "tid \<Rightarrow> DPS_TRANSLOCK_TYPE \<Rightarrow> dpsTransLockUnit \<Rightarrow> bool" where
  "checkCompatible t type u = check_walk t type (runList u)"

definition appendToRun ::
  "tid \<Rightarrow> DPS_TRANSLOCK_TYPE \<Rightarrow> dpsTransLockUnit \<Rightarrow> sdb_rc \<times> dpsTransLockUnit" where
  "appendToRun t type u =
     (if \<not> checkCompatible t type u then (SDB_DPS_TRANS_LOCK_INCOMPATIBLE, u)
      else (SDB_OK, u\<lparr>runList := smap_put t type (runList u)\<rparr>))"

definition wakeUp :: "tid \<Rightarrow> lockSys \<Rightarrow> lockSys" where
  "wakeUp t st = upd_edu t (postEvent PMD_EDU_EVENT_LOCKWAKEUP) st"

definition removeFromRun :: "tid \<Rightarrow> dpsTransLockId \<Rightarrow> dpsTransLockUnit \<Rightarrow> lockSys \<Rightarrow> dpsTransLockUnit \<times> lockSys" where
  "removeFromRun t l u st =
     (let u' = u\<lparr>runList := smap_erase t (runList u)\<rparr> in
      case unitWaitCB u' of
        None \<Rightarrow> (u', putUnit l u' st)
      | Some w \<Rightarrow> (u', wakeUp w (putUnit l u' st)))"

section \<open>Wait queue\<close>

text \<open>
  The walks follow the next pointers in the lock information of the waiting EDUs. A walk has no
  result (\<open>None\<close>) if it meets an EDU without information on the lock, where the code dereferences a
  null pointer, or if it runs into a cycle.
\<close>

partial_function (option) append_walk :: "tid \<Rightarrow> dpsTransLockId \<Rightarrow> tid \<Rightarrow> lockSys \<Rightarrow> lockSys option" where
  "append_walk t l w st =
     (case getInfo w l st of
        None \<Rightarrow> None
      | Some info \<Rightarrow>
          (case nextWaitCB info of
             None \<Rightarrow> Some (upd_edu w (putLockInfo l (info\<lparr>nextWaitCB := Some t\<rparr>)) st)
           | Some w' \<Rightarrow> append_walk t l w' st))"

declare append_walk.simps [code]

definition appendToWait :: "tid \<Rightarrow> dpsTransLockId \<Rightarrow> dpsTransLockUnit \<Rightarrow> lockSys \<Rightarrow> lockSys option" where
  "appendToWait t l u st =
     (case unitWaitCB u of
        None \<Rightarrow> Some (putUnit l (u\<lparr>unitWaitCB := Some t\<rparr>) st)
      | Some w \<Rightarrow> append_walk t l w st)"

definition appendHeadToWait :: "tid \<Rightarrow> dpsTransLockId \<Rightarrow> dpsTransLockUnit \<Rightarrow> lockSys \<Rightarrow> lockSys option" where
  "appendHeadToWait t l u st =
     (let st1 = putUnit l (u\<lparr>unitWaitCB := Some t\<rparr>) st in
      case unitWaitCB u of
        None \<Rightarrow> Some st1
      | Some w \<Rightarrow>
          (case getInfo t l st1 of
             None \<Rightarrow> None
           | Some info \<Rightarrow> Some (upd_edu t (putLockInfo l (info\<lparr>nextWaitCB := Some w\<rparr>)) st1)))"

partial_function (option) remove_walk :: "tid \<Rightarrow> dpsTransLockId \<Rightarrow> tid \<Rightarrow> lockSys \<Rightarrow> lockSys option" where
  "remove_walk t l w st =
     (case getInfo w l st of
        None \<Rightarrow> None
      | Some info \<Rightarrow>
          (case nextWaitCB info of
             None \<Rightarrow> Some st
           | Some w' \<Rightarrow>
               if w' = t then
                 (let next = (case getInfo w' l st of None \<Rightarrow> None | Some info' \<Rightarrow> nextWaitCB info')
                  in Some (upd_edu w (putLockInfo l (info\<lparr>nextWaitCB := next\<rparr>)) st))
               else remove_walk t l w' st))"

declare remove_walk.simps [code]

definition removeFromWait :: "tid \<Rightarrow> dpsTransLockId \<Rightarrow> dpsTransLockUnit \<Rightarrow> lockSys \<Rightarrow> lockSys option" where
  "removeFromWait t l u st =
     (case unitWaitCB u of
        None \<Rightarrow> None
      | Some w \<Rightarrow>
          if w = t then
            (case getInfo w l st of
               None \<Rightarrow> Some (putUnit l (u\<lparr>unitWaitCB := None\<rparr>) st)
             | Some info \<Rightarrow>
                 (case nextWaitCB info of
                    None \<Rightarrow> Some (putUnit l (u\<lparr>unitWaitCB := None\<rparr>) st)
                  | Some n \<Rightarrow> Some (wakeUp n (putUnit l (u\<lparr>unitWaitCB := Some n\<rparr>) st))))
          else remove_walk t l w st)"

text \<open>
  \<^verbatim>\<open>waitLock\<close>: the first event of the queue, or a timeout if the queue is still empty when the
  time is up. An event of another kind is put back.
\<close>

definition waitLock :: "tid \<Rightarrow> lockSys \<Rightarrow> sdb_rc \<times> lockSys" where
  "waitLock t st =
     (case eventQueue (edus st t) of
        [] \<Rightarrow> (SDB_TIMEOUT, st)
      | ev # evs \<Rightarrow>
          (let st1 = upd_edu t (\<lambda>e. e\<lparr>eventQueue := evs\<rparr>) st in
           if ev \<noteq> PMD_EDU_EVENT_LOCKWAKEUP then (SDB_INTERRUPT, upd_edu t (postEvent ev) st1)
           else (SDB_OK, st1)))"

section \<open>Operations of a bucket\<close>

definition bucket_tryAcquire :: "tid \<Rightarrow> dpsTransLockId \<Rightarrow> DPS_TRANSLOCK_TYPE \<Rightarrow> lockSys \<Rightarrow> sdb_rc \<times> lockSys" where
  "bucket_tryAcquire t l type st =
     (case appendToRun t type (needUnit l st) of (rc, u) \<Rightarrow> (rc, putUnit l u st))"

definition bucket_test :: "tid \<Rightarrow> dpsTransLockId \<Rightarrow> DPS_TRANSLOCK_TYPE \<Rightarrow> lockSys \<Rightarrow> sdb_rc" where
  "bucket_test t l type st =
     (case findUnit l st of
        None \<Rightarrow> SDB_OK
      | Some u \<Rightarrow> if \<not> checkCompatible t type u then SDB_DPS_TRANS_LOCK_INCOMPATIBLE else SDB_OK)"

definition bucket_release :: "tid \<Rightarrow> dpsTransLockId \<Rightarrow> lockSys \<Rightarrow> lockSys" where
  "bucket_release t l st =
     (case findUnit l st of
        None \<Rightarrow> st
      | Some u \<Rightarrow>
          (case removeFromRun t l u st of
             (u', st') \<Rightarrow>
               if unitWaitCB u' = None \<and> runList u' = [] then eraseUnit l st' else st'))"

definition bucket_hasWait :: "dpsTransLockId \<Rightarrow> lockSys \<Rightarrow> bool" where
  "bucket_hasWait l st =
     (case findUnit l st of None \<Rightarrow> False | Some u \<Rightarrow> unitWaitCB u \<noteq> None)"

definition bucket_tryAcquireOrAppend ::
  "tid \<Rightarrow> dpsTransLockId \<Rightarrow> DPS_TRANSLOCK_TYPE \<Rightarrow> bool \<Rightarrow> lockSys \<Rightarrow> (sdb_rc \<times> lockSys) option" where
  "bucket_tryAcquireOrAppend t l type appendHead st =
     (case appendToRun t type (needUnit l st) of
        (rc, u) \<Rightarrow>
          (let st1 = putUnit l u st in
           if rc \<noteq> SDB_OK then
             map_option (\<lambda>st2. (SDB_DPS_TRANS_APPEND_TO_WAIT, st2))
               (if appendHead then appendHeadToWait t l u st1 else appendToWait t l u st1)
           else Some (rc, st1)))"

text \<open>
  The retry loop shared by \<^verbatim>\<open>acquire\<close>, \<^verbatim>\<open>upgrade\<close> and \<^verbatim>\<open>waitLockX\<close>. Each element of
  \<open>envs\<close> is what the other EDUs do during one wait; when the list is used up the EDU is still
  waiting and there is no result yet. The steps not used up are returned for the next wait.
\<close>

type_synonym env_steps = "(lockSys \<Rightarrow> lockSys) list"

fun wait_retry ::
  "tid \<Rightarrow> dpsTransLockId \<Rightarrow> DPS_TRANSLOCK_TYPE \<Rightarrow> env_steps \<Rightarrow> lockSys \<Rightarrow> (sdb_rc \<times> lockSys \<times> env_steps) option" where
  "wait_retry t l type [] st = None"
| "wait_retry t l type (env # envs) st =
     (case waitLock t (env st) of
        (rc, st1) \<Rightarrow>
          (case findUnit l st1 of
             None \<Rightarrow> None
           | Some u \<Rightarrow>
               if rc \<noteq> SDB_OK then map_option (\<lambda>st2. (rc, st2, envs)) (removeFromWait t l u st1)
               else
                 (case appendToRun t type u of
                    (rc2, u') \<Rightarrow>
                      if rc2 \<noteq> SDB_OK then wait_retry t l type envs st1
                      else map_option (\<lambda>st2. (rc2, st2, envs)) (removeFromWait t l u' (putUnit l u' st1)))))"

definition bucket_acquire ::
  "tid \<Rightarrow> dpsTransLockId \<Rightarrow> DPS_TRANSLOCK_TYPE \<Rightarrow> env_steps \<Rightarrow> lockSys \<Rightarrow> (sdb_rc \<times> lockSys \<times> env_steps) option" where
  "bucket_acquire t l type envs st =
     (case appendToRun t type (needUnit l st) of
        (rc, u) \<Rightarrow>
          (let st1 = putUnit l u st in
           if rc \<noteq> SDB_OK then
             (case appendToWait t l u st1 of
                None \<Rightarrow> None
              | Some st2 \<Rightarrow> wait_retry t l type envs st2)
           else Some (rc, st1, envs)))"

definition bucket_upgrade ::
  "tid \<Rightarrow> dpsTransLockId \<Rightarrow> DPS_TRANSLOCK_TYPE \<Rightarrow> env_steps \<Rightarrow> lockSys \<Rightarrow> (sdb_rc \<times> lockSys \<times> env_steps) option" where
  "bucket_upgrade t l type envs st =
     (case appendToRun t type (needUnit l st) of
        (rc, u) \<Rightarrow>
          (let st1 = putUnit l u st in
           if rc \<noteq> SDB_OK then
             (case appendHeadToWait t l u st1 of
                None \<Rightarrow> None
              | Some st2 \<Rightarrow> wait_retry t l type envs st2)
           else Some (rc, st1, envs)))"

definition bucket_waitLockX ::
  "tid \<Rightarrow> dpsTransLockId \<Rightarrow> env_steps \<Rightarrow> lockSys \<Rightarrow> (sdb_rc \<times> lockSys \<times> env_steps) option" where
  "bucket_waitLockX t l envs st =
     (case findUnit l st of
        None \<Rightarrow> Some (SDB_SYS, st, envs)
      | Some u \<Rightarrow> wait_retry t l DPS_TRANSLOCK_X envs st)"

end
