(* ===== verification/TransLock.thy ===== *)
theory TransLock
  imports TransLockBucket
begin

text \<open>
  The lock manager: class \<^verbatim>\<open>dpsTransLock\<close> of \<^verbatim>\<open>dps/dpsTransLock.cpp\<close>. A lock on a record takes
  an intention lock on its collection first, and a lock on a collection one on its space; releasing
  goes the same way up. Getting the lock again only counts.
\<close>

section \<open>Intention locks\<close>

text \<open>The identifier \<^verbatim>\<open>iLockId\<close> that the operations compute for a lock with a valid collection.\<close>

definition intent_id :: "dpsTransLockId \<Rightarrow> dpsTransLockId" where
  "intent_id l =
     (if recordOffset l \<noteq> DMS_INVALID_OFFSET
      then LockId (logicCSID l) (collectionID l) DMS_INVALID_EXTENT DMS_INVALID_OFFSET
      else LockId (logicCSID l) DMS_INVALID_MBID (recordExtentID l) (recordOffset l))"

text \<open>The identifier \<^verbatim>\<open>sLockId\<close> of the space, made from a reset identifier.\<close>

definition space_id :: "dpsTransLockId \<Rightarrow> dpsTransLockId" where
  "space_id l = LockId (logicCSID l) DMS_INVALID_MBID DMS_INVALID_EXTENT DMS_INVALID_OFFSET"

definition lock_level :: "dpsTransLockId \<Rightarrow> nat" where
  "lock_level l =
     (if collectionID l = DMS_INVALID_MBID then 0
      else if recordOffset l = DMS_INVALID_OFFSET then 1 else 2)"

lemma lock_level_less [simp]:
  "collectionID l \<noteq> DMS_INVALID_MBID \<Longrightarrow> lock_level (intent_id l) < lock_level l"
  "collectionID l \<noteq> DMS_INVALID_MBID \<Longrightarrow> lock_level (space_id l) < lock_level l"
  by (auto simp: lock_level_def intent_id_def space_id_def)

section \<open>Changes to the lock information\<close>

definition addInfo :: "tid \<Rightarrow> dpsTransLockId \<Rightarrow> DPS_TRANSLOCK_TYPE \<Rightarrow> lockSys \<Rightarrow> lockSys" where
  "addInfo t l type st = upd_edu t (addLockInfo l type) st"

definition delInfo :: "tid \<Rightarrow> dpsTransLockId \<Rightarrow> lockSys \<Rightarrow> lockSys" where
  "delInfo t l st = upd_edu t (delLockInfo l) st"

text \<open>Updates through the pointer \<^verbatim>\<open>pLockInfo\<close>, which stays valid while the entry exists.\<close>

definition onInfo :: "tid \<Rightarrow> dpsTransLockId \<Rightarrow> (dpsTransCBLockInfo \<Rightarrow> dpsTransCBLockInfo) \<Rightarrow> lockSys \<Rightarrow> lockSys" where
  "onInfo t l f st =
     (case getInfo t l st of
        None \<Rightarrow> st
      | Some info \<Rightarrow> upd_edu t (putLockInfo l (f info)) st)"

definition incInfo :: "tid \<Rightarrow> dpsTransLockId \<Rightarrow> lockSys \<Rightarrow> lockSys" where
  "incInfo t l st = onInfo t l (\<lambda>info. snd (incRef info)) st"

definition setType :: "tid \<Rightarrow> dpsTransLockId \<Rightarrow> DPS_TRANSLOCK_TYPE \<Rightarrow> lockSys \<Rightarrow> lockSys" where
  "setType t l type st = onInfo t l (\<lambda>info. info\<lparr>lockType := type\<rparr>) st"

section \<open>Release\<close>

text \<open>One level: count down, and give the lock back when the count was not positive any more.\<close>

definition drop_lock :: "tid \<Rightarrow> dpsTransLockId \<Rightarrow> int \<Rightarrow> lockSys \<Rightarrow> lockSys" where
  "drop_lock t l ref st =
     (if ref \<le> 0 then delInfo t l (bucket_release t l (getBucket l st)) else st)"

definition release_one :: "tid \<Rightarrow> dpsTransLockId \<Rightarrow> dpsTransCBLockInfo \<Rightarrow> lockSys \<Rightarrow> lockSys" where
  "release_one t l info st =
     drop_lock t l (fst (decRef info)) (onInfo t l (\<lambda>i. snd (decRef i)) st)"

function tl_release :: "tid \<Rightarrow> dpsTransLockId \<Rightarrow> lockSys \<Rightarrow> lockSys" where
  "tl_release t l st =
     (case getInfo t l st of
        None \<Rightarrow> st
      | Some info \<Rightarrow>
          if collectionID l \<noteq> DMS_INVALID_MBID then tl_release t (intent_id l) (release_one t l info st)
          else release_one t l info st)"
  by pat_completeness auto
termination
  by (relation "measure (\<lambda>(t, l, st). lock_level l)") auto

declare tl_release.simps [simp del]

fun releaseAll_loop :: "tid \<Rightarrow> dpsTransLockId list \<Rightarrow> lockSys \<Rightarrow> lockSys" where
  "releaseAll_loop t [] st = st"
| "releaseAll_loop t (l # ls) st = releaseAll_loop t ls (bucket_release t l (getBucket l st))"

definition tl_releaseAll :: "tid \<Rightarrow> lockSys \<Rightarrow> lockSys" where
  "tl_releaseAll t st =
     upd_edu t clearLockList (releaseAll_loop t (map fst (transLockLst (edus st t))) st)"

section \<open>Trying a lock\<close>

definition tryUpgrade ::
  "tid \<Rightarrow> dpsTransLockId \<Rightarrow> dpsTransCBLockInfo \<Rightarrow> DPS_TRANSLOCK_TYPE \<Rightarrow> lockSys \<Rightarrow> sdb_rc \<times> lockSys" where
  "tryUpgrade t l info type st =
     (let rc = upgradeCheck (lockType info) type in
      if rc \<noteq> SDB_OK then (rc, st)
      else
        (let st1 = setType t l type (getBucket l st) in
         case bucket_tryAcquire t l type st1 of
           (rc2, st2) \<Rightarrow>
             if rc2 \<noteq> SDB_OK then (rc2, setType t l (lockType info) st2) else (rc2, st2)))"

text \<open>The first lock of an EDU on an identifier.\<close>

definition try_new :: "tid \<Rightarrow> dpsTransLockId \<Rightarrow> DPS_TRANSLOCK_TYPE \<Rightarrow> lockSys \<Rightarrow> sdb_rc \<times> lockSys" where
  "try_new t l type st =
     (case bucket_tryAcquire t l type (addInfo t l type (getBucket l st)) of
        (rc, st1) \<Rightarrow> if rc \<noteq> SDB_OK then (rc, delInfo t l st1) else (rc, st1))"

text \<open>
  The part of \<^verbatim>\<open>tryX\<close>, \<^verbatim>\<open>tryS\<close> and \<^verbatim>\<open>tryIX\<close> after the intention lock, which is the
  same in all three but for the mode.
\<close>

definition try_self :: "tid \<Rightarrow> dpsTransLockId \<Rightarrow> DPS_TRANSLOCK_TYPE \<Rightarrow> lockSys \<Rightarrow> sdb_rc \<times> lockSys" where
  "try_self t l type st =
     (case getInfo t l st of
        Some info \<Rightarrow>
          if isLockMatch info type then (SDB_OK, incInfo t l st)
          else (case tryUpgrade t l info type st of
                  (rc, st1) \<Rightarrow> if rc = SDB_OK then (rc, incInfo t l st1) else (rc, st1))
      | None \<Rightarrow> try_new t l type st)"

text \<open>The same part of \<^verbatim>\<open>tryIS\<close>: any mode the EDU holds is enough.\<close>

definition tryIS_self :: "tid \<Rightarrow> dpsTransLockId \<Rightarrow> lockSys \<Rightarrow> sdb_rc \<times> lockSys" where
  "tryIS_self t l st =
     (case getInfo t l st of
        Some info \<Rightarrow> (SDB_OK, incInfo t l st)
      | None \<Rightarrow> try_new t l DPS_TRANSLOCK_IS st)"

function tryIS :: "tid \<Rightarrow> dpsTransLockId \<Rightarrow> lockSys \<Rightarrow> sdb_rc \<times> lockSys" where
  "tryIS t l st =
     (if collectionID l \<noteq> DMS_INVALID_MBID then
        (case tryIS t (space_id l) st of
           (rc, st1) \<Rightarrow>
             if rc \<noteq> SDB_OK then (rc, st1)
             else (case tryIS_self t l st1 of
                     (rc2, st2) \<Rightarrow>
                       if rc2 \<noteq> SDB_OK then (rc2, tl_release t (space_id l) st2) else (rc2, st2)))
      else tryIS_self t l st)"
  by pat_completeness auto
termination
  by (relation "measure (\<lambda>(t, l, st). lock_level l)") auto

declare tryIS.simps [simp del]

definition tryIX :: "tid \<Rightarrow> dpsTransLockId \<Rightarrow> lockSys \<Rightarrow> sdb_rc \<times> lockSys" where
  "tryIX t l st =
     (if collectionID l \<noteq> DMS_INVALID_MBID then
        (case tryIS t (space_id l) st of
           (rc, st1) \<Rightarrow>
             if rc \<noteq> SDB_OK then (rc, st1)
             else (case try_self t l DPS_TRANSLOCK_IX st1 of
                     (rc2, st2) \<Rightarrow>
                       if rc2 \<noteq> SDB_OK then (rc2, tl_release t (space_id l) st2) else (rc2, st2)))
      else try_self t l DPS_TRANSLOCK_IX st)"

definition tryS :: "tid \<Rightarrow> dpsTransLockId \<Rightarrow> lockSys \<Rightarrow> sdb_rc \<times> lockSys" where
  "tryS t l st =
     (if collectionID l \<noteq> DMS_INVALID_MBID then
        (case tryIS t (intent_id l) st of
           (rc, st1) \<Rightarrow>
             if rc \<noteq> SDB_OK then (rc, st1)
             else (case try_self t l DPS_TRANSLOCK_S st1 of
                     (rc2, st2) \<Rightarrow>
                       if rc2 \<noteq> SDB_OK then (rc2, tl_release t (intent_id l) st2) else (rc2, st2)))
      else try_self t l DPS_TRANSLOCK_S st)"

definition tryX :: "tid \<Rightarrow> dpsTransLockId \<Rightarrow> lockSys \<Rightarrow> sdb_rc \<times> lockSys" where
  "tryX t l st =
     (if collectionID l \<noteq> DMS_INVALID_MBID then
        (case tryIX t (intent_id l) st of
           (rc, st1) \<Rightarrow>
             if rc \<noteq> SDB_OK then (rc, st1)
             else (case try_self t l DPS_TRANSLOCK_X st1 of
                     (rc2, st2) \<Rightarrow>
                       if rc2 \<noteq> SDB_OK then (rc2, tl_release t (intent_id l) st2) else (rc2, st2)))
      else try_self t l DPS_TRANSLOCK_X st)"

section \<open>Testing a lock\<close>

text \<open>The tests change nothing but that \<^verbatim>\<open>getBucket\<close> may make an empty bucket.\<close>

definition testUpgrade ::
  "tid \<Rightarrow> dpsTransLockId \<Rightarrow> dpsTransCBLockInfo \<Rightarrow> DPS_TRANSLOCK_TYPE \<Rightarrow> lockSys \<Rightarrow> sdb_rc \<times> lockSys" where
  "testUpgrade t l info type st =
     (let rc = upgradeCheck (lockType info) type in
      if rc \<noteq> SDB_OK then (rc, st)
      else (let st1 = getBucket l st in (bucket_test t l type st1, st1)))"

definition test_self ::
  "tid \<Rightarrow> dpsTransLockId \<Rightarrow> dpsTransCBLockInfo option \<Rightarrow> DPS_TRANSLOCK_TYPE \<Rightarrow> lockSys \<Rightarrow> sdb_rc \<times> lockSys" where
  "test_self t l oinfo type st =
     (case oinfo of
        Some info \<Rightarrow> testUpgrade t l info type st
      | None \<Rightarrow> (let st1 = getBucket l st in (bucket_test t l type st1, st1)))"

function testIS :: "tid \<Rightarrow> dpsTransLockId \<Rightarrow> lockSys \<Rightarrow> sdb_rc \<times> lockSys" where
  "testIS t l st =
     (case getInfo t l st of
        Some info \<Rightarrow> (SDB_OK, st)
      | None \<Rightarrow>
          (let test = (\<lambda>st1. let st2 = getBucket l st1 in (bucket_test t l DPS_TRANSLOCK_IS st2, st2))
           in if collectionID l \<noteq> DMS_INVALID_MBID then
                (case testIS t (space_id l) st of
                   (rc, st1) \<Rightarrow> if rc \<noteq> SDB_OK then (rc, st1) else test st1)
              else test st))"
  by pat_completeness auto
termination
  by (relation "measure (\<lambda>(t, l, st). lock_level l)") auto

declare testIS.simps [simp del]

definition testIX :: "tid \<Rightarrow> dpsTransLockId \<Rightarrow> lockSys \<Rightarrow> sdb_rc \<times> lockSys" where
  "testIX t l st =
     (let oinfo = getInfo t l st in
      if oinfo \<noteq> None \<and> isLockMatch (the oinfo) DPS_TRANSLOCK_IX then (SDB_OK, st)
      else if collectionID l \<noteq> DMS_INVALID_MBID then
        (case testIS t (space_id l) st of
           (rc, st1) \<Rightarrow>
             if rc \<noteq> SDB_OK then (rc, st1) else test_self t l oinfo DPS_TRANSLOCK_IX st1)
      else test_self t l oinfo DPS_TRANSLOCK_IX st)"

definition testS :: "tid \<Rightarrow> dpsTransLockId \<Rightarrow> lockSys \<Rightarrow> sdb_rc \<times> lockSys" where
  "testS t l st =
     (let oinfo = getInfo t l st in
      if oinfo \<noteq> None \<and> isLockMatch (the oinfo) DPS_TRANSLOCK_S then (SDB_OK, st)
      else if collectionID l \<noteq> DMS_INVALID_MBID then
        (case testIS t (intent_id l) st of
           (rc, st1) \<Rightarrow>
             if rc \<noteq> SDB_OK then (rc, st1) else test_self t l oinfo DPS_TRANSLOCK_S st1)
      else test_self t l oinfo DPS_TRANSLOCK_S st)"

definition testX :: "tid \<Rightarrow> dpsTransLockId \<Rightarrow> lockSys \<Rightarrow> sdb_rc \<times> lockSys" where
  "testX t l st =
     (let oinfo = getInfo t l st in
      if oinfo \<noteq> None \<and> isLockMatch (the oinfo) DPS_TRANSLOCK_X then (SDB_OK, st)
      else if collectionID l \<noteq> DMS_INVALID_MBID then
        (case testIX t (intent_id l) st of
           (rc, st1) \<Rightarrow>
             if rc \<noteq> SDB_OK then (rc, st1) else test_self t l oinfo DPS_TRANSLOCK_X st1)
      else test_self t l oinfo DPS_TRANSLOCK_X st)"

section \<open>Trying a lock or joining the queue\<close>

definition tryUpgradeOrAppendHead ::
  "tid \<Rightarrow> dpsTransLockId \<Rightarrow> dpsTransCBLockInfo \<Rightarrow> DPS_TRANSLOCK_TYPE \<Rightarrow> lockSys \<Rightarrow> (sdb_rc \<times> lockSys) option" where
  "tryUpgradeOrAppendHead t l info type st =
     (let rc = upgradeCheck (lockType info) type in
      if rc \<noteq> SDB_OK then Some (rc, st)
      else
        map_option
          (\<lambda>(rc2, st2).
             if rc2 \<noteq> SDB_OK \<and> rc2 \<noteq> SDB_DPS_TRANS_APPEND_TO_WAIT
             then (rc2, setType t l (lockType info) st2) else (rc2, st2))
          (bucket_tryAcquireOrAppend t l type True (setType t l type (getBucket l st))))"

definition tryOrAppendX :: "tid \<Rightarrow> dpsTransLockId \<Rightarrow> lockSys \<Rightarrow> (sdb_rc \<times> lockSys) option" where
  "tryOrAppendX t l st =
     (let i = LockId (logicCSID l) (collectionID l) DMS_INVALID_EXTENT DMS_INVALID_OFFSET;
          clear = (\<lambda>(rc, st1). if rc \<noteq> SDB_OK then (rc, tl_release t i st1) else (rc, st1))
      in case tryIX t i st of
           (rc, st1) \<Rightarrow>
             if rc \<noteq> SDB_OK then Some (rc, st1)
             else
               (case getInfo t l st1 of
                  Some info \<Rightarrow>
                    if isLockMatch info DPS_TRANSLOCK_X then Some (SDB_OK, incInfo t l st1)
                    else map_option
                           (\<lambda>(rc2, st2). clear (if rc2 = SDB_OK then (rc2, incInfo t l st2) else (rc2, st2)))
                           (tryUpgradeOrAppendHead t l info DPS_TRANSLOCK_X st1)
                | None \<Rightarrow>
                    map_option
                      (\<lambda>(rc2, st2).
                         if rc2 \<noteq> SDB_OK then
                           (if rc2 = SDB_DPS_TRANS_APPEND_TO_WAIT then (rc2, st2)
                            else clear (rc2, delInfo t l st2))
                         else (rc2, st2))
                      (bucket_tryAcquireOrAppend t l DPS_TRANSLOCK_X False
                         (addInfo t l DPS_TRANSLOCK_X (getBucket l st1)))))"

definition tl_wait :: "tid \<Rightarrow> dpsTransLockId \<Rightarrow> env_steps \<Rightarrow> lockSys \<Rightarrow> (sdb_rc \<times> lockSys \<times> env_steps) option" where
  "tl_wait t l envs st = bucket_waitLockX t l envs (getBucket l st)"

definition tl_hasWait :: "dpsTransLockId \<Rightarrow> lockSys \<Rightarrow> bool \<times> lockSys" where
  "tl_hasWait l st = (let st1 = getBucket l st in (bucket_hasWait l st1, st1))"

section \<open>Acquiring a lock, waiting if need be\<close>

definition tl_upgrade ::
  "tid \<Rightarrow> dpsTransLockId \<Rightarrow> dpsTransCBLockInfo \<Rightarrow> DPS_TRANSLOCK_TYPE \<Rightarrow> env_steps \<Rightarrow> lockSys \<Rightarrow>
   (sdb_rc \<times> lockSys \<times> env_steps) option" where
  "tl_upgrade t l info type envs st =
     (let rc = upgradeCheck (lockType info) type in
      if rc \<noteq> SDB_OK then Some (rc, st, envs)
      else
        map_option
          (\<lambda>(rc2, st2, envs2).
             if rc2 \<noteq> SDB_OK then (rc2, setType t l (lockType info) st2, envs2) else (rc2, st2, envs2))
          (bucket_upgrade t l type envs (setType t l type (getBucket l st))))"

text \<open>The first lock of an EDU on an identifier, inside the scope of \<^verbatim>\<open>DPS_TRANS_WAIT_LOCK\<close>.\<close>

definition acquire_new ::
  "tid \<Rightarrow> dpsTransLockId \<Rightarrow> DPS_TRANSLOCK_TYPE \<Rightarrow> env_steps \<Rightarrow> lockSys \<Rightarrow> (sdb_rc \<times> lockSys \<times> env_steps) option" where
  "acquire_new t l type envs st =
     map_option
       (\<lambda>(rc, st1, envs1).
          (let st2 = upd_edu t clearWaitLock st1 in
           if rc \<noteq> SDB_OK then (rc, delInfo t l st2, envs1) else (rc, st2, envs1)))
       (bucket_acquire t l type envs (addInfo t l type (upd_edu t (setWaitLock l) (getBucket l st))))"

definition acquire_self ::
  "tid \<Rightarrow> dpsTransLockId \<Rightarrow> DPS_TRANSLOCK_TYPE \<Rightarrow> env_steps \<Rightarrow> lockSys \<Rightarrow> (sdb_rc \<times> lockSys \<times> env_steps) option" where
  "acquire_self t l type envs st =
     (case getInfo t l st of
        Some info \<Rightarrow>
          if isLockMatch info type then Some (SDB_OK, incInfo t l st, envs)
          else map_option
                 (\<lambda>(rc, st1, envs1). if rc = SDB_OK then (rc, incInfo t l st1, envs1) else (rc, st1, envs1))
                 (tl_upgrade t l info type envs st)
      | None \<Rightarrow> acquire_new t l type envs st)"

text \<open>The error path of the acquiring operations gives the intention lock back.\<close>

definition undo_intent ::
  "tid \<Rightarrow> dpsTransLockId \<Rightarrow> sdb_rc \<times> lockSys \<times> env_steps \<Rightarrow> sdb_rc \<times> lockSys \<times> env_steps" where
  "undo_intent t i r =
     (case r of (rc, st, envs) \<Rightarrow> if rc \<noteq> SDB_OK then (rc, tl_release t i st, envs) else r)"

definition acquireIS_self ::
  "tid \<Rightarrow> dpsTransLockId \<Rightarrow> env_steps \<Rightarrow> lockSys \<Rightarrow> (sdb_rc \<times> lockSys \<times> env_steps) option" where
  "acquireIS_self t l envs st =
     (case getInfo t l st of
        Some info \<Rightarrow> Some (SDB_OK, incInfo t l st, envs)
      | None \<Rightarrow> acquire_new t l DPS_TRANSLOCK_IS envs st)"

function acquireIS ::
  "tid \<Rightarrow> dpsTransLockId \<Rightarrow> env_steps \<Rightarrow> lockSys \<Rightarrow> (sdb_rc \<times> lockSys \<times> env_steps) option" where
  "acquireIS t l envs st =
     (if collectionID l \<noteq> DMS_INVALID_MBID then
        (case acquireIS t (space_id l) envs st of
           None \<Rightarrow> None
         | Some (rc, st1, envs1) \<Rightarrow>
             if rc \<noteq> SDB_OK then Some (rc, st1, envs1)
             else map_option (undo_intent t (space_id l)) (acquireIS_self t l envs1 st1))
      else acquireIS_self t l envs st)"
  by pat_completeness auto
termination
  by (relation "measure (\<lambda>(t, l, envs, st). lock_level l)") auto

declare acquireIS.simps [simp del]

definition acquireIX ::
  "tid \<Rightarrow> dpsTransLockId \<Rightarrow> env_steps \<Rightarrow> lockSys \<Rightarrow> (sdb_rc \<times> lockSys \<times> env_steps) option" where
  "acquireIX t l envs st =
     (if collectionID l \<noteq> DMS_INVALID_MBID then
        (case acquireIS t (space_id l) envs st of
           None \<Rightarrow> None
         | Some (rc, st1, envs1) \<Rightarrow>
             if rc \<noteq> SDB_OK then Some (rc, st1, envs1)
             else map_option (undo_intent t (space_id l)) (acquire_self t l DPS_TRANSLOCK_IX envs1 st1))
      else acquire_self t l DPS_TRANSLOCK_IX envs st)"

definition acquireS ::
  "tid \<Rightarrow> dpsTransLockId \<Rightarrow> env_steps \<Rightarrow> lockSys \<Rightarrow> (sdb_rc \<times> lockSys \<times> env_steps) option" where
  "acquireS t l envs st =
     (if collectionID l \<noteq> DMS_INVALID_MBID then
        (case acquireIS t (intent_id l) envs st of
           None \<Rightarrow> None
         | Some (rc, st1, envs1) \<Rightarrow>
             if rc \<noteq> SDB_OK then Some (rc, st1, envs1)
             else map_option (undo_intent t (intent_id l)) (acquire_self t l DPS_TRANSLOCK_S envs1 st1))
      else acquire_self t l DPS_TRANSLOCK_S envs st)"

definition acquireX ::
  "tid \<Rightarrow> dpsTransLockId \<Rightarrow> env_steps \<Rightarrow> lockSys \<Rightarrow> (sdb_rc \<times> lockSys \<times> env_steps) option" where
  "acquireX t l envs st =
     (if collectionID l \<noteq> DMS_INVALID_MBID then
        (case acquireIX t (intent_id l) envs st of
           None \<Rightarrow> None
         | Some (rc, st1, envs1) \<Rightarrow>
             if rc \<noteq> SDB_OK then Some (rc, st1, envs1)
             else map_option (undo_intent t (intent_id l)) (acquire_self t l DPS_TRANSLOCK_X envs1 st1))
      else acquire_self t l DPS_TRANSLOCK_X envs st)"

end
