(* ===== verification/TransLockTable.thy ===== *)
theory TransLockTable
  imports TransLock
begin

text \<open>
  The lock manager refines a flat table: for every EDU and lock the mode it holds and how often.
  Buckets, lock units, run lists with their early exit, the rollback of a failed upgrade and the
  writes through pointers disappear in the table.
\<close>

section \<open>What the operations change\<close>

named_theorems lock_laws \<open>what the observers see after an update of the lock manager\<close>

definition runs :: "lockSys \<Rightarrow> dpsTransLockId \<Rightarrow> (tid \<times> DPS_TRANSLOCK_TYPE) list" where
  "runs st l = (case findUnit l st of None \<Rightarrow> [] | Some u \<Rightarrow> runList u)"

definition has_bucket :: "dpsTransLockId \<Rightarrow> lockSys \<Rightarrow> bool" where
  "has_bucket l st \<longleftrightarrow> bucketLst st (getBucketNo l) \<noteq> None"

definition locks :: "lockSys \<Rightarrow> tid \<Rightarrow> (dpsTransLockId \<times> dpsTransCBLockInfo) list" where
  "locks st t = transLockLst (edus st t)"

lemma getInfo_locks: "getInfo t l st = map_of (locks st t) l"
  by (simp add: getInfo_def getTransLock_def locks_def)

lemma findUnit_putUnit [lock_laws]:
  "has_bucket l st \<Longrightarrow> findUnit l' (putUnit l u st) = (if l' = l then Some u else findUnit l' st)"
  by (auto simp: findUnit_def putUnit_def has_bucket_def split: option.splits)

lemma findUnit_eraseUnit [lock_laws]:
  "findUnit l' (eraseUnit l st) = (if l' = l then None else findUnit l' st)"
  by (auto simp: findUnit_def eraseUnit_def split: option.splits)

lemma findUnit_getBucket [lock_laws]: "findUnit l' (getBucket l st) = findUnit l' st"
  by (auto simp: findUnit_def getBucket_def split: option.splits)

lemma findUnit_upd_edu [lock_laws]: "findUnit l (upd_edu t f st) = findUnit l st"
  by (simp add: findUnit_def upd_edu_def)

lemma has_bucket_laws [lock_laws]:
  "has_bucket l (getBucket l st)"
  "has_bucket l (upd_edu t f st) = has_bucket l st"
  "has_bucket l (putUnit l' u st) = has_bucket l st"
  "has_bucket l (eraseUnit l' st) = has_bucket l st"
  by (auto simp: has_bucket_def getBucket_def upd_edu_def putUnit_def eraseUnit_def split: option.splits)

lemma has_bucket_findUnit: "findUnit l st = Some u \<Longrightarrow> has_bucket l st"
  by (auto simp: has_bucket_def findUnit_def split: option.splits)

lemma locks_laws [lock_laws]:
  "locks (putUnit l u st) = locks st"
  "locks (eraseUnit l st) = locks st"
  "locks (getBucket l st) = locks st"
  "locks (wakeUp t st) = locks st"
  "locks (addInfo t l type st) = (locks st)(t := smap_put l (LockInfo_new type) (locks st t))"
  by (auto simp: fun_eq_iff locks_def putUnit_def eraseUnit_def getBucket_def wakeUp_def upd_edu_def
      postEvent_def addInfo_def addLockInfo_def split: option.splits)

lemma locks_onInfo [lock_laws]:
  "locks (onInfo t l f st) =
     (case getInfo t l st of None \<Rightarrow> locks st
      | Some info \<Rightarrow> (locks st)(t := smap_put l (f info) (locks st t)))"
  by (auto simp: fun_eq_iff locks_def onInfo_def upd_edu_def putLockInfo_def split: option.splits)

lemma locks_delInfo [lock_laws]:
  "map_of (locks (delInfo t l st) t') = (if t' = t then (map_of (locks st t))(l := None) else map_of (locks st t'))"
  "smap_ok (locks st t') \<Longrightarrow> smap_ok (locks (delInfo t l st) t')"
  by (auto simp: fun_eq_iff locks_def delInfo_def upd_edu_def delLockInfo_def split: option.splits)

lemma runs_laws [lock_laws]:
  "runs (getBucket l st) = runs st"
  "runs (wakeUp t st) = runs st"
  "runs (addInfo t l type st) = runs st"
  "runs (delInfo t l st) = runs st"
  "runs (onInfo t l f st) = runs st"
  "runs (upd_edu t g st) = runs st"
  by (auto simp: fun_eq_iff runs_def wakeUp_def addInfo_def delInfo_def onInfo_def lock_laws split: option.splits)

lemma runs_putUnit [lock_laws]: "has_bucket l st \<Longrightarrow> runs (putUnit l u st) = (runs st)(l := runList u)"
  by (auto simp: fun_eq_iff runs_def lock_laws)

lemma runs_eraseUnit [lock_laws]: "runs (eraseUnit l st) = (runs st)(l := [])"
  by (auto simp: fun_eq_iff runs_def lock_laws)

section \<open>The compatibility check\<close>

definition pairwise_ok :: "(tid \<times> DPS_TRANSLOCK_TYPE) list \<Rightarrow> bool" where
  "pairwise_ok rs \<longleftrightarrow> (\<forall>(t, m) \<in> set rs. \<forall>(t', m') \<in> set rs. t \<noteq> t' \<longrightarrow> isLockCompatible m m')"

definition grantable :: "tid \<Rightarrow> DPS_TRANSLOCK_TYPE \<Rightarrow> (tid \<times> DPS_TRANSLOCK_TYPE) list \<Rightarrow> bool" where
  "grantable t m rs \<longleftrightarrow> (\<forall>(t', m') \<in> set rs. t' \<noteq> t \<longrightarrow> isLockCompatible m' m)"

lemma check_walk_grantable:
  "pairwise_ok rs \<Longrightarrow> distinct (map fst rs) \<Longrightarrow> check_walk t m rs \<longleftrightarrow> grantable t m rs"
proof (induction t m rs rule: check_walk.induct)
  case (2 t type t' type' rs)
  have ok: "pairwise_ok rs" using 2(3) by (auto simp: pairwise_ok_def)
  show ?case
  proof (cases "type' = type \<and> type \<noteq> DPS_TRANSLOCK_X")
    case True
    have "isLockCompatible type type" using True by (cases type) (simp_all add: isLockCompatible_table)
    moreover have "isLockCompatible m type" if "(u, m) \<in> set rs" for u m
    proof -
      have "u \<noteq> t'" using that 2(4) by force
      with that 2(3) True show ?thesis by (fastforce simp: pairwise_ok_def)
    qed
    ultimately show ?thesis using True by (auto simp: grantable_def)
  next
    case False
    with 2(1,2,4) ok show ?thesis by (auto simp: grantable_def)
  qed
qed (simp add: grantable_def)

section \<open>The invariant\<close>

definition tl_inv :: "lockSys \<Rightarrow> bool" where
  "tl_inv st \<longleftrightarrow>
     (\<forall>l. smap_ok (runs st l) \<and> pairwise_ok (runs st l)) \<and>
     (\<forall>t. smap_ok (locks st t)) \<and>
     (\<forall>t l. map_of (runs st l) t = map_option lockType (map_of (locks st t) l)) \<and>
     (\<forall>t l info. map_of (locks st t) l = Some info \<longrightarrow> 0 \<le> lockRef info)"

lemma tl_inv_new: "tl_inv lockSys_new"
  by (simp add: tl_inv_def runs_def findUnit_def locks_def lockSys_new_def eduCB_new_def pairwise_ok_def)

text \<open>The invariant only depends on run lists and lock lists.\<close>

lemma tl_inv_cong:
  assumes "runs st' = runs st" and "\<And>t. map_of (locks st' t) = map_of (locks st t)"
    and "\<And>t. smap_ok (locks st' t)" and "tl_inv st"
  shows "tl_inv st'"
  using assms by (simp add: tl_inv_def)

section \<open>The table\<close>

type_synonym lock_table = "tid \<Rightarrow> dpsTransLockId \<Rightarrow> (DPS_TRANSLOCK_TYPE \<times> int) option"

definition tbl :: "lockSys \<Rightarrow> lock_table" where
  "tbl st t l = map_option (\<lambda>info. (lockType info, lockRef info)) (map_of (locks st t) l)"

definition upd_tbl :: "tid \<Rightarrow> dpsTransLockId \<Rightarrow> (DPS_TRANSLOCK_TYPE \<times> int) option \<Rightarrow> lock_table \<Rightarrow> lock_table" where
  "upd_tbl t l v T = T(t := (T t)(l := v))"

text \<open>A mode can be granted when no other EDU holds a conflicting one.\<close>

definition others_allow :: "lock_table \<Rightarrow> tid \<Rightarrow> dpsTransLockId \<Rightarrow> DPS_TRANSLOCK_TYPE \<Rightarrow> bool" where
  "others_allow T t l m \<longleftrightarrow> (\<forall>t' m' r. t' \<noteq> t \<longrightarrow> T t' l = Some (m', r) \<longrightarrow> isLockCompatible m' m)"

definition a_try :: "tid \<Rightarrow> dpsTransLockId \<Rightarrow> DPS_TRANSLOCK_TYPE \<Rightarrow> lock_table \<Rightarrow> sdb_rc \<times> lock_table" where
  "a_try t l m T =
     (case T t l of
        None \<Rightarrow>
          if others_allow T t l m then (SDB_OK, upd_tbl t l (Some (m, 0)) T)
          else (SDB_DPS_TRANS_LOCK_INCOMPATIBLE, T)
      | Some (m0, r) \<Rightarrow>
          if covers m0 m then (SDB_OK, upd_tbl t l (Some (m0, r + 1)) T)
          else if upgradeCheck m0 m \<noteq> SDB_OK then (SDB_PERM, T)
          else if others_allow T t l m then (SDB_OK, upd_tbl t l (Some (m, r + 1)) T)
          else (SDB_DPS_TRANS_LOCK_INCOMPATIBLE, T))"

definition a_dec :: "tid \<Rightarrow> dpsTransLockId \<Rightarrow> lock_table \<Rightarrow> lock_table" where
  "a_dec t l T =
     (case T t l of
        None \<Rightarrow> T
      | Some (m, r) \<Rightarrow> upd_tbl t l (if r \<le> 0 then None else Some (m, r - 1)) T)"

lemma grantable_others:
  assumes "tl_inv st"
  shows "grantable t m (runs st l) \<longleftrightarrow> others_allow (tbl st) t l m"
proof -
  have "(t', m') \<in> set (runs st l) \<longleftrightarrow> (\<exists>r. tbl st t' l = Some (m', r))" for t' m'
    using assms smap_mem [of "runs st l" t' m'] by (auto simp: tl_inv_def tbl_def)
  then show ?thesis unfolding grantable_def others_allow_def by fast
qed

lemma others_allow_upd [simp]: "others_allow (upd_tbl t l v T) t l m = others_allow T t l m"
  by (simp add: others_allow_def upd_tbl_def)


section \<open>Refinement of one lock\<close>

lemma runList_needUnit: "runList (needUnit l st) = runs st l"
  by (simp add: needUnit_def runs_def LockUnit_new_def split: option.splits)

definition runs_ok :: "lockSys \<Rightarrow> bool" where
  "runs_ok st \<longleftrightarrow> (\<forall>l. smap_ok (runs st l) \<and> pairwise_ok (runs st l))"

lemma tl_inv_runs_ok: "tl_inv st \<Longrightarrow> runs_ok st"
  by (simp add: tl_inv_def runs_ok_def)

lemma appendToRun_eq:
  assumes "smap_ok (runList u)" and "pairwise_ok (runList u)"
  shows "appendToRun t m u =
    (if grantable t m (runList u) then (SDB_OK, u\<lparr>runList := smap_put t m (runList u)\<rparr>)
     else (SDB_DPS_TRANS_LOCK_INCOMPATIBLE, u))"
  using check_walk_grantable [OF assms(2) smap_ok_distinct [OF assms(1)]]
  by (simp add: appendToRun_def checkCompatible_def)

lemma pairwise_ok_put:
  assumes "smap_ok rs" and "pairwise_ok rs" and "grantable t m rs"
  shows "pairwise_ok (smap_put t m rs)"
proof -
  have mem: "(u, v) \<in> set (smap_put t m rs) \<longleftrightarrow> (if u = t then v = m else (u, v) \<in> set rs)" for u v
    using smap_mem [OF smap_ok_put [OF assms(1)], of u v t m] smap_mem [OF assms(1), of u v] by auto
  show ?thesis
    unfolding pairwise_ok_def
  proof (clarify, goal_cases)
    case (1 u v u' v')
    then show ?case
      using assms(2,3) isLockCompatible_sym
      unfolding mem pairwise_ok_def grantable_def by (fastforce split: if_splits)
  qed
qed

lemma bucket_tryAcquire_runs:
  assumes "runs_ok st" and "has_bucket l st"
  obtains st' where "bucket_tryAcquire t l m st =
      (if grantable t m (runs st l) then SDB_OK else SDB_DPS_TRANS_LOCK_INCOMPATIBLE, st')"
    and "locks st' = locks st" and "has_bucket l st'"
    and "runs st' = (if grantable t m (runs st l) then (runs st)(l := smap_put t m (runs st l)) else runs st)"
proof -
  have u: "smap_ok (runList (needUnit l st))" "pairwise_ok (runList (needUnit l st))"
    using assms(1) by (simp_all add: runList_needUnit runs_ok_def)
  show thesis
    by (rule that [of "putUnit l (snd (appendToRun t m (needUnit l st))) st"])
       (use assms in \<open>auto simp: bucket_tryAcquire_def appendToRun_eq [OF u] lock_laws runList_needUnit fun_eq_iff\<close>)
qed

lemma tl_inv_grant:
  assumes inv: "tl_inv st" and ok: "grantable t (lockType info) (runs st l)"
    and r: "runs st' = (runs st)(l := smap_put t (lockType info) (runs st l))"
    and lk: "\<And>t'. map_of (locks st' t') =
      (if t' = t then (map_of (locks st t))(l \<mapsto> info) else map_of (locks st t'))"
    and sm: "\<And>t'. smap_ok (locks st' t')" and ref: "0 \<le> lockRef info"
  shows "tl_inv st' \<and> tbl st' = upd_tbl t l (Some (lockType info, lockRef info)) (tbl st)"
proof
  from inv have "smap_ok (runs st l)" "pairwise_ok (runs st l)" by (auto simp: tl_inv_def)
  then show "tl_inv st'"
    using inv ok ref unfolding tl_inv_def r lk by (auto simp: sm pairwise_ok_put)
  show "tbl st' = upd_tbl t l (Some (lockType info, lockRef info)) (tbl st)"
    by (auto simp: fun_eq_iff tbl_def upd_tbl_def lk)
qed

text \<open>Writing back the lock information with the mode it has in the run list.\<close>

lemma tl_inv_ref:
  assumes inv: "tl_inv st" and old: "getInfo t l st = Some info0"
    and r: "runs st' = runs st"
    and lk: "locks st' = (locks st)(t := smap_put l info (locks st t))"
    and ty: "lockType info = lockType info0" and ref: "0 \<le> lockRef info"
  shows "tl_inv st' \<and> tbl st' = upd_tbl t l (Some (lockType info, lockRef info)) (tbl st)"
proof
  from inv show "tl_inv st'"
    using old ty ref unfolding tl_inv_def r lk getInfo_locks by auto
  show "tbl st' = upd_tbl t l (Some (lockType info, lockRef info)) (tbl st)"
    by (auto simp: fun_eq_iff tbl_def upd_tbl_def lk)
qed

lemma tbl_getInfo: "tbl st t l = map_option (\<lambda>info. (lockType info, lockRef info)) (getInfo t l st)"
  by (simp add: tbl_def getInfo_locks)

lemma incInfo_refines:
  assumes inv: "tl_inv st" and info: "getInfo t l st = Some info"
  shows "tl_inv (incInfo t l st) \<and>
         tbl (incInfo t l st) = upd_tbl t l (Some (lockType info, lockRef info + 1)) (tbl st)"
proof -
  have "0 \<le> lockRef info" using inv info by (auto simp: tl_inv_def getInfo_locks)
  with tl_inv_ref [OF inv info, of "incInfo t l st" "info\<lparr>lockRef := lockRef info + 1\<rparr>"] show ?thesis
    by (simp add: incInfo_def lock_laws info incRef_def)
qed

lemma try_new_refines:
  assumes inv: "tl_inv st" and new: "getInfo t l st = None" and r: "try_new t l m st = (rc, st')"
  shows "tl_inv st' \<and> (rc, tbl st') = a_try t l m (tbl st)"
proof -
  let ?s1 = "addInfo t l m (getBucket l st)"
  have s1: "runs ?s1 = runs st" "locks ?s1 = (locks st)(t := smap_put l (LockInfo_new m) (locks st t))"
    "has_bucket l ?s1" by (simp_all add: lock_laws addInfo_def)
     (simp add: addInfo_def [symmetric] lock_laws)
  have "runs_ok ?s1" using tl_inv_runs_ok [OF inv] s1(1) by (simp add: runs_ok_def)
  from bucket_tryAcquire_runs [OF this s1(3), of t m] obtain s2 where s2:
    "bucket_tryAcquire t l m ?s1 =
      (if grantable t m (runs st l) then SDB_OK else SDB_DPS_TRANS_LOCK_INCOMPATIBLE, s2)"
    "locks s2 = locks ?s1"
    "runs s2 = (if grantable t m (runs st l) then (runs st)(l := smap_put t m (runs st l)) else runs st)"
    unfolding s1(1) by blast
  have sm: "smap_ok (locks st t')" for t' using inv by (simp add: tl_inv_def)
  show ?thesis
  proof (cases "grantable t m (runs st l)")
    case True
    have "st' = s2" "rc = SDB_OK" using r s2(1) True by (auto simp: try_new_def)
    moreover have "tl_inv s2 \<and> tbl s2 = upd_tbl t l (Some (m, 0)) (tbl st)"
      using tl_inv_grant [OF inv, of t "LockInfo_new m" l s2] True s2(2,3) s1(2) sm
      by (auto simp: LockInfo_new_def)
    ultimately show ?thesis
      using True new grantable_others [OF inv] by (simp add: a_try_def tbl_getInfo)
  next
    case False
    have st': "st' = delInfo t l s2" "rc = SDB_DPS_TRANS_LOCK_INCOMPATIBLE"
      using r s2(1) False by (auto simp: try_new_def)
    have lk: "map_of (locks st' t') = map_of (locks st t')" for t'
      using new unfolding st' by (auto simp: lock_laws s2(2) s1(2) getInfo_locks fun_eq_iff)
    have "smap_ok (locks st' t')" for t' unfolding st' by (rule locks_delInfo(2)) (simp add: s2(2) s1(2) sm)
    then have "tl_inv st'" using tl_inv_cong [OF _ lk _ inv] st' s2(3) False by (simp add: lock_laws)
    moreover have "tbl st' = tbl st" by (simp add: fun_eq_iff tbl_def lk)
    ultimately show ?thesis
      using False new st'(2) grantable_others [OF inv] by (simp add: a_try_def tbl_getInfo)
  qed
qed

lemma tryUpgrade_refines:
  assumes inv: "tl_inv st" and info: "getInfo t l st = Some info"
    and r: "tryUpgrade t l info m st = (rc, st')"
  shows "(if upgradeCheck (lockType info) m \<noteq> SDB_OK then rc = SDB_PERM \<and> st' = st
          else if grantable t m (runs st l) then
            rc = SDB_OK \<and> tl_inv st' \<and> getInfo t l st' = Some (info\<lparr>lockType := m\<rparr>) \<and>
            tbl st' = upd_tbl t l (Some (m, lockRef info)) (tbl st)
          else rc = SDB_DPS_TRANS_LOCK_INCOMPATIBLE \<and> tl_inv st' \<and> tbl st' = tbl st)"
proof (cases "upgradeCheck (lockType info) m = SDB_OK")
  case False
  then have "upgradeCheck (lockType info) m = SDB_PERM" by (simp add: upgradeCheck_def split: if_splits)
  with r show ?thesis by (simp add: tryUpgrade_def)
next
  case True
  let ?s1 = "setType t l m (getBucket l st)"
  have gi: "getInfo t l (getBucket l st) = Some info" using info by (simp add: getInfo_locks lock_laws)
  have s1: "runs ?s1 = runs st" "locks ?s1 = (locks st)(t := smap_put l (info\<lparr>lockType := m\<rparr>) (locks st t))"
    by (simp_all add: setType_def lock_laws gi)
  have hb: "has_bucket l ?s1" by (simp add: setType_def onInfo_def gi lock_laws)
  have "runs_ok ?s1" using tl_inv_runs_ok [OF inv] s1(1) by (simp add: runs_ok_def)
  from bucket_tryAcquire_runs [OF this hb, of t m] obtain s2 where s2:
    "bucket_tryAcquire t l m ?s1 =
      (if grantable t m (runs st l) then SDB_OK else SDB_DPS_TRANS_LOCK_INCOMPATIBLE, s2)"
    "locks s2 = locks ?s1"
    "runs s2 = (if grantable t m (runs st l) then (runs st)(l := smap_put t m (runs st l)) else runs st)"
    unfolding s1(1) by blast
  have sm: "smap_ok (locks st t')" for t' using inv by (simp add: tl_inv_def)
  have ref: "0 \<le> lockRef info" using inv info by (auto simp: tl_inv_def getInfo_locks)
  show ?thesis
  proof (cases "grantable t m (runs st l)")
    case grant: True
    have st': "st' = s2" "rc = SDB_OK" using r s2(1) grant True by (auto simp: tryUpgrade_def)
    have "tl_inv s2 \<and> tbl s2 = upd_tbl t l (Some (m, lockRef info)) (tbl st)"
      using tl_inv_grant [OF inv, of t "info\<lparr>lockType := m\<rparr>" l s2] grant s2(2,3) s1(2) sm ref by auto
    then show ?thesis using st' True grant s2(2) s1(2) by (simp add: getInfo_locks)
  next
    case refuse: False
    have st': "st' = setType t l (lockType info) s2" "rc = SDB_DPS_TRANS_LOCK_INCOMPATIBLE"
      using r s2(1) refuse True by (auto simp: tryUpgrade_def)
    have g2: "getInfo t l s2 = Some (info\<lparr>lockType := m\<rparr>)" by (simp add: getInfo_locks s2(2) s1(2))
    have lk: "map_of (locks st' t') = map_of (locks st t')" for t'
      using info unfolding st' by (auto simp: setType_def lock_laws g2 s2(2) s1(2) getInfo_locks fun_eq_iff)
    have "smap_ok (locks st' t')" for t'
      unfolding st' by (simp add: setType_def lock_laws g2 gi s2(2) sm)
    then have "tl_inv st'" using tl_inv_cong [OF _ lk _ inv] st' s2(3) refuse by (simp add: setType_def lock_laws)
    moreover have "tbl st' = tbl st" by (simp add: fun_eq_iff tbl_def lk)
    ultimately show ?thesis using st' True refuse by simp
  qed
qed

lemma upd_tbl_twice [simp]: "upd_tbl t l v (upd_tbl t l w T) = upd_tbl t l v T"
  by (simp add: upd_tbl_def fun_eq_iff)

lemma try_self_refines:
  assumes inv: "tl_inv st" and r: "try_self t l m st = (rc, st')"
  shows "tl_inv st' \<and> (rc, tbl st') = a_try t l m (tbl st)"
proof (cases "getInfo t l st")
  case None
  with r have "try_new t l m st = (rc, st')" by (simp add: try_self_def)
  from try_new_refines [OF inv None this] show ?thesis .
next
  case (Some info)
  show ?thesis
  proof (cases "isLockMatch info m")
    case True
    with Some r incInfo_refines [OF inv Some] show ?thesis
      by (auto simp: try_self_def a_try_def tbl_getInfo isLockMatch_covers)
  next
    case False
    obtain rc1 st1 where u: "tryUpgrade t l info m st = (rc1, st1)" by force
    note up = tryUpgrade_refines [OF inv Some u]
    have res: "(rc, st') = (if rc1 = SDB_OK then (rc1, incInfo t l st1) else (rc1, st1))"
      using r Some False u by (simp add: try_self_def)
    have at: "a_try t l m (tbl st) = (if upgradeCheck (lockType info) m \<noteq> SDB_OK then (SDB_PERM, tbl st)
        else if grantable t m (runs st l) then (SDB_OK, upd_tbl t l (Some (m, lockRef info + 1)) (tbl st))
        else (SDB_DPS_TRANS_LOCK_INCOMPATIBLE, tbl st))"
      using False Some grantable_others [OF inv] by (simp add: a_try_def tbl_getInfo isLockMatch_covers)
    show ?thesis
    proof (cases "upgradeCheck (lockType info) m = SDB_OK \<and> grantable t m (runs st l)")
      case True
      with up have "tl_inv st1" "getInfo t l st1 = Some (info\<lparr>lockType := m\<rparr>)"
        "tbl st1 = upd_tbl t l (Some (m, lockRef info)) (tbl st)" "rc1 = SDB_OK" by auto
      with incInfo_refines [of st1 t l "info\<lparr>lockType := m\<rparr>"] res at True show ?thesis by simp
    next
      case False
      with up res at inv show ?thesis by (auto split: if_splits)
    qed
  qed
qed


section \<open>Refinement of release\<close>

lemma smap_erase_None: "map_of m k = None \<Longrightarrow> smap_erase k m = m"
  by (simp add: smap_erase_absent map_of_eq_None_iff)

lemma bucket_release_laws:
  "runs (bucket_release t l st) = (runs st)(l := smap_erase t (runs st l))"
  "locks (bucket_release t l st) = locks st"
proof -
  show "runs (bucket_release t l st) = (runs st)(l := smap_erase t (runs st l))"
  proof (cases "findUnit l st")
    case None
    then show ?thesis by (auto simp: bucket_release_def runs_def smap_erase_def)
  next
    case (Some u)
    have "runs st l = runList u" using Some by (simp add: runs_def)
    then show ?thesis
      using Some has_bucket_findUnit [OF Some]
      by (cases "unitWaitCB u")
         (auto simp: bucket_release_def removeFromRun_def Let_def lock_laws fun_eq_iff)
  qed
  show "locks (bucket_release t l st) = locks st"
    by (auto simp: bucket_release_def removeFromRun_def Let_def lock_laws split: option.splits)
qed

lemma pairwise_ok_erase: "pairwise_ok rs \<Longrightarrow> pairwise_ok (smap_erase t rs)"
  by (auto simp: pairwise_ok_def smap_erase_def)

lemma release_one_refines:
  assumes inv: "tl_inv st" and info: "getInfo t l st = Some info"
  shows "tl_inv (release_one t l info st) \<and> tbl (release_one t l info st) = a_dec t l (tbl st)"
proof -
  let ?s1 = "onInfo t l (\<lambda>i. snd (decRef i)) st"
  have s1: "locks ?s1 = (locks st)(t := smap_put l (info\<lparr>lockRef := lockRef info - 1\<rparr>) (locks st t))"
    "runs ?s1 = runs st" by (simp_all add: lock_laws info decRef_def)
  have sm: "smap_ok (locks st t')" for t' using inv by (simp add: tl_inv_def)
  have one: "release_one t l info st =
      (if lockRef info \<le> 0 then delInfo t l (bucket_release t l (getBucket l ?s1)) else ?s1)"
    by (simp add: release_one_def drop_lock_def decRef_def)
  show ?thesis
  proof (cases "lockRef info \<le> 0")
    case False
    from tl_inv_ref [OF inv info s1(2) s1(1)] False info show ?thesis
      by (simp add: one a_dec_def tbl_getInfo)
  next
    case True
    let ?s2 = "delInfo t l (bucket_release t l (getBucket l ?s1))"
    have lk: "map_of (locks ?s2 t') = (if t' = t then (map_of (locks st t))(l := None) else map_of (locks st t'))" for t'
      by (auto simp: lock_laws bucket_release_laws info decRef_def fun_eq_iff)
    have sm2: "smap_ok (locks ?s2 t')" for t'
      by (rule locks_delInfo(2)) (simp add: bucket_release_laws lock_laws info sm)
    have rn: "runs ?s2 = (runs st)(l := smap_erase t (runs st l))"
      by (simp add: lock_laws bucket_release_laws s1)
    have "tl_inv ?s2"
      using inv unfolding tl_inv_def lk rn by (auto simp: sm2 pairwise_ok_erase)
    moreover have "tbl ?s2 = upd_tbl t l None (tbl st)"
      by (auto simp: fun_eq_iff tbl_def upd_tbl_def lk)
    ultimately show ?thesis using True info by (simp add: one a_dec_def tbl_getInfo)
  qed
qed

function a_release :: "tid \<Rightarrow> dpsTransLockId \<Rightarrow> lock_table \<Rightarrow> lock_table" where
  "a_release t l T =
     (case T t l of
        None \<Rightarrow> T
      | Some _ \<Rightarrow>
          if collectionID l \<noteq> DMS_INVALID_MBID then a_release t (intent_id l) (a_dec t l T)
          else a_dec t l T)"
  by pat_completeness auto
termination
  by (relation "measure (\<lambda>(t, l, T). lock_level l)") auto

declare a_release.simps [simp del]

lemma tl_release_refines:
  "tl_inv st \<Longrightarrow> tl_inv (tl_release t l st) \<and> tbl (tl_release t l st) = a_release t l (tbl st)"
proof (induction "lock_level l" arbitrary: l st rule: less_induct)
  case less
  show ?case
  proof (cases "getInfo t l st")
    case None
    then show ?thesis using less(2) by (simp add: tl_release.simps [of t l] a_release.simps [of t l] tbl_getInfo)
  next
    case (Some info)
    note one = release_one_refines [OF less(2) Some]
    show ?thesis
    proof (cases "collectionID l = DMS_INVALID_MBID")
      case True
      then show ?thesis using Some one by (simp add: tl_release.simps [of t l] a_release.simps [of t l] tbl_getInfo)
    next
      case False
      with less(1) [of "intent_id l" "release_one t l info st"] one Some show ?thesis
        by (simp add: tl_release.simps [of t l] a_release.simps [of t l] tbl_getInfo)
    qed
  qed
qed

lemma releaseAll_loop_laws:
  "locks (releaseAll_loop t ls st) = locks st"
  "runs (releaseAll_loop t ls st) l = (if l \<in> set ls then smap_erase t (runs st l) else runs st l)"
proof (induction t ls st rule: releaseAll_loop.induct)
  case (2 t k ls st)
  have erase2: "smap_erase t (smap_erase t rs) = smap_erase t rs" for rs :: "(nat \<times> DPS_TRANSLOCK_TYPE) list"
    by (simp add: smap_erase_def)
  show "locks (releaseAll_loop t (k # ls) st) = locks st"
    using 2(1) by (simp add: bucket_release_laws lock_laws)
  show "runs (releaseAll_loop t (k # ls) st) l = (if l \<in> set (k # ls) then smap_erase t (runs st l) else runs st l)"
    using 2(2) by (auto simp: bucket_release_laws lock_laws erase2)
qed simp_all

lemma tl_releaseAll_refines:
  assumes inv: "tl_inv st"
  shows "tl_inv (tl_releaseAll t st)" and "tbl (tl_releaseAll t st) = (tbl st)(t := (\<lambda>_. None))"
    and "runs (tl_releaseAll t st) l = smap_erase t (runs st l)"
proof -
  let ?s1 = "releaseAll_loop t (map fst (locks st t)) st"
  have eq: "tl_releaseAll t st = upd_edu t clearLockList ?s1"
    by (simp add: tl_releaseAll_def locks_def)
  have lk: "locks (tl_releaseAll t st) = (locks st)(t := [])"
    using releaseAll_loop_laws(1) [of t "map fst (locks st t)" st]
    by (auto simp: eq fun_eq_iff locks_def upd_edu_def clearLockList_def)
  have rn: "runs (tl_releaseAll t st) l = smap_erase t (runs st l)" for l
  proof (cases "l \<in> set (map fst (locks st t))")
    case True
    then show ?thesis by (simp add: eq lock_laws releaseAll_loop_laws)
  next
    case False
    then have "map_of (locks st t) l = None" by (simp add: map_of_eq_None_iff)
    then have "map_of (runs st l) t = None" using inv by (simp add: tl_inv_def)
    then show ?thesis using False by (simp add: eq lock_laws releaseAll_loop_laws smap_erase_None)
  qed
  then show "runs (tl_releaseAll t st) l = smap_erase t (runs st l)" .
  show "tl_inv (tl_releaseAll t st)"
    using inv unfolding tl_inv_def rn lk by (auto simp: pairwise_ok_erase)
  show "tbl (tl_releaseAll t st) = (tbl st)(t := (\<lambda>_. None))"
    by (auto simp: fun_eq_iff tbl_def lk)
qed


section \<open>Plans\<close>

text \<open>
  The identifiers the engine builds: a space, a collection of it, or a record of a collection.
\<close>

definition id_ok :: "dpsTransLockId \<Rightarrow> bool" where
  "id_ok l \<longleftrightarrow>
     (collectionID l = DMS_INVALID_MBID \<longrightarrow> recordOffset l = DMS_INVALID_OFFSET) \<and>
     (recordOffset l = DMS_INVALID_OFFSET \<longrightarrow> recordExtentID l = DMS_INVALID_EXTENT)"

text \<open>
  What a request amounts to, from the space down. Note that a record lock in mode X asks for mode IX
  on the collection but only for mode IS on the space.
\<close>

definition plan :: "DPS_TRANSLOCK_TYPE \<Rightarrow> dpsTransLockId \<Rightarrow> (dpsTransLockId \<times> DPS_TRANSLOCK_TYPE) list" where
  "plan m l =
     (let i = (if m = DPS_TRANSLOCK_X then DPS_TRANSLOCK_IX else DPS_TRANSLOCK_IS) in
      if lock_level l = 0 then [(l, m)]
      else if lock_level l = 1 then [(space_id l, i), (l, m)]
      else [(space_id l, DPS_TRANSLOCK_IS), (intent_id l, i), (l, m)])"

fun a_lock :: "tid \<Rightarrow> (dpsTransLockId \<times> DPS_TRANSLOCK_TYPE) list \<Rightarrow> lock_table \<Rightarrow> sdb_rc \<times> lock_table" where
  "a_lock t [] T = (SDB_OK, T)"
| "a_lock t ((l, m) # ps) T =
     (case a_try t l m T of
        (rc, T1) \<Rightarrow>
          if rc \<noteq> SDB_OK then (rc, T1)
          else (case a_lock t ps T1 of
                  (rc2, T2) \<Rightarrow> if rc2 \<noteq> SDB_OK then (rc2, a_dec t l T2) else (rc2, T2)))"

definition a_undo :: "tid \<Rightarrow> (dpsTransLockId \<times> DPS_TRANSLOCK_TYPE) list \<Rightarrow> lock_table \<Rightarrow> lock_table" where
  "a_undo t ps T = foldr (\<lambda>p. a_dec t (fst p)) ps T"

lemma a_lock_snoc:
  "a_lock t (ps @ [(l, m)]) T =
     (case a_lock t ps T of
        (rc, T1) \<Rightarrow>
          if rc \<noteq> SDB_OK then (rc, T1)
          else (case a_try t l m T1 of
                  (rc2, T2) \<Rightarrow> if rc2 \<noteq> SDB_OK then (rc2, a_undo t ps T2) else (rc2, T2)))"
  by (induction t ps T rule: a_lock.induct) (auto simp: a_undo_def split: prod.splits)

definition stronger :: "lock_table \<Rightarrow> lock_table \<Rightarrow> bool" where
  "stronger T T' \<longleftrightarrow> (\<forall>t l m r. T t l = Some (m, r) \<longrightarrow> (\<exists>m' r'. T' t l = Some (m', r') \<and> covers m' m))"

lemma stronger_refl [simp]: "stronger T T"
  by (auto simp: stronger_def)

lemma stronger_trans: "stronger T U \<Longrightarrow> stronger U V \<Longrightarrow> stronger T V"
  unfolding stronger_def by (meson covers_trans)

lemma a_try_OK:
  assumes "a_try t l m T = (SDB_OK, T')"
  obtains m' r where "T' = upd_tbl t l (Some (m', r)) T" and "covers m' m"
    and "T t l = None \<Longrightarrow> r = 0 \<and> m' = m \<and> others_allow T t l m"
    and "\<And>m0 r0. T t l = Some (m0, r0) \<Longrightarrow> r = r0 + 1 \<and> covers m' m0"
proof (cases "T t l")
  case None
  with assms show thesis by (intro that [of m 0]) (auto simp: a_try_def split: if_splits)
next
  case (Some p)
  obtain m0 r0 where p: "p = (m0, r0)" by force
  show thesis
  proof (cases "covers m0 m")
    case True
    with Some p assms show thesis by (intro that [of m0 "r0 + 1"]) (auto simp: a_try_def)
  next
    case False
    with Some p assms have "upgradeCheck m0 m = SDB_OK" "T' = upd_tbl t l (Some (m, r0 + 1)) T"
      by (auto simp: a_try_def split: if_splits)
    with Some p upgrade_covers show thesis by (intro that [of m "r0 + 1"]) auto
  qed
qed

lemma a_try_fail: "a_try t l m T = (rc, T') \<Longrightarrow> rc \<noteq> SDB_OK \<Longrightarrow> T' = T"
  by (auto simp: a_try_def split: option.splits if_splits)

lemma a_try_stronger:
  assumes "a_try t l m T = (rc, T')"
  shows "stronger T T'"
proof (cases "rc = SDB_OK")
  case True
  with assms obtain m' r where "T' = upd_tbl t l (Some (m', r)) T"
    "\<And>m0 r0. T t l = Some (m0, r0) \<Longrightarrow> r = r0 + 1 \<and> covers m' m0"
    using a_try_OK by metis
  then show ?thesis by (auto simp: stronger_def upd_tbl_def)
qed (use a_try_fail [OF assms] in simp)

lemma a_lock_OK:
  assumes "a_lock t ps T = (SDB_OK, T')"
  shows "stronger T T'" and "\<And>l m. (l, m) \<in> set ps \<Longrightarrow> \<exists>m' r. T' t l = Some (m', r) \<and> covers m' m"
proof -
  have "stronger T T' \<and> (\<forall>l m. (l, m) \<in> set ps \<longrightarrow> (\<exists>m' r. T' t l = Some (m', r) \<and> covers m' m))"
    using assms
  proof (induction t ps T rule: a_lock.induct)
    case (2 t l m ps T)
    then obtain T1 where T1: "a_try t l m T = (SDB_OK, T1)" "a_lock t ps T1 = (SDB_OK, T')"
      by (auto split: prod.splits if_splits)
    have ih: "stronger T1 T' \<and> (\<forall>l m. (l, m) \<in> set ps \<longrightarrow> (\<exists>m' r. T' t l = Some (m', r) \<and> covers m' m))"
      using 2(1) [OF T1(1) [symmetric] _ T1(2)] by simp
    obtain m1 r where "T1 t l = Some (m1, r)" "covers m1 m"
      using a_try_OK [OF T1(1)] by (metis fun_upd_same upd_tbl_def)
    then obtain m2 r2 where "T' t l = Some (m2, r2)" "covers m2 m"
      using ih covers_trans unfolding stronger_def by blast
    with ih a_try_stronger [OF T1(1)] show ?case by (auto intro: stronger_trans)
  qed simp
  then show "stronger T T'" and "\<And>l m. (l, m) \<in> set ps \<Longrightarrow> \<exists>m' r. T' t l = Some (m', r) \<and> covers m' m"
    by auto
qed

lemma a_release_path:
  assumes "id_ok p" and "lock_level p \<le> 1" and "T t p \<noteq> None"
  shows "a_release t p T = a_undo t (plan m p) T"
proof (cases "lock_level p = 0")
  case True
  with assms(3) show ?thesis
    by (auto simp: a_release.simps [of t p] a_undo_def plan_def lock_level_def Let_def split: if_splits)
next
  case False
  have p: "collectionID p \<noteq> DMS_INVALID_MBID" "recordOffset p = DMS_INVALID_OFFSET"
    "recordExtentID p = DMS_INVALID_EXTENT" "lock_level p = 1"
    using False assms(1,2) by (auto simp: lock_level_def id_ok_def split: if_splits)
  have i: "intent_id p = space_id p" using p by (simp add: intent_id_def space_id_def)
  have c: "collectionID (space_id p) = DMS_INVALID_MBID" by (simp add: space_id_def)
  have "a_release t (space_id p) U = a_dec t (space_id p) U" for U
    by (simp add: a_release.simps [of t "space_id p"] c a_dec_def split: option.split)
  with assms(3) p show ?thesis
    by (auto simp: a_release.simps [of t p] a_undo_def plan_def i)
qed

text \<open>A lock below an intention lock: the shape of all four operations.\<close>

lemma below_refines:
  assumes inv: "tl_inv st" and p: "id_ok p" "lock_level p \<le> 1"
    and par: "\<And>rc st'. par = (rc, st') \<Longrightarrow> tl_inv st' \<and> (rc, tbl st') = a_lock t (plan pm p) (tbl st)"
    and self: "\<And>st rc st'. tl_inv st \<Longrightarrow> self t l st = (rc, st') \<Longrightarrow> tl_inv st' \<and> (rc, tbl st') = a_try t l m (tbl st)"
    and r: "(case par of
               (rc, st1) \<Rightarrow>
                 if rc \<noteq> SDB_OK then (rc, st1)
                 else (case self t l st1 of
                         (rc2, st2) \<Rightarrow> if rc2 \<noteq> SDB_OK then (rc2, tl_release t p st2) else (rc2, st2))) = (rc, st')"
  shows "tl_inv st' \<and> (rc, tbl st') = a_lock t (plan pm p @ [(l, m)]) (tbl st)"
proof -
  obtain rc1 st1 where p1: "par = (rc1, st1)" by force
  note par' = par [OF p1]
  show ?thesis
  proof (cases "rc1 = SDB_OK")
    case False
    with par' p1 r show ?thesis by (auto simp: a_lock_snoc split: prod.splits)
  next
    case True
    obtain rc2 st2 where s: "self t l st1 = (rc2, st2)" by force
    note self' = self [OF conjunct1 [OF par'] s]
    have lock: "a_lock t (plan pm p) (tbl st) = (SDB_OK, tbl st1)" using par' True by simp
    show ?thesis
    proof (cases "rc2 = SDB_OK")
      case True2: True
      with p1 s r True have "rc = SDB_OK" "st' = st2" by auto
      with self' lock True2 show ?thesis by (auto simp: a_lock_snoc split: prod.splits)
    next
      case False
      with p1 s r True have eq: "rc = rc2" "st' = tl_release t p st2" by auto
      have same: "tbl st2 = tbl st1" using a_try_fail [of t l m "tbl st1" rc2 "tbl st2"] self' False by simp
      have "(p, pm) \<in> set (plan pm p)" by (simp add: plan_def Let_def)
      then have "tbl st1 t p \<noteq> None" using a_lock_OK(2) [OF lock] by blast
      then have "a_release t p (tbl st2) = a_undo t (plan pm p) (tbl st2)"
        using a_release_path [OF p] same by simp
      with tl_release_refines [of st2 t p] self' False lock eq show ?thesis
        by (auto simp: a_lock_snoc split: prod.splits)
    qed
  qed
qed

lemma tryIS_self_refines:
  assumes inv: "tl_inv st" and r: "tryIS_self t l st = (rc, st')"
  shows "tl_inv st' \<and> (rc, tbl st') = a_try t l DPS_TRANSLOCK_IS (tbl st)"
proof -
  have "try_self t l DPS_TRANSLOCK_IS st = (rc, st')"
    using r by (auto simp: try_self_def tryIS_self_def isLockMatch_def split: option.splits)
  with try_self_refines [OF inv] show ?thesis by blast
qed

lemma a_lock_single: "a_lock t [(l, m)] T = a_try t l m T"
  by (auto split: prod.splits)

lemma space_id_simps [simp]:
  "collectionID (space_id l) = DMS_INVALID_MBID" "lock_level (space_id l) = 0" "id_ok (space_id l)"
  by (simp_all add: space_id_def lock_level_def id_ok_def)

lemma level0: "lock_level l = 0 \<longleftrightarrow> collectionID l = DMS_INVALID_MBID"
  by (simp add: lock_level_def)

lemma plan_0: "lock_level l = 0 \<Longrightarrow> plan m l = [(l, m)]"
  by (simp add: plan_def)

lemma tryIS_refines:
  assumes "tl_inv st" and "id_ok l" and "lock_level l \<le> 1" and "tryIS t l st = (rc, st')"
  shows "tl_inv st' \<and> (rc, tbl st') = a_lock t (plan DPS_TRANSLOCK_IS l) (tbl st)"
proof -
  have space: "tl_inv s' \<and> (c, tbl s') = a_lock t (plan DPS_TRANSLOCK_IS k) (tbl s)"
    if "tl_inv s" "lock_level k = 0" "tryIS t k s = (c, s')" for k s c s'
  proof -
    have "tryIS_self t k s = (c, s')" using that(2,3) by (simp add: tryIS.simps [of t k] level0)
    from tryIS_self_refines [OF that(1) this] show ?thesis
      by (simp only: plan_0 [OF that(2)] a_lock_single)
  qed
  show ?thesis
  proof (cases "lock_level l = 0")
    case True
    with space assms show ?thesis by blast
  next
    case False
    then have lev: "lock_level l = 1" "collectionID l \<noteq> DMS_INVALID_MBID"
      using assms(3) False level0 [of l] by linarith+
    have "tl_inv st' \<and> (rc, tbl st') = a_lock t (plan DPS_TRANSLOCK_IS (space_id l) @ [(l, DPS_TRANSLOCK_IS)]) (tbl st)"
      by (rule below_refines [OF assms(1), where par = "tryIS t (space_id l) st" and self = tryIS_self])
         (use assms(4) lev(2) space [OF assms(1) space_id_simps(2)] tryIS_self_refines in
           \<open>auto simp: tryIS.simps [of t l]\<close>)
    moreover have "plan DPS_TRANSLOCK_IS l = plan DPS_TRANSLOCK_IS (space_id l) @ [(l, DPS_TRANSLOCK_IS)]"
      using lev by (simp add: plan_def)
    ultimately show ?thesis by simp
  qed
qed

lemma intent_id_simps:
  assumes "id_ok l" and "collectionID l \<noteq> DMS_INVALID_MBID"
  shows "id_ok (intent_id l)" and "lock_level (intent_id l) \<le> 1"
    and "lock_level l = 1 \<Longrightarrow> intent_id l = space_id l"
    and "lock_level l \<noteq> 1 \<Longrightarrow> lock_level (intent_id l) = 1 \<and> space_id (intent_id l) = space_id l"
  using assms by (auto simp: id_ok_def lock_level_def intent_id_def space_id_def split: if_splits)

lemma plan_below:
  assumes "id_ok l" and "collectionID l \<noteq> DMS_INVALID_MBID"
  shows "plan m l = plan (if m = DPS_TRANSLOCK_X then DPS_TRANSLOCK_IX else DPS_TRANSLOCK_IS) (intent_id l) @ [(l, m)]"
proof (cases "lock_level l = 1")
  case True
  with intent_id_simps(3) [OF assms] show ?thesis by (simp add: plan_def)
next
  case False
  with intent_id_simps(4) [OF assms] assms(2) show ?thesis by (simp add: plan_def level0)
qed

lemma tryIX_refines:
  assumes "tl_inv st" and "id_ok l" and "lock_level l \<le> 1" and "tryIX t l st = (rc, st')"
  shows "tl_inv st' \<and> (rc, tbl st') = a_lock t (plan DPS_TRANSLOCK_IX l) (tbl st)"
proof (cases "lock_level l = 0")
  case True
  with assms(4) have "try_self t l DPS_TRANSLOCK_IX st = (rc, st')" by (simp add: tryIX_def level0)
  from try_self_refines [OF assms(1) this] show ?thesis by (simp only: plan_0 [OF True] a_lock_single)
next
  case False
  then have lev: "lock_level l = 1" "collectionID l \<noteq> DMS_INVALID_MBID"
    using assms(3) False level0 [of l] by linarith+
  have "tl_inv st' \<and> (rc, tbl st') = a_lock t (plan DPS_TRANSLOCK_IS (space_id l) @ [(l, DPS_TRANSLOCK_IX)]) (tbl st)"
    by (rule below_refines [OF assms(1), where par = "tryIS t (space_id l) st"
          and self = "\<lambda>t l. try_self t l DPS_TRANSLOCK_IX"])
       (use assms(4) lev(2) tryIS_refines [OF assms(1) space_id_simps(3)] try_self_refines in \<open>auto simp: tryIX_def\<close>)
  moreover have "plan DPS_TRANSLOCK_IX l = plan DPS_TRANSLOCK_IS (space_id l) @ [(l, DPS_TRANSLOCK_IX)]"
    using lev by (simp add: plan_def)
  ultimately show ?thesis by simp
qed

lemma tryS_refines:
  assumes "tl_inv st" and "id_ok l" and "tryS t l st = (rc, st')"
  shows "tl_inv st' \<and> (rc, tbl st') = a_lock t (plan DPS_TRANSLOCK_S l) (tbl st)"
proof (cases "lock_level l = 0")
  case True
  with assms(3) have "try_self t l DPS_TRANSLOCK_S st = (rc, st')" by (simp add: tryS_def level0)
  from try_self_refines [OF assms(1) this] show ?thesis by (simp only: plan_0 [OF True] a_lock_single)
next
  case False
  then have lev: "collectionID l \<noteq> DMS_INVALID_MBID" by (simp add: level0)
  note i = intent_id_simps [OF assms(2) lev]
  have "tl_inv st' \<and> (rc, tbl st') = a_lock t (plan DPS_TRANSLOCK_IS (intent_id l) @ [(l, DPS_TRANSLOCK_S)]) (tbl st)"
    by (rule below_refines [OF assms(1) i(1,2), where par = "tryIS t (intent_id l) st"
          and self = "\<lambda>t l. try_self t l DPS_TRANSLOCK_S"])
       (use assms(3) lev tryIS_refines [OF assms(1) i(1,2)] try_self_refines in \<open>auto simp: tryS_def\<close>)
  then show ?thesis using plan_below [OF assms(2) lev, of DPS_TRANSLOCK_S] by simp
qed

lemma tryX_refines:
  assumes "tl_inv st" and "id_ok l" and "tryX t l st = (rc, st')"
  shows "tl_inv st' \<and> (rc, tbl st') = a_lock t (plan DPS_TRANSLOCK_X l) (tbl st)"
proof (cases "lock_level l = 0")
  case True
  with assms(3) have "try_self t l DPS_TRANSLOCK_X st = (rc, st')" by (simp add: tryX_def level0)
  from try_self_refines [OF assms(1) this] show ?thesis by (simp only: plan_0 [OF True] a_lock_single)
next
  case False
  then have lev: "collectionID l \<noteq> DMS_INVALID_MBID" by (simp add: level0)
  note i = intent_id_simps [OF assms(2) lev]
  have "tl_inv st' \<and> (rc, tbl st') = a_lock t (plan DPS_TRANSLOCK_IX (intent_id l) @ [(l, DPS_TRANSLOCK_X)]) (tbl st)"
    by (rule below_refines [OF assms(1) i(1,2), where par = "tryIX t (intent_id l) st"
          and self = "\<lambda>t l. try_self t l DPS_TRANSLOCK_X"])
       (use assms(3) lev tryIX_refines [OF assms(1) i(1,2)] try_self_refines in \<open>auto simp: tryX_def\<close>)
  then show ?thesis using plan_below [OF assms(2) lev, of DPS_TRANSLOCK_X] by simp
qed

end
