(* ===== verification/LockService.thy ===== *)
theory LockService
  imports Prelude
begin

text \<open>
  The contract of a hierarchical lock service, as transactions use it: a granted request holds a
  plan of locks from the root of the hierarchy down to the one asked for, and giving it back undoes
  exactly that. The transaction lock manager implements it (theory \<open>TransLockTable\<close>).
\<close>

section \<open>Client programs\<close>

text \<open>
  A client program requests locks for several owners, gives back the \<open>k\<close>-th request that is still
  held, or gives back everything of one owner, as the end of a transaction does. The requests held
  are kept as a list of owner, lock and mode.
\<close>

datatype ('t, 'l, 'm) lock_op = Lock 't 'l 'm | Unlock nat | UnlockAll 't

fun lock_run ::
  "('m \<Rightarrow> 't \<Rightarrow> 'l \<Rightarrow> 's \<Rightarrow> bool \<times> 's) \<Rightarrow> ('t \<Rightarrow> 'l \<Rightarrow> 's \<Rightarrow> 's) \<Rightarrow> ('t \<Rightarrow> 's \<Rightarrow> 's) \<Rightarrow>
   ('t, 'l, 'm) lock_op list \<Rightarrow> 's \<times> ('t \<times> 'l \<times> 'm) list \<Rightarrow> 's \<times> ('t \<times> 'l \<times> 'm) list" where
  "lock_run lck unl una [] st = st"
| "lock_run lck unl una (Lock t l m # ops) (s, held) =
     (case lck m t l s of
        (True, s') \<Rightarrow> lock_run lck unl una ops (s', (t, l, m) # held)
      | (False, s') \<Rightarrow> lock_run lck unl una ops (s', held))"
| "lock_run lck unl una (Unlock k # ops) (s, held) =
     (if k < length held then
        (case held ! k of
           (t, l, m) \<Rightarrow> lock_run lck unl una ops (unl t l s, take k held @ drop (Suc k) held))
      else lock_run lck unl una ops (s, held))"
| "lock_run lck unl una (UnlockAll t # ops) (s, held) =
     lock_run lck unl una ops (una t s, filter (\<lambda>h. fst h \<noteq> t) held)"

section \<open>The contract\<close>

locale lock_service =
  fixes invar :: "'s \<Rightarrow> bool"
    and valid :: "'m \<Rightarrow> 'l \<Rightarrow> bool"
    and path :: "'l \<Rightarrow> 'l set"
    and steps :: "'m \<Rightarrow> 'l \<Rightarrow> ('l \<times> 'm) list"
    and implies_mode :: "'m \<Rightarrow> 'm \<Rightarrow> bool"
    and mode :: "'s \<Rightarrow> 't \<Rightarrow> 'l \<Rightarrow> 'm option"
    and cnt :: "'s \<Rightarrow> 't \<Rightarrow> 'l \<Rightarrow> nat"
    and lock :: "'m \<Rightarrow> 't \<Rightarrow> 'l \<Rightarrow> 's \<Rightarrow> bool \<times> 's"
    and unlock :: "'t \<Rightarrow> 'l \<Rightarrow> 's \<Rightarrow> 's"
    and unlock_all :: "'t \<Rightarrow> 's \<Rightarrow> 's"
  assumes mode_trans: "implies_mode m m2 \<Longrightarrow> implies_mode m2 m3 \<Longrightarrow> implies_mode m m3"
    and path_steps: "valid m l \<Longrightarrow> fst ` set (steps m l) = path l"
    and mode_cnt: "invar s \<Longrightarrow> mode s t a = None \<longleftrightarrow> cnt s t a = 0"
    and lock_keeps:
      "invar s \<Longrightarrow> valid m l \<Longrightarrow> lock m t l s = (ok, s') \<Longrightarrow>
       invar s' \<and> (\<forall>t' a m0. mode s t' a = Some m0 \<longrightarrow> (\<exists>m1. mode s' t' a = Some m1 \<and> implies_mode m1 m0))"
    and lock_granted:
      "invar s \<Longrightarrow> valid m l \<Longrightarrow> lock m t l s = (True, s') \<Longrightarrow>
       (\<forall>t' a. cnt s' t' a = cnt s t' a + (if t' = t \<and> a \<in> path l then 1 else 0)) \<and>
       (\<forall>(a, am) \<in> set (steps m l). \<exists>m1. mode s' t a = Some m1 \<and> implies_mode m1 am)"
    and lock_refused:
      "invar s \<Longrightarrow> valid m l \<Longrightarrow> lock m t l s = (False, s') \<Longrightarrow> cnt s' = cnt s"
    and unlock_path:
      "invar s \<Longrightarrow> valid m l \<Longrightarrow> (\<forall>a \<in> path l. 0 < cnt s t a) \<Longrightarrow> unlock t l s = s' \<Longrightarrow>
       invar s' \<and> (\<forall>t' a. cnt s' t' a = cnt s t' a - (if t' = t \<and> a \<in> path l then 1 else 0)) \<and>
       (\<forall>t' a. 0 < cnt s' t' a \<longrightarrow> mode s' t' a = mode s t' a)"
    and unlock_all_owner:
      "invar s \<Longrightarrow> unlock_all t s = s' \<Longrightarrow>
       invar s' \<and> (\<forall>a. cnt s' t a = 0) \<and>
       (\<forall>t' a. t' \<noteq> t \<longrightarrow> cnt s' t' a = cnt s t' a \<and> mode s' t' a = mode s t' a)"
begin

text \<open>How many held requests of an owner pass through a lock.\<close>

definition through :: "('t \<times> 'l \<times> 'm) list \<Rightarrow> 't \<Rightarrow> 'l \<Rightarrow> nat" where
  "through held t a = length (filter (\<lambda>(t', l, m). t' = t \<and> a \<in> path l) held)"

definition backed :: "'s \<Rightarrow> 't \<times> 'l \<times> 'm \<Rightarrow> bool" where
  "backed s h = (case h of (t, l, m) \<Rightarrow>
     valid m l \<and> (\<forall>(a, am) \<in> set (steps m l). \<exists>m1. mode s t a = Some m1 \<and> implies_mode m1 am))"

definition accounted :: "'s \<times> ('t \<times> 'l \<times> 'm) list \<Rightarrow> bool" where
  "accounted st \<longleftrightarrow> invar (fst st) \<and> (\<forall>t a. cnt (fst st) t a = through (snd st) t a) \<and>
     (\<forall>h \<in> set (snd st). backed (fst st) h)"

definition op_valid :: "('t, 'l, 'm) lock_op \<Rightarrow> bool" where
  "op_valid op = (case op of Lock t l m \<Rightarrow> valid m l | _ \<Rightarrow> True)"

lemma through_simps [simp]:
  "through [] t a = 0"
  "through ((t', l, m) # held) t a = (if t' = t \<and> a \<in> path l then 1 else 0) + through held t a"
  "through (held @ held') t a = through held t a + through held' t a"
  by (simp_all add: through_def)

lemma backed_keeps:
  assumes "backed s h" and "\<And>t a m0. mode s t a = Some m0 \<Longrightarrow> \<exists>m1. mode s' t a = Some m1 \<and> implies_mode m1 m0"
  shows "backed s' h"
  using assms mode_trans unfolding backed_def by (fastforce split: prod.splits)

lemma through_pos:
  assumes "(t, l, m) \<in> set held" and "a \<in> path l"
  shows "0 < through held t a"
  using assms by (induction held) auto

lemma backed_unlock:
  assumes b: "backed s h" and mem: "h \<in> set held" and inv: "invar s'"
    and c: "\<And>t a. cnt s' t a = through held t a"
    and same: "\<And>t a. 0 < cnt s' t a \<Longrightarrow> mode s' t a = mode s t a"
  shows "backed s' h"
proof -
  obtain t l m where h: "h = (t, l, m)" by (cases h)
  with b have v: "valid m l" by (simp add: backed_def)
  have "mode s' t a = mode s t a" if "(a, am) \<in> set (steps m l)" for a am
  proof -
    have "a \<in> path l" using that path_steps [OF v] by force
    then show ?thesis using through_pos mem h c same by metis
  qed
  with b v show ?thesis unfolding h backed_def by fastforce
qed

lemma through_split:
  assumes "k < length held"
  shows "through held t a = through (take k held @ drop (Suc k) held) t a + through [held ! k] t a"
proof -
  have "through held t a = through (take k held @ held ! k # drop (Suc k) held) t a"
    using id_take_nth_drop [OF assms] by simp
  then show ?thesis by (cases "held ! k") simp
qed

lemma accounted_lock:
  assumes acc: "accounted (s, held)" and v: "valid m l" and r: "lock m t l s = (ok, s')"
  shows "accounted (s', if ok then (t, l, m) # held else held)"
proof -
  from acc have inv: "invar s" and c: "\<forall>t a. cnt s t a = through held t a"
    and b: "\<forall>h \<in> set held. backed s h" by (auto simp: accounted_def)
  note keep = lock_keeps [OF inv v r]
  have b': "\<forall>h \<in> set held. backed s' h" using b keep backed_keeps by blast
  show ?thesis
  proof (cases ok)
    case True
    with r have r': "lock m t l s = (True, s')" by simp
    from lock_granted [OF inv v r'] keep b' c v True show ?thesis
      by (auto simp: accounted_def backed_def)
  next
    case False
    with r have r': "lock m t l s = (False, s')" by simp
    from lock_refused [OF inv v r'] keep b' c False show ?thesis by (auto simp: accounted_def)
  qed
qed

lemma accounted_unlock:
  assumes acc: "accounted (s, held)" and k: "k < length held" and h: "held ! k = (t, l, m)"
  shows "accounted (unlock t l s, take k held @ drop (Suc k) held)"
proof -
  let ?rest = "take k held @ drop (Suc k) held"
  from acc have inv: "invar s" and c: "\<And>t a. cnt s t a = through held t a"
    and b: "\<forall>h \<in> set held. backed s h" by (auto simp: accounted_def)
  have mem: "(t, l, m) \<in> set held" using k h by (metis nth_mem)
  with b have v: "valid m l" by (auto simp: backed_def)
  have "\<forall>a \<in> path l. 0 < cnt s t a" using c through_pos [OF mem] by simp
  from unlock_path [OF inv v this refl]
  have u: "invar (unlock t l s)"
    "\<And>t' a. cnt (unlock t l s) t' a = cnt s t' a - (if t' = t \<and> a \<in> path l then 1 else 0)"
    "\<And>t' a. 0 < cnt (unlock t l s) t' a \<Longrightarrow> mode (unlock t l s) t' a = mode s t' a" by blast+
  have c': "cnt (unlock t l s) t' a = through ?rest t' a" for t' a
    using u(2) [of t' a] c [of t' a] through_split [OF k, of t' a] h by auto
  have "set ?rest \<subseteq> set held" by (auto dest: in_set_takeD in_set_dropD)
  then have "\<forall>h \<in> set ?rest. backed (unlock t l s) h"
    using b backed_unlock [OF _ _ u(1) c' u(3)] by blast
  with u(1) c' show ?thesis by (simp add: accounted_def)
qed

lemma accounted_unlock_all:
  assumes acc: "accounted (s, held)"
  shows "accounted (unlock_all t s, filter (\<lambda>h. fst h \<noteq> t) held)"
proof -
  let ?rest = "filter (\<lambda>h. fst h \<noteq> t) held"
  from acc have inv: "invar s" and c: "\<And>t a. cnt s t a = through held t a"
    and b: "\<forall>h \<in> set held. backed s h" by (auto simp: accounted_def)
  note u = unlock_all_owner [OF inv refl, of t]
  have split: "through held t' a = (if t' = t then through held t' a else through ?rest t' a)"
    "t' = t \<Longrightarrow> through ?rest t' a = 0" for t' a
    by (induction held) (auto simp: through_def)
  have c': "cnt (unlock_all t s) t' a = through ?rest t' a" for t' a
    using u c [of t' a] split [of t' a] by (cases "t' = t") auto
  have same: "mode (unlock_all t s) t' a = mode s t' a" if "0 < cnt (unlock_all t s) t' a" for t' a
    using u that by (cases "t' = t") auto
  have "\<forall>h \<in> set ?rest. backed (unlock_all t s) h"
  proof
    fix h assume h: "h \<in> set ?rest"
    with b have "backed s h" by simp
    from backed_unlock [OF this h conjunct1 [OF u] c' same] show "backed (unlock_all t s) h" .
  qed
  with u c' show ?thesis by (simp add: accounted_def)
qed

text \<open>
  After any program the count of every lock is the number of held requests that pass through it, and
  every held request is backed by modes at least as strong as its plan.
\<close>

lemma run_accounted:
  assumes "accounted st" and "\<forall>op \<in> set ops. op_valid op"
  shows "accounted (lock_run lock unlock unlock_all ops st)"
  using assms
proof (induction ops arbitrary: st)
  case (Cons op ops)
  obtain s held where st: "st = (s, held)" by force
  have ops: "\<forall>op \<in> set ops. op_valid op" using Cons.prems(2) by simp
  show ?case
  proof (cases op)
    case (Lock t l m)
    then have v: "valid m l" using Cons.prems(2) by (simp add: op_valid_def)
    obtain ok s' where r: "lock m t l s = (ok, s')" by force
    from accounted_lock [OF Cons.prems(1) [unfolded st] v r]
    have "accounted (s', if ok then (t, l, m) # held else held)" .
    from Cons.IH [OF this ops] show ?thesis using Lock st r by (cases ok) simp_all
  next
    case (Unlock k)
    show ?thesis
    proof (cases "k < length held")
      case True
      obtain t l m where h: "held ! k = (t, l, m)" by (cases "held ! k")
      from Cons.IH [OF accounted_unlock [OF Cons.prems(1) [unfolded st] True h] ops] show ?thesis
        using Unlock st True h by simp
    next
      case False
      with Cons.IH [OF Cons.prems(1) ops] Unlock st show ?thesis by simp
    qed
  next
    case (UnlockAll t)
    from Cons.IH [OF accounted_unlock_all [OF Cons.prems(1) [unfolded st]] ops] show ?thesis
      using UnlockAll st by simp
  qed
qed simp

end

end
