(* ===== verification/TransLockService.thy ===== *)
theory TransLockService
  imports TransLockTable LockService
begin

text \<open>
  The transaction lock manager as a hierarchical lock service: holds are counted on every level, a
  refused request leaves all counts as they were, and the modes held on the upper levels keep the
  holders of conflicting locks apart.
\<close>

section \<open>Counting in the table\<close>

definition tcnt :: "lock_table \<Rightarrow> tid \<Rightarrow> dpsTransLockId \<Rightarrow> nat" where
  "tcnt T t l = (case T t l of None \<Rightarrow> 0 | Some (m, r) \<Rightarrow> nat (r + 1))"

definition tmode :: "lock_table \<Rightarrow> tid \<Rightarrow> dpsTransLockId \<Rightarrow> DPS_TRANSLOCK_TYPE option" where
  "tmode T t l = map_option fst (T t l)"

definition nonneg :: "lock_table \<Rightarrow> bool" where
  "nonneg T \<longleftrightarrow> (\<forall>t l m r. T t l = Some (m, r) \<longrightarrow> 0 \<le> r)"

lemma tbl_nonneg: "tl_inv st \<Longrightarrow> nonneg (tbl st)"
  by (auto simp: nonneg_def tbl_def tl_inv_def)

lemma tmode_tcnt: "nonneg T \<Longrightarrow> tmode T t l = None \<longleftrightarrow> tcnt T t l = 0"
  by (fastforce simp: tmode_def tcnt_def nonneg_def split: option.splits)

lemma stronger_tmode:
  assumes "stronger T T'" and "tmode T t a = Some m0"
  shows "\<exists>m1. tmode T' t a = Some m1 \<and> covers m1 m0"
proof -
  obtain r where "T t a = Some (m0, r)" using assms(2) by (auto simp: tmode_def)
  then obtain m1 r1 where "T' t a = Some (m1, r1)" "covers m1 m0" using assms(1) unfolding stronger_def by blast
  then show ?thesis by (simp add: tmode_def)
qed

lemma a_try_count:
  assumes "a_try t l m T = (SDB_OK, T')" and "nonneg T"
  shows "nonneg T'" and "tcnt T' t' a = tcnt T t' a + (if t' = t \<and> a = l then 1 else 0)"
proof -
  obtain m' r where T': "T' = upd_tbl t l (Some (m', r)) T"
    and new: "T t l = None \<Longrightarrow> r = 0" and old: "\<And>m0 r0. T t l = Some (m0, r0) \<Longrightarrow> r = r0 + 1"
    using a_try_OK [OF assms(1)] by metis
  have r: "0 \<le> r \<and> nat (r + 1) = tcnt T t l + 1"
  proof (cases "T t l")
    case None
    with new show ?thesis by (simp add: tcnt_def)
  next
    case (Some p)
    then obtain m0 r0 where p: "T t l = Some (m0, r0)" by (cases p) auto
    with old assms(2) have "r = r0 + 1" "0 \<le> r0" by (auto simp: nonneg_def)
    with p show ?thesis by (simp add: tcnt_def nat_add_distrib)
  qed
  then show "nonneg T'" using assms(2) unfolding T' nonneg_def upd_tbl_def by auto
  show "tcnt T' t' a = tcnt T t' a + (if t' = t \<and> a = l then 1 else 0)"
    using r by (auto simp: T' tcnt_def upd_tbl_def)
qed

lemma a_dec_count:
  assumes nn: "nonneg T"
  shows "nonneg (a_dec t l T)"
    and "tcnt (a_dec t l T) t' a = tcnt T t' a - (if t' = t \<and> a = l then 1 else 0)"
    and "0 < tcnt (a_dec t l T) t' a \<Longrightarrow> tmode (a_dec t l T) t' a = tmode T t' a"
proof -
  have "nonneg (a_dec t l T) \<and>
    tcnt (a_dec t l T) t' a = tcnt T t' a - (if t' = t \<and> a = l then 1 else 0) \<and>
    (0 < tcnt (a_dec t l T) t' a \<longrightarrow> tmode (a_dec t l T) t' a = tmode T t' a)"
  proof (cases "T t l")
    case None
    then have "a_dec t l T = T" by (simp add: a_dec_def)
    with None nn show ?thesis by (simp add: tcnt_def)
  next
    case (Some p)
    obtain m r where p: "T t l = Some (m, r)" using Some by (cases p) simp
    let ?v = "if r \<le> 0 then None else Some (m, r - 1)"
    have dec: "a_dec t l T = upd_tbl t l ?v T" using p by (simp add: a_dec_def)
    have "0 \<le> r" using nn p unfolding nonneg_def by blast
    with nn have "nonneg (upd_tbl t l ?v T)" unfolding nonneg_def upd_tbl_def by simp
    moreover have "tcnt (upd_tbl t l ?v T) t' a = tcnt T t' a - (if t' = t \<and> a = l then 1 else 0)"
      using p \<open>0 \<le> r\<close> by (simp add: tcnt_def upd_tbl_def nat_add_distrib)
    moreover have "tmode (upd_tbl t l ?v T) t' a = tmode T t' a" if "0 < tcnt (upd_tbl t l ?v T) t' a"
      using that p by (simp add: tcnt_def tmode_def upd_tbl_def split: if_splits)
    ultimately show ?thesis unfolding dec by blast
  qed
  then show "nonneg (a_dec t l T)"
    and "tcnt (a_dec t l T) t' a = tcnt T t' a - (if t' = t \<and> a = l then 1 else 0)"
    and "0 < tcnt (a_dec t l T) t' a \<Longrightarrow> tmode (a_dec t l T) t' a = tmode T t' a" by blast+
qed

lemma a_lock_count:
  assumes "a_lock t ps T = (rc, T')" and "nonneg T" and "distinct (map fst ps)"
  shows "nonneg T' \<and> stronger T T' \<and>
    (\<forall>t' a. tcnt T' t' a = tcnt T t' a + (if rc = SDB_OK \<and> t' = t \<and> a \<in> fst ` set ps then 1 else 0))"
  using assms
proof (induction t ps T arbitrary: rc T' rule: a_lock.induct)
  case (2 t l m ps T)
  obtain rc1 T1 where T1: "a_try t l m T = (rc1, T1)" by force
  show ?case
  proof (cases "rc1 = SDB_OK")
    case False
    with 2(2,3) T1 a_try_fail [OF T1] show ?thesis by auto
  next
    case True
    note cnt1 = a_try_count [OF T1 [unfolded True] 2(3)]
    obtain rc2 T2 where T2: "a_lock t ps T1 = (rc2, T2)" by force
    have ih: "nonneg T2" "stronger T1 T2"
      "\<And>t' a. tcnt T2 t' a = tcnt T1 t' a + (if rc2 = SDB_OK \<and> t' = t \<and> a \<in> fst ` set ps then 1 else 0)"
      using 2(1) [OF T1 [symmetric] _ T2 cnt1(1)] True 2(4) by auto
    have st: "stronger T T2" using stronger_trans [OF a_try_stronger [OF T1] ih(2)] .
    show ?thesis
    proof (cases "rc2 = SDB_OK")
      case True2: True
      then have "rc = SDB_OK" "T' = T2" using 2(2) T1 T2 True by auto
      then show ?thesis using st ih True2 cnt1(2) 2(4) by auto
    next
      case False
      then have eq: "rc = rc2" "T' = a_dec t l T2" using 2(2) T1 T2 True by auto
      have c2: "tcnt T2 t' a = tcnt T t' a + (if t' = t \<and> a = l then 1 else 0)" for t' a
        using ih(3) False cnt1(2) by simp
      note dec = a_dec_count [OF ih(1), of t l]
      have c': "tcnt T' t' a = tcnt T t' a" for t' a using dec(2) c2 eq by simp
      have "stronger T T'"
        unfolding stronger_def
      proof (intro allI impI)
        fix t' a m0 r0 assume T: "T t' a = Some (m0, r0)"
        then have "0 < tcnt T' t' a" using c' 2(3) by (simp add: tcnt_def nonneg_def)
        then have "tmode T' t' a = tmode T2 t' a" using dec(3) eq by simp
        moreover obtain m2 r2 where "T2 t' a = Some (m2, r2)" "covers m2 m0"
          using st T unfolding stronger_def by blast
        ultimately show "\<exists>m' r'. T' t' a = Some (m', r') \<and> covers m' m0"
          by (cases "T' t' a") (auto simp: tmode_def)
      qed
      with dec(1) c' eq False show ?thesis by auto
    qed
  qed
qed simp

section \<open>Paths\<close>

definition lock_path :: "dpsTransLockId \<Rightarrow> dpsTransLockId set" where
  "lock_path l = fst ` set (plan DPS_TRANSLOCK_S l)"

definition request_ok :: "DPS_TRANSLOCK_TYPE \<Rightarrow> dpsTransLockId \<Rightarrow> bool" where
  "request_ok m l \<longleftrightarrow> id_ok l \<and>
     (m = DPS_TRANSLOCK_IS \<or> m = DPS_TRANSLOCK_IX \<longrightarrow> lock_level l \<le> 1)"

lemma plan_path: "fst ` set (plan m l) = lock_path l"
  by (simp add: lock_path_def plan_def Let_def)

lemma plan_distinct:
  assumes "id_ok l"
  shows "distinct (map fst (plan m l))"
proof -
  have "space_id l \<noteq> l" if "lock_level l = 1"
    using that by (cases l) (auto simp: lock_level_def space_id_def split: if_splits)
  moreover have "space_id l \<noteq> intent_id l \<and> space_id l \<noteq> l \<and> intent_id l \<noteq> l" if "lock_level l \<noteq> 0" "lock_level l \<noteq> 1"
    using that by (cases l) (auto simp: lock_level_def space_id_def intent_id_def split: if_splits)
  ultimately show ?thesis by (simp add: plan_def Let_def)
qed

lemma a_release_undo:
  assumes "id_ok l" and "T t l \<noteq> None" and "lock_level l = 2 \<longrightarrow> T t (intent_id l) \<noteq> None"
  shows "a_release t l T = a_undo t (plan DPS_TRANSLOCK_S l) T"
proof (cases "lock_level l \<le> 1")
  case True
  from a_release_path [where T = T and t = t, OF assms(1) True assms(2)] show ?thesis .
next
  case False
  then have lev: "lock_level l = 2" "collectionID l \<noteq> DMS_INVALID_MBID"
    by (auto simp: lock_level_def split: if_splits)
  note i = intent_id_simps [OF assms(1) lev(2)]
  have ne: "intent_id l \<noteq> l" using lock_level_less(1) [OF lev(2)] by auto
  then have "a_dec t l T t (intent_id l) \<noteq> None"
    using assms(3) lev(1) by (auto simp: a_dec_def upd_tbl_def split: option.splits)
  then have "a_release t (intent_id l) (a_dec t l T) = a_undo t (plan DPS_TRANSLOCK_IS (intent_id l)) (a_dec t l T)"
    by (intro a_release_path [OF i(1,2)])
  then show ?thesis
    using assms(2) lev plan_below [OF assms(1) lev(2), of DPS_TRANSLOCK_S]
    by (auto simp: a_release.simps [of t l] a_undo_def)
qed

lemma a_undo_count:
  assumes "nonneg T" and "distinct (map fst ps)"
  shows "nonneg (a_undo t ps T) \<and>
    (\<forall>t' a. tcnt (a_undo t ps T) t' a = tcnt T t' a - (if t' = t \<and> a \<in> fst ` set ps then 1 else 0)) \<and>
    (\<forall>t' a. 0 < tcnt (a_undo t ps T) t' a \<longrightarrow> tmode (a_undo t ps T) t' a = tmode T t' a)"
  using assms
proof (induction ps)
  case (Cons p ps)
  then have ih: "nonneg (a_undo t ps T)"
    "\<And>t' a. tcnt (a_undo t ps T) t' a = tcnt T t' a - (if t' = t \<and> a \<in> fst ` set ps then 1 else 0)"
    "\<And>t' a. 0 < tcnt (a_undo t ps T) t' a \<longrightarrow> tmode (a_undo t ps T) t' a = tmode T t' a" by auto
  note dec = a_dec_count [OF ih(1), of t "fst p"]
  have eq: "a_undo t (p # ps) T = a_dec t (fst p) (a_undo t ps T)" by (simp add: a_undo_def)
  have "tcnt (a_undo t (p # ps) T) t' a = tcnt T t' a - (if t' = t \<and> a \<in> fst ` set (p # ps) then 1 else 0)" for t' a
    using dec(2) ih(2) Cons.prems(2) unfolding eq by auto
  moreover have "tmode (a_undo t (p # ps) T) t' a = tmode T t' a" if "0 < tcnt (a_undo t (p # ps) T) t' a" for t' a
  proof -
    from that have "0 < tcnt (a_undo t ps T) t' a" using dec(2) [of t' a] unfolding eq by linarith
    with that dec(3) ih(3) show ?thesis unfolding eq by metis
  qed
  ultimately show ?case using dec(1) eq by metis
qed (simp add: a_undo_def)

section \<open>The manager as a lock service\<close>

definition sys_lock :: "DPS_TRANSLOCK_TYPE \<Rightarrow> tid \<Rightarrow> dpsTransLockId \<Rightarrow> lockSys \<Rightarrow> bool \<times> lockSys" where
  "sys_lock m t l st =
     (case (case m of
              DPS_TRANSLOCK_IS \<Rightarrow> tryIS t l st
            | DPS_TRANSLOCK_IX \<Rightarrow> tryIX t l st
            | DPS_TRANSLOCK_S \<Rightarrow> tryS t l st
            | DPS_TRANSLOCK_X \<Rightarrow> tryX t l st) of
        (rc, st') \<Rightarrow> (rc = SDB_OK, st'))"

lemma sys_lock_refines:
  assumes "tl_inv st" and "request_ok m l" and "sys_lock m t l st = (ok, st')"
  obtains rc where "ok \<longleftrightarrow> rc = SDB_OK" and "tl_inv st'" and "a_lock t (plan m l) (tbl st) = (rc, tbl st')"
proof -
  obtain rc s where r: "(case m of
              DPS_TRANSLOCK_IS \<Rightarrow> tryIS t l st
            | DPS_TRANSLOCK_IX \<Rightarrow> tryIX t l st
            | DPS_TRANSLOCK_S \<Rightarrow> tryS t l st
            | DPS_TRANSLOCK_X \<Rightarrow> tryX t l st) = (rc, s)" by force
  with assms(3) have s: "s = st'" "ok \<longleftrightarrow> rc = SDB_OK" by (auto simp: sys_lock_def)
  have "tl_inv s \<and> (rc, tbl s) = a_lock t (plan m l) (tbl st)"
  proof (cases m)
    case DPS_TRANSLOCK_IS
    with assms(2) r show ?thesis
      using tryIS_refines [OF assms(1), of l t rc s] by (simp add: request_ok_def)
  next
    case DPS_TRANSLOCK_IX
    with assms(2) r show ?thesis
      using tryIX_refines [OF assms(1), of l t rc s] by (simp add: request_ok_def)
  next
    case DPS_TRANSLOCK_S
    with assms(2) r show ?thesis
      using tryS_refines [OF assms(1), of l t rc s] by (simp add: request_ok_def)
  next
    case DPS_TRANSLOCK_X
    with assms(2) r show ?thesis
      using tryX_refines [OF assms(1), of l t rc s] by (simp add: request_ok_def)
  qed
  with s show thesis by (intro that [of rc]) simp_all
qed

interpretation trans: lock_service
  tl_inv request_ok lock_path plan covers
  "\<lambda>st. tmode (tbl st)" "\<lambda>st. tcnt (tbl st)" sys_lock tl_release tl_releaseAll
proof
  fix m m2 m3 assume "covers m m2" "covers m2 m3"
  then show "covers m m3" by (rule covers_trans)
next
  fix m l assume "request_ok m l"
  show "fst ` set (plan m l) = lock_path l" by (rule plan_path)
next
  fix s t a assume "tl_inv s"
  then show "(tmode (tbl s) t a = None) = (tcnt (tbl s) t a = 0)" by (simp add: tmode_tcnt tbl_nonneg)
next
  fix s m l t ok s' assume a: "tl_inv s" "request_ok m l" "sys_lock m t l s = (ok, s')"
  then obtain rc where r: "tl_inv s'" "a_lock t (plan m l) (tbl s) = (rc, tbl s')" by (rule sys_lock_refines)
  have "stronger (tbl s) (tbl s')"
    using a_lock_count [OF r(2) tbl_nonneg [OF a(1)] plan_distinct] a(2) by (simp add: request_ok_def)
  then show "tl_inv s' \<and> (\<forall>t' a m0. tmode (tbl s) t' a = Some m0 \<longrightarrow>
      (\<exists>m1. tmode (tbl s') t' a = Some m1 \<and> covers m1 m0))"
    using r(1) stronger_tmode by blast
next
  fix s m l t s' assume a: "tl_inv s" "request_ok m l" "sys_lock m t l s = (True, s')"
  then obtain rc where r: "True \<longleftrightarrow> rc = SDB_OK" "tl_inv s'" "a_lock t (plan m l) (tbl s) = (rc, tbl s')"
    by (rule sys_lock_refines)
  then have ok: "a_lock t (plan m l) (tbl s) = (SDB_OK, tbl s')" by simp
  have "\<forall>t' a. tcnt (tbl s') t' a = tcnt (tbl s) t' a + (if t' = t \<and> a \<in> lock_path l then 1 else 0)"
    using a_lock_count [OF ok tbl_nonneg [OF a(1)] plan_distinct] a(2) by (simp add: request_ok_def plan_path)
  moreover have "\<forall>(a, am) \<in> set (plan m l). \<exists>m1. tmode (tbl s') t a = Some m1 \<and> covers m1 am"
    using a_lock_OK(2) [OF ok] by (fastforce simp: tmode_def)
  ultimately show "(\<forall>t' a. tcnt (tbl s') t' a = tcnt (tbl s) t' a + (if t' = t \<and> a \<in> lock_path l then 1 else 0)) \<and>
      (\<forall>(a, am) \<in> set (plan m l). \<exists>m1. tmode (tbl s') t a = Some m1 \<and> covers m1 am)" by blast
next
  fix s m l t s' assume a: "tl_inv s" "request_ok m l" "sys_lock m t l s = (False, s')"
  then obtain rc where r: "False \<longleftrightarrow> rc = SDB_OK" "a_lock t (plan m l) (tbl s) = (rc, tbl s')"
    by (rule sys_lock_refines)
  then show "tcnt (tbl s') = tcnt (tbl s)"
    using a_lock_count [OF r(2) tbl_nonneg [OF a(1)] plan_distinct] a(2) by (simp add: request_ok_def fun_eq_iff)
next
  fix s m l t s' assume a: "tl_inv s" "request_ok m l" "\<forall>a \<in> lock_path l. 0 < tcnt (tbl s) t a" "tl_release t l s = s'"
  have l: "id_ok l" "l \<in> lock_path l" "lock_level l = 2 \<longrightarrow> intent_id l \<in> lock_path l"
    using a(2) by (auto simp: request_ok_def lock_path_def plan_def Let_def)
  have held: "tbl s t a \<noteq> None" if "a \<in> lock_path l" for a
  proof -
    have "tcnt (tbl s) t a \<noteq> 0" using a(3) that by blast
    then show ?thesis by (cases "tbl s t a") (simp_all add: tcnt_def)
  qed
  have "tl_inv s'" "tbl s' = a_undo t (plan DPS_TRANSLOCK_S l) (tbl s)"
    using tl_release_refines [OF a(1), of t l] a(4) a_release_undo [OF l(1), of "tbl s" t] held l by auto
  with a_undo_count [OF tbl_nonneg [OF a(1)] plan_distinct [OF l(1)], of t DPS_TRANSLOCK_S]
  show "tl_inv s' \<and>
      (\<forall>t' a. tcnt (tbl s') t' a = tcnt (tbl s) t' a - (if t' = t \<and> a \<in> lock_path l then 1 else 0)) \<and>
      (\<forall>t' a. 0 < tcnt (tbl s') t' a \<longrightarrow> tmode (tbl s') t' a = tmode (tbl s) t' a)"
    by (simp add: plan_path)
next
  fix s t s' assume a: "tl_inv s" "tl_releaseAll t s = s'"
  with tl_releaseAll_refines [OF a(1), of t]
  show "tl_inv s' \<and> (\<forall>a. tcnt (tbl s') t a = 0) \<and>
      (\<forall>t' a. t' \<noteq> t \<longrightarrow> tcnt (tbl s') t' a = tcnt (tbl s) t' a \<and> tmode (tbl s') t' a = tmode (tbl s) t' a)"
    by (auto simp: tcnt_def tmode_def)
qed


end
