(* ===== verification/TransLockProps.thy ===== *)
theory TransLockProps
  imports TransLockService
begin

text \<open>
  Properties of the transaction lock manager, over the whole life of the locks of all EDUs, and the
  defects that evaluation of the model on concrete runs exhibits.
\<close>

section \<open>Evaluation\<close>

text \<open>The definitions that a run of the lock manager on concrete values unfolds.\<close>

lemmas tl_eval = sys_lock_def tryIS.simps tryIS_self_def tryIX_def tryS_def tryX_def try_self_def tryUpgrade_def
  try_new_def tl_release.simps release_one_def drop_lock_def tl_releaseAll_def onInfo_def incInfo_def setType_def addInfo_def delInfo_def
  getInfo_def getTransLock_def lockSys_new_def eduCB_new_def LockInfo_new_def
  bucket_tryAcquire_def bucket_release_def removeFromRun_def wakeUp_def postEvent_def appendToRun_def
  checkCompatible_def needUnit_def findUnit_def putUnit_def eraseUnit_def getBucket_def getBucketNo_def
  MAX_LOCKBUCKET_NUM_def upd_edu_def LockUnit_new_def addLockInfo_def delLockInfo_def putLockInfo_def
  clearLockList_def incRef_def decRef_def isLockMatch_def upgradeCheck_def isLockCompatible_table
  intent_id_def space_id_def DMS_INVALID_MBID_def DMS_INVALID_OFFSET_def DMS_INVALID_EXTENT_def
  less_dpsTransLockId_def lockId_less_def smap_erase_def

lemmas tl_eval_wait = tryOrAppendX_def tryUpgradeOrAppendHead_def bucket_tryAcquireOrAppend_def appendToWait_def
  appendHeadToWait_def append_walk.simps tl_wait_def bucket_waitLockX_def waitLock_def removeFromWait_def
  remove_walk.simps

section \<open>Run lists under blocking operations\<close>

definition unit_ok :: "dpsTransLockUnit \<Rightarrow> bool" where
  "unit_ok u \<longleftrightarrow> smap_ok (runList u) \<and> pairwise_ok (runList u)"

lemma unit_ok_wait [simp]: "unit_ok (u\<lparr>unitWaitCB := w\<rparr>) = unit_ok u"
  by (simp add: unit_ok_def)

lemma unit_ok_need: "runs_ok st \<Longrightarrow> unit_ok (needUnit l st)"
  by (simp add: unit_ok_def runList_needUnit runs_ok_def)

lemma unit_ok_find: "runs_ok st \<Longrightarrow> findUnit l st = Some u \<Longrightarrow> unit_ok u"
  using unit_ok_need [of st l] by (simp add: needUnit_def)

lemma unit_ok_append: "unit_ok u \<Longrightarrow> appendToRun t m u = (rc, u') \<Longrightarrow> unit_ok u'"
  using pairwise_ok_put [of "runList u" t m] appendToRun_eq [of u t m]
  by (auto simp: unit_ok_def split: if_splits)

lemma runs_ok_putUnit: "runs_ok st \<Longrightarrow> unit_ok u \<Longrightarrow> runs_ok (putUnit l u st)"
proof (cases "has_bucket l st")
  case False
  then have "putUnit l u st = st" by (simp add: has_bucket_def putUnit_def)
  then show "runs_ok st \<Longrightarrow> runs_ok (putUnit l u st)" by simp
qed (simp add: runs_ok_def unit_ok_def lock_laws)

lemma runs_ok_cong: "runs st' = runs st \<Longrightarrow> runs_ok st \<Longrightarrow> runs_ok st'"
  by (simp add: runs_ok_def)

lemma runs_ok_simps [simp]:
  "runs_ok (getBucket l st) = runs_ok st" "runs_ok (upd_edu t f st) = runs_ok st"
  "runs_ok (wakeUp t st) = runs_ok st" "runs_ok (addInfo t l m st) = runs_ok st"
  "runs_ok (delInfo t l st) = runs_ok st" "runs_ok (onInfo t l g st) = runs_ok st"
  "runs_ok (setType t l m st) = runs_ok st" "runs_ok (incInfo t l st) = runs_ok st"
  by (simp_all add: runs_ok_def setType_def incInfo_def lock_laws)

lemma append_walk_runs: "append_walk t l w st = Some st' \<Longrightarrow> runs st' = runs st"
proof (induction t l w st st' rule: append_walk.raw_induct [rotated 1, consumes 1])
  case (1 walk t l w st st')
  then show ?case by (auto simp: lock_laws split: option.splits)
qed

lemma remove_walk_runs: "remove_walk t l w st = Some st' \<Longrightarrow> runs st' = runs st"
proof (induction t l w st st' rule: remove_walk.raw_induct [rotated 1, consumes 1])
  case (1 walk t l w st st')
  then show ?case by (auto simp: lock_laws split: option.splits if_splits)
qed

lemma wait_queue_runs_ok:
  assumes "runs_ok st" and "unit_ok u"
  shows "appendToWait t l u st = Some st' \<Longrightarrow> runs_ok st'"
    and "appendHeadToWait t l u st = Some st' \<Longrightarrow> runs_ok st'"
    and "removeFromWait t l u st = Some st' \<Longrightarrow> runs_ok st'"
proof -
  show "appendToWait t l u st = Some st' \<Longrightarrow> runs_ok st'"
    using assms append_walk_runs runs_ok_cong by (auto simp: appendToWait_def runs_ok_putUnit split: option.splits)
  show "appendHeadToWait t l u st = Some st' \<Longrightarrow> runs_ok st'"
    using assms by (auto simp: appendHeadToWait_def Let_def runs_ok_putUnit split: option.splits)
  show "removeFromWait t l u st = Some st' \<Longrightarrow> runs_ok st'"
    using assms remove_walk_runs runs_ok_cong
    by (auto simp: removeFromWait_def runs_ok_putUnit split: option.splits if_splits)
qed

lemma waitLock_runs: "waitLock t st = (rc, st') \<Longrightarrow> runs st' = runs st"
  by (auto simp: waitLock_def Let_def lock_laws split: list.splits if_splits)

definition env_keeps :: "env_steps \<Rightarrow> bool" where
  "env_keeps envs \<longleftrightarrow> (\<forall>env \<in> set envs. \<forall>st. runs_ok st \<longrightarrow> runs_ok (env st))"

lemma wait_retry_runs_ok:
  assumes "wait_retry t l m envs st = Some (rc, st', envs')" and "runs_ok st" and "env_keeps envs"
  shows "runs_ok st' \<and> env_keeps envs'"
  using assms
proof (induction t l m envs st rule: wait_retry.induct)
  case (2 t l m env envs st)
  obtain rc1 st1 where w: "waitLock t (env st) = (rc1, st1)" by force
  have ok1: "runs_ok st1"
    using runs_ok_cong [OF waitLock_runs [OF w]] 2(3,4) by (simp add: env_keeps_def)
  have keep: "env_keeps envs" using 2(4) by (simp add: env_keeps_def)
  obtain u where u: "findUnit l st1 = Some u" using 2(2) w by (auto split: option.splits)
  have uok: "unit_ok u" by (rule unit_ok_find [OF ok1 u])
  obtain rc2 u' where a: "appendToRun t m u = (rc2, u')" by force
  have u'ok: "unit_ok u'" by (rule unit_ok_append [OF uok a])
  show ?case
  proof (cases "rc1 = SDB_OK")
    case False
    with 2(2) w u have "removeFromWait t l u st1 = Some st'" "envs' = envs" by auto
    then show ?thesis using wait_queue_runs_ok(3) [OF ok1 uok] keep by blast
  next
    case True
    show ?thesis
    proof (cases "rc2 = SDB_OK")
      case True2: True
      with 2(2) w u a True have "removeFromWait t l u' (putUnit l u' st1) = Some st'" "envs' = envs" by auto
      then show ?thesis using wait_queue_runs_ok(3) [OF runs_ok_putUnit [OF ok1 u'ok] u'ok] keep by blast
    next
      case False
      with 2(2) w u a True have "wait_retry t l m envs st1 = Some (rc, st', envs')" by auto
      with 2(1) [OF w [symmetric] u _ a [symmetric] _ _ ok1 keep] True False show ?thesis by auto
    qed
  qed
qed simp

lemma bucket_acquire_runs_ok:
  assumes "runs_ok st" and "env_keeps envs"
  shows "bucket_acquire t l m envs st = Some (rc, st', envs') \<Longrightarrow> runs_ok st' \<and> env_keeps envs'"
    and "bucket_upgrade t l m envs st = Some (rc, st', envs') \<Longrightarrow> runs_ok st' \<and> env_keeps envs'"
proof -
  obtain rc0 u where a: "appendToRun t m (needUnit l st) = (rc0, u)" by force
  have u: "unit_ok u" by (rule unit_ok_append [OF unit_ok_need [OF assms(1)] a])
  have ok: "runs_ok (putUnit l u st)" by (rule runs_ok_putUnit [OF assms(1) u])
  show "bucket_acquire t l m envs st = Some (rc, st', envs') \<Longrightarrow> runs_ok st' \<and> env_keeps envs'"
    using a ok wait_queue_runs_ok(1) [OF ok u] wait_retry_runs_ok assms(2)
    by (auto simp: bucket_acquire_def Let_def split: option.splits if_splits)
  show "bucket_upgrade t l m envs st = Some (rc, st', envs') \<Longrightarrow> runs_ok st' \<and> env_keeps envs'"
    using a ok wait_queue_runs_ok(2) [OF ok u] wait_retry_runs_ok assms(2)
    by (auto simp: bucket_upgrade_def Let_def split: option.splits if_splits)
qed

lemma bucket_release_runs_ok: "runs_ok st \<Longrightarrow> runs_ok (bucket_release t l st)"
  by (simp add: runs_ok_def bucket_release_laws pairwise_ok_erase)

lemma tl_release_runs_ok: "runs_ok st \<Longrightarrow> runs_ok (tl_release t l st)"
proof (induction t l st rule: tl_release.induct)
  case (1 t l st)
  have "runs_ok (release_one t l info st)" for info
    using 1(2) by (simp add: release_one_def drop_lock_def bucket_release_runs_ok)
  with 1 show ?case by (auto simp: tl_release.simps [of t l] split: option.splits)
qed

lemma acquire_new_runs_ok:
  "acquire_new t l m envs st = Some (rc, st', envs') \<Longrightarrow> runs_ok st \<Longrightarrow> env_keeps envs \<Longrightarrow>
   runs_ok st' \<and> env_keeps envs'"
  using bucket_acquire_runs_ok(1) [of "addInfo t l m (upd_edu t (setWaitLock l) (getBucket l st))" envs]
  by (fastforce simp: acquire_new_def Let_def split: if_splits)

lemma acquire_self_runs_ok:
  "acquire_self t l m envs st = Some (rc, st', envs') \<Longrightarrow> runs_ok st \<Longrightarrow> env_keeps envs \<Longrightarrow>
   runs_ok st' \<and> env_keeps envs'"
  using bucket_acquire_runs_ok(2) [of "setType t l m (getBucket l st)" envs] acquire_new_runs_ok
  by (fastforce simp: acquire_self_def tl_upgrade_def Let_def split: option.splits if_splits)

lemma acquireIS_self_runs_ok:
  "acquireIS_self t l envs st = Some (rc, st', envs') \<Longrightarrow> runs_ok st \<Longrightarrow> env_keeps envs \<Longrightarrow>
   runs_ok st' \<and> env_keeps envs'"
  using acquire_new_runs_ok by (fastforce simp: acquireIS_self_def split: option.splits)

lemma undo_intent_runs_ok:
  "undo_intent t i (rc, st, envs) = (rc', st', envs') \<Longrightarrow> runs_ok st \<Longrightarrow> env_keeps envs \<Longrightarrow>
   runs_ok st' \<and> env_keeps envs'"
  using tl_release_runs_ok by (auto simp: undo_intent_def split: if_splits)

lemma acquireIS_runs_ok:
  "acquireIS t l envs st = Some (rc, st', envs') \<Longrightarrow> runs_ok st \<Longrightarrow> env_keeps envs \<Longrightarrow>
   runs_ok st' \<and> env_keeps envs'"
proof (induction t l envs st arbitrary: rc st' envs' rule: acquireIS.induct)
  case (1 t l envs st)
  show ?case
  proof (cases "collectionID l = DMS_INVALID_MBID")
    case True
    with 1(2) have "acquireIS_self t l envs st = Some (rc, st', envs')" by (simp add: acquireIS.simps [of t l])
    with acquireIS_self_runs_ok 1(3,4) show ?thesis by blast
  next
    case False
    with 1(2) obtain rc1 st1 envs1 where p: "acquireIS t (space_id l) envs st = Some (rc1, st1, envs1)"
      by (auto simp: acquireIS.simps [of t l] split: option.splits)
    note ih = 1(1) [OF False p 1(3,4)]
    show ?thesis
    proof (cases "rc1 = SDB_OK")
      case True
      with 1(2) False p obtain r where "acquireIS_self t l envs1 st1 = Some r"
        "undo_intent t (space_id l) r = (rc, st', envs')"
        by (auto simp: acquireIS.simps [of t l])
      then show ?thesis using ih acquireIS_self_runs_ok undo_intent_runs_ok by (cases r) blast
    next
      case False2: False
      with 1(2) False p ih show ?thesis by (simp add: acquireIS.simps [of t l])
    qed
  qed
qed

text \<open>The shape of \<^verbatim>\<open>acquireX\<close>, \<^verbatim>\<open>acquireS\<close> and \<^verbatim>\<open>acquireIX\<close>.\<close>

lemma acquire_below_runs_ok:
  assumes "(case par of None \<Rightarrow> None
            | Some (rc, st1, envs1) \<Rightarrow>
                if rc \<noteq> SDB_OK then Some (rc, st1, envs1)
                else map_option (undo_intent t p) (acquire_self t l m envs1 st1)) = Some (rc, st', envs')"
    and "\<And>rc st1 envs1. par = Some (rc, st1, envs1) \<Longrightarrow> runs_ok st1 \<and> env_keeps envs1"
  shows "runs_ok st' \<and> env_keeps envs'"
proof -
  obtain rc1 st1 envs1 where p: "par = Some (rc1, st1, envs1)" using assms(1) by (auto split: option.splits)
  note ok = assms(2) [OF p]
  show ?thesis
  proof (cases "rc1 = SDB_OK")
    case True
    with assms(1) p obtain r where "acquire_self t l m envs1 st1 = Some r" "undo_intent t p r = (rc, st', envs')"
      by auto
    then show ?thesis using ok acquire_self_runs_ok undo_intent_runs_ok by (cases r) blast
  qed (use assms(1) p ok in simp)
qed

lemma acquireIX_runs_ok:
  assumes "acquireIX t l envs st = Some (rc, st', envs')" and "runs_ok st" and "env_keeps envs"
  shows "runs_ok st' \<and> env_keeps envs'"
proof (cases "collectionID l = DMS_INVALID_MBID")
  case True
  with assms(1) have "acquire_self t l DPS_TRANSLOCK_IX envs st = Some (rc, st', envs')" by (simp add: acquireIX_def)
  with acquire_self_runs_ok assms(2,3) show ?thesis by blast
next
  case False
  show ?thesis
    by (rule acquire_below_runs_ok [where par = "acquireIS t (space_id l) envs st" and p = "space_id l"
          and t = t and l = l and m = DPS_TRANSLOCK_IX and rc = rc])
       (use assms False acquireIS_runs_ok in \<open>auto simp: acquireIX_def\<close>)
qed

lemma acquireS_runs_ok:
  assumes "acquireS t l envs st = Some (rc, st', envs')" and "runs_ok st" and "env_keeps envs"
  shows "runs_ok st' \<and> env_keeps envs'"
proof (cases "collectionID l = DMS_INVALID_MBID")
  case True
  with assms(1) have "acquire_self t l DPS_TRANSLOCK_S envs st = Some (rc, st', envs')" by (simp add: acquireS_def)
  with acquire_self_runs_ok assms(2,3) show ?thesis by blast
next
  case False
  show ?thesis
    by (rule acquire_below_runs_ok [where par = "acquireIS t (intent_id l) envs st" and p = "intent_id l"
          and t = t and l = l and m = DPS_TRANSLOCK_S and rc = rc])
       (use assms False acquireIS_runs_ok in \<open>auto simp: acquireS_def\<close>)
qed

lemma acquireX_runs_ok:
  assumes "acquireX t l envs st = Some (rc, st', envs')" and "runs_ok st" and "env_keeps envs"
  shows "runs_ok st' \<and> env_keeps envs'"
proof (cases "collectionID l = DMS_INVALID_MBID")
  case True
  with assms(1) have "acquire_self t l DPS_TRANSLOCK_X envs st = Some (rc, st', envs')" by (simp add: acquireX_def)
  with acquire_self_runs_ok assms(2,3) show ?thesis by blast
next
  case False
  show ?thesis
    by (rule acquire_below_runs_ok [where par = "acquireIX t (intent_id l) envs st" and p = "intent_id l"
          and t = t and l = l and m = DPS_TRANSLOCK_X and rc = rc])
       (use assms False acquireIX_runs_ok in \<open>auto simp: acquireX_def\<close>)
qed

section \<open>Properties of the lock manager\<close>

definition valid_op :: "(tid, dpsTransLockId, DPS_TRANSLOCK_TYPE) lock_op \<Rightarrow> bool" where
  "valid_op op = (case op of Lock t l m \<Rightarrow> request_ok m l | _ \<Rightarrow> True)"

abbreviation tl_run ::
  "(tid, dpsTransLockId, DPS_TRANSLOCK_TYPE) lock_op list \<Rightarrow>
   lockSys \<times> (tid \<times> dpsTransLockId \<times> DPS_TRANSLOCK_TYPE) list" where
  "tl_run ops \<equiv> lock_run sys_lock tl_release tl_releaseAll ops (lockSys_new, [])"

lemma tl_run_accounted:
  assumes "\<forall>op \<in> set ops. valid_op op" and "tl_run ops = (st, held)"
  shows "trans.accounted (st, held)"
proof -
  have new: "tbl lockSys_new t a = None" for t a
    by (simp add: tbl_def locks_def lockSys_new_def eduCB_new_def)
  have "trans.accounted (lockSys_new, [])"
    unfolding trans.accounted_def by (simp add: tl_inv_new tcnt_def new)
  moreover have "\<forall>op \<in> set ops. trans.op_valid op"
    using assms(1) by (simp add: trans.op_valid_def valid_op_def)
  ultimately show ?thesis using trans.run_accounted assms(2) by metis
qed

lemma tl_modes_compatible:
  assumes "tl_inv st" and "t \<noteq> t'" and "tmode (tbl st) t a = Some m" and "tmode (tbl st) t' a = Some m'"
  shows "isLockCompatible m m'"
proof -
  from assms have runs: "map_of (runs st a) t = Some m" "map_of (runs st a) t' = Some m'"
    by (auto simp: tl_inv_def tmode_def tbl_def)
  moreover have "smap_ok (runs st a)" "pairwise_ok (runs st a)" using assms(1) by (auto simp: tl_inv_def)
  ultimately have "(t, m) \<in> set (runs st a)" "(t', m') \<in> set (runs st a)" by (simp_all add: smap_mem)
  with \<open>pairwise_ok (runs st a)\<close> assms(2) show ?thesis by (fastforce simp: pairwise_ok_def)
qed

lemma tl_held_mode:
  assumes "trans.accounted (st, held)" and "(t, l, m) \<in> set held" and "(a, am) \<in> set (plan m l)"
  obtains m1 where "tmode (tbl st) t a = Some m1" and "covers m1 am"
proof -
  have "trans.backed st (t, l, m)" using assms(1,2) by (auto simp: trans.accounted_def)
  then have "\<forall>(a, am) \<in> set (plan m l). \<exists>m1. tmode (tbl st) t a = Some m1 \<and> covers m1 am"
    by (simp add: trans.backed_def)
  with assms(3) that show thesis by blast
qed

text \<open>
  C2. Conflicting locks are never held together. After any sequence of requests, releases and ends of
  transactions, if two EDUs both hold a request and the requests meet at a lock \<open>a\<close> (the same record,
  or a collection or space above), then the modes that the two requests need there are compatible.
  In particular a collection held in mode X keeps every other EDU from holding any lock on a
  record in it, and mode S on a collection keeps out mode X on its records.
\<close>

theorem tl_held_compatible:
  assumes "\<forall>op \<in> set ops. valid_op op" and "tl_run ops = (st, held)"
    and "(t, l, m) \<in> set held" and "(t', l', m') \<in> set held" and "t \<noteq> t'"
    and "(a, am) \<in> set (plan m l)" and "(a, am') \<in> set (plan m' l')"
  shows "isLockCompatible am am'"
proof -
  have acc: "trans.accounted (st, held)" by (rule tl_run_accounted [OF assms(1,2)])
  then have inv: "tl_inv st" by (simp add: trans.accounted_def)
  obtain m1 where m1: "tmode (tbl st) t a = Some m1" "covers m1 am"
    using tl_held_mode [OF acc assms(3,6)] .
  obtain m2 where m2: "tmode (tbl st) t' a = Some m2" "covers m2 am'"
    using tl_held_mode [OF acc assms(4,7)] .
  have "isLockCompatible m1 m2" by (rule tl_modes_compatible [OF inv assms(5) m1(1) m2(1)])
  then have "isLockCompatible am m2" by (rule covers_compatible [OF m1(2)])
  then have "isLockCompatible am' am"
    using covers_compatible [OF m2(2)] isLockCompatible_sym by blast
  then show ?thesis by (simp add: isLockCompatible_sym)
qed

theorem tl_held_compatible_witness:
  "snd (tl_run [Lock 1 (LockId 1 2 3 4) DPS_TRANSLOCK_X, Lock 2 (LockId 1 2 3 8) DPS_TRANSLOCK_S]) =
     [(2, LockId 1 2 3 8, DPS_TRANSLOCK_S), (1, LockId 1 2 3 4, DPS_TRANSLOCK_X)] \<and>
   isLockCompatible DPS_TRANSLOCK_IX DPS_TRANSLOCK_IS"
proof -
  let ?ops = "[Lock 1 (LockId 1 2 3 4) DPS_TRANSLOCK_X, Lock 2 (LockId 1 2 3 8) DPS_TRANSLOCK_S]"
  have held: "snd (tl_run ?ops) = [(2, LockId 1 2 3 8, DPS_TRANSLOCK_S), (1, LockId 1 2 3 4, DPS_TRANSLOCK_X)]"
    by (simp add: tl_eval)
  have ops: "\<forall>op \<in> set ?ops. valid_op op"
    by (simp add: valid_op_def request_ok_def id_ok_def DMS_INVALID_MBID_def DMS_INVALID_OFFSET_def)
  obtain st where st: "tl_run ?ops = (st, [(2, LockId 1 2 3 8, DPS_TRANSLOCK_S), (1, LockId 1 2 3 4, DPS_TRANSLOCK_X)])"
    using held by (metis prod.collapse)
  have "isLockCompatible DPS_TRANSLOCK_IX DPS_TRANSLOCK_IS"
    by (rule tl_held_compatible [OF ops st, where t = 1 and l = "LockId 1 2 3 4" and m = DPS_TRANSLOCK_X
          and t' = 2 and l' = "LockId 1 2 3 8" and m' = DPS_TRANSLOCK_S and a = "LockId 1 2 (-1) (-1)"])
       (simp_all add: plan_def lock_level_def intent_id_def space_id_def DMS_INVALID_MBID_def
         DMS_INVALID_OFFSET_def DMS_INVALID_EXTENT_def)
  with held show ?thesis by blast
qed

text \<open>
  C9. The bookkeeping is exact: after any such sequence the reference count that an EDU keeps for a
  lock is the number of its held requests that go through that lock, and the EDU is on the run
  list of the lock exactly when that number is positive. Refused requests leave nothing behind, and
  nothing is left when everything has been given back.
\<close>

theorem tl_counts_exact:
  assumes "\<forall>op \<in> set ops. valid_op op" and "tl_run ops = (st, held)"
  shows "tcnt (tbl st) t a = length (filter (\<lambda>(t', l, m). t' = t \<and> a \<in> lock_path l) held) \<and>
         (t \<in> fst ` set (runs st a) \<longleftrightarrow> (\<exists>l m. (t, l, m) \<in> set held \<and> a \<in> lock_path l))"
proof -
  have acc: "trans.accounted (st, held)" by (rule tl_run_accounted [OF assms])
  then have inv: "tl_inv st" and c: "tcnt (tbl st) t a = trans.through held t a"
    by (auto simp: trans.accounted_def)
  have "t \<in> fst ` set (runs st a) \<longleftrightarrow> map_of (runs st a) t \<noteq> None"
    by (simp add: map_of_eq_None_iff)
  also have "\<dots> \<longleftrightarrow> tmode (tbl st) t a \<noteq> None"
    using inv by (simp add: tl_inv_def tmode_def tbl_def)
  also have "\<dots> \<longleftrightarrow> 0 < tcnt (tbl st) t a" using tmode_tcnt [OF tbl_nonneg [OF inv]] by simp
  also have "\<dots> \<longleftrightarrow> (\<exists>l m. (t, l, m) \<in> set held \<and> a \<in> lock_path l)"
    unfolding c trans.through_def by (auto simp: filter_empty_conv)
  finally show ?thesis using c by (simp add: trans.through_def)
qed

theorem tl_counts_exact_witness:
  "\<exists>st held. tl_run [Lock 1 (LockId 1 2 3 4) DPS_TRANSLOCK_X, Lock 1 (LockId 1 2 3 8) DPS_TRANSLOCK_S, Unlock 0]
     = (st, held) \<and> tcnt (tbl st) 1 (LockId 1 2 (-1) (-1)) = 1 \<and>
     1 \<in> fst ` set (runs st (LockId 1 2 (-1) (-1)))"
proof -
  let ?ops = "[Lock 1 (LockId 1 2 3 4) DPS_TRANSLOCK_X, Lock 1 (LockId 1 2 3 8) DPS_TRANSLOCK_S, Unlock 0]"
  have held: "snd (tl_run ?ops) = [(1, LockId 1 2 3 4, DPS_TRANSLOCK_X)]" by (simp add: tl_eval)
  have ops: "\<forall>op \<in> set ?ops. valid_op op"
    by (simp add: valid_op_def request_ok_def id_ok_def DMS_INVALID_MBID_def DMS_INVALID_OFFSET_def)
  obtain st where st: "tl_run ?ops = (st, [(1, LockId 1 2 3 4, DPS_TRANSLOCK_X)])"
    using held by (metis prod.collapse)
  have "LockId 1 2 (-1) (-1) \<in> lock_path (LockId 1 2 3 4)"
    by (simp add: lock_path_def plan_def lock_level_def intent_id_def space_id_def DMS_INVALID_MBID_def
        DMS_INVALID_OFFSET_def DMS_INVALID_EXTENT_def)
  with tl_counts_exact [OF ops st, of 1 "LockId 1 2 (-1) (-1)"] st show ?thesis by auto
qed

text \<open>
  C20. The operations refine a flat table of modes and counts: \<^verbatim>\<open>tryX\<close> and \<^verbatim>\<open>tryS\<close> return what
  taking the plan of the request step by step in the table returns (each step granted exactly
  when no other EDU holds a conflicting mode, all steps undone if a later one is refused), leave
  that table, and keep the agreement of run lists and lock lists. Buckets, early exits and the
  rollback of modes are invisible.
\<close>

theorem tl_try_refines_table:
  assumes "tl_inv st" and "id_ok l"
  shows "(\<forall>rc st'. tryX t l st = (rc, st') \<longrightarrow>
            tl_inv st' \<and> a_lock t (plan DPS_TRANSLOCK_X l) (tbl st) = (rc, tbl st')) \<and>
         (\<forall>rc st'. tryS t l st = (rc, st') \<longrightarrow>
            tl_inv st' \<and> a_lock t (plan DPS_TRANSLOCK_S l) (tbl st) = (rc, tbl st'))"
  using tryX_refines [OF assms] tryS_refines [OF assms] by metis

theorem tl_try_refines_table_witness:
  "\<exists>st'. tryX 7 (LockId 1 2 3 4) lockSys_new = (SDB_OK, st') \<and> tl_inv st' \<and>
     a_lock 7 (plan DPS_TRANSLOCK_X (LockId 1 2 3 4)) (tbl lockSys_new) = (SDB_OK, tbl st')"
proof -
  obtain rc st' where r: "tryX 7 (LockId 1 2 3 4) lockSys_new = (rc, st')" by force
  moreover have "fst (tryX 7 (LockId 1 2 3 4) lockSys_new) = SDB_OK" by (simp add: tl_eval)
  ultimately have ok: "tryX 7 (LockId 1 2 3 4) lockSys_new = (SDB_OK, st')" by simp
  have "id_ok (LockId 1 2 3 4)" by (simp add: id_ok_def DMS_INVALID_MBID_def DMS_INVALID_OFFSET_def)
  with tl_try_refines_table [OF tl_inv_new, of "LockId 1 2 3 4" 7] ok show ?thesis by blast
qed

text \<open>
  C29. The walk of \<^verbatim>\<open>checkCompatible\<close> over the run list, which stops at the first entry in the
  requested mode, gives the same answer as checking every other EDU on the list, as long as the
  modes on the list are pairwise compatible; and a grant keeps them so.
\<close>

theorem tl_check_early_exit:
  assumes "smap_ok (runList u)" and "pairwise_ok (runList u)"
  shows "(checkCompatible t m u \<longleftrightarrow> (\<forall>t' m'. t' \<noteq> t \<longrightarrow> map_of (runList u) t' = Some m' \<longrightarrow> isLockCompatible m' m)) \<and>
         pairwise_ok (runList (snd (appendToRun t m u)))"
proof -
  have "checkCompatible t m u \<longleftrightarrow> grantable t m (runList u)"
    using check_walk_grantable [OF assms(2) smap_ok_distinct [OF assms(1)]] by (simp add: checkCompatible_def)
  moreover have "grantable t m (runList u) \<longleftrightarrow>
      (\<forall>t' m'. t' \<noteq> t \<longrightarrow> map_of (runList u) t' = Some m' \<longrightarrow> isLockCompatible m' m)"
    using smap_mem [OF assms(1)] by (fastforce simp: grantable_def)
  moreover have "pairwise_ok (runList (snd (appendToRun t m u)))"
    using assms pairwise_ok_put [OF assms] by (simp add: appendToRun_eq)
  ultimately show ?thesis by blast
qed

theorem tl_check_early_exit_witness:
  "\<not> checkCompatible 3 DPS_TRANSLOCK_X
      \<lparr>unitWaitCB = None, runList = [(1, DPS_TRANSLOCK_IS), (2, DPS_TRANSLOCK_IX)]\<rparr>"
proof -
  let ?u = "\<lparr>unitWaitCB = None, runList = [(1, DPS_TRANSLOCK_IS), (2, DPS_TRANSLOCK_IX)]\<rparr> :: dpsTransLockUnit"
  have "smap_ok (runList ?u)" "pairwise_ok (runList ?u)"
    by (simp_all add: pairwise_ok_def isLockCompatible_table)
  from tl_check_early_exit [OF this, of 3 DPS_TRANSLOCK_X] show ?thesis
    by (auto simp: isLockCompatible_table dest!: spec [of _ 1])
qed

text \<open>
  The mode lattice: a held mode satisfies a request without going to the bucket exactly when
  everything compatible with the held mode is compatible with the requested one, compatibility is
  symmetric, and an upgrade that is allowed leads to a mode that includes the old one.
\<close>

theorem tl_mode_lattice:
  "(isLockMatch info m \<longleftrightarrow> (\<forall>c. isLockCompatible (lockType info) c \<longrightarrow> isLockCompatible m c)) \<and>
   isLockCompatible a b = isLockCompatible b a \<and>
   (upgradeCheck a b = SDB_OK \<longrightarrow> (\<forall>c. isLockCompatible b c \<longrightarrow> isLockCompatible a c))"
  using upgrade_covers [of a b]
  by (auto simp: isLockMatch_covers covers_iff isLockCompatible_sym)

theorem tl_mode_lattice_witness:
  "isLockMatch (LockInfo_new DPS_TRANSLOCK_X) DPS_TRANSLOCK_S \<and>
   isLockCompatible DPS_TRANSLOCK_IS DPS_TRANSLOCK_IX"
  using tl_mode_lattice [of "LockInfo_new DPS_TRANSLOCK_X" DPS_TRANSLOCK_S DPS_TRANSLOCK_IS DPS_TRANSLOCK_IX]
  by (simp add: LockInfo_new_def isLockCompatible_table upgradeCheck_def)

text \<open>
  C32. The end of a transaction: \<^verbatim>\<open>releaseAll\<close> takes the EDU off every run list, leaves every other
  EDU's locks alone and empties its lock list.
\<close>

theorem tl_release_all:
  assumes "tl_inv st"
  shows "tl_inv (tl_releaseAll t st) \<and>
         map_of (runs (tl_releaseAll t st) l) = (map_of (runs st l))(t := None) \<and>
         tbl (tl_releaseAll t st) = (tbl st)(t := (\<lambda>_. None))"
  using tl_releaseAll_refines [OF assms] by simp

theorem tl_release_all_witness:
  "\<exists>st. tryX 1 (LockId 1 2 3 4) lockSys_new = (SDB_OK, st) \<and>
     map_of (runs (tl_releaseAll 1 st) (LockId 1 2 3 4)) 1 = None"
proof -
  obtain rc st where r: "tryX 1 (LockId 1 2 3 4) lockSys_new = (rc, st)" by force
  moreover have "fst (tryX 1 (LockId 1 2 3 4) lockSys_new) = SDB_OK" by (simp add: tl_eval)
  ultimately have ok: "tryX 1 (LockId 1 2 3 4) lockSys_new = (SDB_OK, st)" by simp
  have "id_ok (LockId 1 2 3 4)" by (simp add: id_ok_def DMS_INVALID_MBID_def DMS_INVALID_OFFSET_def)
  from tryX_refines [OF tl_inv_new this ok] have "tl_inv st" by blast
  from tl_release_all [OF this, of 1 "LockId 1 2 3 4"] ok show ?thesis by auto
qed

text \<open>
  C28. Blocking requests are safe under interference. Whatever the other EDUs do while the request
  waits, as long as their own steps keep the run lists pairwise compatible, an
  \<^verbatim>\<open>acquireX\<close> or \<^verbatim>\<open>acquireS\<close> that returns, with success, timeout or interruption, leaves
  them pairwise compatible.
\<close>

theorem tl_acquire_safe:
  assumes "runs_ok st" and "env_keeps envs"
    and "acquireX t l envs st = Some (rc, st', envs') \<or> acquireS t l envs st = Some (rc, st', envs')"
  shows "pairwise_ok (runs st' a)"
  using assms acquireX_runs_ok acquireS_runs_ok by (meson runs_ok_def)

theorem tl_acquire_safe_witness:
  "\<exists>rc st'. acquireX 2 (LockId 1 65535 (-1) (-1)) [tl_releaseAll 1]
      (snd (tryX 1 (LockId 1 65535 (-1) (-1)) lockSys_new)) = Some (rc, st', []) \<and> rc = SDB_OK \<and>
     pairwise_ok (runs st' (LockId 1 65535 (-1) (-1)))"
proof -
  let ?l = "LockId 1 65535 (-1) (-1)" and ?st = "snd (tryX 1 (LockId 1 65535 (-1) (-1)) lockSys_new)"
  have "map_option (\<lambda>(rc, st', envs). (rc, envs)) (acquireX 2 ?l [tl_releaseAll 1] ?st) = Some (SDB_OK, [])"
    by (simp add: tl_eval tl_eval_wait acquireX_def acquire_self_def acquire_new_def bucket_acquire_def
        setWaitLock_def clearWaitLock_def LockId_reset_def Let_def)
  then obtain st' where r: "acquireX 2 ?l [tl_releaseAll 1] ?st = Some (SDB_OK, st', [])" by auto
  have "id_ok ?l" by (simp add: id_ok_def DMS_INVALID_MBID_def DMS_INVALID_OFFSET_def DMS_INVALID_EXTENT_def)
  then have ok: "runs_ok ?st"
    using tryX_refines [OF tl_inv_new] tl_inv_runs_ok by (metis prod.collapse)
  have "runs_ok (tl_releaseAll 1 s)" if "runs_ok s" for s
    using that by (auto simp: runs_ok_def tl_releaseAll_def lock_laws releaseAll_loop_laws pairwise_ok_erase)
  then have env: "env_keeps [tl_releaseAll 1]" by (simp add: env_keeps_def)
  from tl_acquire_safe [OF ok env disjI1 [OF r], of ?l] r show ?thesis by blast
qed

text \<open>
  A release hands the lock on: taking an EDU off the run list of a lock posts the wake-up event
  to the EDU at the head of the queue, and a unit nobody holds or waits for is dropped.
\<close>

theorem tl_release_wakes:
  assumes "findUnit l st = Some u"
  shows "runs (bucket_release t l st) l = smap_erase t (runList u) \<and>
         (case unitWaitCB u of
            Some w \<Rightarrow> eventQueue (edus (bucket_release t l st) w) =
                        eventQueue (edus st w) @ [PMD_EDU_EVENT_LOCKWAKEUP] \<and>
                      bucket_hasWait l (bucket_release t l st)
          | None \<Rightarrow> edus (bucket_release t l st) = edus st \<and>
              (findUnit l (bucket_release t l st) = None \<longleftrightarrow> smap_erase t (runList u) = []))"
proof -
  have hb: "has_bucket l st" by (rule has_bucket_findUnit [OF assms])
  have "runs st l = runList u" using assms by (simp add: runs_def)
  then have "runs (bucket_release t l st) l = smap_erase t (runList u)" by (simp add: bucket_release_laws)
  moreover have "edus (putUnit l v st) = edus st" "edus (eraseUnit l s) = edus s"
    "findUnit l (s\<lparr>edus := e\<rparr>) = findUnit l s" for v s e
    by (auto simp: putUnit_def eraseUnit_def findUnit_def split: option.splits)
  ultimately show ?thesis
    using assms hb
    by (auto simp: bucket_release_def removeFromRun_def Let_def wakeUp_def upd_edu_def postEvent_def
        bucket_hasWait_def findUnit_putUnit findUnit_eraseUnit split: option.splits)
qed

theorem tl_release_wakes_witness:
  "let l = LockId 1 2 3 4; st = putUnit l \<lparr>unitWaitCB = Some 2, runList = [(1, DPS_TRANSLOCK_X)]\<rparr> (getBucket l lockSys_new)
   in eventQueue (edus (bucket_release 1 l st) 2) = [PMD_EDU_EVENT_LOCKWAKEUP]"
proof -
  let ?l = "LockId 1 2 3 4" and ?u = "\<lparr>unitWaitCB = Some 2, runList = [(1, DPS_TRANSLOCK_X)]\<rparr>"
  let ?st = "putUnit ?l ?u (getBucket ?l lockSys_new)"
  have "findUnit ?l ?st = Some ?u" by (simp add: lock_laws)
  from tl_release_wakes [OF this, of 1]
  have "eventQueue (edus (bucket_release 1 ?l ?st) 2) = eventQueue (edus ?st 2) @ [PMD_EDU_EVENT_LOCKWAKEUP]"
    by simp
  moreover have "eventQueue (edus ?st 2) = []" by (simp add: tl_eval)
  ultimately show ?thesis by (simp add: Let_def)
qed


text \<open>
  A defect: mode S on a collection space does not keep out writers of its records. A record lock
  in mode X asks for mode IS only on the space, so it is granted to EDU 2 while EDU 1 holds the
  space in mode S.
\<close>

theorem tl_space_S_admits_record_X:
  "case tryS 1 (LockId 1 DMS_INVALID_MBID DMS_INVALID_EXTENT DMS_INVALID_OFFSET) lockSys_new of
     (rc1, st1) \<Rightarrow> rc1 = SDB_OK \<and>
       (case tryX 2 (LockId 1 2 3 4) st1 of
          (rc2, st2) \<Rightarrow> rc2 = SDB_OK \<and>
            runs st2 (LockId 1 DMS_INVALID_MBID DMS_INVALID_EXTENT DMS_INVALID_OFFSET) =
              [(1, DPS_TRANSLOCK_S), (2, DPS_TRANSLOCK_IS)] \<and>
            runs st2 (LockId 1 2 3 4) = [(2, DPS_TRANSLOCK_X)])"
  by (simp add: tl_eval runs_def)


end
