(* ===== verification/PieceSet.thy ===== *)
theory PieceSet
  imports Prelude
begin

text \<open>
  The interface of a set of LOB piece numbers, and what follows from it for the counted loops of
  \<^verbatim>\<open>rtn/rtnLobPieces.cpp\<close>. A piece number is a \<^verbatim>\<open>UINT32\<close>, and the two loops of
  \<^verbatim>\<open>addPieces\<close> and \<^verbatim>\<open>delPieces\<close> count with a \<^verbatim>\<open>UINT32\<close> that wraps around:
  they are partial functions whose value \<open>None\<close> is a loop that does not end.
\<close>

section \<open>Counted loops\<close>

text \<open>\<^verbatim>\<open>for ( UINT32 i = first ; i <= last ; i++ )\<close> with an early exit on an error.\<close>

partial_function (option) for_up ::
  "('s \<Rightarrow> 32 word \<Rightarrow> sdb_rc \<times> 's) \<Rightarrow> 32 word \<Rightarrow> 32 word \<Rightarrow> 's \<Rightarrow> (sdb_rc \<times> 's) option" where
  "for_up body i hi s =
     (if i \<le> hi
      then (case body s i of (rc, s') \<Rightarrow>
              if rc \<noteq> SDB_OK then Some (rc, s') else for_up body (i + 1) hi s')
      else Some (SDB_OK, s))"

text \<open>\<^verbatim>\<open>for ( UINT32 i = last ; i >= first ; i-- )\<close>.\<close>

partial_function (option) for_down ::
  "('s \<Rightarrow> 32 word \<Rightarrow> sdb_rc \<times> 's) \<Rightarrow> 32 word \<Rightarrow> 32 word \<Rightarrow> 's \<Rightarrow> (sdb_rc \<times> 's) option" where
  "for_down body i lo s =
     (if lo \<le> i
      then (case body s i of (rc, s') \<Rightarrow>
              if rc \<noteq> SDB_OK then Some (rc, s') else for_down body (i - 1) lo s')
      else Some (SDB_OK, s))"

section \<open>Words as numbers\<close>

lemma unat_succ:
  fixes a b :: "32 word"
  assumes "a < b"
  shows "unat (a + 1) = unat a + 1"
proof -
  have "unat b < 2 ^ LENGTH(32)" by (rule unsigned_less)
  with assms have "unat a + unat (1 :: 32 word) < 2 ^ LENGTH(32)"
    by (simp add: word_less_nat_alt)
  then show ?thesis by (simp add: unat_add_lem [THEN iffD1])
qed

lemma unat_pred:
  fixes a b :: "32 word"
  assumes "a < b"
  shows "unat (b - 1) = unat b - 1"
  using assms by (intro unat_minus_one) auto

lemma succ_eq:
  fixes a b :: "32 word"
  assumes "a < b"
  shows "a + 1 = b \<longleftrightarrow> unat b = unat a + 1"
  using unat_succ [OF assms] by (auto simp: word_unat_eq_iff)

lemma below_max:
  fixes a :: "32 word"
  assumes "a \<noteq> - 1"
  shows "a < - 1"
  using assms by (simp add: word_order.not_eq_extremum)

lemma atLeastAtMost_up:
  fixes i l :: "32 word"
  assumes "i \<le> l" and "l \<noteq> - 1"
  shows "{i..l} = insert i {i + 1..l}"
proof -
  have "unat (i + 1) = unat i + 1"
    using assms below_max [of l] by (intro unat_succ [of i "- 1"]) auto
  with assms show ?thesis by (auto simp: word_le_nat_alt word_unat_eq_iff)
qed

lemma atLeastAtMost_down:
  fixes i f :: "32 word"
  assumes "f \<le> i" and "f \<noteq> 0"
  shows "{f..i} = insert i {f..i - 1}"
proof -
  from assms have pos: "0 < f" "0 < i" by (auto simp: word_neq_0_conv intro: less_le_trans)
  have "unat (i - 1) = unat i - 1" by (rule unat_pred [OF pos(2)])
  moreover have "0 < unat f" using pos(1) by (simp add: word_less_nat_alt)
  ultimately show ?thesis using assms by (auto simp: word_le_nat_alt word_unat_eq_iff)
qed

section \<open>A set of pieces\<close>

text \<open>
  What the loops rely on. Adding a piece succeeds, keeps the representation well-formed and changes
  the set of pieces by that piece. Deleting a piece always returns \<^const>\<open>SDB_OK\<close>; it has
  the same promise under \<open>room\<close>, a condition that holds in particular when the piece above it
  is not in the set.
\<close>

locale piece_container =
  fixes add :: "'s \<Rightarrow> 32 word \<Rightarrow> sdb_rc \<times> 's"
    and del :: "'s \<Rightarrow> 32 word \<Rightarrow> sdb_rc \<times> 's"
    and good :: "'s \<Rightarrow> bool"
    and view :: "'s \<Rightarrow> 32 word set"
    and room :: "'s \<Rightarrow> 32 word \<Rightarrow> bool"
  assumes add_piece: "good s \<Longrightarrow>
            \<exists>s'. add s w = (SDB_OK, s') \<and> good s' \<and> view s' = insert w (view s)"
    and del_returns: "\<exists>s'. del s w = (SDB_OK, s')"
    and del_piece: "good s \<Longrightarrow> room s w \<Longrightarrow> del s w = (SDB_OK, s') \<Longrightarrow>
            good s' \<and> view s' = view s - {w}"
    and room_above: "good s \<Longrightarrow> w + 1 \<notin> view s \<Longrightarrow> room s w"
begin

lemma for_up_adds:
  assumes "good s" and "l \<noteq> - 1"
  shows "\<exists>s'. for_up add i l s = Some (SDB_OK, s') \<and> good s' \<and> view s' = view s \<union> {i..l}"
  using assms(1)
proof (induction "unat l + 1 - unat i" arbitrary: i s)
  case 0
  then have "\<not> i \<le> l" by (simp add: word_le_nat_alt)
  with 0 show ?case by (simp add: for_up.simps [of add i])
next
  case (Suc n)
  then have le: "i \<le> l" by (simp add: word_le_nat_alt)
  obtain s' where s': "add s i = (SDB_OK, s')" "good s'" "view s' = insert i (view s)"
    using add_piece [OF Suc.prems] by blast
  have "unat (i + 1) = unat i + 1"
    using le assms(2) below_max [of l] by (intro unat_succ [of i "- 1"]) auto
  with Suc(2) have "n = unat l + 1 - unat (i + 1)" by simp
  from Suc(1) [OF this s'(2)] show ?case
    using le s' atLeastAtMost_up [OF le assms(2)] by (simp add: for_up.simps [of add i])
qed

lemma for_down_deletes:
  assumes "good s" and "room s i" and "f \<noteq> 0"
  shows "\<exists>s'. for_down del i f s = Some (SDB_OK, s') \<and> good s' \<and> view s' = view s - {f..i}"
  using assms(1,2)
proof (induction "unat i + 1 - unat f" arbitrary: i s)
  case 0
  then have "\<not> f \<le> i" by (simp add: word_le_nat_alt)
  with 0 show ?case by (simp add: for_down.simps [of del i])
next
  case (Suc n)
  then have le: "f \<le> i" by (simp add: word_le_nat_alt)
  obtain s' where s': "del s i = (SDB_OK, s')" using del_returns by blast
  note del = del_piece [OF Suc.prems s']
  then have "room s' (i - 1)" by (intro room_above) auto
  have "unat (i - 1) = unat i - 1" and "0 < unat i"
    using le assms(3) unat_pred [of 0 i] by (auto simp: word_neq_0_conv word_less_nat_alt word_le_nat_alt)
  with Suc(2) have "n = unat (i - 1) + 1 - unat f" by simp
  from Suc(1) [OF this conjunct1 [OF del] \<open>room s' (i - 1)\<close>] show ?case
    using le s' del atLeastAtMost_down [OF le assms(3)]
    by (auto simp: for_down.simps [of del i])
qed

lemma for_up_diverges:
  assumes "good s"
  shows "for_up add i (- 1) s = None"
proof -
  have "for_up body i l s = Some r \<Longrightarrow> body = add \<and> l = - 1 \<and> good s \<longrightarrow> False" for body i l s r
  proof (induction rule: for_up.raw_induct [rotated 1, consumes 1])
    case (1 rec body i l s r)
    show ?case
    proof (intro impI)
      assume a: "body = add \<and> l = - 1 \<and> good s"
      then obtain s' where "add s i = (SDB_OK, s')" "good s'" using add_piece by blast
      with a 1(2) have "rec body (i + 1) l s' = Some r" by simp
      from 1(1) [OF this] a \<open>good s'\<close> show False by simp
    qed
  qed
  with assms show ?thesis by (cases "for_up add i (- 1) s") auto
qed

lemma for_down_diverges: "for_down del i 0 s = None"
proof -
  have "for_down body i l s = Some r \<Longrightarrow> body = del \<and> l = 0 \<longrightarrow> False" for body i l s r
  proof (induction rule: for_down.raw_induct [rotated 1, consumes 1])
    case (1 rec body i l s r)
    obtain s' where s': "del s i = (SDB_OK, s')" using del_returns by blast
    show ?case
    proof (intro impI)
      assume a: "body = del \<and> l = 0"
      with s' 1(2) have "rec body (i - 1) l s' = Some r" by simp
      from 1(1) [OF this] a show False by simp
    qed
  qed
  then show ?thesis by (cases "for_down del i 0 s") (simp, blast)
qed

end

end
