(* ===== verification/Bson.thy ===== *)
theory Bson
  imports Main
begin

text \<open>
  The part of \<^verbatim>\<open>bson/\<close> that the LOB bookkeeping reads and writes: an object is the list of
  its named elements in order, an array the list of its elements. An element is told apart by its
  type; the types no modelled function interprets are \<open>OtherType\<close> with their type code.
\<close>

datatype bsonElement =
    EOO
  | NumberInt int
  | NumberLong int
  | Object "(string \<times> bsonElement) list"
  | OtherType int

type_synonym bsonObj = "(string \<times> bsonElement) list"
type_synonym bsonArray = "bsonElement list"

fun getField :: "bsonObj \<Rightarrow> string \<Rightarrow> bsonElement" where
  "getField [] name = EOO"
| "getField ((n, e) # rest) name = (if n = name then e else getField rest name)"

end
