(* ===== verification/LobPieces.thy ===== *)
theory LobPieces
  imports PieceSet Bson
begin

text \<open>
  The set of written pieces of a LOB: class \<^verbatim>\<open>_rtnLobPiecesInfo\<close> of
  \<^verbatim>\<open>rtn/rtnLobPieces.cpp\<close>. The pieces are kept as a vector of closed intervals of
  \<^verbatim>\<open>UINT32\<close>, in ascending order and with a gap between neighbours; lookups are binary
  searches. Indices are \<^verbatim>\<open>INT32\<close> and stay far below its maximum (an interval takes eight
  bytes), so they are integers here.
\<close>

section \<open>Model\<close>

record lobPieces =
  p_first :: "32 word"
  p_last :: "32 word"

definition contains :: "lobPieces \<Rightarrow> 32 word \<Rightarrow> bool" where
  "contains p piece \<longleftrightarrow> p_first p \<le> piece \<and> piece \<le> p_last p"

definition one_piece :: "32 word \<Rightarrow> lobPieces" where
  "one_piece piece = \<lparr>p_first = piece, p_last = piece\<rparr>"


definition LOB_PIECES_INVALID_INDEX :: int where
  "LOB_PIECES_INVALID_INDEX = -1"

text \<open>
  The intervals are a \<^verbatim>\<open>std::vector\<close>. Its capacity is part of the state: an insertion into
  a full vector moves the elements to new storage (twice the size), after which a reference taken
  before the insertion no longer denotes an element.
\<close>

record lobPiecesInfo =
  sections :: "lobPieces list"
  capacity :: nat

definition vec_full :: "lobPiecesInfo \<Rightarrow> bool" where
  "vec_full v \<longleftrightarrow> length (sections v) \<ge> capacity v"

definition vec_insert :: "int \<Rightarrow> lobPieces \<Rightarrow> lobPiecesInfo \<Rightarrow> lobPiecesInfo" where
  "vec_insert i x v =
     v\<lparr>sections := take (nat i) (sections v) @ x # drop (nat i) (sections v),
       capacity := (if vec_full v then length (sections v) + max 1 (length (sections v))
                    else capacity v)\<rparr>"

definition push_back :: "lobPieces \<Rightarrow> lobPiecesInfo \<Rightarrow> lobPiecesInfo" where
  "push_back x v = vec_insert (int (length (sections v))) x v"

definition vec_erase :: "int \<Rightarrow> lobPiecesInfo \<Rightarrow> lobPiecesInfo" where
  "vec_erase i v = v\<lparr>sections := take (nat i) (sections v) @ drop (nat (i + 1)) (sections v)\<rparr>"

definition vec_set :: "int \<Rightarrow> lobPieces \<Rightarrow> lobPiecesInfo \<Rightarrow> lobPiecesInfo" where
  "vec_set i x v = v\<lparr>sections := (sections v)[nat i := x]\<rparr>"

text \<open>
  The binary search. \<open>findPiece_loop\<close> is the loop of \<^verbatim>\<open>_findPiece\<close>;
  \<open>nearest_loop\<close> is the one of \<^verbatim>\<open>_findNearestLeast\<close>, which also returns the last
  middle it looked at and whether it left by \<^verbatim>\<open>goto done\<close>.
\<close>

function findPiece_loop :: "lobPieces list \<Rightarrow> 32 word \<Rightarrow> int \<Rightarrow> int \<Rightarrow> int" where
  "findPiece_loop xs piece lower upper =
     (if lower \<le> upper then
        (let middle = (lower + upper) div 2; p = xs ! nat middle in
           if piece < p_first p then findPiece_loop xs piece lower (middle - 1)
           else if p_last p < piece then findPiece_loop xs piece (middle + 1) upper
           else middle)
      else LOB_PIECES_INVALID_INDEX)"
  by auto

termination findPiece_loop
  by (relation "measure (\<lambda>(xs, piece, lower, upper). nat (upper - lower + 1))") auto

definition findPiece :: "lobPieces list \<Rightarrow> 32 word \<Rightarrow> int" where
  "findPiece xs piece = findPiece_loop xs piece 0 (int (length xs) - 1)"

function nearest_loop ::
  "lobPieces list \<Rightarrow> 32 word \<Rightarrow> int \<Rightarrow> int \<Rightarrow> int \<Rightarrow> int \<times> bool" where
  "nearest_loop xs piece lower upper mid =
     (if lower \<le> upper then
        (let middle = (lower + upper) div 2; p = xs ! nat middle in
           if piece < p_first p then nearest_loop xs piece lower (middle - 1) middle
           else if p_last p < piece then nearest_loop xs piece (middle + 1) upper middle
           else (middle, True))
      else (mid, False))"
  by auto

termination nearest_loop
  by (relation "measure (\<lambda>(xs, piece, lower, upper, mid). nat (upper - lower + 1))") auto

text \<open>The two linear scans after the search.\<close>

function scan_up :: "lobPieces list \<Rightarrow> 32 word \<Rightarrow> int \<Rightarrow> int" where
  "scan_up xs piece middle =
     (if middle < int (length xs) - 1 then
        if p_first (xs ! nat (middle + 1)) < piece then scan_up xs piece (middle + 1) else middle
      else middle)"
  by auto

termination scan_up
  by (relation "measure (\<lambda>(xs, piece, middle). nat (int (length xs) - middle))") auto

function scan_down :: "lobPieces list \<Rightarrow> 32 word \<Rightarrow> int \<Rightarrow> int" where
  "scan_down xs piece middle =
     (if 0 \<le> middle then
        if piece < p_first (xs ! nat middle) then scan_down xs piece (middle - 1) else middle
      else middle)"
  by auto

termination scan_down
  by (relation "measure (\<lambda>(xs, piece, middle). nat (middle + 1))") auto

definition findNearestLeast :: "lobPieces list \<Rightarrow> 32 word \<Rightarrow> int" where
  "findNearestLeast xs piece =
     (case nearest_loop xs piece 0 (int (length xs) - 1) LOB_PIECES_INVALID_INDEX of
        (middle, found) \<Rightarrow>
          if found then middle
          else if p_first (xs ! nat middle) < piece then scan_up xs piece middle
          else if piece < p_first (xs ! nat middle) then scan_down xs piece (middle - 1)
          else middle)"

text \<open>
  Adding one piece extends a neighbour, joins two neighbours, or inserts an interval of its own.
  The only errors are allocation failures, so the return code is \<^const>\<open>SDB_OK\<close>.
\<close>

definition addPiece :: "lobPiecesInfo \<Rightarrow> 32 word \<Rightarrow> sdb_rc \<times> lobPiecesInfo" where
  "addPiece v piece =
     (let xs = sections v in
      if xs = [] then (SDB_OK, push_back (one_piece piece) v)
      else
        (let index = findNearestLeast xs piece in
         if index < 0 then
           (let p = xs ! 0 in
            if piece + 1 = p_first p then (SDB_OK, vec_set 0 (p\<lparr>p_first := piece\<rparr>) v)
            else (SDB_OK, vec_insert 0 (one_piece piece) v))
         else
           (let p = xs ! nat index; next = xs ! nat (index + 1) in
            if contains p piece then (SDB_OK, v)
            else if p_last p + 1 = piece then
              if index < int (length xs) - 1 \<and> piece + 1 = p_first next then
                (SDB_OK, vec_erase (index + 1) (vec_set index (p\<lparr>p_last := p_last next\<rparr>) v))
              else (SDB_OK, vec_set index (p\<lparr>p_last := piece\<rparr>) v)
            else if index = int (length xs) - 1 then (SDB_OK, push_back (one_piece piece) v)
            else if piece + 1 = p_first next then
              (SDB_OK, vec_set (index + 1) (next\<lparr>p_first := piece\<rparr>) v)
            else (SDB_OK, vec_insert (index + 1) (one_piece piece) v))))"

definition addPieces :: "lobPiecesInfo \<Rightarrow> lobPieces \<Rightarrow> (sdb_rc \<times> lobPiecesInfo) option" where
  "addPieces v pieces =
     (if p_last pieces < p_first pieces then Some (SDB_SYS, v)
      else if sections v = [] then Some (SDB_OK, push_back pieces v)
      else for_up addPiece (p_first pieces) (p_last pieces) v)"

text \<open>
  Deleting a piece from the inside of an interval takes a reference \<^verbatim>\<open>p\<close> to the interval,
  inserts the upper half behind it and then writes \<^verbatim>\<open>p.last\<close>. When the insertion moved the
  vector, the write goes to the old storage and the interval keeps its bound.
\<close>

definition delPiece :: "lobPiecesInfo \<Rightarrow> 32 word \<Rightarrow> sdb_rc \<times> lobPiecesInfo" where
  "delPiece v piece =
     (let xs = sections v in
      if xs = [] then (SDB_OK, v)
      else
        (let index = findPiece xs piece in
         if index = LOB_PIECES_INVALID_INDEX then (SDB_OK, v)
         else
           (let p = xs ! nat index in
            if p_first p = p_last p then (SDB_OK, vec_erase index v)
            else if piece = p_first p then (SDB_OK, vec_set index (p\<lparr>p_first := piece + 1\<rparr>) v)
            else if piece = p_last p then (SDB_OK, vec_set index (p\<lparr>p_last := piece - 1\<rparr>) v)
            else
              (let v' = vec_insert (index + 1) \<lparr>p_first = piece + 1, p_last = p_last p\<rparr> v in
               if vec_full v then (SDB_OK, v')
               else (SDB_OK, vec_set index (p\<lparr>p_last := piece - 1\<rparr>) v')))))"

definition delPieces :: "lobPiecesInfo \<Rightarrow> lobPieces \<Rightarrow> (sdb_rc \<times> lobPiecesInfo) option" where
  "delPieces v pieces =
     (if p_last pieces < p_first pieces then Some (SDB_SYS, v)
      else if sections v = [] then Some (SDB_OK, v)
      else for_down delPiece (p_last pieces) (p_first pieces) v)"

definition hasPiece :: "lobPiecesInfo \<Rightarrow> 32 word \<Rightarrow> bool" where
  "hasPiece v piece \<longleftrightarrow> findPiece (sections v) piece \<noteq> LOB_PIECES_INVALID_INDEX"

text \<open>
  The memory image: \<^verbatim>\<open>buf\<close> is read and written through a cast to \<^verbatim>\<open>_rtnLobPieces*\<close>,
  so it is the list of its eight-byte slots; \<^verbatim>\<open>length\<close> counts bytes.
\<close>

definition requiredMem :: "lobPiecesInfo \<Rightarrow> int" where
  "requiredMem v = (if sections v = [] then 0 else int (length (sections v)) * 8)"

definition pieces_saveTo :: "lobPiecesInfo \<Rightarrow> lobPieces list \<Rightarrow> int \<Rightarrow> sdb_rc \<times> lobPieces list" where
  "pieces_saveTo v buf len =
     (if len < requiredMem v then (SDB_SYS, buf)
      else (SDB_OK, sections v @ drop (length (sections v)) buf))"

fun merge_loop :: "lobPieces list \<Rightarrow> lobPiecesInfo \<Rightarrow> (sdb_rc \<times> lobPiecesInfo) option" where
  "merge_loop [] v = Some (SDB_OK, v)"
| "merge_loop (p # src) v =
     (case addPieces v p of
        None \<Rightarrow> None
      | Some (rc, v') \<Rightarrow> if rc \<noteq> SDB_OK then Some (rc, v') else merge_loop src v')"

definition mergeFrom ::
  "lobPieces list \<Rightarrow> int \<Rightarrow> lobPiecesInfo \<Rightarrow> (sdb_rc \<times> lobPiecesInfo) option" where
  "mergeFrom buf len v = merge_loop (take (nat (len div 8)) buf) v"

definition pieces_readFrom ::
  "lobPieces list \<Rightarrow> int \<Rightarrow> lobPiecesInfo \<Rightarrow> (sdb_rc \<times> lobPiecesInfo) option" where
  "pieces_readFrom buf len v = mergeFrom buf len (v\<lparr>sections := []\<rparr>)"

text \<open>
  The BSON image: two \<^verbatim>\<open>NumberInt\<close> per interval, the bounds cast to \<^verbatim>\<open>INT32\<close>. An
  element of another type makes \<^verbatim>\<open>BSONElement::Int\<close> throw, which becomes \<^const>\<open>SDB_SYS\<close>.
\<close>

definition pieces_saveTo_bson :: "lobPiecesInfo \<Rightarrow> sdb_rc \<times> bsonArray" where
  "pieces_saveTo_bson v =
     (SDB_OK,
      concat (map (\<lambda>p. [NumberInt (sint (p_first p)), NumberInt (sint (p_last p))]) (sections v)))"

fun pieces_readFrom_bson :: "bsonArray \<Rightarrow> lobPiecesInfo \<Rightarrow> (sdb_rc \<times> lobPiecesInfo) option" where
  "pieces_readFrom_bson [] v = Some (SDB_OK, v)"
| "pieces_readFrom_bson [e] v = Some (SDB_SYS, v)"
| "pieces_readFrom_bson (e # e' # es) v =
     (case (e, e') of
        (NumberInt a, NumberInt b) \<Rightarrow>
          (case addPieces v \<lparr>p_first = word_of_int a, p_last = word_of_int b\<rparr> of
             None \<Rightarrow> None
           | Some (rc, v') \<Rightarrow>
               if rc \<noteq> SDB_OK then Some (rc, v') else pieces_readFrom_bson es v')
      | _ \<Rightarrow> Some (SDB_SYS, v))"

declare findPiece_loop.simps [simp del] nearest_loop.simps [simp del]
  scan_up.simps [simp del] scan_down.simps [simp del]

section \<open>Well-formed pieces\<close>

text \<open>
  Intervals are not empty, and between two of them at least one number is missing.
  \<open>pieces_of\<close> is the set the vector stands for.
\<close>

definition before :: "lobPieces \<Rightarrow> lobPieces \<Rightarrow> bool" where
  "before p q \<longleftrightarrow> unat (p_last p) + 1 < unat (p_first q)"

definition pieces_wf :: "lobPieces list \<Rightarrow> bool" where
  "pieces_wf xs \<longleftrightarrow> (\<forall>p \<in> set xs. p_first p \<le> p_last p) \<and> sorted_wrt before xs"

definition pieces_of :: "lobPieces list \<Rightarrow> 32 word set" where
  "pieces_of xs = {w. \<exists>p \<in> set xs. contains p w}"

lemmas nat_word = word_le_nat_alt word_less_nat_alt word_unat_eq_iff

lemma pieces_of_simps [simp]:
  "pieces_of [] = {}"
  "pieces_of (p # xs) = {w. contains p w} \<union> pieces_of xs"
  "pieces_of (xs @ ys) = pieces_of xs \<union> pieces_of ys"
  by (auto simp: pieces_of_def)

lemma pieces_wf_nth:
  assumes "pieces_wf xs" and "i < j" and "j < length xs"
  shows "p_last (xs ! i) < p_first (xs ! j)" and "p_first (xs ! i) \<le> p_last (xs ! i)"
  using assms sorted_wrt_nth_less [of before xs i j]
  by (auto simp: pieces_wf_def before_def nat_word)

lemma pieces_wf_chain:
  assumes "pieces_wf xs" and "i \<le> j" and "j < length xs"
  shows "p_first (xs ! i) \<le> p_first (xs ! j)" and "p_last (xs ! i) \<le> p_last (xs ! j)"
proof -
  have le: "p_first (xs ! k) \<le> p_last (xs ! k)" if "k < length xs" for k
    using assms(1) that by (simp add: pieces_wf_def)
  show "p_first (xs ! i) \<le> p_first (xs ! j)" and "p_last (xs ! i) \<le> p_last (xs ! j)"
    using assms le [of i] le [of j] pieces_wf_nth [of xs i j]
    by (cases "i = j"; force)+
qed

section \<open>The searches\<close>

definition bracket :: "lobPieces list \<Rightarrow> 32 word \<Rightarrow> int \<Rightarrow> int \<Rightarrow> bool" where
  "bracket xs w lo hi \<longleftrightarrow> 0 \<le> lo \<and> hi < int (length xs) \<and>
     (\<forall>j < length xs. int j < lo \<longrightarrow> p_last (xs ! j) < w) \<and>
     (\<forall>j < length xs. hi < int j \<longrightarrow> w < p_first (xs ! j))"

lemma bracket_start: "bracket xs w 0 (int (length xs) - 1)"
  by (auto simp: bracket_def)

lemma bracket_step:
  assumes wf: "pieces_wf xs" and br: "bracket xs w lo hi" and "lo \<le> hi"
  defines "m \<equiv> (lo + hi) div 2"
  shows "w < p_first (xs ! nat m) \<Longrightarrow> bracket xs w lo (m - 1)"
    and "p_last (xs ! nat m) < w \<Longrightarrow> bracket xs w (m + 1) hi"
    and "0 \<le> m \<and> m < int (length xs)"
proof -
  have m: "0 \<le> m" "lo \<le> m" "m \<le> hi" "m < int (length xs)"
    using br assms(3) by (auto simp: m_def bracket_def)
  then show "0 \<le> m \<and> m < int (length xs)" by simp
  show "bracket xs w lo (m - 1)" if "w < p_first (xs ! nat m)"
  proof -
    have "w < p_first (xs ! j)" if "j < length xs" and "m - 1 < int j" for j
      by (rule less_le_trans [OF _ pieces_wf_chain(1) [OF wf, of "nat m" j]]) (use that m \<open>w < _\<close> in auto)
    with br m show ?thesis by (auto simp: bracket_def)
  qed
  show "bracket xs w (m + 1) hi" if "p_last (xs ! nat m) < w"
  proof -
    have "p_last (xs ! j) < w" if "j < length xs" and "int j < m + 1" for j
      by (rule le_less_trans [OF pieces_wf_chain(2) [OF wf, of j "nat m"]]) (use that m \<open>_ < w\<close> in auto)
    with br m show ?thesis by (auto simp: bracket_def)
  qed
qed

lemma bracket_empty:
  assumes "bracket xs w lo hi" and "hi < lo"
  shows "w \<notin> pieces_of xs"
proof
  assume "w \<in> pieces_of xs"
  then obtain j where "j < length xs" "contains (xs ! j) w"
    by (auto simp: pieces_of_def in_set_conv_nth)
  with assms show False
    by (cases "int j < lo") (auto simp: bracket_def contains_def)
qed

lemma findPiece_loop_spec:
  assumes "pieces_wf xs" and "bracket xs w lo hi" and "r = findPiece_loop xs w lo hi"
  shows "(r = LOB_PIECES_INVALID_INDEX \<and> w \<notin> pieces_of xs) \<or>
         (0 \<le> r \<and> r < int (length xs) \<and> contains (xs ! nat r) w)"
  using assms
proof (induction xs w lo hi rule: findPiece_loop.induct)
  case (1 xs w lo hi)
  define m where "m = (lo + hi) div 2"
  note r = 1(5) [unfolded findPiece_loop.simps [of xs w lo hi] Let_def, folded m_def]
  show ?case
  proof (cases "lo \<le> hi")
    case True
    note step = bracket_step [OF 1(3,4) True, folded m_def]
    consider "w < p_first (xs ! nat m)" | "\<not> w < p_first (xs ! nat m)" "p_last (xs ! nat m) < w"
      | "contains (xs ! nat m) w" by (force simp: contains_def not_less)
    then show ?thesis
    proof cases
      case 1
      with True r show ?thesis
        using "1.IH"(1) [OF True, folded m_def, OF refl refl _ \<open>pieces_wf xs\<close> step(1)] by simp
    next
      case 2
      with True r show ?thesis
        using "1.IH"(2) [OF True, folded m_def, OF refl refl _ _ \<open>pieces_wf xs\<close> step(2)] by simp
    next
      case 3
      with True r step(3) show ?thesis by (auto simp: contains_def)
    qed
  next
    case False
    with r bracket_empty [OF 1(4)] show ?thesis by simp
  qed
qed

lemma findPiece_spec:
  assumes "pieces_wf xs"
  shows "(findPiece xs w = LOB_PIECES_INVALID_INDEX \<and> w \<notin> pieces_of xs) \<or>
         (0 \<le> findPiece xs w \<and> findPiece xs w < int (length xs) \<and>
          contains (xs ! nat (findPiece xs w)) w)"
  by (rule findPiece_loop_spec [OF assms bracket_start]) (simp add: findPiece_def)

lemma nearest_loop_spec:
  assumes "pieces_wf xs" and "bracket xs w lo hi" and "nearest_loop xs w lo hi mid = (r, found)"
    and "lo \<le> hi \<or> (0 \<le> mid \<and> mid < int (length xs))"
  shows "0 \<le> r \<and> r < int (length xs) \<and>
         (if found then contains (xs ! nat r) w else w \<notin> pieces_of xs)"
  using assms
proof (induction xs w lo hi mid rule: nearest_loop.induct)
  case (1 xs w lo hi mid)
  define m where "m = (lo + hi) div 2"
  note r = 1(5) [unfolded nearest_loop.simps [of xs w lo hi mid] Let_def, folded m_def]
  show ?case
  proof (cases "lo \<le> hi")
    case True
    note step = bracket_step [OF 1(3,4) True, folded m_def]
    consider "w < p_first (xs ! nat m)" | "\<not> w < p_first (xs ! nat m)" "p_last (xs ! nat m) < w"
      | "contains (xs ! nat m) w" by (force simp: contains_def not_less)
    then show ?thesis
    proof cases
      case 1
      with True r show ?thesis
        using "1.IH"(1) [OF True, folded m_def, OF refl refl _ \<open>pieces_wf xs\<close> step(1)] step(3) by simp
    next
      case 2
      with True r show ?thesis
        using "1.IH"(2) [OF True, folded m_def, OF refl refl _ _ \<open>pieces_wf xs\<close> step(2)] step(3) by simp
    next
      case 3
      then have "\<not> w < p_first (xs ! nat m)" "\<not> p_last (xs ! nat m) < w"
        by (auto simp: contains_def not_less)
      with True r have "r = m \<and> found" by simp
      with 3 step(3) show ?thesis by simp
    qed
  next
    case False
    with r 1(6) bracket_empty [OF 1(4)] show ?thesis by auto
  qed
qed

lemma scan_up_spec:
  assumes "0 \<le> m" and "m < int (length xs)" and "p_first (xs ! nat m) \<le> w" and "r = scan_up xs w m"
  shows "0 \<le> r \<and> r < int (length xs) \<and> p_first (xs ! nat r) \<le> w \<and>
         (r + 1 < int (length xs) \<longrightarrow> w \<le> p_first (xs ! nat (r + 1)))"
  using assms
proof (induction xs w m rule: scan_up.induct)
  case (1 xs w m)
  note r = 1(5) [unfolded scan_up.simps [of xs w m]]
  show ?case
  proof (cases "m < int (length xs) - 1 \<and> p_first (xs ! nat (m + 1)) < w")
    case True
    with r 1 show ?thesis by auto
  next
    case False
    then have "r = m" using r by auto
    with False 1 show ?thesis by (auto simp: not_less)
  qed
qed

lemma scan_down_spec:
  assumes "- 1 \<le> m" and "m + 1 < int (length xs)" and "w < p_first (xs ! nat (m + 1))"
    and "r = scan_down xs w m"
  shows "- 1 \<le> r \<and> r + 1 < int (length xs) \<and> (0 \<le> r \<longrightarrow> p_first (xs ! nat r) \<le> w) \<and>
         w < p_first (xs ! nat (r + 1))"
  using assms
proof (induction xs w m rule: scan_down.induct)
  case (1 xs w m)
  note r = 1(5) [unfolded scan_down.simps [of xs w m]]
  show ?case
  proof (cases "0 \<le> m \<and> w < p_first (xs ! nat m)")
    case True
    with r 1 show ?thesis by auto
  next
    case False
    then have "r = m" using r by auto
    with False 1 show ?thesis by (auto simp: not_less)
  qed
qed

lemma findNearestLeast_spec:
  assumes wf: "pieces_wf xs" and "xs \<noteq> []" and r: "r = findNearestLeast xs w"
  shows "- 1 \<le> r \<and> r < int (length xs) \<and> (0 \<le> r \<longrightarrow> p_first (xs ! nat r) \<le> w) \<and>
         (r + 1 < int (length xs) \<longrightarrow> w < p_first (xs ! nat (r + 1)))"
proof -
  obtain m found where loop: "nearest_loop xs w 0 (int (length xs) - 1) LOB_PIECES_INVALID_INDEX = (m, found)"
    by fastforce
  from assms(2) have m: "0 \<le> m" "m < int (length xs)"
    and hit: "if found then contains (xs ! nat m) w else w \<notin> pieces_of xs"
    using nearest_loop_spec [OF wf bracket_start loop] by (auto simp: Suc_le_eq)
  have first_in: "p_first (xs ! k) \<in> pieces_of xs" if "k < length xs" for k
    using wf that by (auto simp: pieces_of_def contains_def pieces_wf_def intro: bexI [of _ "xs ! k"])
  show ?thesis
  proof (cases found)
    case True
    then have "r = m" using r loop by (simp add: findNearestLeast_def)
    moreover have "w < p_first (xs ! nat (m + 1))" if "m + 1 < int (length xs)"
      by (rule le_less_trans [OF _ pieces_wf_nth(1) [OF wf, of "nat m" "nat (m + 1)"]])
        (use that m hit True in \<open>auto simp: contains_def\<close>)
    ultimately show ?thesis using m hit True by (auto simp: contains_def)
  next
    case False
    then have out: "w \<notin> pieces_of xs" using hit by simp
    then have neq: "p_first (xs ! k) \<noteq> w" if "k < length xs" for k using first_in that by metis
    show ?thesis
    proof (cases "p_first (xs ! nat m) < w")
      case True
      then have "r = scan_up xs w m" using False r loop by (simp add: findNearestLeast_def)
      from scan_up_spec [OF m _ this] True have
        up: "0 \<le> r" "r < int (length xs)" "p_first (xs ! nat r) \<le> w"
          "r + 1 < int (length xs) \<Longrightarrow> w \<le> p_first (xs ! nat (r + 1))" by auto
      moreover have "p_first (xs ! nat (r + 1)) \<noteq> w" if "r + 1 < int (length xs)"
        using neq [of "nat (r + 1)"] that up(1) by simp
      ultimately show ?thesis by (auto simp: order_less_le)
    next
      case lt: False
      then have "w < p_first (xs ! nat m)" using neq [of "nat m"] m by force
      moreover from this have "r = scan_down xs w (m - 1)"
        using False lt r loop by (simp add: findNearestLeast_def)
      ultimately show ?thesis using scan_down_spec [of "m - 1" xs w r] m by auto
    qed
  qed
qed

section \<open>Adding and deleting a piece\<close>

lemma pieces_wf_parts:
  "pieces_wf (xs @ p # ys) \<longleftrightarrow>
     pieces_wf xs \<and> pieces_wf ys \<and> p_first p \<le> p_last p \<and>
     (\<forall>q \<in> set xs. before q p) \<and> (\<forall>q \<in> set ys. before p q) \<and>
     (\<forall>q \<in> set xs. \<forall>r \<in> set ys. before q r)"
  by (auto simp: pieces_wf_def sorted_wrt_append)

lemma pieces_wf_Cons:
  "pieces_wf (p # ys) \<longleftrightarrow> pieces_wf ys \<and> p_first p \<le> p_last p \<and> (\<forall>q \<in> set ys. before p q)"
  by (auto simp: pieces_wf_def)

lemma before_trans:
  assumes "before p q" and "before q r" and "p_first q \<le> p_last q"
  shows "before p r"
  using assms by (auto simp: before_def nat_word)

lemma index_split:
  assumes "0 \<le> r" and "r < int (length xs)"
  obtains as p bs where "xs = as @ p # bs" and "r = int (length as)"
proof -
  from assms have "xs = take (nat r) xs @ xs ! nat r # drop (Suc (nat r)) xs"
    by (simp add: id_take_nth_drop)
  then show ?thesis by (rule that) (use assms in simp)
qed

lemmas vec_defs = vec_insert_def push_back_def vec_erase_def vec_set_def one_piece_def

text \<open>\<open>addPiece\<close> by the position of the piece among the intervals.\<close>

lemma addPiece_front:
  assumes wf: "pieces_wf xs" and ne: "xs = p # bs" and lt: "w < p_first p"
    and s: "sections v = xs"
  shows "sections (snd (addPiece v w)) =
           (if w + 1 = p_first p then p\<lparr>p_first := w\<rparr> # bs else one_piece w # p # bs)"
proof -
  define r where "r = findNearestLeast xs w"
  have "r < 0"
  proof (rule ccontr)
    assume "\<not> r < 0"
    then have "nat r < length xs" and "p_first (xs ! nat r) \<le> w"
      using findNearestLeast_spec [OF wf _ r_def] ne by auto
    with pieces_wf_chain(1) [OF wf, of 0 "nat r"] ne lt show False by simp
  qed
  then have "findNearestLeast (p # bs) w < 0" by (simp add: r_def ne)
  with s ne show ?thesis by (simp add: addPiece_def Let_def vec_defs)
qed

lemma addPiece_inner:
  assumes wf: "pieces_wf xs" and xs: "xs = as @ p # bs" and le: "p_first p \<le> w"
    and gt: "bs \<noteq> [] \<Longrightarrow> w < p_first (hd bs)" and s: "sections v = xs"
  shows "sections (snd (addPiece v w)) = as @
           (if contains p w then p # bs
            else if p_last p + 1 = w then
              (case bs of [] \<Rightarrow> [p\<lparr>p_last := w\<rparr>]
               | q # cs \<Rightarrow> if w + 1 = p_first q then p\<lparr>p_last := p_last q\<rparr> # cs
                            else p\<lparr>p_last := w\<rparr> # bs)
            else p # (case bs of [] \<Rightarrow> [one_piece w]
               | q # cs \<Rightarrow> if w + 1 = p_first q then q\<lparr>p_first := w\<rparr> # cs
                            else one_piece w # bs))"
proof -
  define r where "r = findNearestLeast xs w"
  have spec: "- 1 \<le> r" "r < int (length xs)" "0 \<le> r \<Longrightarrow> p_first (xs ! nat r) \<le> w"
    "r + 1 < int (length xs) \<Longrightarrow> w < p_first (xs ! nat (r + 1))"
    using findNearestLeast_spec [OF wf _ r_def] xs by auto
  have "\<not> r < int (length as)"
  proof
    assume "r < int (length as)"
    with spec have "w < p_first (xs ! nat (r + 1))" and "nat (r + 1) \<le> length as"
      using xs by auto
    with pieces_wf_chain(1) [OF wf, of "nat (r + 1)" "length as"] xs le show False by auto
  qed
  moreover have "\<not> int (length as) < r"
  proof
    assume r: "int (length as) < r"
    with spec xs have bs: "bs \<noteq> []" and "p_first (xs ! nat r) \<le> w" by auto
    moreover have "p_first (hd bs) \<le> p_first (xs ! nat r)"
      using pieces_wf_chain(1) [OF wf, of "Suc (length as)" "nat r"] r spec(2) bs xs
      by (auto simp: nth_append hd_conv_nth)
    ultimately show False using gt by auto
  qed
  ultimately have r: "r = int (length as)" by simp
  then have f: "findNearestLeast (sections v) w = int (length as)" by (simp add: r_def s)
  have n: "nat (int (length as) + 1) = Suc (length as)"
    "nat (2 + int (length as)) = Suc (Suc (length as))" by auto
  have p: "(as @ p # bs) ! length as = p" by simp
  have secs: "sections v = as @ p # bs" by (simp add: s xs)
  have unf: "addPiece v w =
    (let next = (as @ p # bs) ! Suc (length as) in
     if contains p w then (SDB_OK, v)
     else if p_last p + 1 = w then
       if length as < length (as @ bs) \<and> w + 1 = p_first next then
         (SDB_OK, vec_erase (int (length as) + 1) (vec_set (int (length as)) (p\<lparr>p_last := p_last next\<rparr>) v))
       else (SDB_OK, vec_set (int (length as)) (p\<lparr>p_last := w\<rparr>) v)
     else if bs = [] then (SDB_OK, push_back (one_piece w) v)
     else if w + 1 = p_first next then
       (SDB_OK, vec_set (int (length as) + 1) (next\<lparr>p_first := w\<rparr>) v)
     else (SDB_OK, vec_insert (int (length as) + 1) (one_piece w) v))"
    unfolding addPiece_def Let_def f by (simp add: secs p n)
  consider "contains p w" | "\<not> contains p w" "bs = []"
    | q cs where "\<not> contains p w" "bs = q # cs" by (cases bs) auto
  then show ?thesis
  proof cases
    case 1
    then show ?thesis unfolding unf by (simp add: s xs)
  next
    case 2
    then show ?thesis
      unfolding unf by (cases "p_last p + 1 = w") (simp_all add: s xs vec_defs)
  next
    case (3 q cs)
    have q: "(as @ p # q # cs) ! Suc (length as) = q" by (simp add: nth_append)
    from 3 show ?thesis
      unfolding unf
      by (cases "p_last p + 1 = w"; cases "w + 1 = p_first q")
        (simp_all add: s xs vec_defs q n list_update_append)
  qed
qed

text \<open>The shapes above keep the vector well-formed and add exactly the piece.\<close>

lemma not_contains_above:
  assumes "p_first p \<le> w" and "\<not> contains p w"
  shows "p_last p < w"
  using assms by (auto simp: contains_def not_le)

lemma contains_one_piece [simp]: "contains (one_piece w) x \<longleftrightarrow> x = w"
  by (auto simp: contains_def one_piece_def)

lemma pieces_wf_one [simp]:
  "p_first (one_piece w) = w" "p_last (one_piece w) = w"
  by (simp_all add: one_piece_def)

lemma contains_extend_last:
  assumes "p_first p \<le> p_last p" and "p_last p < w" and "p_last p + 1 = w"
  shows "contains (p\<lparr>p_last := w\<rparr>) x \<longleftrightarrow> contains p x \<or> x = w"
  using assms(1,2) succ_eq [OF assms(2)] assms(3) by (auto simp: contains_def nat_word)

lemma contains_extend_first:
  assumes "p_first p \<le> p_last p" and "w < p_first p" and "w + 1 = p_first p"
  shows "contains (p\<lparr>p_first := w\<rparr>) x \<longleftrightarrow> contains p x \<or> x = w"
  using assms(1,2) succ_eq [OF assms(2)] assms(3) by (auto simp: contains_def nat_word)

lemma contains_join:
  assumes "p_first p \<le> p_last p" and "p_last p < w" and "p_last p + 1 = w"
    and "p_first q \<le> p_last q" and "w < p_first q" and "w + 1 = p_first q"
  shows "contains (p\<lparr>p_last := p_last q\<rparr>) x \<longleftrightarrow> contains p x \<or> x = w \<or> contains q x"
  using assms(1,2,4,5) succ_eq [OF assms(2)] succ_eq [OF assms(5)] assms(3,6)
  by (auto simp: contains_def nat_word)

lemma before_gap:
  assumes "w < p_first q" and "w + 1 \<noteq> p_first q"
  shows "unat w + 1 < unat (p_first q)"
  using assms succ_eq [OF assms(1)] by (auto simp: nat_word)

lemma addPiece_front_law:
  assumes wf: "pieces_wf (p # bs)" and lt: "w < p_first p"
  defines "ys \<equiv> (if w + 1 = p_first p then p\<lparr>p_first := w\<rparr> # bs else one_piece w # p # bs)"
  shows "pieces_wf ys \<and> pieces_of ys = insert w (pieces_of (p # bs))"
proof (cases "w + 1 = p_first p")
  case True
  with wf lt contains_extend_first [of p w] show ?thesis
    by (auto simp: ys_def pieces_wf_Cons before_def)
next
  case False
  have "before p q" if "q \<in> set bs" for q using wf that by (simp add: pieces_wf_Cons)
  then have "\<forall>q \<in> set (p # bs). before (one_piece w) q"
    using wf before_gap [OF lt False] by (force simp: before_def pieces_wf_Cons nat_word)
  with False wf show ?thesis by (auto simp: ys_def pieces_wf_Cons)
qed

lemma pieces_wf_replace:
  assumes wf: "pieces_wf (as @ p # bs)" and wf': "pieces_wf (h # t)" and le: "p_first p \<le> p_first h"
  shows "pieces_wf (as @ h # t)"
proof -
  have h: "before q h" if "q \<in> set as" for q
    using wf that le by (fastforce simp: pieces_wf_parts before_def nat_word)
  moreover have "before q r" if "q \<in> set as" "r \<in> set t" for q r
    using before_trans [OF h [OF that(1)]] wf' that by (auto simp: pieces_wf_Cons)
  ultimately show ?thesis using wf wf' by (auto simp: pieces_wf_parts pieces_wf_Cons)
qed

definition absorb :: "lobPieces \<Rightarrow> lobPieces list \<Rightarrow> 32 word \<Rightarrow> lobPieces list" where
  "absorb p bs w =
     (if contains p w then p # bs
      else if p_last p + 1 = w then
        (case bs of [] \<Rightarrow> [p\<lparr>p_last := w\<rparr>]
         | q # cs \<Rightarrow> if w + 1 = p_first q then p\<lparr>p_last := p_last q\<rparr> # cs
                      else p\<lparr>p_last := w\<rparr> # bs)
      else p # (case bs of [] \<Rightarrow> [one_piece w]
         | q # cs \<Rightarrow> if w + 1 = p_first q then q\<lparr>p_first := w\<rparr> # cs
                      else one_piece w # bs))"

lemma pieces_wf_Cons2:
  "pieces_wf (p # q # cs) \<longleftrightarrow> p_first p \<le> p_last p \<and> before p q \<and> pieces_wf (q # cs)"
  using before_trans [of p q] by (auto simp: pieces_wf_Cons)

lemma pieces_wf_head:
  assumes "pieces_wf (q # cs)" and "p_last p = p_last q" and "p_first p \<le> p_last p"
  shows "pieces_wf (p # cs)"
  using assms by (auto simp: pieces_wf_Cons before_def)

lemma absorb_law:
  assumes wf: "pieces_wf (p # bs)" and le: "p_first p \<le> w" and gt: "bs \<noteq> [] \<Longrightarrow> w < p_first (hd bs)"
  shows "pieces_wf (absorb p bs w) \<and> pieces_of (absorb p bs w) = insert w (pieces_of (p # bs))"
proof (cases "contains p w")
  case True
  with wf show ?thesis by (auto simp: absorb_def)
next
  case out: False
  have lt: "p_last p < w" by (rule not_contains_above [OF le out])
  have p: "p_first p \<le> p_last p" using wf by (simp add: pieces_wf_Cons)
  have sep: "before p (one_piece w)" if "p_last p + 1 \<noteq> w"
    using before_gap [of "p_last p" "one_piece w"] lt that by (simp add: before_def)
  show ?thesis
  proof (cases bs)
    case Nil
    with out p le sep contains_extend_last [OF p lt] show ?thesis
      by (auto simp: absorb_def pieces_wf_def)
  next
    case (Cons q cs)
    from wf Cons have q: "p_first q \<le> p_last q" "pieces_wf (q # cs)" "before p q"
      by (auto simp: pieces_wf_Cons)
    have wq: "w < p_first q" using gt Cons by simp
    have gap: "before (one_piece w) q" if "w + 1 \<noteq> p_first q"
      using before_gap [OF wq that] by (simp add: before_def)
    consider "p_last p + 1 = w" "w + 1 = p_first q" | "p_last p + 1 = w" "w + 1 \<noteq> p_first q"
      | "p_last p + 1 \<noteq> w" "w + 1 = p_first q" | "p_last p + 1 \<noteq> w" "w + 1 \<noteq> p_first q"
      by blast
    then show ?thesis
    proof cases
      case 1
      have "pieces_wf (p\<lparr>p_last := p_last q\<rparr> # cs)"
        by (rule pieces_wf_head [OF q(2)]) (use p lt wq q in \<open>auto simp: nat_word\<close>)
      with 1 out Cons contains_join [OF p lt 1(1) q(1) wq 1(2)] show ?thesis
        by (auto simp: absorb_def)
    next
      case 2
      with out Cons le q(2) gap contains_extend_last [OF p lt 2(1)] show ?thesis
        by (auto simp: absorb_def pieces_wf_Cons2 before_def)
    next
      case 3
      have "pieces_wf (q\<lparr>p_first := w\<rparr> # cs)"
        by (rule pieces_wf_head [OF q(2)]) (use wq q in auto)
      with 3 out Cons p sep contains_extend_first [OF q(1) wq 3(2)] show ?thesis
        by (auto simp: absorb_def pieces_wf_Cons2 before_def)
    next
      case 4
      with out Cons p sep gap q show ?thesis
        by (auto simp: absorb_def pieces_wf_Cons2)
    qed
  qed
qed

lemma absorb_head: "\<exists>h t. absorb p bs w = h # t \<and> p_first h = p_first p"
  by (auto simp: absorb_def split: list.splits)

lemma addPiece_absorb:
  assumes wf: "pieces_wf (sections v)" and s: "sections v = as @ p # bs" and le: "p_first p \<le> w"
    and gt: "bs \<noteq> [] \<Longrightarrow> w < p_first (hd bs)"
  shows "sections (snd (addPiece v w)) = as @ absorb p bs w"
  using addPiece_inner [OF wf s le gt refl] by (simp add: absorb_def split: list.splits)

lemma addPiece_law:
  assumes wf: "pieces_wf (sections v)"
  shows "\<exists>v'. addPiece v w = (SDB_OK, v') \<and> pieces_wf (sections v') \<and>
              pieces_of (sections v') = insert w (pieces_of (sections v))"
proof -
  have ok: "fst (addPiece v w) = SDB_OK" by (simp add: addPiece_def Let_def)
  have "pieces_wf (sections (snd (addPiece v w))) \<and>
        pieces_of (sections (snd (addPiece v w))) = insert w (pieces_of (sections v))"
  proof (cases "sections v")
    case Nil
    then show ?thesis by (simp add: addPiece_def Let_def vec_defs pieces_wf_def contains_def)
      (auto simp: antisym)
  next
    case (Cons p bs)
    define r where "r = findNearestLeast (sections v) w"
    have spec: "- 1 \<le> r" "r < int (length (sections v))" "0 \<le> r \<Longrightarrow> p_first (sections v ! nat r) \<le> w"
      "r + 1 < int (length (sections v)) \<Longrightarrow> w < p_first (sections v ! nat (r + 1))"
      using findNearestLeast_spec [OF wf _ r_def] Cons by auto
    show ?thesis
    proof (cases "0 \<le> r")
      case True
      obtain as q cs where split: "sections v = as @ q # cs" "r = int (length as)"
        using index_split [OF True spec(2)] by metis
      have le: "p_first q \<le> w" using spec(3) True split by simp
      have gt: "w < p_first (hd cs)" if "cs \<noteq> []"
        using spec(4) split that by (auto simp: nat_add_distrib nth_append hd_conv_nth)
      have wf': "pieces_wf (q # cs)" using wf split by (auto simp: pieces_wf_parts pieces_wf_Cons)
      obtain h t where ht: "absorb q cs w = h # t" "p_first h = p_first q"
        using absorb_head by blast
      note law = absorb_law [OF wf' le gt, unfolded ht(1)]
      have "pieces_wf (as @ h # t)"
        by (rule pieces_wf_replace [OF wf [unfolded split(1)] conjunct1 [OF law]]) (simp_all add: ht)
      with law addPiece_absorb [OF wf split(1) le gt] ht(1) split(1) show ?thesis by simp
    next
      case False
      with spec Cons have "w < p_first p" by (auto simp: nat_eq_iff)
      with addPiece_front [OF wf Cons this refl] addPiece_front_law [of p bs w] wf Cons
      show ?thesis by simp
    qed
  qed
  with ok show ?thesis by (metis prod.collapse)
qed

text \<open>Deleting a piece carves it out of the interval that contains it.\<close>

definition carve :: "lobPieces \<Rightarrow> 32 word \<Rightarrow> lobPieces list" where
  "carve p w =
     (if p_first p = p_last p then []
      else if w = p_first p then [p\<lparr>p_first := w + 1\<rparr>]
      else if w = p_last p then [p\<lparr>p_last := w - 1\<rparr>]
      else [p\<lparr>p_last := w - 1\<rparr>, \<lparr>p_first = w + 1, p_last = p_last p\<rparr>])"

definition split_room :: "lobPiecesInfo \<Rightarrow> 32 word \<Rightarrow> bool" where
  "split_room v w \<longleftrightarrow> vec_full v \<longrightarrow>
     (\<forall>p \<in> set (sections v). contains p w \<longrightarrow> w = p_first p \<or> w = p_last p)"

lemma contains_unique:
  assumes "pieces_wf (as @ p # bs)" and "contains p w" and "q \<in> set (as @ bs)"
  shows "\<not> contains q w"
  using assms by (auto simp: pieces_wf_parts contains_def before_def nat_word)

lemma carve_law:
  assumes wf: "pieces_wf (p # bs)" and w: "contains p w"
  shows "pieces_wf (carve p w @ bs) \<and> {x. contains p x} - {w} = pieces_of (carve p w)"
proof -
  have lo: "unat (w - 1) = unat w - 1" if "w \<noteq> p_first p"
    using unat_pred [of "p_first p" w] w that by (auto simp: contains_def)
  have hi: "unat (w + 1) = unat w + 1" if "w \<noteq> p_last p"
    using unat_succ [of w "p_last p"] w that by (auto simp: contains_def)
  show ?thesis
    using wf w lo hi
    by (auto simp: carve_def pieces_wf_Cons before_def contains_def nat_word)
qed

lemma delPiece_carve:
  assumes wf: "pieces_wf (sections v)" and s: "sections v = as @ p # bs" and w: "contains p w"
    and room: "split_room v w"
  shows "sections (snd (delPiece v w)) = as @ carve p w @ bs"
proof -
  define r where "r = findPiece (sections v) w"
  have "w \<in> pieces_of (sections v)" using s w by simp
  with findPiece_spec [OF wf, of w] have r: "0 \<le> r" "r < int (length (sections v))"
    and c: "contains (sections v ! nat r) w" by (auto simp: r_def)
  have "nat r = length as"
  proof (rule ccontr)
    assume "nat r \<noteq> length as"
    then have "sections v ! nat r \<in> set (as @ bs)"
      using r s by (auto simp: nth_append nth_Cons' split: if_splits)
    with contains_unique [of as p bs w] wf s w c show False by metis
  qed
  with r have f: "findPiece (sections v) w = int (length as)" by (auto simp: r_def)
  have n: "nat (int (length as) + 1) = Suc (length as)" by simp
  show ?thesis
  proof (cases "p_first p \<noteq> p_last p \<and> w \<noteq> p_first p \<and> w \<noteq> p_last p")
    case True
    with room s w have "\<not> vec_full v" by (auto simp: split_room_def)
    with True f s show ?thesis
      by (simp add: delPiece_def Let_def LOB_PIECES_INVALID_INDEX_def vec_defs n carve_def
          list_update_append)
  next
    case False
    with f s show ?thesis
      by (auto simp: delPiece_def Let_def LOB_PIECES_INVALID_INDEX_def vec_defs n carve_def)
  qed
qed

lemma delPiece_law:
  assumes wf: "pieces_wf (sections v)" and room: "split_room v w"
    and del: "delPiece v w = (SDB_OK, v')"
  shows "pieces_wf (sections v') \<and> pieces_of (sections v') = pieces_of (sections v) - {w}"
proof (cases "w \<in> pieces_of (sections v)")
  case True
  then obtain p as bs where p: "sections v = as @ p # bs" "contains p w"
    by (auto simp: pieces_of_def dest: split_list)
  from delPiece_carve [OF wf p room] del have v': "sections v' = as @ carve p w @ bs" by simp
  have wfs: "pieces_wf (p # bs)" "pieces_wf as" using wf p by (auto simp: pieces_wf_parts pieces_wf_Cons)
  note law = carve_law [OF wfs(1) p(2)]
  have "pieces_wf (as @ carve p w @ bs)"
  proof (cases "carve p w")
    case Nil
    with wf p show ?thesis by (auto simp: pieces_wf_def sorted_wrt_append)
  next
    case (Cons h t)
    then have "p_first p \<le> p_first h"
      using p(2) unat_succ [of w "p_last p"]
      by (auto simp: carve_def contains_def nat_word split: if_splits)
    with Cons law wf p show ?thesis using pieces_wf_replace [of as p bs h "t @ bs"] by simp
  qed
  moreover have "w \<notin> pieces_of as \<union> pieces_of bs"
    using contains_unique [of as p bs w] wf p by (auto simp: pieces_of_def)
  ultimately show ?thesis using v' p(1) law by auto
next
  case False
  with findPiece_spec [OF wf, of w] have "findPiece (sections v) w = LOB_PIECES_INVALID_INDEX"
    by (auto simp: pieces_of_def)
  with del have "v' = v" by (auto simp: delPiece_def Let_def split: if_splits)
  with wf False show ?thesis by simp
qed

lemma split_room_above:
  assumes wf: "pieces_wf (sections v)" and out: "w + 1 \<notin> pieces_of (sections v)"
  shows "split_room v w"
proof -
  have "w = p_last p" if p: "p \<in> set (sections v)" "contains p w" for p
  proof (rule ccontr)
    assume "w \<noteq> p_last p"
    with p have "unat (w + 1) = unat w + 1" and "w < p_last p"
      using unat_succ [of w "p_last p"] by (auto simp: contains_def)
    with p have "contains p (w + 1)" by (auto simp: contains_def nat_word)
    with out p show False by (auto simp: pieces_of_def)
  qed
  then show ?thesis by (auto simp: split_room_def)
qed

lemma delPiece_returns: "\<exists>v'. delPiece v w = (SDB_OK, v')"
  by (simp add: delPiece_def Let_def)

interpretation pieces: piece_container addPiece delPiece "\<lambda>v. pieces_wf (sections v)"
  "\<lambda>v. pieces_of (sections v)" split_room
  by unfold_locales (rule addPiece_law delPiece_returns delPiece_law split_room_above; assumption)+

end
