(* ===== verification/LobPiecesProps.thy ===== *)
theory LobPiecesProps
  imports LobPieces
begin

text \<open>
  What the set of written pieces of a LOB guarantees: the operations of
  \<^verbatim>\<open>rtn/rtnLobPieces.cpp\<close> against sets of piece numbers, the uniqueness of the
  representation, the round trips through its two serialised forms, and the two range loops.
\<close>

lemma max_word_numeral: "(4294967295 :: 32 word) = - 1"
  by simp

section \<open>One representation per set\<close>

lemma pieces_first:
  assumes "pieces_wf (p # xs)"
  shows "p_first p \<in> pieces_of (p # xs)" and "x \<in> pieces_of (p # xs) \<Longrightarrow> p_first p \<le> x"
  using assms by (auto simp: pieces_wf_Cons contains_def before_def pieces_of_def nat_word)

lemma pieces_head_le:
  assumes p: "pieces_wf (p # xs)" and q: "pieces_wf (q # ys)"
    and eq: "pieces_of (p # xs) = pieces_of (q # ys)" and first: "p_first p = p_first q"
  shows "p_last p \<le> p_last q"
proof (rule ccontr)
  assume "\<not> p_last p \<le> p_last q"
  then have lt: "p_last q < p_last p" by simp
  note succ = unat_succ [OF lt]
  have "p_first q \<le> p_last q" using q by (simp add: pieces_wf_Cons)
  then have "contains p (p_last q + 1)"
    using lt succ first by (auto simp: contains_def nat_word)
  with eq have "p_last q + 1 \<in> pieces_of (q # ys)" by auto
  then show False
    using q succ by (auto simp: contains_def pieces_wf_Cons before_def pieces_of_def nat_word)
qed

lemma pieces_tail:
  assumes "pieces_wf (p # xs)"
  shows "pieces_of xs = pieces_of (p # xs) - {x. contains p x}"
  using assms by (auto simp: pieces_wf_Cons before_def contains_def pieces_of_def nat_word)

lemma pieces_unique:
  assumes "pieces_wf xs" and "pieces_wf ys" and "pieces_of xs = pieces_of ys"
  shows "xs = ys"
  using assms
proof (induction xs arbitrary: ys)
  case Nil
  then show ?case using pieces_first(1) by (cases ys) auto
next
  case (Cons p xs)
  obtain q zs where ys: "ys = q # zs"
    using Cons.prems pieces_first(1) [of p xs] by (cases ys) auto
  note eq = Cons.prems(3) [unfolded ys] and q = Cons.prems(2) [unfolded ys]
  have first: "p_first p = p_first q"
    using pieces_first [OF Cons.prems(1)] pieces_first [OF q] eq by (metis antisym)
  have "p_last p = p_last q"
    using pieces_head_le [OF Cons.prems(1) q eq first]
      pieces_head_le [OF q Cons.prems(1) eq [symmetric] first [symmetric]] by simp
  with first have pq: "p = q" by simp
  have "pieces_of xs = pieces_of (p # xs) - {x. contains p x}" by (rule pieces_tail [OF Cons.prems(1)])
  also have "\<dots> = pieces_of (q # zs) - {x. contains q x}" by (simp only: eq [unfolded pq] pq)
  also have "\<dots> = pieces_of zs" by (rule pieces_tail [OF q, symmetric])
  finally have "xs = zs" using Cons.prems(1) q by (intro Cons.IH) (simp_all add: pieces_wf_Cons)
  with pq show ?case by (simp add: ys)
qed

section \<open>Ranges and serialised forms\<close>

lemma hasPiece_iff:
  assumes "pieces_wf (sections v)"
  shows "hasPiece v w \<longleftrightarrow> w \<in> pieces_of (sections v)"
  using findPiece_spec [OF assms, of w]
  by (auto simp: hasPiece_def LOB_PIECES_INVALID_INDEX_def pieces_of_def)

lemma contains_range: "{w. contains p w} = {p_first p..p_last p}"
  by (auto simp: contains_def)

lemma addPieces_law:
  assumes wf: "pieces_wf (sections v)" and le: "p_first p \<le> p_last p"
    and fin: "sections v = [] \<or> p_last p \<noteq> - 1"
  shows "\<exists>v'. addPieces v p = Some (SDB_OK, v') \<and> pieces_wf (sections v') \<and>
              pieces_of (sections v') = pieces_of (sections v) \<union> {p_first p..p_last p}"
proof (cases "sections v = []")
  case True
  then show ?thesis
    using le by (simp add: addPieces_def not_less vec_defs pieces_wf_def contains_range)
next
  case False
  with fin have "p_last p \<noteq> - 1" by simp
  from pieces.for_up_adds [OF wf this, of "p_first p"] False le show ?thesis
    by (simp add: addPieces_def not_less)
qed

text \<open>
  Reading intervals back. All intervals but the first are added piece by piece, so none of them
  may reach the largest number.
\<close>

lemma merge_loop_law:
  assumes "pieces_wf (sections v)"
    and "\<forall>p \<in> set ps. p_first p \<le> p_last p \<and> p_last p \<noteq> - 1"
  shows "\<exists>v'. merge_loop ps v = Some (SDB_OK, v') \<and> pieces_wf (sections v') \<and>
              pieces_of (sections v') = pieces_of (sections v) \<union> pieces_of ps"
  using assms
proof (induction ps arbitrary: v)
  case (Cons p ps)
  obtain v' where v': "addPieces v p = Some (SDB_OK, v')" "pieces_wf (sections v')"
    "pieces_of (sections v') = pieces_of (sections v) \<union> {p_first p..p_last p}"
    using addPieces_law [of v p] Cons.prems by auto
  with Cons.IH [OF v'(2)] Cons.prems show ?case by (auto simp: contains_range)
qed simp

lemma readFrom_law:
  assumes wf: "pieces_wf ps" and fin: "length ps = 1 \<or> (\<forall>p \<in> set ps. p_last p \<noteq> - 1)"
    and empty: "sections v = []"
  shows "\<exists>v'. merge_loop ps v = Some (SDB_OK, v') \<and> sections v' = ps"
proof (cases "\<forall>p \<in> set ps. p_last p \<noteq> - 1")
  case True
  with merge_loop_law [of v ps] wf empty obtain v' where
    v': "merge_loop ps v = Some (SDB_OK, v')" "pieces_wf (sections v')"
      "pieces_of (sections v') = pieces_of ps"
    by (auto simp: pieces_wf_def)
  with pieces_unique [OF v'(2) wf] show ?thesis by simp
next
  case False
  with fin obtain p where "ps = [p]" by (auto simp: length_Suc_conv)
  with wf empty show ?thesis by (simp add: addPieces_def pieces_wf_def not_less vec_defs)
qed

lemma readFrom_bson_pairs:
  "pieces_readFrom_bson (concat (map (\<lambda>p. [NumberInt (sint (p_first p)), NumberInt (sint (p_last p))]) ps)) v =
     merge_loop ps v"
proof (induction ps arbitrary: v)
  case (Cons p ps)
  have eta: "\<lparr>p_first = p_first p, p_last = p_last p\<rparr> = p" by simp
  show ?case by (simp add: Cons.IH eta split: option.split)
qed simp

section \<open>Properties\<close>

text \<open>
  Adding one piece with \<^verbatim>\<open>addPiece\<close> always succeeds, keeps the intervals ordered,
  non-empty and separated, and changes the answers of \<^verbatim>\<open>hasPiece\<close> for that piece only.
\<close>

theorem lob_addPiece_correct:
  assumes "pieces_wf (sections v)"
  shows "\<exists>v'. addPiece v w = (SDB_OK, v') \<and> pieces_wf (sections v') \<and>
              (\<forall>x. hasPiece v' x = (x = w \<or> hasPiece v x))"
  using pieces.add_piece [OF assms, of w] assms by (auto simp: hasPiece_iff)

theorem lob_addPiece_correct_witness:
  "\<exists>v'. addPiece \<lparr>sections = [\<lparr>p_first = 1, p_last = 2\<rparr>, \<lparr>p_first = 4, p_last = 9\<rparr>], capacity = 2\<rparr> 3
          = (SDB_OK, v') \<and> pieces_wf (sections v') \<and>
        (\<forall>x. hasPiece v' x = (x = 3 \<or>
           hasPiece \<lparr>sections = [\<lparr>p_first = 1, p_last = 2\<rparr>, \<lparr>p_first = 4, p_last = 9\<rparr>], capacity = 2\<rparr> x))"
  by (rule lob_addPiece_correct) (simp add: pieces_wf_def before_def)

text \<open>
  Deleting one piece with \<^verbatim>\<open>delPiece\<close> removes that piece and no other and keeps the
  intervals well-formed, provided that the piece is at a border of its interval or that the
  vector has room for one more interval.
\<close>

theorem lob_delPiece_correct:
  assumes "pieces_wf (sections v)" and "split_room v w"
  shows "\<exists>v'. delPiece v w = (SDB_OK, v') \<and> pieces_wf (sections v') \<and>
              (\<forall>x. hasPiece v' x = (x \<noteq> w \<and> hasPiece v x))"
  using pieces.del_returns [of v w] pieces.del_piece [OF assms] assms(1) by (fastforce simp: hasPiece_iff)

theorem lob_delPiece_correct_witness:
  "\<exists>v'. delPiece \<lparr>sections = [\<lparr>p_first = 1, p_last = 9\<rparr>], capacity = 2\<rparr> 5 = (SDB_OK, v') \<and>
        pieces_wf (sections v') \<and>
        (\<forall>x. hasPiece v' x =
           (x \<noteq> 5 \<and> hasPiece \<lparr>sections = [\<lparr>p_first = 1, p_last = 9\<rparr>], capacity = 2\<rparr> x))"
  by (rule lob_delPiece_correct) (simp_all add: pieces_wf_def split_room_def vec_full_def)

text \<open>
  The capacity condition of the deletion is needed. When the vector is full, deleting a piece
  from the inside of an interval inserts the upper half, which moves the vector, and then
  shortens the interval through a reference to the old storage: the piece stays in the set.
\<close>

theorem lob_delPiece_full_keeps_piece:
  assumes "pieces_wf (sections v)" and "vec_full v" and "p \<in> set (sections v)"
    and "p_first p < w" and "w < p_last p"
  shows "w \<in> pieces_of (sections (snd (delPiece v w)))"
proof -
  have w: "contains p w" "w \<in> pieces_of (sections v)"
    using assms by (auto simp: contains_def pieces_of_def intro!: bexI [of _ p])
  define r where "r = findPiece (sections v) w"
  have r: "0 \<le> r" "r < int (length (sections v))" "contains (sections v ! nat r) w"
    using findPiece_spec [OF assms(1), of w] w by (auto simp: r_def)
  obtain as q bs where q: "sections v = as @ q # bs" "r = int (length as)"
    using index_split [OF r(1,2)] by metis
  have "q = p"
  proof (rule ccontr)
    assume "q \<noteq> p"
    with q assms(3) have "p \<in> set (as @ bs)" by auto
    with contains_unique [of as q bs w] assms(1) q r(3) w(1) show False by simp
  qed
  moreover have f: "findPiece (sections v) w = int (length as)" using q(2) by (simp add: r_def)
  have "sections v ! length as = q" by (simp add: q)
  ultimately have
    "sections (snd (delPiece v w)) = as @ p # \<lparr>p_first = w + 1, p_last = p_last p\<rparr> # bs"
    using assms unfolding delPiece_def Let_def f
    by (auto simp: q vec_defs LOB_PIECES_INVALID_INDEX_def nat_add_distrib)
  with w(1) show ?thesis by simp
qed

theorem lob_delPiece_full_keeps_piece_witness:
  "5 \<in> pieces_of (sections (snd (delPiece \<lparr>sections = [\<lparr>p_first = 1, p_last = 9\<rparr>], capacity = 1\<rparr> 5)))"
  by (rule lob_delPiece_full_keeps_piece [where p = "\<lparr>p_first = 1, p_last = 9\<rparr>"])
    (simp_all add: pieces_wf_def vec_full_def)

text \<open>
  C30. Adding a range with \<^verbatim>\<open>addPieces\<close> ends for every range that does not reach the largest
  \<^verbatim>\<open>UINT32\<close>, and adds exactly the pieces of the range.
\<close>

theorem lob_addPieces_terminates:
  assumes "pieces_wf (sections v)" and "p_first p \<le> p_last p" and "p_last p \<noteq> 4294967295"
  shows "\<exists>v'. addPieces v p = Some (SDB_OK, v') \<and> pieces_wf (sections v') \<and>
              pieces_of (sections v') = pieces_of (sections v) \<union> {p_first p..p_last p}"
  by (rule addPieces_law [OF assms(1,2)]) (use assms(3) in \<open>simp add: max_word_numeral\<close>)

theorem lob_addPieces_terminates_witness:
  "\<exists>v'. addPieces \<lparr>sections = [\<lparr>p_first = 10, p_last = 12\<rparr>], capacity = 1\<rparr> \<lparr>p_first = 0, p_last = 11\<rparr>
          = Some (SDB_OK, v') \<and> pieces_wf (sections v') \<and>
        pieces_of (sections v') = pieces_of [\<lparr>p_first = 10, p_last = 12\<rparr>] \<union> {0..11}"
  using lob_addPieces_terminates [of "\<lparr>sections = [\<lparr>p_first = 10, p_last = 12\<rparr>], capacity = 1\<rparr>"
      "\<lparr>p_first = 0, p_last = 11\<rparr>"] by (simp add: pieces_wf_def)

text \<open>
  C38. The two range loops count with a \<^verbatim>\<open>UINT32\<close> that wraps around. On a non-empty set,
  \<^verbatim>\<open>addPieces\<close> never returns for a range that reaches the largest \<^verbatim>\<open>UINT32\<close>, and
  \<^verbatim>\<open>delPieces\<close> never returns for a range that starts at 0.
\<close>

theorem lob_range_loops_diverge:
  assumes "pieces_wf (sections v)" and "sections v \<noteq> []"
  shows "addPieces v \<lparr>p_first = a, p_last = 4294967295\<rparr> = None \<and>
         delPieces v \<lparr>p_first = 0, p_last = b\<rparr> = None"
  using pieces.for_up_diverges [OF assms(1), of a] pieces.for_down_diverges [of b v] assms(2)
    word_order.extremum [of a]
  by (simp add: addPieces_def delPieces_def not_less max_word_numeral)

theorem lob_range_loops_diverge_witness:
  "addPieces \<lparr>sections = [\<lparr>p_first = 0, p_last = 3\<rparr>], capacity = 1\<rparr> \<lparr>p_first = 7, p_last = 4294967295\<rparr> = None \<and>
   delPieces \<lparr>sections = [\<lparr>p_first = 0, p_last = 3\<rparr>], capacity = 1\<rparr> \<lparr>p_first = 0, p_last = 2\<rparr> = None"
  by (rule lob_range_loops_diverge) (simp_all add: pieces_wf_def)

text \<open>
  Deleting a range that does not start at 0 with \<^verbatim>\<open>delPieces\<close> ends and deletes exactly the
  pieces of the range, provided that no piece above the range is in the set; this is how
  truncation calls it.
\<close>

theorem lob_delPieces_truncates:
  assumes "pieces_wf (sections v)" and "p_first p \<le> p_last p" and "p_first p \<noteq> 0"
    and "p_last p + 1 \<notin> pieces_of (sections v)"
  shows "\<exists>v'. delPieces v p = Some (SDB_OK, v') \<and> pieces_wf (sections v') \<and>
              pieces_of (sections v') = pieces_of (sections v) - {p_first p..p_last p}"
proof (cases "sections v = []")
  case True
  with assms show ?thesis by (simp add: delPieces_def not_less)
next
  case False
  from pieces.for_down_deletes [OF assms(1) pieces.room_above [OF assms(1,4)] assms(3)] False assms(2)
  show ?thesis by (simp add: delPieces_def not_less)
qed

theorem lob_delPieces_truncates_witness:
  "\<exists>v'. delPieces \<lparr>sections = [\<lparr>p_first = 0, p_last = 12\<rparr>], capacity = 1\<rparr> \<lparr>p_first = 5, p_last = 12\<rparr>
          = Some (SDB_OK, v') \<and> pieces_wf (sections v') \<and>
        pieces_of (sections v') = pieces_of [\<lparr>p_first = 0, p_last = 12\<rparr>] - {5..12}"
  using lob_delPieces_truncates [of "\<lparr>sections = [\<lparr>p_first = 0, p_last = 12\<rparr>], capacity = 1\<rparr>"
      "\<lparr>p_first = 5, p_last = 12\<rparr>"] by (simp add: pieces_wf_def contains_def)

text \<open>
  C31. Writing the pieces to memory and reading them back, and writing them to BSON and reading
  them back, both return the same intervals. The set holds a single interval or does not
  contain the largest \<^verbatim>\<open>UINT32\<close>; the buffer has the required size.
\<close>

theorem lob_pieces_roundtrip:
  assumes "pieces_wf (sections v)" and "sections u = []"
    and "length (sections v) = 1 \<or> 4294967295 \<notin> pieces_of (sections v)"
    and "pieces_saveTo v buf (requiredMem v) = (rc, buf')" and "pieces_saveTo_bson v = (rc', arr)"
  shows "rc = SDB_OK \<and> rc' = SDB_OK \<and>
         (\<exists>u'. pieces_readFrom buf' (requiredMem v) w = Some (SDB_OK, u') \<and> sections u' = sections v) \<and>
         (\<exists>u'. pieces_readFrom_bson arr u = Some (SDB_OK, u') \<and> sections u' = sections v)"
proof -
  have fin: "length (sections v) = 1 \<or> (\<forall>p \<in> set (sections v). p_last p \<noteq> - 1)"
    using assms(1,3) by (auto simp: pieces_of_def contains_def pieces_wf_def max_word_numeral)
  have "take (nat (requiredMem v div 8)) buf' = sections v"
    using assms(4) by (auto simp: pieces_saveTo_def requiredMem_def split: if_splits)
  with readFrom_law [OF assms(1) fin, of "w\<lparr>sections := []\<rparr>"] readFrom_law [OF assms(1) fin assms(2)]
    assms(4,5) show ?thesis
    by (auto simp: pieces_readFrom_def mergeFrom_def pieces_saveTo_def pieces_saveTo_bson_def
        readFrom_bson_pairs split: if_splits)
qed

theorem lob_pieces_roundtrip_witness:
  "\<exists>v u buf'. sections v = [\<lparr>p_first = 0, p_last = 2\<rparr>, \<lparr>p_first = 4, p_last = 4\<rparr>] \<and>
     pieces_saveTo v [] 16 = (SDB_OK, buf') \<and>
     (\<exists>u'. pieces_readFrom buf' 16 u = Some (SDB_OK, u') \<and> sections u' = sections v)"
proof -
  let ?v = "\<lparr>sections = [\<lparr>p_first = 0, p_last = 2\<rparr>, \<lparr>p_first = 4, p_last = 4\<rparr>], capacity = 2\<rparr>"
  let ?u = "\<lparr>sections = [], capacity = 0\<rparr>"
  have "pieces_saveTo ?v [] (requiredMem ?v) = (SDB_OK, sections ?v)"
    by (simp add: pieces_saveTo_def)
  then show ?thesis
    using lob_pieces_roundtrip [of ?v ?u "[]" SDB_OK "sections ?v" _ _ ?u]
    by (intro exI [of _ ?v] exI [of _ ?u] exI [of _ "sections ?v"])
      (simp add: pieces_wf_def before_def contains_def requiredMem_def pieces_saveTo_bson_def)
qed

end
