(* ===== verification/RangeLock.thy ===== *)
theory RangeLock
  imports Prelude
begin

text \<open>
  The contract of a table of byte-range locks, as the LOB code uses it: a request names a range of
  bytes and an access identifier, a range is granted when no byte of it belongs to somebody else,
  and everything an identifier holds is released at once. The lemmas inside the locale are what a
  writer relies on: a granted range stays exclusive until its owner releases it, whatever the
  other writers do.
\<close>

datatype 'r range_op = Lock 'r | Unlock int

fun range_step ::
  "('s \<Rightarrow> 'r \<Rightarrow> sdb_rc \<times> 's) \<Rightarrow> ('s \<Rightarrow> int \<Rightarrow> 's) \<Rightarrow> 'r range_op \<Rightarrow> 's \<Rightarrow> 's" where
  "range_step lock unlock (Lock r) s = snd (lock s r)"
| "range_step lock unlock (Unlock i) s = unlock s i"

definition range_run ::
  "('s \<Rightarrow> 'r \<Rightarrow> sdb_rc \<times> 's) \<Rightarrow> ('s \<Rightarrow> int \<Rightarrow> 's) \<Rightarrow> 'r range_op list \<Rightarrow> 's \<Rightarrow> 's" where
  "range_run lock unlock ops s = fold (range_step lock unlock) ops s"

definition ops_ok :: "('r \<Rightarrow> bool) \<Rightarrow> (int \<Rightarrow> bool) \<Rightarrow> 'r range_op list \<Rightarrow> bool" where
  "ops_ok wfr wfi ops \<longleftrightarrow> list_all (case_range_op wfr wfi) ops"

locale range_lock =
  fixes lock :: "'s \<Rightarrow> 'r \<Rightarrow> sdb_rc \<times> 's"
    and unlock :: "'s \<Rightarrow> int \<Rightarrow> 's"
    and holder :: "'s \<Rightarrow> int \<Rightarrow> int option"
    and good :: "'s \<Rightarrow> bool"
    and bytes :: "'r \<Rightarrow> int set"
    and who :: "'r \<Rightarrow> int"
    and wfr :: "'r \<Rightarrow> bool"
    and wfi :: "int \<Rightarrow> bool"
  assumes refuse: "good s \<Longrightarrow> wfr r \<Longrightarrow> x \<in> bytes r \<Longrightarrow> holder s x = Some j \<Longrightarrow> j \<noteq> who r \<Longrightarrow>
            lock s r = (SDB_LOB_LOCK_CONFLICTED, s)"
    and grant: "good s \<Longrightarrow> wfr r \<Longrightarrow> (\<And>x j. x \<in> bytes r \<Longrightarrow> holder s x = Some j \<Longrightarrow> j = who r) \<Longrightarrow>
            \<exists>s'. lock s r = (SDB_OK, s') \<and> good s' \<and>
                 holder s' = (\<lambda>x. if x \<in> bytes r then Some (who r) else holder s x)"
    and unlock_good: "good s \<Longrightarrow> wfi i \<Longrightarrow> good (unlock s i)"
    and unlock_holder: "good s \<Longrightarrow> wfi i \<Longrightarrow>
            holder (unlock s i) = (\<lambda>x. if holder s x = Some i then None else holder s x)"
begin

lemma lock_cases:
  assumes "good s" and "wfr r"
  shows "(lock s r = (SDB_LOB_LOCK_CONFLICTED, s) \<and>
            (\<exists>x \<in> bytes r. \<exists>j. holder s x = Some j \<and> j \<noteq> who r)) \<or>
         (\<exists>s'. lock s r = (SDB_OK, s') \<and> good s' \<and>
            (\<forall>x \<in> bytes r. holder s x = None \<or> holder s x = Some (who r)) \<and>
            holder s' = (\<lambda>x. if x \<in> bytes r then Some (who r) else holder s x))"
proof (cases "\<exists>x \<in> bytes r. \<exists>j. holder s x = Some j \<and> j \<noteq> who r")
  case True
  then show ?thesis using refuse [OF assms] by blast
next
  case False
  then have free: "\<And>x j. x \<in> bytes r \<Longrightarrow> holder s x = Some j \<Longrightarrow> j = who r" by blast
  moreover have "\<forall>x \<in> bytes r. holder s x = None \<or> holder s x = Some (who r)"
    using free by (metis not_None_eq)
  ultimately show ?thesis using grant [OF assms] by blast
qed

lemma step_good: "good s \<Longrightarrow> case_range_op wfr wfi op \<Longrightarrow> good (range_step lock unlock op s)"
  using lock_cases [of s] unlock_good [of s] by (cases op) fastforce+

lemma step_keeps:
  assumes "good s" and "case_range_op wfr wfi op" and "holder s x = Some i" and "op \<noteq> Unlock i"
  shows "holder (range_step lock unlock op s) x = Some i"
proof (cases op)
  case (Lock r)
  with lock_cases [of s r] assms show ?thesis by (fastforce split: if_splits)
next
  case (Unlock j)
  with assms unlock_holder [of s j] show ?thesis by simp
qed

lemma run_good: "good s \<Longrightarrow> ops_ok wfr wfi ops \<Longrightarrow> good (range_run lock unlock ops s)"
  by (induction ops arbitrary: s) (simp_all add: range_run_def ops_ok_def step_good)

lemma run_keeps:
  assumes "good s" and "ops_ok wfr wfi ops" and "holder s x = Some i" and "Unlock i \<notin> set ops"
  shows "holder (range_run lock unlock ops s) x = Some i"
  using assms
proof (induction ops arbitrary: s)
  case (Cons op ops)
  then have "good (range_step lock unlock op s)" "holder (range_step lock unlock op s) x = Some i"
    using step_good step_keeps by (auto simp: ops_ok_def)
  with Cons show ?case by (simp add: range_run_def ops_ok_def)
qed (simp add: range_run_def)

lemma run_excludes:
  assumes "good s" and "wfr r" and "lock s r = (SDB_OK, s')"
    and "ops_ok wfr wfi ops" and "Unlock (who r) \<notin> set ops"
    and "wfr r'" and "who r' \<noteq> who r" and "bytes r \<inter> bytes r' \<noteq> {}"
  shows "lock (range_run lock unlock ops s') r' =
           (SDB_LOB_LOCK_CONFLICTED, range_run lock unlock ops s')"
proof -
  obtain x where x: "x \<in> bytes r" "x \<in> bytes r'" using assms(8) by blast
  have s': "good s'" "holder s' x = Some (who r)"
    using lock_cases [OF assms(1,2)] assms(3) x(1) by auto
  have "holder (range_run lock unlock ops s') x = Some (who r)"
    by (rule run_keeps [OF s'(1) assms(4) s'(2) assms(5)])
  with refuse [OF run_good [OF s'(1) assms(4)] assms(6) x(2)] assms(7) show ?thesis by simp
qed

end

end
