(* ===== verification/LobSections.thy ===== *)
theory LobSections
  imports RangeLock Bson
begin

text \<open>
  The sections of a LOB that writers have locked: \<^verbatim>\<open>_rtnLobSection\<close> and
  \<^verbatim>\<open>_rtnLobSections\<close> of \<^verbatim>\<open>rtn/rtnLobSections.cpp\<close>. A section is a byte range with
  the identifier of its owner; the sections are kept in a \<^verbatim>\<open>std::map\<close> by offset. Offsets and
  lengths are \<^verbatim>\<open>INT64\<close>; \<open>section_ok\<close> says that \<^verbatim>\<open>offset + length\<close> does not overflow.
\<close>

section \<open>Model\<close>

record lobSection =
  s_offset :: int
  s_length :: int
  s_accessId :: int

definition no_section :: lobSection where
  "no_section = \<lparr>s_offset = -1, s_length = -1, s_accessId = -1\<rparr>"

definition sec_reset :: "lobSection \<Rightarrow> lobSection" where
  "sec_reset s = s\<lparr>s_offset := -1, s_length := -1\<rparr>"

definition sec_start :: "lobSection \<Rightarrow> int" where
  "sec_start s = s_offset s"

definition sec_end :: "lobSection \<Rightarrow> int" where
  "sec_end s = s_offset s + s_length s - 1"

definition sec_valid :: "lobSection \<Rightarrow> bool" where
  "sec_valid s \<longleftrightarrow> 0 \<le> s_offset s \<and> 0 < s_length s"

definition sec_include :: "lobSection \<Rightarrow> int \<Rightarrow> bool" where
  "sec_include s x \<longleftrightarrow> sec_start s \<le> x \<and> x \<le> sec_end s"

definition sec_overlapped :: "lobSection \<Rightarrow> lobSection \<Rightarrow> bool" where
  "sec_overlapped s other =
     (if sec_include other (sec_start s) \<or> sec_include other (sec_end s) then True
      else if sec_include s (sec_start other) \<or> sec_include s (sec_end other) then True
      else False)"

type_synonym lobSections = "(int \<times> lobSection) list"

text \<open>The queries run over the sections in order of offset.\<close>

fun lob_overlapped :: "lobSections \<Rightarrow> lobSection \<Rightarrow> bool" where
  "lob_overlapped [] section = False"
| "lob_overlapped ((k, cur) # rest) section =
     (if sec_overlapped cur section \<and> s_accessId cur \<noteq> s_accessId section then True
      else lob_overlapped rest section)"

fun completelyContains :: "lobSections \<Rightarrow> lobSection \<Rightarrow> bool" where
  "completelyContains [] sec = False"
| "completelyContains ((k, cur) # rest) sec =
     (if sec_end sec < sec_start cur then False
      else if sec_start sec > sec_end cur then completelyContains rest sec
      else if sec_start sec < sec_start cur then False
      else if sec_end sec > sec_end cur then
        completelyContains rest
          (sec\<lparr>s_length := sec_end sec - sec_end cur, s_offset := sec_end cur + 1\<rparr>)
      else True)"

fun conflicted :: "lobSections \<Rightarrow> int \<Rightarrow> bool" where
  "conflicted [] accessId = False"
| "conflicted ((k, cur) # rest) accessId =
     (if s_accessId cur \<noteq> accessId then True else conflicted rest accessId)"

fun sec_find :: "lobSections \<Rightarrow> int \<Rightarrow> lobSection" where
  "sec_find [] x = no_section"
| "sec_find ((k, cur) # rest) x = (if sec_include cur x then cur else sec_find rest x)"

definition delSectionById :: "lobSections \<Rightarrow> int \<Rightarrow> lobSections" where
  "delSectionById xs accessId = filter (\<lambda>(k, cur). accessId \<noteq> s_accessId cur) xs"

definition delSectionByOffset :: "int \<Rightarrow> lobSections \<Rightarrow> lobSections" where
  "delSectionByOffset offset xs = smap_erase offset xs"

text \<open>
  The loop of \<^verbatim>\<open>_addSection\<close> cuts the requested section \<open>sec\<close> along the sections that are
  there; the parts that are free so far are collected in \<open>tmp\<close>. A \<^verbatim>\<open>break\<close> returns, a
  \<^verbatim>\<open>continue\<close> recurses.
\<close>

fun add_loop ::
  "lobSections \<Rightarrow> lobSection \<Rightarrow> lobSections \<Rightarrow> bool \<Rightarrow> sdb_rc \<times> lobSection \<times> lobSections \<times> bool" where
  "add_loop [] sec tmp overlapped = (SDB_OK, sec, tmp, overlapped)"
| "add_loop ((k, cur) # rest) sec tmp overlapped =
     (if sec_end sec < sec_start cur then
        if overlapped then (SDB_OK, sec_reset sec, smap_insert (s_offset sec) sec tmp, overlapped)
        else (SDB_OK, sec, tmp, overlapped)
      else if sec_start sec > sec_end cur then add_loop rest sec tmp overlapped
      else if s_accessId cur \<noteq> s_accessId sec then (SDB_LOB_LOCK_CONFLICTED, sec, tmp, True)
      else if sec_start sec < sec_start cur then
        (let lower = sec\<lparr>s_length := sec_start cur - sec_start sec\<rparr>;
             tmp' = smap_insert (s_offset lower) lower tmp in
         if sec_end sec > sec_end cur then
           add_loop rest
             (sec\<lparr>s_length := sec_end sec - sec_end cur, s_offset := sec_end cur + 1\<rparr>) tmp' True
         else (SDB_OK, sec_reset sec, tmp', True))
      else if sec_end sec > sec_end cur then
        add_loop rest
          (sec\<lparr>s_length := sec_end sec - sec_end cur, s_offset := sec_end cur + 1\<rparr>) tmp True
      else (SDB_OK, sec_reset sec, tmp, True))"

definition insert_section :: "lobSection \<Rightarrow> lobSections \<times> int list \<Rightarrow> lobSections \<times> int list" where
  "insert_section cur = (\<lambda>(xs, offsets).
     (smap_insert (s_offset cur) cur xs, offsets @ [s_offset cur]))"

text \<open>\<^verbatim>\<open>_addSection\<close>: the sections afterwards and the offsets of the new ones.\<close>

definition addSection_inner ::
  "lobSections \<Rightarrow> lobSection \<Rightarrow> sdb_rc \<times> lobSections \<times> int list" where
  "addSection_inner xs section =
     (case add_loop xs section [] False of
        (rc, sec, tmp, overlapped) \<Rightarrow>
          if rc \<noteq> SDB_OK then (rc, xs, [])
          else if overlapped then
            (let st = fold (\<lambda>e. insert_section (snd e)) tmp (xs, []);
                 st' = (if sec_valid sec then insert_section sec st else st) in (rc, st'))
          else (rc, insert_section sec (xs, [])))"

text \<open>\<^verbatim>\<open>addSection\<close> takes the new sections out again when the insertion failed.\<close>

definition addSection :: "lobSections \<Rightarrow> lobSection \<Rightarrow> sdb_rc \<times> lobSections \<times> int list" where
  "addSection xs section =
     (case addSection_inner xs section of
        (rc, xs', offsets) \<Rightarrow>
          if rc \<noteq> SDB_OK then
            if offsets \<noteq> [] then (rc, fold delSectionByOffset offsets xs', []) else (rc, xs', offsets)
          else (rc, xs', offsets))"

text \<open>The BSON form of a section and of all sections.\<close>

definition FIELD_NAME_LOB_OFFSET :: string where "FIELD_NAME_LOB_OFFSET = ''Offset''"
definition FIELD_NAME_LOB_LENGTH :: string where "FIELD_NAME_LOB_LENGTH = ''Length''"
definition FIELD_NAME_LOB_ACCESSID :: string where "FIELD_NAME_LOB_ACCESSID = ''AccessId''"

definition sec_toBSONObj :: "lobSection \<Rightarrow> bool \<Rightarrow> bsonObj" where
  "sec_toBSONObj s withAccessId =
     [(FIELD_NAME_LOB_OFFSET, NumberLong (s_offset s)),
      (FIELD_NAME_LOB_LENGTH, NumberLong (s_length s))] @
     (if withAccessId then [(FIELD_NAME_LOB_ACCESSID, NumberLong (s_accessId s))] else [])"

definition sec_fromBSONObj :: "bsonObj \<Rightarrow> int \<Rightarrow> sdb_rc \<times> lobSection" where
  "sec_fromBSONObj obj accessId =
     (case getField obj FIELD_NAME_LOB_OFFSET of
        NumberLong off \<Rightarrow>
          (case getField obj FIELD_NAME_LOB_LENGTH of
             NumberLong len \<Rightarrow>
               (let s = no_section\<lparr>s_offset := off, s_length := len\<rparr> in
                if accessId \<noteq> -1 then (SDB_OK, s\<lparr>s_accessId := accessId\<rparr>)
                else (case getField obj FIELD_NAME_LOB_ACCESSID of
                        NumberLong i \<Rightarrow> (SDB_OK, s\<lparr>s_accessId := i\<rparr>)
                      | EOO \<Rightarrow> (SDB_OK, s)
                      | _ \<Rightarrow> (SDB_INVALIDARG, s)))
           | _ \<Rightarrow> (SDB_INVALIDARG, no_section\<lparr>s_offset := off\<rparr>))
      | _ \<Rightarrow> (SDB_INVALIDARG, no_section))"

definition sections_saveTo :: "lobSections \<Rightarrow> bool \<Rightarrow> sdb_rc \<times> bsonArray" where
  "sections_saveTo xs withAccessId =
     (SDB_OK, map (\<lambda>(k, s). Object (sec_toBSONObj s withAccessId)) xs)"

fun sections_readFrom :: "bsonArray \<Rightarrow> int \<Rightarrow> lobSections \<Rightarrow> sdb_rc \<times> lobSections" where
  "sections_readFrom [] accessId xs = (SDB_OK, xs)"
| "sections_readFrom (ele # es) accessId xs =
     (case ele of
        Object obj \<Rightarrow>
          (case sec_fromBSONObj obj accessId of
             (rc, sec) \<Rightarrow>
               if rc \<noteq> SDB_OK then (rc, xs)
               else (case addSection xs sec of
                       (rc, xs', offsets) \<Rightarrow>
                         if rc \<noteq> SDB_OK then (rc, xs') else sections_readFrom es accessId xs'))
      | _ \<Rightarrow> (SDB_SYS, xs))"

section \<open>Well-formed sections\<close>

definition OSS_SINT64_MAX :: int where
  "OSS_SINT64_MAX = 9223372036854775807"

definition section_ok :: "lobSection \<Rightarrow> bool" where
  "section_ok s \<longleftrightarrow> sec_valid s \<and> 0 \<le> s_accessId s \<and> s_offset s + s_length s \<le> OSS_SINT64_MAX"

definition sec_bytes :: "lobSection \<Rightarrow> int set" where
  "sec_bytes s = {s_offset s..<s_offset s + s_length s}"

fun sections_ok :: "lobSections \<Rightarrow> bool" where
  "sections_ok [] = True"
| "sections_ok ((k, s) # xs) \<longleftrightarrow>
     k = s_offset s \<and> section_ok s \<and> sections_ok xs \<and> (\<forall>(l, t) \<in> set xs. sec_end s < sec_start t)"

definition lob_owner :: "lobSections \<Rightarrow> int \<Rightarrow> int option" where
  "lob_owner xs x =
     (case List.find (\<lambda>(k, s). sec_include s x) xs of
        None \<Rightarrow> None | Some (k, s) \<Rightarrow> Some (s_accessId s))"

lemmas sec_defs = sec_start_def sec_end_def sec_include_def sec_valid_def

lemma sec_include_bytes: "sec_include s x \<longleftrightarrow> x \<in> sec_bytes s"
  by (auto simp: sec_defs sec_bytes_def)

definition covered :: "lobSections \<Rightarrow> int set" where
  "covered xs = (\<Union>(k, s) \<in> set xs. sec_bytes s)"

lemma covered_simps [simp]:
  "covered [] = {}"
  "covered ((k, s) # xs) = sec_bytes s \<union> covered xs"
  "covered (xs @ ys) = covered xs \<union> covered ys"
  by (auto simp: covered_def)

lemma sections_ok_mem:
  assumes "sections_ok xs" and "(k, s) \<in> set xs"
  shows "k = s_offset s \<and> section_ok s"
  using assms by (induction xs) auto

lemma sections_ok_keys:
  assumes "sections_ok xs"
  shows "fst ` set xs \<subseteq> covered xs" and "smap_ok xs"
proof -
  show "fst ` set xs \<subseteq> covered xs"
    using sections_ok_mem [OF assms]
    by (fastforce simp: covered_def sec_bytes_def section_ok_def sec_valid_def)
  show "smap_ok xs" using assms
  proof (induction xs)
    case (Cons e xs)
    obtain k s where e: "e = (k, s)" by fastforce
    have "k < l" if "(l, t) \<in> set xs" for l t
      using Cons.prems that sections_ok_mem [of xs l t]
      by (fastforce simp: e sec_defs section_ok_def)
    with Cons show ?case by (auto simp: e)
  qed simp
qed

lemma sections_ok_put:
  assumes "sections_ok xs" and "section_ok s" and "sec_bytes s \<inter> covered xs = {}"
  shows "sections_ok (smap_put (s_offset s) s xs)"
  using assms
proof (induction xs)
  case (Cons e xs)
  obtain k t where e: "e = (k, t)" by fastforce
  from Cons.prems have t: "k = s_offset t" "section_ok t" "sec_bytes s \<inter> sec_bytes t = {}"
    "sec_bytes s \<inter> covered xs = {}" by (auto simp: e)
  have s0: "s_offset s \<in> sec_bytes s" "s_offset t \<in> sec_bytes t"
    using t(2) assms(2) by (auto simp: sec_bytes_def section_ok_def sec_valid_def)
  then have ne: "s_offset s \<noteq> s_offset t" using t(3) by auto
  show ?case
  proof (cases "s_offset s < s_offset t")
    case True
    have st: "sec_end s < sec_start t"
    proof (rule ccontr)
      assume "\<not> sec_end s < sec_start t"
      with True have "s_offset t \<in> sec_bytes s" by (auto simp: sec_bytes_def sec_defs)
      with s0 t(3) show False by auto
    qed
    moreover have "sec_start t \<le> sec_end t" using t(2) by (simp add: section_ok_def sec_defs)
    ultimately have "sec_end s < sec_start u" if "(l, u) \<in> set xs" for l u
      using Cons.prems(1) that by (fastforce simp: e)
    with True st ne Cons.prems t(1) show ?thesis by (auto simp: e)
  next
    case False
    have "sec_end t < sec_start s"
    proof (rule ccontr)
      assume "\<not> sec_end t < sec_start s"
      with False have "s_offset s \<in> sec_bytes t" by (auto simp: sec_bytes_def sec_defs)
      with s0 t(3) show False by auto
    qed
    moreover have "s_offset s \<notin> fst ` set xs"
      using sections_ok_keys(1) [of xs] Cons.prems s0(1) t(4) by (auto simp: e)
    ultimately show ?thesis
      using False ne Cons t by (auto simp: e set_smap_put_new)
  qed
qed simp

lemma sections_ok_beyond:
  assumes "sections_ok ((k, s) # xs)"
  shows "covered xs \<subseteq> {sec_end s<..}"
  using assms by (fastforce simp: covered_def sec_bytes_def sec_defs)

lemma lob_owner_simps [simp]:
  "lob_owner [] x = None"
  "lob_owner ((k, s) # xs) x = (if x \<in> sec_bytes s then Some (s_accessId s) else lob_owner xs x)"
  by (auto simp: lob_owner_def sec_include_bytes)

lemma lob_owner_iff:
  assumes "sections_ok xs"
  shows "lob_owner xs x = Some i \<longleftrightarrow> (\<exists>(k, s) \<in> set xs. x \<in> sec_bytes s \<and> s_accessId s = i)"
  using assms
proof (induction xs)
  case (Cons e xs)
  obtain k s where e: "e = (k, s)" by fastforce
  have "x \<notin> sec_bytes t" if "x \<in> sec_bytes s" "(l, t) \<in> set xs" for l t
    using Cons.prems that by (fastforce simp: e sec_bytes_def sec_defs)
  moreover have "lob_owner xs x = Some i \<longleftrightarrow> (\<exists>(k, s) \<in> set xs. x \<in> sec_bytes s \<and> s_accessId s = i)"
    using Cons by (simp add: e)
  ultimately show ?case by (cases "x \<in> sec_bytes s") (auto simp: e)
qed simp

lemma lob_owner_None: "lob_owner xs x = None \<longleftrightarrow> x \<notin> covered xs"
  by (induction xs) (auto split: if_splits)

lemma sec_overlapped_iff:
  assumes "section_ok s" and "section_ok t"
  shows "sec_overlapped s t \<longleftrightarrow> sec_bytes s \<inter> sec_bytes t \<noteq> {}"
proof -
  have "s_offset s \<in> sec_bytes s" "s_offset t \<in> sec_bytes t"
    using assms by (auto simp: sec_bytes_def section_ok_def sec_valid_def)
  then show ?thesis
    using assms
    by (cases "s_offset s \<le> s_offset t")
      (auto simp: sec_overlapped_def sec_defs section_ok_def sec_bytes_def disjoint_iff)
qed

section \<open>Adding a section\<close>

definition remainder :: "lobSection \<Rightarrow> lobSections" where
  "remainder s = (if sec_valid s then [(s_offset s, s)] else [])"

definition sec_after :: "lobSection \<Rightarrow> lobSection \<Rightarrow> lobSection" where
  "sec_after cur sec = sec\<lparr>s_length := sec_end sec - sec_end cur, s_offset := sec_end cur + 1\<rparr>"

definition foreign :: "lobSections \<Rightarrow> lobSection \<Rightarrow> bool" where
  "foreign xs sec \<longleftrightarrow>
     (\<exists>(k, c) \<in> set xs. sec_bytes c \<inter> sec_bytes sec \<noteq> {} \<and> s_accessId c \<noteq> s_accessId sec)"

text \<open>The parts of \<open>sec\<close> that no section of \<open>xs\<close> covers, with the owner of \<open>sec\<close>.\<close>

definition free_parts :: "lobSections \<Rightarrow> lobSection \<Rightarrow> lobSections \<Rightarrow> bool" where
  "free_parts xs sec new \<longleftrightarrow>
     sections_ok new \<and> covered new = sec_bytes sec - covered xs \<and>
     (\<forall>(k, s) \<in> set new. s_accessId s = s_accessId sec \<and> s_offset sec \<le> k)"

lemma remainder_simps [simp]:
  "section_ok s \<Longrightarrow> remainder s = [(s_offset s, s)]" "remainder (sec_reset s) = []"
  by (simp_all add: remainder_def section_ok_def sec_reset_def sec_valid_def)

lemma sec_after_ok:
  assumes "section_ok sec" and "section_ok cur" and "sec_end cur < sec_end sec"
    and "sec_start sec \<le> sec_end cur"
  shows "section_ok (sec_after cur sec)" and "s_accessId (sec_after cur sec) = s_accessId sec"
    and "s_offset (sec_after cur sec) = sec_end cur + 1"
    and "sec_bytes (sec_after cur sec) = sec_bytes sec \<inter> {sec_end cur<..}"
  using assms by (auto simp: sec_after_def section_ok_def sec_defs sec_bytes_def)

lemma smap_insert_last:
  "\<forall>k' \<in> fst ` set m. k' < k \<Longrightarrow> smap_insert k v m = m @ [(k, v)]"
  by (subst smap_insert_new) (auto simp: smap_put_last)

lemma free_parts_self:
  assumes "section_ok sec" and "sec_bytes sec \<inter> covered xs = {}"
  shows "free_parts xs sec [(s_offset sec, sec)]"
  using assms by (auto simp: free_parts_def)

lemma foreign_simps [simp]:
  "\<not> foreign [] sec"
  "foreign ((k, c) # xs) sec \<longleftrightarrow>
     (sec_bytes c \<inter> sec_bytes sec \<noteq> {} \<and> s_accessId c \<noteq> s_accessId sec) \<or> foreign xs sec"
  by (auto simp: foreign_def)

lemma foreign_apart: "sec_bytes sec \<inter> covered xs = {} \<Longrightarrow> \<not> foreign xs sec"
  by (fastforce simp: foreign_def covered_def)

lemma foreign_cong:
  assumes "sec_bytes s \<inter> covered xs = sec_bytes t \<inter> covered xs" and "s_accessId s = s_accessId t"
  shows "foreign xs s = foreign xs t"
  using assms by (fastforce simp: foreign_def covered_def)

text \<open>What the loop delivers, by the shape of the overlap with the first section.\<close>

fun loop_ok :: "lobSections \<Rightarrow> lobSection \<Rightarrow> lobSections \<Rightarrow>
    sdb_rc \<times> lobSection \<times> lobSections \<times> bool \<Rightarrow> bool" where
  "loop_ok xs sec tmp (rc, sec', tmp', ov) \<longleftrightarrow>
     (if foreign xs sec then rc = SDB_LOB_LOCK_CONFLICTED
      else rc = SDB_OK \<and> (\<exists>new. tmp' @ remainder sec' = tmp @ new \<and> free_parts xs sec new) \<and>
           (\<not> ov \<longrightarrow> sec' = sec \<and> tmp' = tmp))"

lemma loop_ok_apart:
  assumes "section_ok sec" and "sec_bytes sec \<inter> covered xs = {}"
    and "tmp' @ remainder sec' = tmp @ [(s_offset sec, sec)]" and "\<not> ov \<longrightarrow> sec' = sec \<and> tmp' = tmp"
  shows "loop_ok xs sec tmp (SDB_OK, sec', tmp', ov)"
  using assms foreign_apart [OF assms(2)] free_parts_self [OF assms(1,2)] by auto

lemma loop_ok_lower:
  assumes "section_ok sec" and "section_ok lower" and "s_accessId lower = s_accessId sec"
    and "s_offset lower = s_offset sec" and "sec_bytes lower = sec_bytes sec - covered xs"
    and "\<not> foreign xs sec"
  shows "loop_ok xs sec tmp (SDB_OK, sec_reset sec, tmp @ [(s_offset lower, lower)], True)"
  using assms by (auto simp: free_parts_def)

lemma loop_ok_after:
  assumes sec: "section_ok sec" and xs: "sections_ok ((k, cur) # rest)"
    and id: "s_accessId cur = s_accessId sec"
    and cut: "sec_start sec \<le> sec_end cur" "sec_end cur < sec_end sec"
    and low: "low = (if sec_start sec < sec_start cur
                     then [(s_offset sec, sec\<lparr>s_length := sec_start cur - sec_start sec\<rparr>)] else [])"
    and rest: "loop_ok rest (sec_after cur sec) (tmp @ low) (rc, sec', tmp', ov)" and "ov"
  shows "loop_ok ((k, cur) # rest) sec tmp (rc, sec', tmp', ov)"
proof -
  have cur: "section_ok cur" using xs by simp
  note after = sec_after_ok [OF sec cur cut(2,1)]
  have beyond: "covered rest \<subseteq> {sec_end cur<..}" by (rule sections_ok_beyond [OF xs])
  have "foreign rest sec = foreign rest (sec_after cur sec)"
    by (rule foreign_cong) (use after beyond in auto)
  then have fe: "foreign ((k, cur) # rest) sec = foreign rest (sec_after cur sec)" by (simp add: id)
  show ?thesis
  proof (cases "foreign rest (sec_after cur sec)")
    case True
    with rest fe show ?thesis by simp
  next
    case False
    with rest obtain new where new: "rc = SDB_OK" "tmp' @ remainder sec' = (tmp @ low) @ new"
      "free_parts rest (sec_after cur sec) new" by auto
    have bytes: "covered low = {x \<in> sec_bytes sec. x < sec_start cur}"
      using cut cur by (auto simp: low sec_bytes_def sec_defs section_ok_def)
    have "covered (low @ new) = sec_bytes sec - covered ((k, cur) # rest)"
      using new(3) bytes after(4) beyond cut cur
      by (auto simp: free_parts_def sec_bytes_def sec_defs section_ok_def)
    moreover have mem: "sec_end cur < sec_start t \<and> s_accessId t = s_accessId sec \<and> sec_end cur < l"
      if "(l, t) \<in> set new" for l t
    proof -
      have "l = s_offset t" using sections_ok_mem [of new l t] new(3) that by (simp add: free_parts_def)
      then show ?thesis using new(3) that after(2,3) by (fastforce simp: free_parts_def sec_start_def)
    qed
    moreover have "sections_ok (low @ new)"
    proof (cases "sec_start sec < sec_start cur")
      case True
      have "sec_end (sec\<lparr>s_length := sec_start cur - sec_start sec\<rparr>) < sec_start t"
        if "(l, t) \<in> set new" for l t
        using mem [OF that] cur by (simp add: sec_defs section_ok_def)
      with True new(3) sec cut cur show ?thesis
        by (auto simp: low free_parts_def section_ok_def sec_defs)
    next
      case False
      with new(3) show ?thesis by (simp add: low free_parts_def)
    qed
    ultimately have "free_parts ((k, cur) # rest) sec (low @ new)"
      using cut mem by (fastforce simp: free_parts_def low sec_start_def)
    with new fe False \<open>ov\<close> show ?thesis by auto
  qed
qed

lemma add_loop_overlapped: "add_loop ys sec tmp True = (rc, sec', tmp', ov) \<Longrightarrow> ov"
  by (induction ys sec tmp True rule: add_loop.induct) (auto simp: Let_def split: if_splits)

lemma add_loop_left:
  assumes xs: "sections_ok ((k, cur) # rest)" and sec: "section_ok sec"
    and keys: "\<forall>k \<in> fst ` set tmp. k < s_offset sec" and left: "sec_end sec < sec_start cur"
  shows "loop_ok ((k, cur) # rest) sec tmp (add_loop ((k, cur) # rest) sec tmp ov)"
proof -
  have "sec_start cur \<le> sec_end cur" using xs by (auto simp: section_ok_def sec_defs)
  then have "sec_bytes sec \<inter> covered ((k, cur) # rest) = {}"
    using left sections_ok_beyond [OF xs] by (auto simp: sec_bytes_def sec_defs)
  note apart = loop_ok_apart [OF sec this, of tmp sec tmp False]
    loop_ok_apart [OF sec this, of "tmp @ [(s_offset sec, sec)]" "sec_reset sec" tmp True]
  from apart left sec keys show ?thesis by (cases ov) (simp_all add: smap_insert_last)
qed

lemma add_loop_right:
  assumes right: "\<not> sec_end sec < sec_start cur" "sec_end cur < sec_start sec"
    and rest: "loop_ok rest sec tmp (add_loop rest sec tmp ov)"
  shows "loop_ok ((k, cur) # rest) sec tmp (add_loop ((k, cur) # rest) sec tmp ov)"
proof -
  have "sec_bytes sec \<inter> sec_bytes cur = {}" using right by (auto simp: sec_bytes_def sec_defs)
  then have "foreign ((k, cur) # rest) sec = foreign rest sec"
    and "free_parts ((k, cur) # rest) sec = free_parts rest sec"
    by (auto simp: free_parts_def fun_eq_iff)
  with rest right show ?thesis by (cases "add_loop rest sec tmp ov") simp
qed

lemma add_loop_inside:
  assumes xs: "sections_ok ((k, cur) # rest)" and sec: "section_ok sec"
    and keys: "\<forall>k \<in> fst ` set tmp. k < s_offset sec"
    and inside: "\<not> sec_end sec < sec_start cur" "\<not> sec_end cur < sec_start sec"
      "s_accessId cur = s_accessId sec" "\<not> sec_end cur < sec_end sec"
  shows "loop_ok ((k, cur) # rest) sec tmp (add_loop ((k, cur) # rest) sec tmp ov)"
proof -
  let ?lower = "sec\<lparr>s_length := sec_start cur - sec_start sec\<rparr>"
  have beyond: "covered rest \<subseteq> {sec_end cur<..}" by (rule sections_ok_beyond [OF xs])
  have nf: "\<not> foreign ((k, cur) # rest) sec"
    using inside beyond by (auto simp: sec_bytes_def sec_defs intro!: foreign_apart)
  show ?thesis
  proof (cases "sec_start sec < sec_start cur")
    case True
    have "sec_bytes ?lower = sec_bytes sec - covered ((k, cur) # rest)"
      using True inside beyond by (auto simp: sec_bytes_def sec_defs)
    moreover have "section_ok ?lower" using True sec inside by (auto simp: section_ok_def sec_defs)
    ultimately show ?thesis
      using loop_ok_lower [OF sec, of ?lower] nf True inside keys by (simp add: smap_insert_last)
  next
    case False
    have "sec_bytes sec - covered ((k, cur) # rest) = {}"
      using False inside by (auto simp: sec_bytes_def sec_defs)
    with nf False inside show ?thesis by (simp add: free_parts_def)
  qed
qed

lemma add_loop_spec:
  assumes "sections_ok ys" and "section_ok sec" and "\<forall>k \<in> fst ` set tmp. k < s_offset sec"
  shows "loop_ok ys sec tmp (add_loop ys sec tmp ov)"
  using assms
proof (induction ys sec tmp ov rule: add_loop.induct)
  case (1 sec tmp ov)
  then show ?case using loop_ok_apart [of sec "[]" tmp sec tmp ov] by simp
next
  case (2 k cur rest sec tmp ov)
  note xs = 2(4) and sec = 2(5) and keys = 2(6)
  have cur: "section_ok cur" and rest: "sections_ok rest" using xs by auto
  let ?after = "sec\<lparr>s_length := sec_end sec - sec_end cur, s_offset := sec_end cur + 1\<rparr>"
  let ?lower = "sec\<lparr>s_length := sec_start cur - sec_start sec\<rparr>"
  let ?low = "if sec_start sec < sec_start cur then [(s_offset sec, ?lower)] else []"
  consider (left) "sec_end sec < sec_start cur"
    | (right) "\<not> sec_end sec < sec_start cur" "sec_end cur < sec_start sec"
    | (other) "\<not> sec_end sec < sec_start cur" "\<not> sec_end cur < sec_start sec" "s_accessId cur \<noteq> s_accessId sec"
    | (upper) "\<not> sec_end sec < sec_start cur" "\<not> sec_end cur < sec_start sec" "s_accessId cur = s_accessId sec"
        "sec_end cur < sec_end sec"
    | (inside) "\<not> sec_end sec < sec_start cur" "\<not> sec_end cur < sec_start sec" "s_accessId cur = s_accessId sec"
        "\<not> sec_end cur < sec_end sec"
    by blast
  then show ?case
  proof cases
    case left
    then show ?thesis by (rule add_loop_left [OF xs sec keys])
  next
    case right
    then show ?thesis by (rule add_loop_right) (use 2(1) right rest sec keys in simp)
  next
    case other
    then have "sec_overlapped cur sec"
      using sec cur unfolding sec_overlapped_def by (auto simp: sec_defs section_ok_def)
    with sec_overlapped_iff [OF cur sec] other show ?thesis by simp
  next
    case upper
    obtain rc sec' tmp' ov' where r: "add_loop rest ?after (tmp @ ?low) True = (rc, sec', tmp', ov')"
      by (cases "add_loop rest ?after (tmp @ ?low) True")
    have eq: "add_loop ((k, cur) # rest) sec tmp ov = (rc, sec', tmp', ov')"
      using r upper keys by (auto simp: Let_def smap_insert_last)
    have "\<forall>k \<in> fst ` set (tmp @ ?low). k < s_offset ?after" and "section_ok ?after"
      using keys upper sec_after_ok(1) [OF sec cur] by (auto simp: sec_after_def sec_defs)
    then have "loop_ok rest ?after (tmp @ ?low) (add_loop rest ?after (tmp @ ?low) True)"
      using 2(2) [OF upper(1,2) _ _ refl refl] 2(3) upper rest keys
      by (cases "sec_start sec < sec_start cur") (auto simp: smap_insert_last)
    with r eq loop_ok_after [OF sec xs upper(3) _ upper(4) refl, of tmp rc sec' tmp' ov']
      add_loop_overlapped [OF r] upper(2) show ?thesis by (simp add: sec_after_def)
  next
    case inside
    then show ?thesis by (rule add_loop_inside [OF xs sec keys])
  qed
qed

text \<open>Inserting the free parts, and taking them out again.\<close>

lemma filter_smap_put_new:
  "k \<notin> fst ` set m \<Longrightarrow> \<not> P (k, v) \<Longrightarrow> filter P (smap_put k v m) = filter P m"
  by (induction k v m rule: smap_put.induct) auto

lemma fold_del_filter: "fold delSectionByOffset ks xs = filter (\<lambda>e. fst e \<notin> set ks) xs"
proof (induction ks arbitrary: xs)
  case (Cons k ks)
  then show ?case by (auto simp: delSectionByOffset_def smap_erase_def conj_commute intro: filter_cong)
qed simp

lemma insert_parts:
  assumes "sections_ok xs" and "sections_ok new" and "covered new \<inter> covered xs = {}"
  shows "\<exists>xs'. fold (\<lambda>e. insert_section (snd e)) new (xs, offs) = (xs', offs @ map fst new) \<and>
           sections_ok xs' \<and> set xs' = set xs \<union> set new \<and>
           (\<forall>K. fst ` set new \<subseteq> K \<longrightarrow> filter (\<lambda>e. fst e \<notin> K) xs' = filter (\<lambda>e. fst e \<notin> K) xs)"
  using assms
proof (induction new arbitrary: xs offs)
  case (Cons e new)
  obtain k s where e: "e = (k, s)" by fastforce
  have s: "k = s_offset s" "section_ok s" "sections_ok new" "sec_bytes s \<inter> covered xs = {}"
    "covered new \<inter> covered xs = {}" using Cons.prems by (auto simp: e)
  have k: "k \<in> sec_bytes s" using s by (simp add: sec_bytes_def section_ok_def sec_valid_def)
  then have new: "k \<notin> fst ` set xs" using sections_ok_keys(1) [OF Cons.prems(1)] s(4) by auto
  have "sec_bytes s \<inter> covered new = {}"
    using sections_ok_beyond [of k s new] Cons.prems(2) by (auto simp: e sec_bytes_def sec_defs)
  moreover have "set (smap_put k s xs) = insert (k, s) (set xs)" by (rule set_smap_put_new [OF new])
  ultimately have "covered new \<inter> covered (smap_put k s xs) = {}"
    using s(5) by (auto simp: covered_def)
  from Cons.IH [OF _ s(3) this, of "offs @ [k]"] sections_ok_put [OF Cons.prems(1) s(2,4)] s(1) new
  show ?case
    by (auto simp: e insert_section_def smap_insert_new set_smap_put_new filter_smap_put_new)
qed (simp add: insert_section_def)

lemma addSection_foreign:
  assumes "sections_ok xs" and "section_ok s" and "foreign xs s"
  shows "addSection xs s = (SDB_LOB_LOCK_CONFLICTED, xs, [])"
  using add_loop_spec [OF assms(1,2), of "[]" False] assms(3)
  by (cases "add_loop xs s [] False") (simp add: addSection_def addSection_inner_def)

lemma addSection_free:
  assumes xs: "sections_ok xs" and s: "section_ok s" and "\<not> foreign xs s"
  shows "\<exists>xs' offs new. addSection xs s = (SDB_OK, xs', offs) \<and> sections_ok xs' \<and>
           free_parts xs s new \<and> set xs' = set xs \<union> set new \<and> fold delSectionByOffset offs xs' = xs"
proof -
  obtain rc sec' tmp' ov where loop: "add_loop xs s [] False = (rc, sec', tmp', ov)"
    by (cases "add_loop xs s [] False")
  from add_loop_spec [OF xs s, of "[]" False] assms(3) obtain new where
    new: "rc = SDB_OK" "tmp' @ remainder sec' = new" "free_parts xs s new"
      "\<not> ov \<Longrightarrow> sec' = s \<and> tmp' = []" by (auto simp: loop)
  obtain xs' where ins: "fold (\<lambda>e. insert_section (snd e)) new (xs, []) = (xs', map fst new)"
    "sections_ok xs'" "set xs' = set xs \<union> set new"
    "filter (\<lambda>e. fst e \<notin> fst ` set new) xs' = filter (\<lambda>e. fst e \<notin> fst ` set new) xs"
    using insert_parts [OF xs, of new "[]"] new(3) by (auto simp: free_parts_def)
  have "addSection xs s = (SDB_OK, xs', map fst new)"
    using ins(1) new(1,4) s unfolding new(2) [symmetric]
    by (cases ov) (auto simp: addSection_def addSection_inner_def loop Let_def remainder_def
        section_ok_def)
  moreover have "fst ` set new \<inter> fst ` set xs = {}"
    using new(3) sections_ok_keys(1) [OF xs] sections_ok_keys(1) [of new] by (auto simp: free_parts_def)
  then have "filter (\<lambda>e. fst e \<notin> fst ` set new) xs = xs" by (intro filter_True) blast
  then have "fold delSectionByOffset (map fst new) xs' = xs"
    using ins(4) by (simp add: fold_del_filter)
  ultimately show ?thesis using ins new(3) by blast
qed

lemma addSection_owner:
  assumes xs: "sections_ok xs" and xs': "sections_ok xs'" and free: "free_parts xs s new"
    and set: "set xs' = set xs \<union> set new" and nf: "\<not> foreign xs s"
  shows "lob_owner xs' = (\<lambda>x. if x \<in> sec_bytes s then Some (s_accessId s) else lob_owner xs x)"
proof
  fix x
  have cov: "covered xs' = covered xs \<union> covered new" using set by (auto simp: covered_def)
  show "lob_owner xs' x = (if x \<in> sec_bytes s then Some (s_accessId s) else lob_owner xs x)"
  proof (cases "lob_owner xs' x")
    case None
    then have "x \<notin> covered xs" "x \<notin> covered new" by (simp_all add: lob_owner_None cov)
    then have "x \<notin> sec_bytes s" "lob_owner xs x = None"
      using free by (auto simp: lob_owner_None free_parts_def)
    with None show ?thesis by simp
  next
    case (Some i)
    then obtain k t where t: "(k, t) \<in> set xs \<union> set new" "x \<in> sec_bytes t" "s_accessId t = i"
      using lob_owner_iff [OF xs'] set by fastforce
    show ?thesis
    proof (cases "(k, t) \<in> set new")
      case True
      then have "x \<in> covered new" "i = s_accessId s"
        using t free by (auto simp: covered_def free_parts_def)
      with Some free show ?thesis by (auto simp: free_parts_def)
    next
      case False
      then have kt: "(k, t) \<in> set xs" using t by simp
      then have "lob_owner xs x = Some i" using lob_owner_iff [OF xs] t by blast
      moreover have "i = s_accessId s" if "x \<in> sec_bytes s"
        using nf kt t that by (fastforce simp: foreign_def)
      ultimately show ?thesis using Some by auto
    qed
  qed
qed

lemma foreign_owner:
  assumes "sections_ok xs"
  shows "foreign xs s \<longleftrightarrow> (\<exists>x \<in> sec_bytes s. \<exists>j. lob_owner xs x = Some j \<and> j \<noteq> s_accessId s)"
  using lob_owner_iff [OF assms] by (fastforce simp: foreign_def)

section \<open>Deleting and asking\<close>

lemma sections_ok_filter: "sections_ok xs \<Longrightarrow> sections_ok (filter P xs)"
  by (induction xs rule: sections_ok.induct) auto

lemma option_ext: "(\<And>j. a = Some j \<longleftrightarrow> b = Some j) \<Longrightarrow> a = b"
  by (cases a; cases b) auto

lemma delSectionById_owner:
  assumes "sections_ok xs"
  shows "lob_owner (delSectionById xs i) = (\<lambda>x. if lob_owner xs x = Some i then None else lob_owner xs x)"
proof
  fix x
  have ok: "sections_ok (delSectionById xs i)"
    by (simp add: delSectionById_def sections_ok_filter [OF assms])
  have "lob_owner (delSectionById xs i) x = Some j \<longleftrightarrow> lob_owner xs x = Some j \<and> j \<noteq> i" for j
    unfolding lob_owner_iff [OF ok] lob_owner_iff [OF assms] by (auto simp: delSectionById_def)
  then show "lob_owner (delSectionById xs i) x = (if lob_owner xs x = Some i then None else lob_owner xs x)"
    by (intro option_ext) (auto split: if_splits)
qed

lemma conflicted_iff: "conflicted xs i \<longleftrightarrow> (\<exists>(k, s) \<in> set xs. s_accessId s \<noteq> i)"
  by (induction xs i rule: conflicted.induct) auto

lemma conflicted_owner:
  assumes "sections_ok xs"
  shows "conflicted xs i \<longleftrightarrow> (\<exists>x j. lob_owner xs x = Some j \<and> j \<noteq> i)"
proof
  assume "conflicted xs i"
  then obtain k s where s: "(k, s) \<in> set xs" "s_accessId s \<noteq> i" by (auto simp: conflicted_iff)
  then have "s_offset s \<in> sec_bytes s"
    using sections_ok_mem [OF assms] by (auto simp: sec_bytes_def section_ok_def sec_valid_def)
  then have "lob_owner xs (s_offset s) = Some (s_accessId s)" using lob_owner_iff [OF assms] s by blast
  with s show "\<exists>x j. lob_owner xs x = Some j \<and> j \<noteq> i" by blast
qed (use lob_owner_iff [OF assms] in \<open>fastforce simp: conflicted_iff\<close>)

lemma lob_overlapped_iff:
  assumes "sections_ok xs" and "section_ok s"
  shows "lob_overlapped xs s \<longleftrightarrow> foreign xs s"
  using assms by (induction xs s rule: lob_overlapped.induct) (auto simp: sec_overlapped_iff)

lemma completelyContains_iff:
  assumes "sections_ok xs" and "section_ok s"
  shows "completelyContains xs s \<longleftrightarrow> sec_bytes s \<subseteq> covered xs"
  using assms
proof (induction xs s rule: completelyContains.induct)
  case (1 sec)
  then show ?case by (auto simp: sec_bytes_def section_ok_def sec_valid_def)
next
  case (2 k cur rest sec)
  have start: "sec_start sec \<in> sec_bytes sec"
    using 2(4) by (auto simp: sec_bytes_def section_ok_def sec_defs)
  have beyond: "covered rest \<subseteq> {sec_end cur<..}" by (rule sections_ok_beyond [OF 2(3)])
  have cur: "section_ok cur" and rest: "sections_ok rest" using 2(3) by auto
  consider "sec_start sec < sec_start cur"
    | "\<not> sec_start sec < sec_start cur" "sec_end cur < sec_start sec"
    | "\<not> sec_start sec < sec_start cur" "\<not> sec_end cur < sec_start sec" "sec_end cur < sec_end sec"
    | "\<not> sec_start sec < sec_start cur" "\<not> sec_end cur < sec_start sec" "\<not> sec_end cur < sec_end sec"
    by blast
  then show ?case
  proof cases
    case 1
    then have "sec_start sec \<notin> covered ((k, cur) # rest)" "\<not> sec_start sec > sec_end cur"
      using beyond cur by (auto simp: sec_bytes_def sec_defs section_ok_def)
    with 1 start show ?thesis by auto
  next
    case 2
    then have "sec_bytes sec \<inter> sec_bytes cur = {}" "\<not> sec_end sec < sec_start cur"
      using \<open>section_ok sec\<close> by (auto simp: sec_bytes_def sec_defs section_ok_def)
    with 2 "2.IH"(1) rest \<open>section_ok sec\<close> show ?thesis by auto
  next
    case 3
    note after = sec_after_ok [OF \<open>section_ok sec\<close> cur 3(3)]
    have "\<not> sec_end sec < sec_start cur"
      using 3 cur by (auto simp: sec_defs section_ok_def)
    then have "completelyContains ((k, cur) # rest) sec = completelyContains rest (sec_after cur sec)"
      using 3 by (simp add: sec_after_def)
    also have "\<dots> \<longleftrightarrow> sec_bytes sec \<inter> {sec_end cur<..} \<subseteq> covered rest"
      using "2.IH"(2) 3 \<open>\<not> sec_end sec < sec_start cur\<close> rest after by (simp add: sec_after_def)
    also have "\<dots> \<longleftrightarrow> sec_bytes sec \<subseteq> covered ((k, cur) # rest)"
      using 3 beyond by (auto simp: sec_bytes_def sec_defs)
    finally show ?thesis .
  next
    case 4
    then have "sec_bytes sec \<subseteq> sec_bytes cur" by (auto simp: sec_bytes_def sec_defs)
    moreover have "\<not> sec_end sec < sec_start cur"
      using 4 \<open>section_ok sec\<close> by (auto simp: sec_defs section_ok_def)
    ultimately show ?thesis using 4 by auto
  qed
qed

text \<open>The sections implement the contract of byte-range locks.\<close>

definition lob_lock :: "lobSections \<Rightarrow> lobSection \<Rightarrow> sdb_rc \<times> lobSections" where
  "lob_lock xs s = (case addSection xs s of (rc, xs', offsets) \<Rightarrow> (rc, xs'))"

interpretation lobsec: range_lock lob_lock delSectionById lob_owner sections_ok sec_bytes s_accessId
  section_ok "\<lambda>i. True"
proof
  fix s :: lobSections and r x j
  assume a: "sections_ok s" "section_ok r" "x \<in> sec_bytes r" "lob_owner s x = Some j" "j \<noteq> s_accessId r"
  then have "foreign s r" using foreign_owner by blast
  then show "lob_lock s r = (SDB_LOB_LOCK_CONFLICTED, s)"
    by (simp add: lob_lock_def addSection_foreign [OF a(1,2)])
next
  fix s :: lobSections and r
  assume a: "sections_ok s" "section_ok r"
    "\<And>x j. x \<in> sec_bytes r \<Longrightarrow> lob_owner s x = Some j \<Longrightarrow> j = s_accessId r"
  then have nf: "\<not> foreign s r" using foreign_owner by blast
  from addSection_free [OF a(1,2) nf] addSection_owner [OF a(1) _ _ _ nf]
  show "\<exists>s'. lob_lock s r = (SDB_OK, s') \<and> sections_ok s' \<and>
          lob_owner s' = (\<lambda>x. if x \<in> sec_bytes r then Some (s_accessId r) else lob_owner s x)"
    by (fastforce simp: lob_lock_def)
next
  fix s :: lobSections and i
  assume "sections_ok s"
  then show "sections_ok (delSectionById s i)" by (simp add: delSectionById_def sections_ok_filter)
next
  fix s :: lobSections and i
  assume "sections_ok s"
  then show "lob_owner (delSectionById s i) = (\<lambda>x. if lob_owner s x = Some i then None else lob_owner s x)"
    by (rule delSectionById_owner)
qed

end
