(* ===== verification/LobSectionsProps.thy ===== *)
theory LobSectionsProps
  imports LobSections
begin

text \<open>
  What the locked sections of a LOB guarantee: \<^verbatim>\<open>addSection\<close> against the map from bytes to
  owners, exclusion over arbitrary sequences of requests, the queries, and the BSON round trip.
\<close>

section \<open>Reading sections back\<close>

lemma add_loop_after:
  assumes "sections_ok xs" and "section_ok s" and "\<forall>(k, c) \<in> set xs. sec_end c < sec_start s"
  shows "add_loop xs s tmp ov = (SDB_OK, s, tmp, ov)"
  using assms
proof (induction xs)
  case (Cons e xs)
  obtain k c where e: "e = (k, c)" by fastforce
  have "\<not> sec_end s < sec_start c" using Cons.prems by (auto simp: e sec_defs section_ok_def)
  with Cons show ?case by (simp add: e)
qed simp

lemma addSection_after:
  assumes "sections_ok xs" and "section_ok s" and "\<forall>(k, c) \<in> set xs. sec_end c < sec_start s"
  shows "addSection xs s = (SDB_OK, xs @ [(s_offset s, s)], [s_offset s])"
proof -
  have "k < s_offset s" if "(k, c) \<in> set xs" for k c
    using assms(3) that sections_ok_mem [OF assms(1) that] by (fastforce simp: sec_defs section_ok_def)
  then have "\<forall>k \<in> fst ` set xs. k < s_offset s" by auto
  then show ?thesis
    using add_loop_after [OF assms] assms(2)
    by (simp add: addSection_def addSection_inner_def insert_section_def smap_insert_last)
qed

lemma sec_bson_roundtrip: "sec_fromBSONObj (sec_toBSONObj s True) (- 1) = (SDB_OK, s)"
  by (simp add: sec_fromBSONObj_def sec_toBSONObj_def FIELD_NAME_LOB_OFFSET_def
      FIELD_NAME_LOB_LENGTH_def FIELD_NAME_LOB_ACCESSID_def no_section_def)

lemma sections_ok_append:
  "sections_ok (xs @ ys) \<longleftrightarrow> sections_ok xs \<and> sections_ok ys \<and>
     (\<forall>(k, s) \<in> set xs. \<forall>(l, t) \<in> set ys. sec_end s < sec_start t)"
  by (induction xs rule: sections_ok.induct) auto

lemma readFrom_append:
  assumes "sections_ok (xs @ ys)"
  shows "sections_readFrom (map (\<lambda>(k, s). Object (sec_toBSONObj s True)) ys) (- 1) xs = (SDB_OK, xs @ ys)"
  using assms
proof (induction ys arbitrary: xs)
  case (Cons e ys)
  obtain k s where e: "e = (k, s)" by fastforce
  have "addSection xs s = (SDB_OK, xs @ [(k, s)], [k])"
    using addSection_after [of xs s] Cons.prems by (fastforce simp: e sections_ok_append)
  with Cons.IH [of "xs @ [(k, s)]"] Cons.prems show ?case by (simp add: e sec_bson_roundtrip)
qed simp

lemma sec_find_owner: "s_accessId (sec_find xs x) = (case lob_owner xs x of None \<Rightarrow> -1 | Some i \<Rightarrow> i)"
  by (induction xs x rule: sec_find.induct) (auto simp: no_section_def sec_include_bytes)

section \<open>Properties\<close>

text \<open>
  C10. \<^verbatim>\<open>addSection\<close> implements the assignment of bytes to owners. When a byte of the requested
  section belongs to somebody else, it returns \<^const>\<open>SDB_LOB_LOCK_CONFLICTED\<close> and changes
  nothing. Otherwise every byte of the section belongs to the requester afterwards, all other
  bytes keep their owner, and the offsets it reports are exactly the sections to delete to
  undo the call.
\<close>

theorem lob_addSection_refines_owner_map:
  assumes "sections_ok xs" and "section_ok s"
  shows "if \<exists>x \<in> sec_bytes s. \<exists>j. lob_owner xs x = Some j \<and> j \<noteq> s_accessId s
         then addSection xs s = (SDB_LOB_LOCK_CONFLICTED, xs, [])
         else \<exists>xs' offs. addSection xs s = (SDB_OK, xs', offs) \<and> sections_ok xs' \<and>
                lob_owner xs' = (\<lambda>x. if x \<in> sec_bytes s then Some (s_accessId s) else lob_owner xs x) \<and>
                fold delSectionByOffset offs xs' = xs"
proof (cases "foreign xs s")
  case True
  with foreign_owner [OF assms(1)] addSection_foreign [OF assms True] show ?thesis by auto
next
  case False
  with addSection_free [OF assms False] addSection_owner [OF assms(1) _ _ _ False] foreign_owner [OF assms(1)]
  show ?thesis by fastforce
qed

theorem lob_addSection_refines_owner_map_witness:
  "\<exists>xs' offs.
     addSection [(10, \<lparr>s_offset = 10, s_length = 5, s_accessId = 7\<rparr>)] \<lparr>s_offset = 0, s_length = 20, s_accessId = 7\<rparr>
       = (SDB_OK, xs', offs) \<and> lob_owner xs' 3 = Some 7 \<and>
     fold delSectionByOffset offs xs' = [(10, \<lparr>s_offset = 10, s_length = 5, s_accessId = 7\<rparr>)]"
  using lob_addSection_refines_owner_map [of "[(10, \<lparr>s_offset = 10, s_length = 5, s_accessId = 7\<rparr>)]"
      "\<lparr>s_offset = 0, s_length = 20, s_accessId = 7\<rparr>"]
  by (auto simp: section_ok_def sec_valid_def OSS_SINT64_MAX_def sec_bytes_def split: if_splits)

text \<open>
  C6. A granted section stays exclusive. After \<^verbatim>\<open>addSection\<close> succeeded for a section, and after
  any sequence of further requests and releases in which its owner does not release, every
  request of another owner that overlaps the section fails and changes nothing.
\<close>

theorem lob_section_exclusive:
  assumes "sections_ok xs" and "section_ok s" and "lob_lock xs s = (SDB_OK, xs')"
    and "ops_ok section_ok (\<lambda>i. True) ops" and "Unlock (s_accessId s) \<notin> set ops"
    and "section_ok t" and "s_accessId t \<noteq> s_accessId s" and "sec_overlapped s t"
  shows "lob_lock (range_run lob_lock delSectionById ops xs') t =
           (SDB_LOB_LOCK_CONFLICTED, range_run lob_lock delSectionById ops xs')"
  by (rule lobsec.run_excludes [OF assms(1-7)]) (use sec_overlapped_iff assms in auto)

theorem lob_section_exclusive_witness:
  "\<exists>xs'. lob_lock [] \<lparr>s_offset = 0, s_length = 100, s_accessId = 1\<rparr> = (SDB_OK, xs') \<and>
     lob_lock (range_run lob_lock delSectionById
        [Lock \<lparr>s_offset = 200, s_length = 10, s_accessId = 2\<rparr>, Unlock 3] xs')
        \<lparr>s_offset = 50, s_length = 1, s_accessId = 2\<rparr> =
     (SDB_LOB_LOCK_CONFLICTED, range_run lob_lock delSectionById
        [Lock \<lparr>s_offset = 200, s_length = 10, s_accessId = 2\<rparr>, Unlock 3] xs')"
proof -
  let ?s = "\<lparr>s_offset = 0, s_length = 100, s_accessId = 1\<rparr>"
  have "lob_lock [] ?s = (SDB_OK, [(0, ?s)])"
    by (simp add: lob_lock_def addSection_def addSection_inner_def insert_section_def smap_insert_def)
  with lob_section_exclusive [of "[]" ?s "[(0, ?s)]"
      "[Lock \<lparr>s_offset = 200, s_length = 10, s_accessId = 2\<rparr>, Unlock 3]"
      "\<lparr>s_offset = 50, s_length = 1, s_accessId = 2\<rparr>"]
  show ?thesis
    by (simp add: section_ok_def sec_valid_def OSS_SINT64_MAX_def ops_ok_def sec_overlapped_def sec_defs)
qed

text \<open>
  The queries agree with the owners of the bytes: \<^verbatim>\<open>overlapped\<close> asks for a byte of somebody
  else in the section, \<^verbatim>\<open>completelyContains\<close> whether every byte of it is locked, although
  several sections may be needed for that, \<^verbatim>\<open>conflicted\<close> for any byte of somebody else, and
  \<^verbatim>\<open>find\<close> returns a section with the owner of the byte, or -1.
\<close>

theorem lob_queries_agree_with_owners:
  assumes "sections_ok xs" and "section_ok s"
  shows "(lob_overlapped xs s \<longleftrightarrow> (\<exists>x \<in> sec_bytes s. \<exists>j. lob_owner xs x = Some j \<and> j \<noteq> s_accessId s)) \<and>
         (completelyContains xs s \<longleftrightarrow> (\<forall>x \<in> sec_bytes s. lob_owner xs x \<noteq> None)) \<and>
         (conflicted xs i \<longleftrightarrow> (\<exists>x j. lob_owner xs x = Some j \<and> j \<noteq> i)) \<and>
         s_accessId (sec_find xs y) = (case lob_owner xs y of None \<Rightarrow> -1 | Some j \<Rightarrow> j)"
  unfolding lob_overlapped_iff [OF assms] completelyContains_iff [OF assms]
    conflicted_owner [OF assms(1)] foreign_owner [OF assms(1)] lob_owner_None
  by (intro conjI sec_find_owner) auto

theorem lob_queries_agree_with_owners_witness:
  "completelyContains [(0, \<lparr>s_offset = 0, s_length = 5, s_accessId = 1\<rparr>), (5, \<lparr>s_offset = 5, s_length = 5, s_accessId = 2\<rparr>)]
     \<lparr>s_offset = 3, s_length = 4, s_accessId = 1\<rparr> \<and>
   lob_overlapped [(0, \<lparr>s_offset = 0, s_length = 5, s_accessId = 1\<rparr>), (5, \<lparr>s_offset = 5, s_length = 5, s_accessId = 2\<rparr>)]
     \<lparr>s_offset = 3, s_length = 4, s_accessId = 1\<rparr>"
proof -
  let ?xs = "[(0, \<lparr>s_offset = 0, s_length = 5, s_accessId = 1\<rparr>), (5, \<lparr>s_offset = 5, s_length = 5, s_accessId = 2\<rparr>)]"
  let ?s = "\<lparr>s_offset = 3, s_length = 4, s_accessId = 1\<rparr>"
  have "sections_ok ?xs" "section_ok ?s"
    by (simp_all add: section_ok_def sec_valid_def OSS_SINT64_MAX_def sec_defs)
  note q = lob_queries_agree_with_owners [OF this]
  have "5 \<in> sec_bytes ?s" "lob_owner ?xs 5 = Some 2" by (simp_all add: sec_bytes_def)
  moreover have "\<forall>x \<in> sec_bytes ?s. lob_owner ?xs x \<noteq> None" by (auto simp: sec_bytes_def)
  moreover have "(2 :: int) \<noteq> s_accessId ?s" by simp
  ultimately show ?thesis using q by blast
qed

text \<open>
  Saving the sections to BSON with their owners and reading them into an empty table restores
  them exactly.
\<close>

theorem lob_sections_roundtrip:
  assumes "sections_ok xs" and "sections_saveTo xs True = (rc, arr)"
  shows "rc = SDB_OK \<and> sections_readFrom arr (- 1) [] = (SDB_OK, xs)"
  using readFrom_append [of "[]" xs] assms by (auto simp: sections_saveTo_def)

theorem lob_sections_roundtrip_witness:
  "sections_readFrom (snd (sections_saveTo
      [(0, \<lparr>s_offset = 0, s_length = 5, s_accessId = 1\<rparr>), (9, \<lparr>s_offset = 9, s_length = 5, s_accessId = 2\<rparr>)] True)) (- 1) [] =
     (SDB_OK, [(0, \<lparr>s_offset = 0, s_length = 5, s_accessId = 1\<rparr>), (9, \<lparr>s_offset = 9, s_length = 5, s_accessId = 2\<rparr>)])"
  using lob_sections_roundtrip [of
      "[(0, \<lparr>s_offset = 0, s_length = 5, s_accessId = 1\<rparr>), (9, \<lparr>s_offset = 9, s_length = 5, s_accessId = 2\<rparr>)]"]
  by (simp add: section_ok_def sec_valid_def OSS_SINT64_MAX_def sec_defs sections_saveTo_def)

end
