(* ===== verification/LobAccess.thy ===== *)
theory LobAccess
  imports LobSections
begin

text \<open>
  Who may open a LOB in which mode, and which writer holds which bytes of it: classes
  \<^verbatim>\<open>_rtnLobAccessInfo\<close> and \<^verbatim>\<open>_rtnLobAccessManager\<close> of
  \<^verbatim>\<open>rtn/rtnLobAccessManager.cpp\<close>, and the three operations through which a LOB stream uses
  them: \<^verbatim>\<open>_getAccessPrivilege\<close>, \<^verbatim>\<open>_lock\<close> and \<^verbatim>\<open>_closeInner\<close> of
  \<^verbatim>\<open>rtn/rtnLocalLobStream.cpp\<close>. Every operation of the manager runs under the lock of its
  bucket and \<^verbatim>\<open>lockSection\<close> under the latch of its access information, so each is one step.
\<close>

section \<open>Access information of one LOB\<close>

datatype lob_mode =
    SDB_LOB_MODE_CREATEONLY
  | SDB_LOB_MODE_READ
  | SDB_LOB_MODE_WRITE
  | SDB_LOB_MODE_REMOVE
  | SDB_LOB_MODE_TRUNCATE
  | LobModeValue nat

fun SDB_IS_VALID_LOB_MODE :: "lob_mode \<Rightarrow> bool" where
  "SDB_IS_VALID_LOB_MODE (LobModeValue n) = False"
| "SDB_IS_VALID_LOB_MODE m = True"

type_synonym lob_oid = "8 word list"

record lobAccessInfo =
  la_oid :: lob_oid
  la_mode :: lob_mode
  la_refCount :: int
  la_accessId :: int
  la_metaCache :: "nat option"
  la_lockSections :: "lobSections option"

definition new_accessInfo :: "lob_oid \<Rightarrow> lob_mode \<Rightarrow> int \<Rightarrow> lobAccessInfo" where
  "new_accessInfo oid mode accessId =
     \<lparr>la_oid = oid, la_mode = mode, la_refCount = 0,
      la_accessId = (if mode = SDB_LOB_MODE_CREATEONLY \<or> mode = SDB_LOB_MODE_REMOVE \<or>
                        mode = SDB_LOB_MODE_TRUNCATE then accessId else -1),
      la_metaCache = None, la_lockSections = None\<rparr>"

definition setMetaCache :: "nat option \<Rightarrow> lobAccessInfo \<Rightarrow> lobAccessInfo" where
  "setMetaCache c info = info\<lparr>la_metaCache := c\<rparr>"

definition incRefCount :: "lobAccessInfo \<Rightarrow> lobAccessInfo" where
  "incRefCount info = info\<lparr>la_refCount := la_refCount info + 1\<rparr>"

definition decRefCount :: "lobAccessInfo \<Rightarrow> lobAccessInfo" where
  "decRefCount info = info\<lparr>la_refCount := la_refCount info - 1\<rparr>"

text \<open>Adding to the sections, which are created by the first request.\<close>

definition info_addSection :: "lobAccessInfo \<Rightarrow> lobSection \<Rightarrow> sdb_rc \<times> lobAccessInfo" where
  "info_addSection info section =
     (let secs = (case la_lockSections info of None \<Rightarrow> [] | Some xs \<Rightarrow> xs) in
      case addSection secs section of
        (rc, secs', offsets) \<Rightarrow> (rc, info\<lparr>la_lockSections := Some secs'\<rparr>))"

definition lockSection :: "lobAccessInfo \<Rightarrow> lobSection \<Rightarrow> sdb_rc \<times> lobAccessInfo" where
  "lockSection info section =
     (if la_mode info \<noteq> SDB_LOB_MODE_WRITE then (SDB_SYS, info)
      else if la_accessId info \<noteq> -1 then
        if s_accessId section \<noteq> la_accessId info then (SDB_LOB_LOCK_CONFLICTED, info)
        else (SDB_OK, info)
      else if s_offset section = 0 \<and> s_length section = OSS_SINT64_MAX then
        if (case la_lockSections info of None \<Rightarrow> False | Some xs \<Rightarrow> conflicted xs (s_accessId section))
        then (SDB_LOB_LOCK_CONFLICTED, info)
        else info_addSection (info\<lparr>la_accessId := s_accessId section\<rparr>) section
      else info_addSection info section)"

definition unlockSectionByAccessId :: "lobAccessInfo \<Rightarrow> int \<Rightarrow> sdb_rc \<times> lobAccessInfo" where
  "unlockSectionByAccessId info accessId =
     (if la_mode info \<noteq> SDB_LOB_MODE_WRITE then (SDB_SYS, info)
      else
        (let info' = (if la_accessId info \<noteq> -1 \<and> accessId = la_accessId info
                      then info\<lparr>la_accessId := -1\<rparr> else info) in
         case la_lockSections info' of
           None \<Rightarrow> (SDB_OK, info')
         | Some xs \<Rightarrow> (SDB_OK, info'\<lparr>la_lockSections := Some (delSectionById xs accessId)\<rparr>)))"

section \<open>The manager\<close>

type_synonym lob_key = "string \<times> lob_oid"
type_synonym lobMap = "lob_key \<Rightarrow> lobAccessInfo option"

definition getAccessPrivilege ::
  "lobMap \<Rightarrow> string \<Rightarrow> lob_oid \<Rightarrow> lob_mode \<Rightarrow> int \<Rightarrow> sdb_rc \<times> lobMap" where
  "getAccessPrivilege lobs clName oid mode accessId =
     (if \<not> SDB_IS_VALID_LOB_MODE mode then (SDB_SYS, lobs)
      else if mode = SDB_LOB_MODE_WRITE \<and> accessId \<le> -1 then (SDB_SYS, lobs)
      else
        (case lobs (clName, oid) of
           Some info \<Rightarrow>
             (case la_mode info of
                SDB_LOB_MODE_CREATEONLY \<Rightarrow> (SDB_LOB_IS_IN_USE, lobs)
              | SDB_LOB_MODE_REMOVE \<Rightarrow> (SDB_LOB_IS_IN_USE, lobs)
              | SDB_LOB_MODE_TRUNCATE \<Rightarrow> (SDB_LOB_IS_IN_USE, lobs)
              | SDB_LOB_MODE_READ \<Rightarrow>
                  if mode \<noteq> SDB_LOB_MODE_READ then (SDB_LOB_IS_IN_USE, lobs)
                  else (SDB_OK, lobs((clName, oid) \<mapsto> incRefCount info))
              | SDB_LOB_MODE_WRITE \<Rightarrow>
                  if mode \<noteq> SDB_LOB_MODE_WRITE then (SDB_LOB_IS_IN_USE, lobs)
                  else (SDB_OK, lobs((clName, oid) \<mapsto> incRefCount info))
              | LobModeValue n \<Rightarrow> (SDB_SYS, lobs))
         | None \<Rightarrow>
             (let info = new_accessInfo oid mode accessId;
                  info' = (if mode = SDB_LOB_MODE_READ \<or> mode = SDB_LOB_MODE_WRITE
                           then incRefCount info else info) in
              (SDB_OK, lobs((clName, oid) \<mapsto> info')))))"

text \<open>Giving back one reference deletes the entry with the last one.\<close>

definition drop_reference :: "lobMap \<Rightarrow> lob_key \<Rightarrow> lobAccessInfo \<Rightarrow> lobMap" where
  "drop_reference lobs key info =
     (let info' = decRefCount info in
      if la_refCount info' \<le> 0 then lobs(key := None) else lobs(key \<mapsto> info'))"

definition releaseAccessPrivilege ::
  "lobMap \<Rightarrow> string \<Rightarrow> lob_oid \<Rightarrow> lob_mode \<Rightarrow> int \<Rightarrow> sdb_rc \<times> lobMap" where
  "releaseAccessPrivilege lobs clName oid mode accessId =
     (case lobs (clName, oid) of
        None \<Rightarrow> (SDB_OK, lobs)
      | Some info \<Rightarrow>
          if mode \<noteq> la_mode info then (SDB_SYS, lobs)
          else if accessId \<noteq> -1 \<and> la_accessId info \<noteq> -1 \<and> accessId \<noteq> la_accessId info then
            (SDB_SYS, lobs)
          else
            (case la_mode info of
               SDB_LOB_MODE_CREATEONLY \<Rightarrow> (SDB_OK, lobs((clName, oid) := None))
             | SDB_LOB_MODE_REMOVE \<Rightarrow> (SDB_OK, lobs((clName, oid) := None))
             | SDB_LOB_MODE_TRUNCATE \<Rightarrow> (SDB_OK, lobs((clName, oid) := None))
             | SDB_LOB_MODE_READ \<Rightarrow> (SDB_OK, drop_reference lobs (clName, oid) info)
             | SDB_LOB_MODE_WRITE \<Rightarrow>
                 if accessId \<le> -1 then (SDB_SYS, lobs)
                 else (case unlockSectionByAccessId info accessId of
                         (rc, info') \<Rightarrow>
                           if rc \<noteq> SDB_OK then (rc, lobs((clName, oid) \<mapsto> info'))
                           else (SDB_OK, drop_reference lobs (clName, oid) info'))
             | LobModeValue n \<Rightarrow> (SDB_SYS, lobs)))"

section \<open>Streams\<close>

text \<open>
  A stream keeps the key and mode of its LOB, its own identifier and whether it holds the
  privilege. A writing stream also keeps a pointer to the access information, which is the entry
  of the map as long as it exists.
\<close>

record lobStream =
  ls_clName :: string
  ls_oid :: lob_oid
  ls_mode :: lob_mode
  ls_uniqueId :: int
  ls_hasPrivilege :: bool

abbreviation ls_key :: "lobStream \<Rightarrow> lob_key" where
  "ls_key st \<equiv> (ls_clName st, ls_oid st)"

definition RTN_LOB_ACCESS_PRIVILEGE_RETRY_TIMES :: nat where
  "RTN_LOB_ACCESS_PRIVILEGE_RETRY_TIMES = 3"

text \<open>
  \<^verbatim>\<open>_getAccessPrivilege\<close> tries again while the LOB is in use. Other streams run during the
  sleep after a refused attempt: \<open>env\<close> gives the map after each sleep.
\<close>

fun privilege_loop ::
  "nat \<Rightarrow> (lobMap \<Rightarrow> lobMap) list \<Rightarrow> sdb_rc \<Rightarrow> lobMap \<times> lobStream \<Rightarrow>
   (sdb_rc \<times> lobMap \<times> lobStream)" where
  "privilege_loop 0 env rc (lobs, st) = (rc, lobs, st)"
| "privilege_loop (Suc n) env rc (lobs, st) =
     (case getAccessPrivilege lobs (ls_clName st) (ls_oid st) (ls_mode st) (ls_uniqueId st) of
        (rc', lobs') \<Rightarrow>
          if rc' = SDB_OK then (SDB_OK, lobs', st\<lparr>ls_hasPrivilege := True\<rparr>)
          else if rc' = SDB_LOB_IS_IN_USE then
            (case env of
               [] \<Rightarrow> privilege_loop n [] rc' (lobs', st)
             | f # fs \<Rightarrow> privilege_loop n fs rc' (f lobs', st))
          else (rc', lobs', st))"

definition stream_getAccessPrivilege ::
  "(lobMap \<Rightarrow> lobMap) list \<Rightarrow> lobMap \<Rightarrow> lobStream \<Rightarrow> sdb_rc \<times> lobMap \<times> lobStream" where
  "stream_getAccessPrivilege env lobs st =
     privilege_loop RTN_LOB_ACCESS_PRIVILEGE_RETRY_TIMES env SDB_OK (lobs, st)"

text \<open>
  \<^verbatim>\<open>_lock\<close> of a stream. The outcome \<open>None\<close> is an access through a pointer that does not
  denote an access information: the local stream unlocks the latch on its two error paths although
  it has not locked it (its flag \<^verbatim>\<open>locked\<close> starts as \<^verbatim>\<open>TRUE\<close>), and a stream without
  an identifier or in another mode than writing has no access information. The shard context,
  \<^verbatim>\<open>_rtnContextShdOfLob::lock\<close>, has the same body without that flaw.
\<close>

definition stream_lock ::
  "lobMap \<Rightarrow> lobStream \<Rightarrow> int \<Rightarrow> int \<Rightarrow> (sdb_rc \<times> lobMap) option" where
  "stream_lock lobs st offset len =
     (if ls_uniqueId st = -1 then None
      else if ls_mode st \<noteq> SDB_LOB_MODE_WRITE then None
      else (case lobs (ls_key st) of
              None \<Rightarrow> None
            | Some info \<Rightarrow>
                (case lockSection info
                    \<lparr>s_offset = offset, s_length = len, s_accessId = ls_uniqueId st\<rparr> of
                   (rc, info') \<Rightarrow> Some (rc, lobs(ls_key st \<mapsto> info')))))"

definition context_lock ::
  "lobMap \<Rightarrow> lobStream \<Rightarrow> int \<Rightarrow> int \<Rightarrow> (sdb_rc \<times> lobMap) option" where
  "context_lock lobs st offset len =
     (if ls_mode st \<noteq> SDB_LOB_MODE_WRITE then Some (SDB_SYS, lobs)
      else (case lobs (ls_key st) of
              None \<Rightarrow> None
            | Some info \<Rightarrow>
                (case lockSection info
                    \<lparr>s_offset = offset, s_length = len, s_accessId = ls_uniqueId st\<rparr> of
                   (rc, info') \<Rightarrow> Some (rc, lobs(ls_key st \<mapsto> info')))))"

text \<open>Closing a stream ignores the return code of the release.\<close>

definition stream_close :: "lobMap \<Rightarrow> lobStream \<Rightarrow> lobMap \<times> lobStream" where
  "stream_close lobs st =
     (if ls_hasPrivilege st then
        (snd (releaseAccessPrivilege lobs (ls_clName st) (ls_oid st) (ls_mode st) (ls_uniqueId st)),
         st\<lparr>ls_hasPrivilege := False\<rparr>)
      else (lobs, st))"

section \<open>Access information as a table of byte-range locks\<close>

definition info_owner :: "lobAccessInfo \<Rightarrow> int \<Rightarrow> int option" where
  "info_owner info x = (case la_lockSections info of None \<Rightarrow> None | Some xs \<Rightarrow> lob_owner xs x)"

text \<open>
  The sections are well-formed, and an identifier that locked the whole LOB owns every byte of it.
\<close>

definition info_ok :: "lobAccessInfo \<Rightarrow> bool" where
  "info_ok info \<longleftrightarrow>
     (case la_lockSections info of
        None \<Rightarrow> la_mode info = SDB_LOB_MODE_WRITE \<longrightarrow> la_accessId info = -1
      | Some xs \<Rightarrow> sections_ok xs \<and>
          (la_accessId info = -1 \<or>
           (\<forall>x. 0 \<le> x \<and> x < OSS_SINT64_MAX \<longrightarrow> lob_owner xs x = Some (la_accessId info))))"

definition writable_info :: "lobAccessInfo \<Rightarrow> bool" where
  "writable_info info \<longleftrightarrow> la_mode info = SDB_LOB_MODE_WRITE \<and> info_ok info"

definition unlock_info :: "lobAccessInfo \<Rightarrow> int \<Rightarrow> lobAccessInfo" where
  "unlock_info info accessId = snd (unlockSectionByAccessId info accessId)"

lemma section_ok_bytes: "section_ok s \<Longrightarrow> x \<in> sec_bytes s \<Longrightarrow> 0 \<le> x \<and> x < OSS_SINT64_MAX"
  by (auto simp: section_ok_def sec_valid_def sec_bytes_def)

lemma section_ok_nonempty: "section_ok s \<Longrightarrow> s_offset s \<in> sec_bytes s"
  by (auto simp: section_ok_def sec_valid_def sec_bytes_def)

lemma owner_in_range:
  assumes "sections_ok xs" and "lob_owner xs x = Some j"
  shows "0 \<le> x \<and> x < OSS_SINT64_MAX"
proof -
  obtain k s where "(k, s) \<in> set xs" "x \<in> sec_bytes s"
    using lob_owner_iff [OF assms(1)] assms(2) by fastforce
  with sections_ok_mem [OF assms(1)] section_ok_bytes show ?thesis by blast
qed

lemma info_add_refuse:
  assumes "info_ok info" and "section_ok r" and "x \<in> sec_bytes r"
    and "info_owner info x = Some j" and "j \<noteq> s_accessId r"
  shows "info_addSection info r = (SDB_LOB_LOCK_CONFLICTED, info)"
proof -
  obtain xs where xs: "la_lockSections info = Some xs" "sections_ok xs" "lob_owner xs x = Some j"
    using assms by (auto simp: info_owner_def info_ok_def split: option.splits)
  have "foreign xs r" using foreign_owner [OF xs(2)] xs(3) assms by blast
  with xs addSection_foreign [OF xs(2) assms(2)] show ?thesis by (simp add: info_addSection_def)
qed

lemma info_add_grant:
  assumes secs: "sections_ok (case la_lockSections info of None \<Rightarrow> [] | Some xs \<Rightarrow> xs)"
    and r: "section_ok r"
    and free: "\<And>x j. x \<in> sec_bytes r \<Longrightarrow> info_owner info x = Some j \<Longrightarrow> j = s_accessId r"
  shows "\<exists>xs'. info_addSection info r = (SDB_OK, info\<lparr>la_lockSections := Some xs'\<rparr>) \<and> sections_ok xs' \<and>
           lob_owner xs' = (\<lambda>x. if x \<in> sec_bytes r then Some (s_accessId r) else info_owner info x)"
proof -
  define ys where "ys = (case la_lockSections info of None \<Rightarrow> [] | Some xs \<Rightarrow> xs)"
  have own: "lob_owner ys = info_owner info"
    by (auto simp: ys_def info_owner_def fun_eq_iff split: option.splits)
  obtain xs' where xs': "lob_lock ys r = (SDB_OK, xs')" "sections_ok xs'"
    "lob_owner xs' = (\<lambda>x. if x \<in> sec_bytes r then Some (s_accessId r) else lob_owner ys x)"
    using lobsec.grant [of ys r] secs r free by (auto simp: ys_def [symmetric] own)
  then obtain offs where "addSection ys r = (SDB_OK, xs', offs)"
    by (auto simp: lob_lock_def split: prod.splits)
  then have "info_addSection info r = (SDB_OK, info\<lparr>la_lockSections := Some xs'\<rparr>)"
    by (simp add: info_addSection_def ys_def [symmetric])
  with xs'(2) xs'(3) [unfolded own] show ?thesis by blast
qed

lemma info_owner_set [simp]: "info_owner (info\<lparr>la_lockSections := Some xs\<rparr>) = lob_owner xs"
  by (simp add: info_owner_def fun_eq_iff)

lemma writable_info_set:
  assumes "la_mode info = SDB_LOB_MODE_WRITE" and "sections_ok xs"
    and "la_accessId info = - 1 \<or>
         (\<forall>x. 0 \<le> x \<and> x < OSS_SINT64_MAX \<longrightarrow> lob_owner xs x = Some (la_accessId info))"
  shows "writable_info (info\<lparr>la_lockSections := Some xs\<rparr>)"
  using assms by (simp add: writable_info_def info_ok_def)

lemma info_secs_ok:
  "info_ok info \<Longrightarrow> sections_ok (case la_lockSections info of None \<Rightarrow> [] | Some xs \<Rightarrow> xs)"
  by (auto simp: info_ok_def split: option.splits)

lemma info_whole_owner:
  assumes "writable_info info" and "la_accessId info \<noteq> - 1" and "section_ok r" and "x \<in> sec_bytes r"
  shows "info_owner info x = Some (la_accessId info)"
  using assms section_ok_bytes [OF assms(3,4)]
  by (auto simp: writable_info_def info_ok_def info_owner_def split: option.splits)

lemma info_conflicted:
  assumes "info_ok info"
  shows "(case la_lockSections info of None \<Rightarrow> False | Some xs \<Rightarrow> conflicted xs i) \<longleftrightarrow>
         (\<exists>x j. info_owner info x = Some j \<and> j \<noteq> i)"
  using assms conflicted_owner by (auto simp: info_ok_def info_owner_def split: option.splits)

lemma info_owner_in_range:
  assumes "info_ok info" and "info_owner info x = Some j"
  shows "0 \<le> x \<and> x < OSS_SINT64_MAX"
  using assms owner_in_range by (auto simp: info_ok_def info_owner_def split: option.splits)

lemma lockSection_refuse:
  assumes info: "writable_info info" and r: "section_ok r" and x: "x \<in> sec_bytes r"
    and j: "info_owner info x = Some j" "j \<noteq> s_accessId r"
  shows "lockSection info r = (SDB_LOB_LOCK_CONFLICTED, info)"
proof (cases "la_accessId info = - 1")
  case True
  have ok: "info_ok info" "la_mode info = SDB_LOB_MODE_WRITE" using info by (auto simp: writable_info_def)
  have "case la_lockSections info of None \<Rightarrow> False | Some xs \<Rightarrow> conflicted xs (s_accessId r)"
    using info_conflicted [OF ok(1)] j by blast
  with True ok info_add_refuse [OF ok(1) r x j] show ?thesis by (simp add: lockSection_def)
next
  case False
  with info_whole_owner [OF info False r x] j info show ?thesis
    by (simp add: lockSection_def writable_info_def)
qed

lemma lockSection_grant:
  assumes info: "writable_info info" and r: "section_ok r"
    and free: "\<And>x j. x \<in> sec_bytes r \<Longrightarrow> info_owner info x = Some j \<Longrightarrow> j = s_accessId r"
  shows "\<exists>info'. lockSection info r = (SDB_OK, info') \<and> writable_info info' \<and>
           info_owner info' = (\<lambda>x. if x \<in> sec_bytes r then Some (s_accessId r) else info_owner info x)"
proof (cases "la_accessId info = - 1")
  case True
  have ok: "info_ok info" "la_mode info = SDB_LOB_MODE_WRITE" using info by (auto simp: writable_info_def)
  show ?thesis
  proof (cases "s_offset r = 0 \<and> s_length r = OSS_SINT64_MAX")
    case whole: True
    then have bytes: "sec_bytes r = {x. 0 \<le> x \<and> x < OSS_SINT64_MAX}" by (auto simp: sec_bytes_def)
    then have nc: "\<not> (case la_lockSections info of None \<Rightarrow> False | Some xs \<Rightarrow> conflicted xs (s_accessId r))"
      using info_conflicted [OF ok(1)] info_owner_in_range [OF ok(1)] free by blast
    let ?info = "info\<lparr>la_accessId := s_accessId r\<rparr>"
    have own: "info_owner ?info = info_owner info" by (simp add: info_owner_def fun_eq_iff)
    obtain xs' where xs': "info_addSection ?info r = (SDB_OK, ?info\<lparr>la_lockSections := Some xs'\<rparr>)"
      "sections_ok xs'" "lob_owner xs' = (\<lambda>x. if x \<in> sec_bytes r then Some (s_accessId r) else info_owner info x)"
      using info_add_grant [of ?info r, unfolded own] info_secs_ok [OF ok(1)] r free by auto
    have "lockSection info r = (SDB_OK, ?info\<lparr>la_lockSections := Some xs'\<rparr>)"
      using whole True nc ok(2) xs'(1) by (simp add: lockSection_def)
    moreover have "writable_info (?info\<lparr>la_lockSections := Some xs'\<rparr>)"
      by (rule writable_info_set) (simp_all add: ok(2) xs'(2,3) bytes)
    ultimately show ?thesis using xs'(3) by (metis info_owner_set)
  next
    case False
    obtain xs' where xs': "info_addSection info r = (SDB_OK, info\<lparr>la_lockSections := Some xs'\<rparr>)"
      "sections_ok xs'" "lob_owner xs' = (\<lambda>x. if x \<in> sec_bytes r then Some (s_accessId r) else info_owner info x)"
      using info_add_grant [OF info_secs_ok [OF ok(1)] r] free by auto
    have "lockSection info r = (SDB_OK, info\<lparr>la_lockSections := Some xs'\<rparr>)"
      using False True ok(2) xs'(1) by (auto simp: lockSection_def)
    moreover have "writable_info (info\<lparr>la_lockSections := Some xs'\<rparr>)"
      by (rule writable_info_set) (simp_all add: ok(2) xs'(2) True)
    ultimately show ?thesis using xs'(3) by (metis info_owner_set)
  qed
next
  case False
  note own = info_whole_owner [OF info False r]
  then have "la_accessId info = s_accessId r" using free section_ok_nonempty [OF r] by blast
  with own False info show ?thesis by (auto simp: lockSection_def writable_info_def)
qed

lemma unlock_info_owner:
  assumes "writable_info info"
  shows "info_owner (unlock_info info i) = (\<lambda>x. if info_owner info x = Some i then None else info_owner info x)"
  using assms delSectionById_owner
  by (auto simp: unlock_info_def unlockSectionByAccessId_def writable_info_def info_owner_def info_ok_def
      Let_def fun_eq_iff split: option.splits)

lemma unlock_info_writable:
  assumes "writable_info info"
  shows "writable_info (unlock_info info i)"
  using assms delSectionById_owner
  by (auto simp: unlock_info_def unlockSectionByAccessId_def writable_info_def info_ok_def
      Let_def delSectionById_def sections_ok_filter split: option.splits)

interpretation lobinfo: range_lock lockSection unlock_info info_owner writable_info sec_bytes s_accessId
  section_ok "\<lambda>i. True"
  by unfold_locales
    (rule lockSection_refuse lockSection_grant unlock_info_writable unlock_info_owner; assumption)+

end
