(* ===== verification/LobSystem.thy ===== *)
theory LobSystem
  imports LobAccess
begin

text \<open>
  All LOB streams of a node together with the access manager, as a transition system: a stream
  opens a LOB, locks bytes of it, attaches the cached meta data, or closes. The invariant ties the
  reference counts and the byte locks of the manager to the streams that are open, and the
  properties follow from it for every reachable state.
\<close>

section \<open>The transition system\<close>

record lobSystem =
  sys_lobs :: lobMap
  sys_streams :: "nat \<Rightarrow> lobStream"

inductive lob_step :: "lobSystem \<Rightarrow> lobSystem \<Rightarrow> bool" where
  s_open:
    "\<not> ls_hasPrivilege (sys_streams s h) \<Longrightarrow>
     st = \<lparr>ls_clName = cl, ls_oid = oid, ls_mode = mode, ls_uniqueId = i, ls_hasPrivilege = False\<rparr> \<Longrightarrow>
     getAccessPrivilege (sys_lobs s) cl oid mode i = (rc, lobs) \<Longrightarrow>
     lob_step s \<lparr>sys_lobs = lobs,
                 sys_streams = (sys_streams s)(h := st\<lparr>ls_hasPrivilege := (rc = SDB_OK)\<rparr>)\<rparr>"
| s_lock:
    "ls_hasPrivilege (sys_streams s h) \<Longrightarrow>
     section_ok \<lparr>s_offset = off, s_length = len, s_accessId = ls_uniqueId (sys_streams s h)\<rparr> \<Longrightarrow>
     stream_lock (sys_lobs s) (sys_streams s h) off len = Some (rc, lobs) \<Longrightarrow>
     lob_step s (s\<lparr>sys_lobs := lobs\<rparr>)"
| s_cache:
    "ls_hasPrivilege (sys_streams s h) \<Longrightarrow> sys_lobs s (ls_key (sys_streams s h)) = Some info \<Longrightarrow>
     lob_step s (s\<lparr>sys_lobs := (sys_lobs s)(ls_key (sys_streams s h) \<mapsto> setMetaCache c info)\<rparr>)"
| s_close:
    "stream_close (sys_lobs s) (sys_streams s h) = (lobs, st) \<Longrightarrow>
     lob_step s \<lparr>sys_lobs = lobs, sys_streams = (sys_streams s)(h := st)\<rparr>"

inductive_cases lob_stepE: "lob_step s s'"

definition lob_start :: "lobSystem \<Rightarrow> bool" where
  "lob_start s \<longleftrightarrow> sys_lobs s = (\<lambda>k. None) \<and> (\<forall>h. \<not> ls_hasPrivilege (sys_streams s h))"

inductive lob_reachable :: "lobSystem \<Rightarrow> bool" where
  start: "lob_start s \<Longrightarrow> lob_reachable s"
| step: "lob_reachable s \<Longrightarrow> lob_step s s' \<Longrightarrow> lob_reachable s'"

section \<open>The invariant\<close>

definition holders :: "lobSystem \<Rightarrow> lob_key \<Rightarrow> (nat \<times> lobStream) set" where
  "holders s key = {(h, st). st = sys_streams s h \<and> ls_hasPrivilege st \<and> ls_key st = key}"

definition shared_mode :: "lob_mode \<Rightarrow> bool" where
  "shared_mode m \<longleftrightarrow> m = SDB_LOB_MODE_READ \<or> m = SDB_LOB_MODE_WRITE"

lemma shared_mode_simps [simp]:
  "shared_mode SDB_LOB_MODE_READ" "shared_mode SDB_LOB_MODE_WRITE"
  "\<not> shared_mode SDB_LOB_MODE_CREATEONLY" "\<not> shared_mode SDB_LOB_MODE_REMOVE"
  "\<not> shared_mode SDB_LOB_MODE_TRUNCATE"
  by (simp_all add: shared_mode_def)

text \<open>What an entry of the map says about the streams \<open>P\<close> that hold it.\<close>

definition entry_ok :: "(nat \<times> lobStream) set \<Rightarrow> lobAccessInfo \<Rightarrow> bool" where
  "entry_ok P info \<longleftrightarrow>
     SDB_IS_VALID_LOB_MODE (la_mode info) \<and> info_ok info \<and>
     (\<forall>(h, st) \<in> P. ls_mode st = la_mode info) \<and>
     (la_mode info = SDB_LOB_MODE_WRITE \<longrightarrow> (\<forall>(h, st) \<in> P. 0 \<le> ls_uniqueId st)) \<and>
     (la_mode info \<noteq> SDB_LOB_MODE_WRITE \<longrightarrow> la_lockSections info = None) \<and>
     (la_mode info = SDB_LOB_MODE_READ \<longrightarrow> la_accessId info = - 1) \<and>
     (if shared_mode (la_mode info) then 1 \<le> la_refCount info \<and> int (card P) \<le> la_refCount info
      else card P \<le> 1 \<and> (\<forall>(h, st) \<in> P. ls_uniqueId st = la_accessId info)) \<and>
     (\<forall>x i. info_owner info x = Some i \<longrightarrow> (\<exists>(h, st) \<in> P. ls_uniqueId st = i))"

lemma entry_ok_ownerD:
  "entry_ok P info \<Longrightarrow> info_owner info x = Some j \<Longrightarrow> \<exists>h st. (h, st) \<in> P \<and> ls_uniqueId st = j"
  unfolding entry_ok_def by blast

definition entry_inv :: "(nat \<times> lobStream) set \<Rightarrow> lobAccessInfo option \<Rightarrow> bool" where
  "entry_inv P e \<longleftrightarrow> (case e of None \<Rightarrow> P = {} | Some info \<Rightarrow> entry_ok P info)"

definition lob_inv :: "lobSystem \<Rightarrow> bool" where
  "lob_inv s \<longleftrightarrow> finite {h. ls_hasPrivilege (sys_streams s h)} \<and>
     (\<forall>key. entry_inv (holders s key) (sys_lobs s key))"

lemma lob_inv_entry: "lob_inv s \<Longrightarrow> entry_inv (holders s key) (sys_lobs s key)"
  unfolding lob_inv_def by blast

lemma lob_inv_finite: "lob_inv s \<Longrightarrow> finite {h. ls_hasPrivilege (sys_streams s h)}"
  unfolding lob_inv_def by blast

lemma lob_invI:
  assumes "finite {h. ls_hasPrivilege (sys_streams s h)}"
    and "\<And>key. entry_inv (holders s key) (sys_lobs s key)"
  shows "lob_inv s"
  using assms unfolding lob_inv_def by blast

lemma finite_holders: "lob_inv s \<Longrightarrow> finite (holders s key)"
  unfolding lob_inv_def
  by (rule finite_subset [of _ "(\<lambda>h. (h, sys_streams s h)) ` {h. ls_hasPrivilege (sys_streams s h)}"])
    (auto simp: holders_def)

subsection \<open>Opening\<close>

lemma get_refused:
  "getAccessPrivilege lobs cl oid mode i = (rc, lobs') \<Longrightarrow> rc \<noteq> SDB_OK \<Longrightarrow> lobs' = lobs"
  by (auto simp: getAccessPrivilege_def Let_def split: if_splits option.splits lob_mode.splits)

lemma get_other:
  "getAccessPrivilege lobs cl oid mode i = (rc, lobs') \<Longrightarrow> key \<noteq> (cl, oid) \<Longrightarrow> lobs' key = lobs key"
  by (auto simp: getAccessPrivilege_def Let_def split: if_splits option.splits lob_mode.splits)

lemma info_refCount [simp]:
  "info_owner (info\<lparr>la_refCount := n\<rparr>) = info_owner info"
  "info_ok (info\<lparr>la_refCount := n\<rparr>) = info_ok info"
  by (simp_all add: info_owner_def info_ok_def fun_eq_iff split: option.split)

lemma entry_ok_inc:
  assumes "entry_ok P info" and "finite P" and "shared_mode (la_mode info)"
    and "ls_mode st = la_mode info" and "la_mode info = SDB_LOB_MODE_WRITE \<longrightarrow> 0 \<le> ls_uniqueId st"
  shows "entry_ok (insert (h, st) P) (incRefCount info)"
proof -
  have "int (card (insert (h, st) P)) \<le> int (card P) + 1"
    using assms(2) by (simp add: card_insert_if)
  with assms show ?thesis by (auto simp: entry_ok_def incRefCount_def)
qed

lemma entry_ok_new:
  assumes "SDB_IS_VALID_LOB_MODE mode" and "ls_mode st = mode" and "ls_uniqueId st = i"
    and "mode = SDB_LOB_MODE_WRITE \<longrightarrow> 0 \<le> i"
  shows "entry_ok {(h, st)} (if shared_mode mode then incRefCount (new_accessInfo oid mode i)
                             else new_accessInfo oid mode i)"
  using assms
  by (cases mode) (auto simp: entry_ok_def new_accessInfo_def incRefCount_def info_ok_def info_owner_def
      shared_mode_def)

lemma get_granted:
  assumes "getAccessPrivilege lobs cl oid mode i = (SDB_OK, lobs')"
    and "entry_inv P (lobs (cl, oid))" and "finite P" and "ls_mode st = mode" and "ls_uniqueId st = i"
  shows "entry_inv (insert (h, st) P) (lobs' (cl, oid))"
proof (cases "lobs (cl, oid)")
  case None
  with assms entry_ok_new [of mode st i h oid] show ?thesis
    by (auto simp: getAccessPrivilege_def Let_def entry_inv_def shared_mode_def split: if_splits)
next
  case (Some info)
  have "la_mode info = mode" "shared_mode mode" "mode = SDB_LOB_MODE_WRITE \<longrightarrow> 0 \<le> i"
    "lobs' (cl, oid) = Some (incRefCount info)"
    using assms(1) Some
    by (auto simp: getAccessPrivilege_def shared_mode_def split: if_splits lob_mode.splits)
  with Some assms entry_ok_inc [of P info st h] show ?thesis by (simp add: entry_inv_def)
qed

subsection \<open>Closing\<close>

lemma card_remove_one:
  assumes "finite P" and "e \<in> P"
  shows "int (card (P - {e})) = int (card P) - 1" and "card P \<le> 1 \<Longrightarrow> P - {e} = {}"
proof -
  have "card P = Suc (card (P - {e}))" using assms by (rule card.remove)
  then show "int (card (P - {e})) = int (card P) - 1" and "card P \<le> 1 \<Longrightarrow> P - {e} = {}"
    using assms(1) by auto
qed

lemma drop_inv:
  assumes ok: "entry_ok P info" and P: "finite P" "e \<in> P" and "shared_mode (la_mode info)"
    and own: "\<forall>x j. info_owner info x = Some j \<longrightarrow> (\<exists>(h, st) \<in> P - {e}. ls_uniqueId st = j)"
  shows "entry_inv (P - {e}) (drop_reference lobs key info key)"
proof (cases "la_refCount info \<le> 1")
  case True
  with ok assms(4) have "card P \<le> 1" by (auto simp: entry_ok_def)
  with True card_remove_one(2) [OF P] show ?thesis
    by (simp add: drop_reference_def decRefCount_def entry_inv_def)
next
  case False
  with assms card_remove_one(1) [OF P] show ?thesis
    by (auto simp: drop_reference_def decRefCount_def entry_inv_def entry_ok_def)
qed

lemma unlock_info_fields:
  "la_mode (unlock_info info i) = la_mode info" "la_refCount (unlock_info info i) = la_refCount info"
  by (auto simp: unlock_info_def unlockSectionByAccessId_def Let_def split: option.split)

lemma unlock_returns: "la_mode info = SDB_LOB_MODE_WRITE \<Longrightarrow>
    unlockSectionByAccessId info i = (SDB_OK, unlock_info info i)"
  by (auto simp: unlock_info_def unlockSectionByAccessId_def Let_def split: option.split)

lemma entry_ok_unlock:
  assumes "entry_ok P info" and "la_mode info = SDB_LOB_MODE_WRITE"
  shows "entry_ok P (unlock_info info i)"
proof -
  have w: "writable_info info" using assms by (simp add: entry_ok_def writable_info_def)
  with assms unlock_info_writable [OF w, of i] show ?thesis
    by (auto simp: entry_ok_def writable_info_def unlock_info_fields unlock_info_owner [OF w] split: if_splits)
qed

lemma release_other:
  "releaseAccessPrivilege lobs cl oid mode i = (rc, lobs') \<Longrightarrow> key \<noteq> (cl, oid) \<Longrightarrow> lobs' key = lobs key"
  by (auto simp: releaseAccessPrivilege_def drop_reference_def Let_def
      split: if_splits option.splits lob_mode.splits prod.splits)

lemma release_write:
  assumes info: "lobs (cl, oid) = Some info" "la_mode info = SDB_LOB_MODE_WRITE" and ok: "entry_ok P info"
    and P: "finite P" "(h, st) \<in> P" and st: "ls_uniqueId st = i"
    and rel: "releaseAccessPrivilege lobs cl oid SDB_LOB_MODE_WRITE i = (rc, lobs')"
  shows "entry_inv (P - {(h, st)}) (lobs' (cl, oid))"
proof -
  have i: "0 \<le> i" using ok info P st by (auto simp: entry_ok_def)
  have w: "writable_info info" using ok info by (simp add: entry_ok_def writable_info_def)
  show ?thesis
  proof (cases "la_accessId info \<noteq> - 1 \<and> i \<noteq> la_accessId info")
    case True
    then have lobs': "lobs' = lobs" using rel info i by (simp add: releaseAccessPrivilege_def)
    have "j = la_accessId info" if "info_owner info x = Some j" for x j
      using that True ok info_owner_in_range [of info x j]
      by (auto simp: entry_ok_def info_ok_def info_owner_def split: option.splits)
    with True ok st have "\<forall>x j. info_owner info x = Some j \<longrightarrow> (\<exists>(h', st') \<in> P - {(h, st)}. ls_uniqueId st' = j)"
      by (fastforce simp: entry_ok_def)
    with ok info card_remove_one(1) [OF P] show ?thesis
      unfolding lobs' entry_inv_def by (auto simp: entry_ok_def shared_mode_def)
  next
    case False
    then have lobs': "lobs' = drop_reference lobs (cl, oid) (unlock_info info i)"
      using rel info i by (auto simp: releaseAccessPrivilege_def unlock_returns)
    have "\<forall>x j. info_owner (unlock_info info i) x = Some j \<longrightarrow>
            (\<exists>(h', st') \<in> P - {(h, st)}. ls_uniqueId st' = j)"
    proof (intro allI impI)
      fix x j
      assume "info_owner (unlock_info info i) x = Some j"
      then have j: "info_owner info x = Some j" "j \<noteq> i"
        by (auto simp: unlock_info_owner [OF w] split: if_splits)
      then obtain h' st' where "(h', st') \<in> P" "ls_uniqueId st' = j" using entry_ok_ownerD [OF ok] by blast
      with j st show "\<exists>(h', st') \<in> P - {(h, st)}. ls_uniqueId st' = j" by auto
    qed
    with drop_inv [OF entry_ok_unlock [OF ok info(2)] P, of i] info show ?thesis
      by (simp add: lobs' unlock_info_fields shared_mode_def)
  qed
qed

lemma release_inv:
  assumes inv: "entry_inv P (lobs (cl, oid))" and P: "finite P" "(h, st) \<in> P"
    and st: "ls_mode st = mode" "ls_uniqueId st = i"
    and rel: "releaseAccessPrivilege lobs cl oid mode i = (rc, lobs')"
  shows "entry_inv (P - {(h, st)}) (lobs' (cl, oid))"
proof -
  obtain info where info: "lobs (cl, oid) = Some info" and ok: "entry_ok P info"
    using inv P by (auto simp: entry_inv_def split: option.splits)
  have mode: "la_mode info = mode" using ok P st by (auto simp: entry_ok_def)
  consider "mode = SDB_LOB_MODE_WRITE" | "mode = SDB_LOB_MODE_READ"
    | "\<not> shared_mode mode" "SDB_IS_VALID_LOB_MODE mode"
    using ok mode by (auto simp: shared_mode_def entry_ok_def)
  then show ?thesis
  proof cases
    case 1
    show ?thesis
      by (rule release_write [where info = info]) (use 1 info mode ok P st rel in simp_all)
  next
    case 2
    then have "lobs' = drop_reference lobs (cl, oid) info"
      using rel info ok mode by (auto simp: releaseAccessPrivilege_def entry_ok_def)
    moreover have "info_owner info x = None" for x using ok mode 2 by (simp add: entry_ok_def info_owner_def)
    ultimately show ?thesis using drop_inv [OF ok P] mode 2 by (simp add: shared_mode_def)
  next
    case 3
    then have "i = la_accessId info" "card P \<le> 1" using ok P st mode by (auto simp: entry_ok_def)
    moreover from this 3 have "lobs' (cl, oid) = None"
      using rel info mode by (cases mode) (auto simp: releaseAccessPrivilege_def shared_mode_def)
    ultimately show ?thesis using card_remove_one(2) [OF P] by (simp add: entry_inv_def)
  qed
qed

subsection \<open>Locking\<close>

lemma lockSection_cases:
  assumes "writable_info info" and "section_ok r" and "lockSection info r = (rc, info')"
  shows "writable_info info' \<and> la_refCount info' = la_refCount info \<and>
         (info_owner info' = info_owner info \<or>
          info_owner info' = (\<lambda>x. if x \<in> sec_bytes r then Some (s_accessId r) else info_owner info x))"
proof -
  have "la_refCount info' = la_refCount info"
    using assms(3) by (auto simp: lockSection_def info_addSection_def Let_def split: if_splits prod.splits)
  with lobinfo.lock_cases [OF assms(1,2)] assms(1,3) show ?thesis by auto
qed

lemma entry_ok_lock:
  assumes ok: "entry_ok P info" and P: "(h, st) \<in> P" and w: "ls_mode st = SDB_LOB_MODE_WRITE"
    and r: "section_ok r" "s_accessId r = ls_uniqueId st" and lock: "lockSection info r = (rc, info')"
  shows "entry_ok P info'"
proof -
  have mode: "la_mode info = SDB_LOB_MODE_WRITE" using ok P w by (fastforce simp: entry_ok_def)
  then have "writable_info info" using ok by (simp add: entry_ok_def writable_info_def)
  note l = lockSection_cases [OF this r(1) lock]
  have "\<exists>(h, st) \<in> P. ls_uniqueId st = j" if "info_owner info' x = Some j" for x j
    using l that entry_ok_ownerD [OF ok, of x j] P r(2) by (fastforce split: if_splits)
  with ok mode l show ?thesis by (simp add: entry_ok_def writable_info_def)
qed

lemma stream_lock_inv:
  assumes inv: "entry_inv P (lobs (ls_key st))" and P: "(h, st) \<in> P"
    and r: "section_ok \<lparr>s_offset = off, s_length = len, s_accessId = ls_uniqueId st\<rparr>"
    and lock: "stream_lock lobs st off len = Some (rc, lobs')"
  shows "entry_inv P (lobs' (ls_key st))" and "key \<noteq> ls_key st \<Longrightarrow> lobs' key = lobs key"
proof -
  obtain info info' where i: "lobs (ls_key st) = Some info" "ls_mode st = SDB_LOB_MODE_WRITE"
    "lockSection info \<lparr>s_offset = off, s_length = len, s_accessId = ls_uniqueId st\<rparr> = (rc, info')"
    "lobs' = lobs(ls_key st \<mapsto> info')"
    using lock by (auto simp: stream_lock_def split: if_splits option.splits prod.splits)
  have "entry_ok P info'"
    by (rule entry_ok_lock [OF _ P i(2) r _ i(3)]) (use inv i(1) in \<open>simp_all add: entry_inv_def\<close>)
  then show "entry_inv P (lobs' (ls_key st))" by (simp add: i(4) entry_inv_def)
  show "lobs' key = lobs key" if "key \<noteq> ls_key st" using that by (simp add: i(4))
qed

subsection \<open>Every step\<close>

lemma holders_update:
  "holders \<lparr>sys_lobs = lobs, sys_streams = (sys_streams s)(h := st)\<rparr> key =
     (holders s key - {(h, sys_streams s h)}) \<union>
     (if ls_hasPrivilege st \<and> ls_key st = key then {(h, st)} else {})"
  by (auto simp: holders_def split: if_splits)

lemma holders_lobs [simp]: "holders (s\<lparr>sys_lobs := lobs\<rparr>) key = holders s key"
  by (simp add: holders_def)

lemma privilege_finite:
  "finite {h. ls_hasPrivilege (sys_streams s h)} \<Longrightarrow>
   finite {h'. ls_hasPrivilege (((sys_streams s)(h := st)) h')}"
  by (rule finite_subset [of _ "insert h {h. ls_hasPrivilege (sys_streams s h)}"]) auto

lemma open_inv:
  assumes inv: "lob_inv s" and new: "\<not> ls_hasPrivilege (sys_streams s h)"
    and st: "st = \<lparr>ls_clName = cl, ls_oid = oid, ls_mode = mode, ls_uniqueId = i, ls_hasPrivilege = False\<rparr>"
    and get: "getAccessPrivilege (sys_lobs s) cl oid mode i = (rc, lobs)"
  shows "lob_inv \<lparr>sys_lobs = lobs, sys_streams = (sys_streams s)(h := st\<lparr>ls_hasPrivilege := (rc = SDB_OK)\<rparr>)\<rparr>"
proof -
  let ?st = "st\<lparr>ls_hasPrivilege := (rc = SDB_OK)\<rparr>"
  have old: "(h, sys_streams s h) \<notin> holders s key" for key using new by (simp add: holders_def)
  have "entry_inv (holders \<lparr>sys_lobs = lobs, sys_streams = (sys_streams s)(h := ?st)\<rparr> key) (lobs key)" for key
  proof (cases "rc = SDB_OK \<and> key = (cl, oid)")
    case True
    with get_granted [of "sys_lobs s" cl oid mode i lobs "holders s key" ?st h] get lob_inv_entry [OF inv, of key] finite_holders [OF inv] old [of key]
    show ?thesis by (simp add: holders_update st)
  next
    case False
    then have "lobs key = sys_lobs s key" using get get_refused get_other by metis
    with False lob_inv_entry [OF inv, of key] old [of key] show ?thesis by (auto simp: holders_update st)
  qed
  then show ?thesis
    by (intro lob_invI) (use privilege_finite [OF lob_inv_finite [OF inv]] in simp_all)
qed

lemma close_inv:
  assumes inv: "lob_inv s" and close: "stream_close (sys_lobs s) (sys_streams s h) = (lobs, st)"
  shows "lob_inv \<lparr>sys_lobs = lobs, sys_streams = (sys_streams s)(h := st)\<rparr>"
proof (cases "ls_hasPrivilege (sys_streams s h)")
  case True
  let ?old = "sys_streams s h"
  obtain rc where rel: "releaseAccessPrivilege (sys_lobs s) (ls_clName ?old) (ls_oid ?old) (ls_mode ?old)
      (ls_uniqueId ?old) = (rc, lobs)" and st: "st = ?old\<lparr>ls_hasPrivilege := False\<rparr>"
    using close True by (auto simp: stream_close_def prod_eq_iff)
  have "entry_inv (holders s key - {(h, ?old)}) (lobs key)" for key
  proof (cases "key = ls_key ?old")
    case key: True
    have "entry_inv (holders s key) (sys_lobs s (ls_key ?old))" using lob_inv_entry [OF inv] key by simp
    moreover have "(h, ?old) \<in> holders s key" using True key by (simp add: holders_def)
    ultimately show ?thesis
      using release_inv [OF _ finite_holders [OF inv] _ refl refl rel] key by simp
  next
    case False
    then have "lobs key = sys_lobs s key" using release_other [OF rel] by simp
    moreover have "(h, ?old) \<notin> holders s key" using False by (auto simp: holders_def)
    ultimately show ?thesis using lob_inv_entry [OF inv, of key] by simp
  qed
  then show ?thesis
    by (intro lob_invI) (use privilege_finite [OF lob_inv_finite [OF inv]] st in \<open>simp_all add: holders_update\<close>)
next
  case False
  with close have "\<lparr>sys_lobs = lobs, sys_streams = (sys_streams s)(h := st)\<rparr> = s"
    by (cases s) (auto simp: stream_close_def)
  with inv show ?thesis by simp
qed

lemma cache_inv:
  assumes "entry_ok P info"
  shows "entry_ok P (setMetaCache c info)"
  using assms by (auto simp: entry_ok_def setMetaCache_def info_ok_def info_owner_def split: option.splits if_splits)

lemma lob_step_inv: "lob_step s s' \<Longrightarrow> lob_inv s \<Longrightarrow> lob_inv s'"
proof (induction rule: lob_step.induct)
  case (s_open s h st cl oid mode i rc lobs)
  then show ?case by (intro open_inv)
next
  case (s_lock s h off len rc lobs)
  have "(h, sys_streams s h) \<in> holders s (ls_key (sys_streams s h))"
    using s_lock(1) by (simp add: holders_def)
  note lock = stream_lock_inv [OF lob_inv_entry [OF s_lock(4)] this s_lock(2,3)]
  have "entry_inv (holders s key) (lobs key)" for key
    using lock lob_inv_entry [OF s_lock(4), of key] by (cases "key = ls_key (sys_streams s h)") auto
  then show ?case by (intro lob_invI) (use lob_inv_finite [OF s_lock(4)] in simp_all)
next
  case (s_cache s h info c)
  have "entry_inv (holders s key) (((sys_lobs s)(ls_key (sys_streams s h) \<mapsto> setMetaCache c info)) key)" for key
    using lob_inv_entry [OF s_cache(3), of key] s_cache(2) cache_inv [of _ info c]
    by (auto simp: entry_inv_def)
  then show ?case by (intro lob_invI) (use lob_inv_finite [OF s_cache(3)] in simp_all)
next
  case (s_close s h lobs st)
  then show ?case by (intro close_inv)
qed

lemma lob_start_inv: "lob_start s \<Longrightarrow> lob_inv s"
  by (auto simp: lob_start_def lob_inv_def entry_inv_def holders_def)

lemma lob_reachable_inv: "lob_reachable s \<Longrightarrow> lob_inv s"
  by (induction rule: lob_reachable.induct) (auto intro: lob_start_inv lob_step_inv)

end
