(* ===== verification/LobSystemProps.thy ===== *)
theory LobSystemProps
  imports LobSystem
begin

text \<open>
  What the access manager guarantees in every reachable state of the LOB streams, and the one
  sequence of operations after which it keeps a LOB in use for ever.
\<close>

section \<open>Exact reference counts\<close>

text \<open>
  The release of a writer is refused while another writer has the whole LOB locked. As long as
  that does not happen the counts are exact.
\<close>

definition close_refused :: "lobSystem \<Rightarrow> nat \<Rightarrow> bool" where
  "close_refused s h \<longleftrightarrow>
     (case sys_lobs s (ls_key (sys_streams s h)) of
        None \<Rightarrow> False
      | Some info \<Rightarrow> la_mode info = SDB_LOB_MODE_WRITE \<and> la_accessId info \<noteq> - 1 \<and>
          ls_uniqueId (sys_streams s h) \<noteq> la_accessId info)"

inductive lob_clean :: "lobSystem \<Rightarrow> bool" where
  clean_start: "lob_start s \<Longrightarrow> lob_clean s"
| clean_step: "lob_clean s \<Longrightarrow> lob_step s s' \<Longrightarrow>
    (\<And>h. ls_hasPrivilege (sys_streams s h) \<Longrightarrow> \<not> ls_hasPrivilege (sys_streams s' h) \<Longrightarrow> \<not> close_refused s h) \<Longrightarrow>
    lob_clean s'"

definition entry_exact :: "(nat \<times> lobStream) set \<Rightarrow> lobAccessInfo option \<Rightarrow> bool" where
  "entry_exact P e \<longleftrightarrow>
     (case e of None \<Rightarrow> True
      | Some info \<Rightarrow> P \<noteq> {} \<and> (shared_mode (la_mode info) \<longrightarrow> la_refCount info = int (card P)))"

lemma get_exact:
  assumes "getAccessPrivilege lobs cl oid mode i = (SDB_OK, lobs')"
    and "entry_exact P (lobs (cl, oid))" and "entry_inv P (lobs (cl, oid))" and "finite P" and "e \<notin> P"
  shows "entry_exact (insert e P) (lobs' (cl, oid))"
  using assms
  by (auto simp: getAccessPrivilege_def entry_exact_def entry_inv_def Let_def new_accessInfo_def
      incRefCount_def shared_mode_def split: if_splits option.splits lob_mode.splits)

lemma drop_exact:
  assumes "entry_exact P (Some info)" and "finite P" and "e \<in> P" and "shared_mode (la_mode info)"
  shows "entry_exact (P - {e}) (drop_reference lobs key info key)"
proof (cases "card P \<le> 1")
  case False
  then have "P - {e} \<noteq> {}" using card_remove_one(1) [OF assms(2,3)] by (intro notI) simp
  with False assms card_remove_one(1) [OF assms(2,3)] show ?thesis
    by (simp add: drop_reference_def decRefCount_def entry_exact_def)
qed (use assms in \<open>simp add: drop_reference_def decRefCount_def entry_exact_def\<close>)

lemma release_exact:
  assumes ex: "entry_exact P (lobs (cl, oid))" and inv: "entry_inv P (lobs (cl, oid))"
    and P: "finite P" "(h, st) \<in> P" and st: "ls_mode st = mode" "ls_uniqueId st = i"
    and rel: "releaseAccessPrivilege lobs cl oid mode i = (rc, lobs')"
    and ok: "\<And>info. lobs (cl, oid) = Some info \<Longrightarrow> mode = SDB_LOB_MODE_WRITE \<Longrightarrow>
               la_accessId info = - 1 \<or> i = la_accessId info"
  shows "entry_exact (P - {(h, st)}) (lobs' (cl, oid))"
proof -
  obtain info where info: "lobs (cl, oid) = Some info" and eo: "entry_ok P info"
    using inv P by (auto simp: entry_inv_def split: option.splits)
  have mode: "la_mode info = mode" using eo P st by (auto simp: entry_ok_def)
  consider "mode = SDB_LOB_MODE_WRITE" | "mode = SDB_LOB_MODE_READ"
    | "\<not> shared_mode mode" "SDB_IS_VALID_LOB_MODE mode"
    using eo mode by (auto simp: shared_mode_def entry_ok_def)
  then show ?thesis
  proof cases
    case 1
    then have "0 \<le> i" using eo P st mode by (auto simp: entry_ok_def)
    then have "lobs' = drop_reference lobs (cl, oid) (unlock_info info i)"
      using rel info mode 1 ok by (auto simp: releaseAccessPrivilege_def unlock_returns)
    moreover have "entry_exact P (Some (unlock_info info i))"
      using ex info by (simp add: entry_exact_def unlock_info_fields)
    ultimately show ?thesis using drop_exact [OF _ P] mode 1 by (simp add: unlock_info_fields)
  next
    case 2
    then have "lobs' = drop_reference lobs (cl, oid) info"
      using rel info eo mode by (auto simp: releaseAccessPrivilege_def entry_ok_def)
    with drop_exact [OF _ P, of info] ex info mode 2 show ?thesis by simp
  next
    case 3
    then have "i = la_accessId info" using eo P st mode by (auto simp: entry_ok_def)
    with 3 have "lobs' (cl, oid) = None"
      using rel info mode by (cases mode) (auto simp: releaseAccessPrivilege_def shared_mode_def)
    then show ?thesis by (simp add: entry_exact_def)
  qed
qed

lemma lock_exact:
  assumes "stream_lock lobs st off len = Some (rc, lobs')" and "entry_exact P (lobs key)"
  shows "entry_exact P (lobs' key)"
proof -
  have "la_mode info' = la_mode info \<and> la_refCount info' = la_refCount info"
    if "lockSection info r = (rc, info')" for info info' r
    using that by (auto simp: lockSection_def info_addSection_def Let_def split: if_splits prod.splits)
  with assms show ?thesis
    by (fastforce simp: stream_lock_def entry_exact_def split: if_splits option.splits prod.splits)
qed

lemma open_exact:
  assumes ex: "\<And>key. entry_exact (holders s key) (sys_lobs s key)" and inv: "lob_inv s"
    and new: "\<not> ls_hasPrivilege (sys_streams s h)"
    and st: "st = \<lparr>ls_clName = cl, ls_oid = oid, ls_mode = mode, ls_uniqueId = i, ls_hasPrivilege = False\<rparr>"
    and get: "getAccessPrivilege (sys_lobs s) cl oid mode i = (rc, lobs)"
  shows "entry_exact (holders \<lparr>sys_lobs = lobs,
            sys_streams = (sys_streams s)(h := st\<lparr>ls_hasPrivilege := (rc = SDB_OK)\<rparr>)\<rparr> key) (lobs key)"
proof -
  have old: "(h, t) \<notin> holders s key" for t using new by (auto simp: holders_def)
  show ?thesis
  proof (cases "rc = SDB_OK \<and> key = (cl, oid)")
    case True
    with get_exact [of "sys_lobs s" cl oid mode i lobs "holders s key"] get ex [of key] lob_inv_entry [OF inv, of key]
      finite_holders [OF inv] old show ?thesis by (simp add: holders_update st)
  next
    case False
    then have "lobs key = sys_lobs s key" using get get_refused get_other by metis
    with False ex [of key] old show ?thesis by (auto simp: holders_update st)
  qed
qed

lemma close_exact:
  assumes ex: "\<And>key. entry_exact (holders s key) (sys_lobs s key)" and inv: "lob_inv s"
    and close: "stream_close (sys_lobs s) (sys_streams s h) = (lobs, st)"
    and ok: "ls_hasPrivilege (sys_streams s h) \<Longrightarrow> \<not> close_refused s h"
  shows "entry_exact (holders \<lparr>sys_lobs = lobs, sys_streams = (sys_streams s)(h := st)\<rparr> key) (lobs key)"
proof (cases "ls_hasPrivilege (sys_streams s h)")
  case True
  let ?old = "sys_streams s h"
  obtain rc where rel: "releaseAccessPrivilege (sys_lobs s) (ls_clName ?old) (ls_oid ?old) (ls_mode ?old)
      (ls_uniqueId ?old) = (rc, lobs)" and st: "st = ?old\<lparr>ls_hasPrivilege := False\<rparr>"
    using close True by (auto simp: stream_close_def prod_eq_iff)
  have "entry_exact (holders s key - {(h, ?old)}) (lobs key)"
  proof (cases "key = ls_key ?old")
    case key: True
    have mem: "(h, ?old) \<in> holders s (ls_key ?old)" using True by (simp add: holders_def)
    have ok': "la_accessId info = - 1 \<or> ls_uniqueId ?old = la_accessId info"
      if "sys_lobs s (ls_key ?old) = Some info" "ls_mode ?old = SDB_LOB_MODE_WRITE" for info
    proof -
      have "la_mode info = SDB_LOB_MODE_WRITE"
        using lob_inv_entry [OF inv, of "ls_key ?old"] mem that by (auto simp: entry_inv_def entry_ok_def)
      then show ?thesis using ok True that by (auto simp: close_refused_def)
    qed
    show ?thesis unfolding key
      by (rule release_exact [OF ex lob_inv_entry [OF inv] finite_holders [OF inv] mem refl refl rel ok'])
  next
    case False
    then have "lobs key = sys_lobs s key" using release_other [OF rel] by simp
    moreover have "(h, ?old) \<notin> holders s key" using False by (auto simp: holders_def)
    ultimately show ?thesis using ex [of key] by simp
  qed
  then show ?thesis by (simp add: holders_update st)
next
  case False
  with close have "\<lparr>sys_lobs = lobs, sys_streams = (sys_streams s)(h := st)\<rparr> = s"
    by (cases s) (auto simp: stream_close_def)
  with ex [of key] show ?thesis by (metis lobSystem.select_convs(1))
qed

lemma stream_close_drops: "stream_close lobs st = (lobs', st') \<Longrightarrow> \<not> ls_hasPrivilege st'"
  by (auto simp: stream_close_def split: if_splits)

lemma lob_clean_reachable: "lob_clean s \<Longrightarrow> lob_reachable s"
  by (induction rule: lob_clean.induct) (auto intro: lob_reachable.intros)

lemma step_exact:
  assumes "lob_step s s'" and "\<And>key. entry_exact (holders s key) (sys_lobs s key)" and "lob_inv s"
    and "\<And>h. ls_hasPrivilege (sys_streams s h) \<Longrightarrow> \<not> ls_hasPrivilege (sys_streams s' h) \<Longrightarrow> \<not> close_refused s h"
  shows "entry_exact (holders s' key) (sys_lobs s' key)"
  using assms
proof (cases rule: lob_step.cases)
  case (s_open h st cl oid mode i rc lobs)
  with open_exact [OF assms(2,3)] show ?thesis by simp
next
  case (s_lock h off len rc lobs)
  with lock_exact assms(2) show ?thesis by simp
next
  case (s_cache h info c)
  with assms(2) [of key] show ?thesis by (auto simp: entry_exact_def setMetaCache_def)
next
  case (s_close h lobs st)
  have "\<not> close_refused s h" if "ls_hasPrivilege (sys_streams s h)"
    by (rule assms(4) [OF that]) (simp add: s_close(1) stream_close_drops [OF s_close(2)])
  with close_exact [OF assms(2,3) s_close(2)] s_close(1) show ?thesis by simp
qed

lemma lob_clean_exact: "lob_clean s \<Longrightarrow> entry_exact (holders s key) (sys_lobs s key)"
proof (induction arbitrary: key rule: lob_clean.induct)
  case (clean_start s)
  then show ?case by (simp add: lob_start_def entry_exact_def)
next
  case (clean_step s s')
  show ?case
    by (rule step_exact [OF clean_step(2) clean_step(4) lob_reachable_inv [OF lob_clean_reachable [OF clean_step(1)]]
          clean_step(3)])
qed

section \<open>Bytes stay with their owner\<close>

lemma get_keeps:
  assumes "getAccessPrivilege lobs cl oid mode i = (rc, lobs')" and "lobs key = Some info"
  shows "\<exists>info'. lobs' key = Some info' \<and> info_owner info' = info_owner info"
proof (cases "key = (cl, oid)")
  case True
  with assms show ?thesis
    by (auto simp: getAccessPrivilege_def incRefCount_def split: if_splits lob_mode.splits)
qed (use assms get_other [OF assms(1)] in simp)

lemma lock_keeps:
  assumes ok: "entry_ok P info" and "info_owner info x = Some i" and "section_ok r"
    and "lockSection info r = (rc, info')"
  shows "info_owner info' x = Some i"
proof -
  have "writable_info info" using assms(1,2) by (auto simp: entry_ok_def writable_info_def info_owner_def)
  from lobinfo.step_keeps [OF this _ assms(2), of "Lock r"] assms(3,4) show ?thesis by simp
qed

lemma close_keeps:
  assumes info: "lobs (cl, oid) = Some info" and ok: "entry_ok P info" and P: "finite P" "(h, st) \<in> P"
    and st: "ls_mode st = mode" "ls_uniqueId st = j" and own: "info_owner info x = Some i" "i \<noteq> j"
    and rel: "releaseAccessPrivilege lobs cl oid mode j = (rc, lobs')"
  shows "\<exists>info'. lobs' (cl, oid) = Some info' \<and> info_owner info' x = Some i"
proof -
  have mode: "la_mode info = SDB_LOB_MODE_WRITE" "mode = SDB_LOB_MODE_WRITE"
    using ok own P st by (auto simp: entry_ok_def info_owner_def)
  have j: "0 \<le> j" using ok P st mode by (auto simp: entry_ok_def)
  have w: "writable_info info" using ok mode by (simp add: entry_ok_def writable_info_def)
  obtain h' st' where "(h', st') \<in> P" "ls_uniqueId st' = i" using entry_ok_ownerD [OF ok own(1)] by blast
  then have "P - {(h, st)} \<noteq> {}" using st own(2) by auto
  then have "0 < card (P - {(h, st)})" using P(1) by (simp add: card_gt_0_iff)
  then have ref: "1 < la_refCount info"
    using card_remove_one(1) [OF P] ok mode by (auto simp: entry_ok_def)
  show ?thesis
  proof (cases "la_accessId info \<noteq> - 1 \<and> j \<noteq> la_accessId info")
    case True
    with rel info mode j own show ?thesis by (auto simp: releaseAccessPrivilege_def)
  next
    case False
    then have "lobs' = drop_reference lobs (cl, oid) (unlock_info info j)"
      using rel info mode j by (auto simp: releaseAccessPrivilege_def unlock_returns)
    with ref own unlock_info_owner [OF w, of j] show ?thesis
      by (auto simp: drop_reference_def decRefCount_def unlock_info_fields)
  qed
qed

lemma step_keeps_bytes:
  assumes inv: "lob_inv s" and step: "lob_step s s'" and info: "sys_lobs s key = Some info"
    and own: "info_owner info x = Some i"
    and stay: "\<And>h. (h, sys_streams s h) \<in> holders s key \<Longrightarrow> ls_uniqueId (sys_streams s h) = i \<Longrightarrow>
                 ls_hasPrivilege (sys_streams s' h)"
  shows "\<exists>info'. sys_lobs s' key = Some info' \<and> info_owner info' x = Some i"
proof -
  have ok: "entry_ok (holders s key) info"
    using lob_inv_entry [OF inv, of key] info by (simp add: entry_inv_def)
  show ?thesis using step
  proof (cases rule: lob_step.cases)
    case (s_open h st cl oid mode j rc lobs)
    then show ?thesis using get_keeps [OF s_open(4) info] own by auto
  next
    case (s_lock h off len rc lobs)
    then show ?thesis using info own lock_keeps [OF ok own s_lock(3)]
      by (auto simp: stream_lock_def split: if_splits option.splits prod.splits)
  next
    case (s_cache h info' c)
    then show ?thesis using info own by (auto simp: setMetaCache_def info_owner_def)
  next
    case (s_close h lobs st)
    let ?st = "sys_streams s h"
    show ?thesis
    proof (cases "ls_hasPrivilege ?st \<and> key = ls_key ?st")
      case True
      then have mem: "(h, ?st) \<in> holders s key" by (simp add: holders_def)
      have "ls_uniqueId ?st \<noteq> i"
        using stay [OF mem] s_close(1) stream_close_drops [OF s_close(2)] by auto
      moreover obtain rc where "releaseAccessPrivilege (sys_lobs s) (ls_clName ?st) (ls_oid ?st) (ls_mode ?st)
          (ls_uniqueId ?st) = (rc, lobs)"
        using s_close(2) True by (auto simp: stream_close_def prod_eq_iff)
      ultimately show ?thesis
        using close_keeps [OF _ ok finite_holders [OF inv] mem refl refl own] info True s_close(1) by auto
    next
      case False
      then have "lobs key = sys_lobs s key"
        using s_close(2) release_other [of "sys_lobs s" "ls_clName ?st" "ls_oid ?st" "ls_mode ?st" "ls_uniqueId ?st"]
        by (auto simp: stream_close_def prod_eq_iff split: if_splits)
      with info own s_close(1) show ?thesis by simp
    qed
  qed
qed

section \<open>Two writers\<close>

text \<open>A state with two writers of the same LOB, used as the concrete input below.\<close>

definition closed_stream :: lobStream where
  "closed_stream = \<lparr>ls_clName = ''cs.cl'', ls_oid = [7], ls_mode = SDB_LOB_MODE_WRITE, ls_uniqueId = 0,
                    ls_hasPrivilege = False\<rparr>"

definition writer :: "int \<Rightarrow> lobStream" where
  "writer i = \<lparr>ls_clName = ''cs.cl'', ls_oid = [7], ls_mode = SDB_LOB_MODE_WRITE, ls_uniqueId = i,
               ls_hasPrivilege = True\<rparr>"

definition writer_info :: "int \<Rightarrow> lobSections option \<Rightarrow> lobAccessInfo" where
  "writer_info n secs = \<lparr>la_oid = [7], la_mode = SDB_LOB_MODE_WRITE, la_refCount = n, la_accessId = - 1,
                         la_metaCache = None, la_lockSections = secs\<rparr>"

lemma info_owner_writer [simp]: "info_owner (writer_info n (Some xs)) = lob_owner xs"
  by (simp add: info_owner_def writer_info_def fun_eq_iff)

definition two_writers :: "lobSections option \<Rightarrow> lobSystem" where
  "two_writers secs =
     \<lparr>sys_lobs = [(''cs.cl'', [7]) \<mapsto> writer_info 2 secs],
      sys_streams = (\<lambda>h. closed_stream)(0 := writer 1, 1 := writer 2)\<rparr>"

lemma two_writers_clean: "lob_clean (two_writers None)"
proof -
  let ?s0 = "\<lparr>sys_lobs = (\<lambda>k. None), sys_streams = (\<lambda>h. closed_stream)\<rparr> :: lobSystem"
  let ?s1 = "\<lparr>sys_lobs = [(''cs.cl'', [7]) \<mapsto> writer_info 1 None],
              sys_streams = (\<lambda>h. closed_stream)(0 := writer 1)\<rparr> :: lobSystem"
  have c0: "lob_clean ?s0" by (rule clean_start) (simp add: lob_start_def closed_stream_def)
  have s1: "lob_step ?s0 ?s1"
    using lob_step.s_open [of ?s0 0 "(writer 1)\<lparr>ls_hasPrivilege := False\<rparr>" "''cs.cl''" "[7]"
        SDB_LOB_MODE_WRITE 1 SDB_OK "[(''cs.cl'', [7]) \<mapsto> writer_info 1 None]"]
    by (simp add: closed_stream_def writer_def writer_info_def getAccessPrivilege_def new_accessInfo_def
        incRefCount_def)
  have s2: "lob_step ?s1 (two_writers None)"
    using lob_step.s_open [of ?s1 1 "(writer 2)\<lparr>ls_hasPrivilege := False\<rparr>" "''cs.cl''" "[7]"
        SDB_LOB_MODE_WRITE 2 SDB_OK "[(''cs.cl'', [7]) \<mapsto> writer_info 2 None]"]
    by (simp add: closed_stream_def writer_def writer_info_def getAccessPrivilege_def incRefCount_def
        two_writers_def)
  have c1: "lob_clean ?s1" by (rule clean_step [OF c0 s1]) (simp add: closed_stream_def)
  show ?thesis
    by (rule clean_step [OF c1 s2]) (simp add: two_writers_def writer_def closed_stream_def split: if_splits)
qed

lemma two_writers_reachable:
  "lob_reachable (two_writers None)"
  "lob_reachable (two_writers (Some [(0, \<lparr>s_offset = 0, s_length = 10, s_accessId = 1\<rparr>)]))"
proof -
  show r: "lob_reachable (two_writers None)" by (rule lob_clean_reachable [OF two_writers_clean])
  have "lob_step (two_writers None) (two_writers (Some [(0, \<lparr>s_offset = 0, s_length = 10, s_accessId = 1\<rparr>)]))"
    using lob_step.s_lock [of "two_writers None" 0 0 10 SDB_OK
        "[(''cs.cl'', [7]) \<mapsto> writer_info 2 (Some [(0, \<lparr>s_offset = 0, s_length = 10, s_accessId = 1\<rparr>)])]"]
    by (simp add: two_writers_def writer_def writer_info_def stream_lock_def lockSection_def OSS_SINT64_MAX_def
        info_addSection_def addSection_def addSection_inner_def insert_section_def smap_insert_def section_ok_def
        sec_valid_def)
  with r show "lob_reachable (two_writers (Some [(0, \<lparr>s_offset = 0, s_length = 10, s_accessId = 1\<rparr>)]))"
    by (rule lob_reachable.step)
qed

section \<open>Properties\<close>

text \<open>
  C5. Two streams that hold the same LOB at the same time both read it or both write it: creating,
  removing and truncating exclude every other access.
\<close>

theorem lob_open_modes_compatible:
  assumes "lob_reachable s" and "h \<noteq> h'"
    and "ls_hasPrivilege (sys_streams s h)" and "ls_hasPrivilege (sys_streams s h')"
    and "ls_key (sys_streams s h) = ls_key (sys_streams s h')"
  shows "ls_mode (sys_streams s h) = ls_mode (sys_streams s h') \<and>
         (ls_mode (sys_streams s h) = SDB_LOB_MODE_READ \<or> ls_mode (sys_streams s h) = SDB_LOB_MODE_WRITE)"
proof -
  let ?P = "holders s (ls_key (sys_streams s h))"
  have inv: "lob_inv s" by (rule lob_reachable_inv [OF assms(1)])
  have mem: "(h, sys_streams s h) \<in> ?P" "(h', sys_streams s h') \<in> ?P"
    using assms(3-5) by (simp_all add: holders_def)
  obtain info where ok: "entry_ok ?P info"
    using lob_inv_entry [OF inv, of "ls_key (sys_streams s h)"] mem by (auto simp: entry_inv_def split: option.splits)
  have "\<not> card ?P \<le> 1"
    using card_remove_one(2) [OF finite_holders [OF inv] mem(1)] mem(2) assms(2) by auto
  with ok have "shared_mode (la_mode info)" by (auto simp: entry_ok_def split: if_splits)
  moreover have "ls_mode st = la_mode info" if "(g, st) \<in> ?P" for g st
    using ok that unfolding entry_ok_def by blast
  ultimately show ?thesis using mem by (metis shared_mode_def)
qed

theorem lob_open_modes_compatible_witness:
  "ls_mode (sys_streams (two_writers None) 0) = ls_mode (sys_streams (two_writers None) 1) \<and>
   (ls_mode (sys_streams (two_writers None) 0) = SDB_LOB_MODE_READ \<or>
    ls_mode (sys_streams (two_writers None) 0) = SDB_LOB_MODE_WRITE)"
  by (rule lob_open_modes_compatible [OF two_writers_reachable(1)]) (simp_all add: two_writers_def writer_def)

text \<open>
  C22. The pointer that a writing stream keeps to the access information of its LOB never dangles:
  as long as the stream holds the privilege, its lock requests find the entry.
\<close>

theorem lob_lock_never_dangles:
  assumes "lob_reachable s" and "ls_hasPrivilege (sys_streams s h)"
    and "ls_mode (sys_streams s h) = SDB_LOB_MODE_WRITE"
  shows "\<exists>rc lobs. stream_lock (sys_lobs s) (sys_streams s h) off len = Some (rc, lobs)"
proof -
  let ?st = "sys_streams s h"
  have mem: "(h, ?st) \<in> holders s (ls_key ?st)" using assms(2) by (simp add: holders_def)
  obtain info where info: "sys_lobs s (ls_key ?st) = Some info" and ok: "entry_ok (holders s (ls_key ?st)) info"
    using lob_inv_entry [OF lob_reachable_inv [OF assms(1)], of "ls_key ?st"] mem
    by (auto simp: entry_inv_def split: option.splits)
  have "0 \<le> ls_uniqueId ?st" using ok mem assms(3) by (auto simp: entry_ok_def)
  with info assms(3) show ?thesis by (simp add: stream_lock_def split: prod.split)
qed

theorem lob_lock_never_dangles_witness:
  "\<exists>rc lobs. stream_lock (sys_lobs (two_writers None)) (sys_streams (two_writers None) 0) 5 10 = Some (rc, lobs)"
  by (rule lob_lock_never_dangles [OF two_writers_reachable(1)]) (simp_all add: two_writers_def writer_def)

text \<open>
  C21. Every locked byte of a LOB belongs to a stream that is open for writing on that LOB: closing a
  stream leaves no lock behind.
\<close>

theorem lob_byte_owner_is_open:
  assumes "lob_reachable s" and "sys_lobs s key = Some info" and "info_owner info x = Some i"
  shows "\<exists>h. ls_hasPrivilege (sys_streams s h) \<and> ls_key (sys_streams s h) = key \<and>
             ls_mode (sys_streams s h) = SDB_LOB_MODE_WRITE \<and> ls_uniqueId (sys_streams s h) = i"
proof -
  have ok: "entry_ok (holders s key) info"
    using lob_inv_entry [OF lob_reachable_inv [OF assms(1)], of key] assms(2) by (simp add: entry_inv_def)
  obtain h st where st: "(h, st) \<in> holders s key" "ls_uniqueId st = i"
    using entry_ok_ownerD [OF ok assms(3)] by blast
  moreover have "ls_mode st = SDB_LOB_MODE_WRITE"
    using ok st assms(3) by (auto simp: entry_ok_def info_owner_def)
  ultimately show ?thesis by (auto simp: holders_def)
qed

theorem lob_byte_owner_is_open_witness:
  "\<exists>h. ls_hasPrivilege (sys_streams (two_writers (Some [(0, \<lparr>s_offset = 0, s_length = 10, s_accessId = 1\<rparr>)])) h) \<and>
       ls_key (sys_streams (two_writers (Some [(0, \<lparr>s_offset = 0, s_length = 10, s_accessId = 1\<rparr>)])) h) = (''cs.cl'', [7]) \<and>
       ls_mode (sys_streams (two_writers (Some [(0, \<lparr>s_offset = 0, s_length = 10, s_accessId = 1\<rparr>)])) h) = SDB_LOB_MODE_WRITE \<and>
       ls_uniqueId (sys_streams (two_writers (Some [(0, \<lparr>s_offset = 0, s_length = 10, s_accessId = 1\<rparr>)])) h) = 1"
  by (rule lob_byte_owner_is_open [OF two_writers_reachable(2), where x = 3
        and info = "writer_info 2 (Some [(0, \<lparr>s_offset = 0, s_length = 10, s_accessId = 1\<rparr>)])"])
    (simp_all add: two_writers_def sec_bytes_def)

text \<open>
  C12. No step of another stream takes a locked byte away from its owner: unless a stream with the
  identifier of the owner closes, the byte belongs to the same owner after the step.
\<close>

theorem lob_bytes_stay_with_owner:
  assumes "lob_reachable s" and "lob_step s s'" and "sys_lobs s key = Some info"
    and "info_owner info x = Some i"
    and "\<And>h. ls_hasPrivilege (sys_streams s h) \<Longrightarrow> ls_key (sys_streams s h) = key \<Longrightarrow>
             ls_uniqueId (sys_streams s h) = i \<Longrightarrow> ls_hasPrivilege (sys_streams s' h)"
  shows "\<exists>info'. sys_lobs s' key = Some info' \<and> info_owner info' x = Some i"
  by (rule step_keeps_bytes [OF lob_reachable_inv [OF assms(1)] assms(2-4)])
    (use assms(5) in \<open>simp add: holders_def\<close>)

theorem lob_bytes_stay_with_owner_witness:
  "\<exists>info'. fst (stream_close
       (sys_lobs (two_writers (Some [(0, \<lparr>s_offset = 0, s_length = 10, s_accessId = 1\<rparr>)]))) (writer 2)) (''cs.cl'', [7])
     = Some info' \<and> info_owner info' 3 = Some 1"
proof -
  let ?s = "two_writers (Some [(0, \<lparr>s_offset = 0, s_length = 10, s_accessId = 1\<rparr>)])"
  obtain lobs st where c: "stream_close (sys_lobs ?s) (sys_streams ?s 1) = (lobs, st)" by fastforce
  have "sys_lobs ?s (''cs.cl'', [7]) = Some (writer_info 2 (Some [(0, \<lparr>s_offset = 0, s_length = 10, s_accessId = 1\<rparr>)]))"
    by (simp add: two_writers_def)
  moreover have "info_owner (writer_info 2 (Some [(0, \<lparr>s_offset = 0, s_length = 10, s_accessId = 1\<rparr>)])) 3 = Some 1"
    by (simp add: sec_bytes_def)
  moreover have "ls_hasPrivilege (((sys_streams ?s)(1 := st)) h)"
    if "ls_hasPrivilege (sys_streams ?s h)" "ls_uniqueId (sys_streams ?s h) = 1" for h
    using that by (auto simp: two_writers_def writer_def closed_stream_def split: if_splits)
  ultimately have "\<exists>info'. sys_lobs \<lparr>sys_lobs = lobs, sys_streams = (sys_streams ?s)(1 := st)\<rparr> (''cs.cl'', [7])
      = Some info' \<and> info_owner info' 3 = Some 1"
    by (intro lob_bytes_stay_with_owner [OF two_writers_reachable(2) lob_step.s_close [OF c], where
          info = "writer_info 2 (Some [(0, \<lparr>s_offset = 0, s_length = 10, s_accessId = 1\<rparr>)])"]) simp_all
  with c show ?thesis by (simp add: two_writers_def)
qed

text \<open>
  C25. As long as no release is refused, the manager has an entry for a LOB exactly while a stream
  holds it: after the last close the LOB can be opened in any mode.
\<close>

theorem lob_free_after_last_close:
  assumes "lob_clean s"
  shows "sys_lobs s key = None \<longleftrightarrow>
         (\<forall>h. \<not> (ls_hasPrivilege (sys_streams s h) \<and> ls_key (sys_streams s h) = key))"
proof -
  have "sys_lobs s key = None \<longleftrightarrow> holders s key = {}"
    using lob_clean_exact [OF assms, of key]
      lob_inv_entry [OF lob_reachable_inv [OF lob_clean_reachable [OF assms]], of key]
    by (auto simp: entry_exact_def entry_inv_def split: option.splits)
  then show ?thesis by (auto simp: holders_def)
qed

theorem lob_free_after_last_close_witness:
  "sys_lobs (two_writers None) (''cs.cl'', [8]) = None \<longleftrightarrow>
     (\<forall>h. \<not> (ls_hasPrivilege (sys_streams (two_writers None) h) \<and>
             ls_key (sys_streams (two_writers None) h) = (''cs.cl'', [8])))"
  by (rule lob_free_after_last_close [OF two_writers_clean])

text \<open>
  C34. A refused release is never repeated. When one of two writers has locked the whole LOB, the
  release of the other returns \<^const>\<open>SDB_SYS\<close> without giving back its reference, and the
  stream forgets that it held the privilege. After both streams are closed the LOB still counts
  one reference, and a request to remove it fails.
\<close>

theorem lob_reference_leaks:
  assumes "a \<noteq> b" and "0 \<le> a" and "0 \<le> b"
    and "getAccessPrivilege (\<lambda>k. None) cl oid SDB_LOB_MODE_WRITE a = (r1, m1)"
    and "getAccessPrivilege m1 cl oid SDB_LOB_MODE_WRITE b = (r2, m2)"
    and "m2 (cl, oid) = Some info"
    and "lockSection info \<lparr>s_offset = 0, s_length = OSS_SINT64_MAX, s_accessId = a\<rparr> = (r3, info')"
    and "releaseAccessPrivilege (m2((cl, oid) \<mapsto> info')) cl oid SDB_LOB_MODE_WRITE b = (r4, m4)"
    and "releaseAccessPrivilege m4 cl oid SDB_LOB_MODE_WRITE a = (r5, m5)"
  shows "r1 = SDB_OK \<and> r2 = SDB_OK \<and> r3 = SDB_OK \<and> r4 = SDB_SYS \<and> r5 = SDB_OK \<and>
         (\<exists>left. m5 (cl, oid) = Some left \<and> la_refCount left = 1) \<and>
         getAccessPrivilege m5 cl oid SDB_LOB_MODE_REMOVE c = (SDB_LOB_IS_IN_USE, m5)"
proof -
  let ?s = "\<lparr>s_offset = 0, s_length = OSS_SINT64_MAX, s_accessId = a\<rparr>"
  have i: "info = incRefCount (incRefCount (new_accessInfo oid SDB_LOB_MODE_WRITE a))"
    and r: "r1 = SDB_OK" "r2 = SDB_OK" "m2 (cl, oid) = Some info"
    using assms(2-6) by (auto simp: getAccessPrivilege_def incRefCount_def new_accessInfo_def split: if_splits)
  have l: "info' = info\<lparr>la_accessId := a, la_lockSections := Some [(0, ?s)]\<rparr>" "r3 = SDB_OK"
    using assms(7) by (auto simp: i lockSection_def incRefCount_def new_accessInfo_def info_addSection_def
        addSection_def addSection_inner_def insert_section_def smap_insert_def)
  have m: "r4 = SDB_SYS" "m4 (cl, oid) = Some info'"
    using assms(1-3,8) by (auto simp: l i releaseAccessPrivilege_def incRefCount_def new_accessInfo_def)
  then show ?thesis
    using assms(1-3,9) r
    by (auto simp: l i releaseAccessPrivilege_def unlockSectionByAccessId_def drop_reference_def decRefCount_def
        incRefCount_def new_accessInfo_def getAccessPrivilege_def delSectionById_def)
qed

theorem lob_reference_leaks_witness:
  "\<exists>r1 m1 r2 m2 info r3 info' r4 m4 r5 m5.
     getAccessPrivilege (\<lambda>k. None) ''cs.cl'' [7] SDB_LOB_MODE_WRITE 1 = (r1, m1) \<and>
     getAccessPrivilege m1 ''cs.cl'' [7] SDB_LOB_MODE_WRITE 2 = (r2, m2) \<and>
     m2 (''cs.cl'', [7]) = Some info \<and>
     lockSection info \<lparr>s_offset = 0, s_length = OSS_SINT64_MAX, s_accessId = 1\<rparr> = (r3, info') \<and>
     releaseAccessPrivilege (m2((''cs.cl'', [7]) \<mapsto> info')) ''cs.cl'' [7] SDB_LOB_MODE_WRITE 2 = (r4, m4) \<and>
     releaseAccessPrivilege m4 ''cs.cl'' [7] SDB_LOB_MODE_WRITE 1 = (r5, m5) \<and>
     r4 = SDB_SYS \<and> getAccessPrivilege m5 ''cs.cl'' [7] SDB_LOB_MODE_REMOVE 3 = (SDB_LOB_IS_IN_USE, m5)"
proof -
  obtain r1 m1 where 1: "getAccessPrivilege (\<lambda>k. None) ''cs.cl'' [7] SDB_LOB_MODE_WRITE 1 = (r1, m1)" by fastforce
  obtain r2 m2 where 2: "getAccessPrivilege m1 ''cs.cl'' [7] SDB_LOB_MODE_WRITE 2 = (r2, m2)" by fastforce
  obtain info where 3: "m2 (''cs.cl'', [7]) = Some info"
    using 1 2 by (auto simp: getAccessPrivilege_def incRefCount_def new_accessInfo_def)
  obtain r3 info' where 4: "lockSection info \<lparr>s_offset = 0, s_length = OSS_SINT64_MAX, s_accessId = 1\<rparr> = (r3, info')"
    by fastforce
  obtain r4 m4 where 5: "releaseAccessPrivilege (m2((''cs.cl'', [7]) \<mapsto> info')) ''cs.cl'' [7] SDB_LOB_MODE_WRITE 2 = (r4, m4)"
    by fastforce
  obtain r5 m5 where 6: "releaseAccessPrivilege m4 ''cs.cl'' [7] SDB_LOB_MODE_WRITE 1 = (r5, m5)" by fastforce
  from lob_reference_leaks [OF _ _ _ 1 2 3 4 5 6, of 3] 1 2 3 4 5 6 show ?thesis by auto
qed

end
