(* ===== verification/DpsLsn.thy ===== *)
theory DpsLsn
  imports Prelude
begin

text \<open>
  Log sequence numbers (\<^verbatim>\<open>dpsLogDef.hpp\<close>): a version, which grows with every change of the
  primary, and an offset in the log. Both have a reserved invalid value, which compares below every
  valid one.
\<close>

definition DPS_INVALID_LSN_OFFSET :: nat where
  "DPS_INVALID_LSN_OFFSET = 18446744073709551615"

definition DPS_INVALID_LSN_VERSION :: nat where
  "DPS_INVALID_LSN_VERSION = 0"

record DPS_LSN =
  lsn_offset :: nat
  lsn_version :: nat

definition lsn_invalid :: "DPS_LSN \<Rightarrow> bool" where
  "lsn_invalid l \<longleftrightarrow>
     DPS_INVALID_LSN_OFFSET = lsn_offset l \<or> DPS_INVALID_LSN_VERSION = lsn_version l"

definition compareVersion :: "nat \<Rightarrow> nat \<Rightarrow> int" where
  "compareVersion a b =
     (if DPS_INVALID_LSN_VERSION = a \<and> DPS_INVALID_LSN_VERSION = b then 0
      else if DPS_INVALID_LSN_VERSION \<noteq> a \<and> DPS_INVALID_LSN_VERSION = b then 1
      else if DPS_INVALID_LSN_VERSION = a \<and> DPS_INVALID_LSN_VERSION \<noteq> b then -1
      else if a < b then -1
      else if b < a then 1
      else 0)"

definition compareOffset :: "nat \<Rightarrow> nat \<Rightarrow> int" where
  "compareOffset a b =
     (if DPS_INVALID_LSN_OFFSET = a \<and> DPS_INVALID_LSN_OFFSET = b then 0
      else if DPS_INVALID_LSN_OFFSET \<noteq> a \<and> DPS_INVALID_LSN_OFFSET = b then 1
      else if DPS_INVALID_LSN_OFFSET = a \<and> DPS_INVALID_LSN_OFFSET \<noteq> b then -1
      else if a < b then -1
      else if b < a then 1
      else 0)"

definition lsn_compare :: "DPS_LSN \<Rightarrow> DPS_LSN \<Rightarrow> int" where
  "lsn_compare a b =
     (let rc = compareVersion (lsn_version a) (lsn_version b)
      in if rc \<noteq> 0 then rc else compareOffset (lsn_offset a) (lsn_offset b))"

section \<open>The order of log sequence numbers\<close>

text \<open>The rank of an offset in the order, in which the invalid one comes first.\<close>

definition offset_rank :: "nat \<Rightarrow> nat" where
  "offset_rank a = (if a = DPS_INVALID_LSN_OFFSET then 0 else Suc a)"

lemma compareOffset_sgn: "compareOffset a b = sgn (int (offset_rank a) - int (offset_rank b))"
  by (auto simp: compareOffset_def offset_rank_def)

lemma compareVersion_sgn: "compareVersion a b = sgn (int a - int b)"
  by (auto simp: compareVersion_def DPS_INVALID_LSN_VERSION_def)

lemma compareOffset_pos: "0 < compareOffset a b \<longleftrightarrow> offset_rank b < offset_rank a"
  by (simp add: compareOffset_sgn)

lemma offset_rank_mono:
  "a \<noteq> DPS_INVALID_LSN_OFFSET \<Longrightarrow> b \<noteq> DPS_INVALID_LSN_OFFSET \<Longrightarrow> offset_rank a < offset_rank b \<longleftrightarrow> a < b"
  by (simp add: offset_rank_def)

lemma lsn_compare_swap: "lsn_compare b a = - lsn_compare a b"
proof -
  have s: "sgn (x - y) = - sgn (y - x)" for x y :: int by (simp add: sgn_if)
  show ?thesis
    unfolding lsn_compare_def Let_def compareOffset_sgn compareVersion_sgn
    by (auto simp: sgn_if)
qed

end
