(* ===== verification/SyncQueue.thy ===== *)
theory SyncQueue
  imports DpsLsn "HOL-Library.Multiset" "HOL-Library.Monad_Syntax"
begin

text \<open>
  What the synchronisation manager asks of the container its sessions wait in. The loops of
  \<^verbatim>\<open>clsSyncManager.cpp\<close> that take sessions out of a container are written here over its
  operations, and their effect is proved from the laws of the locales \<open>session_pool\<close> (nothing is
  lost or invented) and \<open>session_queue\<close> (the next session is the one with the least log position).
\<close>

record clsSyncSession =
  endLsn :: nat
  eduCB :: nat

text \<open>
  The loop of \<^verbatim>\<open>_wake\<close>: as long as the position \<open>lsn\<close> is behind the session at the root, wake
  the session and pop it. \<open>None\<close> means that the loop does not end.
\<close>

partial_function (option) drain ::
  "('q \<Rightarrow> clsSyncSession option) \<Rightarrow> ('q \<Rightarrow> (clsSyncSession \<times> 'q) option) \<Rightarrow> nat \<Rightarrow> 'q \<Rightarrow>
   (clsSyncSession list \<times> 'q) option" where
  "drain root pop lsn q =
     (case root q of
        None \<Rightarrow> Some ([], q)
      | Some session \<Rightarrow>
          if 0 < compareOffset lsn (endLsn session)
          then do {
            (ws, q') \<leftarrow> drain root pop lsn (case pop q of None \<Rightarrow> q | Some (_, q') \<Rightarrow> q');
            Some (session # ws, q')
          }
          else Some ([], q))"

text \<open>The loop \<^verbatim>\<open>while ( SDB_OK == pop( session ) )\<close>, which empties the container.\<close>

partial_function (option) pop_all ::
  "('q \<Rightarrow> (clsSyncSession \<times> 'q) option) \<Rightarrow> 'q \<Rightarrow> (clsSyncSession list \<times> 'q) option" where
  "pop_all pop q =
     (case pop q of
        None \<Rightarrow> Some ([], q)
      | Some (session, q') \<Rightarrow> do {
          (ws, q'') \<leftarrow> pop_all pop q';
          Some (session # ws, q'')
        })"

declare drain.simps [code] pop_all.simps [code]

text \<open>A log position that the position \<open>lsn\<close> has passed.\<close>

definition passed :: "nat \<Rightarrow> clsSyncSession \<Rightarrow> bool" where
  "passed lsn s \<longleftrightarrow> 0 < compareOffset lsn (endLsn s)"

lemma passed_mono: "passed lsn s \<Longrightarrow> offset_rank (endLsn t) \<le> offset_rank (endLsn s) \<Longrightarrow> passed lsn t"
  by (simp add: passed_def compareOffset_pos)

lemma filter_mset_all: "\<forall>x \<in># M. P x \<Longrightarrow> filter_mset P M = M"
  by (induction M) auto

lemma filter_mset_none: "\<forall>x \<in># M. \<not> P x \<Longrightarrow> filter_mset P M = {#}"
  by (induction M) auto

locale session_pool =
  fixes content :: "'q \<Rightarrow> clsSyncSession multiset"
    and root :: "'q \<Rightarrow> clsSyncSession option"
    and pop :: "'q \<Rightarrow> (clsSyncSession \<times> 'q) option"
    and push :: "clsSyncSession \<Rightarrow> 'q \<Rightarrow> 'q"
  assumes root_empty: "root q = None \<Longrightarrow> content q = {#}"
    and root_pop: "root q = Some s \<Longrightarrow> \<exists>q'. pop q = Some (s, q')"
    and pop_empty: "pop q = None \<Longrightarrow> root q = None"
    and pop_content: "pop q = Some (s, q') \<Longrightarrow> content q = add_mset s (content q')"
    and push_content: "content (push s q) = add_mset s (content q)"
begin

lemma drain_returns:
  "\<exists>ws q'. drain root pop lsn q = Some (ws, q') \<and> content q = mset ws + content q' \<and>
     (\<forall>s \<in> set ws. passed lsn s) \<and> (\<forall>s. root q' = Some s \<longrightarrow> \<not> passed lsn s)"
proof (induction "size (content q)" arbitrary: q rule: less_induct)
  case less
  show ?case
  proof (cases "root q")
    case None
    then show ?thesis by (simp add: drain.simps)
  next
    case (Some s)
    then obtain q1 where pop: "pop q = Some (s, q1)" using root_pop by blast
    show ?thesis
    proof (cases "passed lsn s")
      case True
      have "size (content q1) < size (content q)" using pop_content [OF pop] by simp
      from less [OF this] obtain ws q' where
        "drain root pop lsn q1 = Some (ws, q')" "content q1 = mset ws + content q'"
        "\<forall>s \<in> set ws. passed lsn s" "\<forall>s. root q' = Some s \<longrightarrow> \<not> passed lsn s" by blast
      then show ?thesis using Some pop True pop_content [OF pop]
        by (intro exI [of _ "s # ws"] exI [of _ q']) (simp add: drain.simps [of _ _ _ q] passed_def)
    next
      case False
      then show ?thesis using Some by (simp add: drain.simps [of _ _ _ q] passed_def)
    qed
  qed
qed

lemma pop_all_returns:
  "\<exists>ws q'. pop_all pop q = Some (ws, q') \<and> content q = mset ws \<and> content q' = {#}"
proof (induction "size (content q)" arbitrary: q rule: less_induct)
  case less
  show ?case
  proof (cases "pop q")
    case None
    then have "content q = {#}" using pop_empty root_empty by blast
    then show ?thesis using None by (simp add: pop_all.simps)
  next
    case (Some p)
    then obtain s q1 where pop: "pop q = Some (s, q1)" by (cases p) auto
    have "size (content q1) < size (content q)" using pop_content [OF pop] by simp
    from less [OF this] obtain ws q' where
      "pop_all pop q1 = Some (ws, q')" "content q1 = mset ws" "content q' = {#}" by blast
    then show ?thesis using pop pop_content [OF pop]
      by (intro exI [of _ "s # ws"] exI [of _ q']) (simp add: pop_all.simps [of _ q])
  qed
qed

end

locale session_queue = session_pool +
  fixes ordered :: "'a \<Rightarrow> bool"
  assumes root_least: "ordered q \<Longrightarrow> root q = Some s \<Longrightarrow> t \<in># content q \<Longrightarrow> endLsn s \<le> endLsn t"
    and pop_ordered: "ordered q \<Longrightarrow> pop q = Some (s, q') \<Longrightarrow> ordered q'"
    and push_ordered: "ordered q \<Longrightarrow> ordered (push s q)"
begin

lemma drain_ordered: "ordered q \<Longrightarrow> drain root pop lsn q = Some (ws, q') \<Longrightarrow> ordered q'"
proof (induction "size (content q)" arbitrary: q ws rule: less_induct)
  case less
  show ?case
  proof (cases "root q")
    case None
    then show ?thesis using less by (simp add: drain.simps)
  next
    case (Some s)
    then obtain q1 where pop: "pop q = Some (s, q1)" using root_pop by blast
    show ?thesis
    proof (cases "passed lsn s")
      case True
      then obtain ws' where "drain root pop lsn q1 = Some (ws', q')"
        using less(3) Some pop
        by (auto simp: drain.simps [of _ _ _ q] passed_def bind_eq_Some_conv)
      then show ?thesis using less(1) [of q1] pop_content [OF pop] pop_ordered [OF less(2) pop] by simp
    next
      case False
      then show ?thesis using less Some by (simp add: drain.simps [of _ _ _ q] passed_def)
    qed
  qed
qed

lemma drain_exact:
  assumes "ordered q" and valid: "\<forall>s \<in># content q. endLsn s < DPS_INVALID_LSN_OFFSET"
  shows "\<exists>ws q'. drain root pop lsn q = Some (ws, q') \<and> ordered q' \<and>
    mset ws = filter_mset (passed lsn) (content q) \<and>
    content q' = filter_mset (\<lambda>s. \<not> passed lsn s) (content q)"
proof -
  obtain ws q' where d: "drain root pop lsn q = Some (ws, q')" "content q = mset ws + content q'"
    "\<forall>s \<in> set ws. passed lsn s" "\<forall>s. root q' = Some s \<longrightarrow> \<not> passed lsn s"
    using drain_returns by blast
  have ord: "ordered q'" by (rule drain_ordered [OF assms(1) d(1)])
  have rest: "\<not> passed lsn t" if t: "t \<in># content q'" for t
  proof -
    obtain s where s: "root q' = Some s" using t root_empty [of q'] by (cases "root q'") auto
    then obtain q1 where "pop q' = Some (s, q1)" using root_pop by blast
    then have "s \<in># content q'" using pop_content by fastforce
    then have v: "endLsn s < DPS_INVALID_LSN_OFFSET" "endLsn t < DPS_INVALID_LSN_OFFSET"
      using valid t d(2) by auto
    have "endLsn s \<le> endLsn t" by (rule root_least [OF ord s t])
    then have "offset_rank (endLsn s) \<le> offset_rank (endLsn t)" using v by (simp add: offset_rank_def)
    then show ?thesis using d(4) s passed_mono by blast
  qed
  show ?thesis using d(1) ord by (intro exI [of _ ws] exI [of _ q']) (simp add: d(2,3) rest filter_mset_all filter_mset_none)
qed

end

end
