(* ===== verification/SyncHeap.thy ===== *)
theory SyncHeap
  imports SyncQueue
begin

text \<open>
  The binary heap of \<^verbatim>\<open>clsSyncMinHeap.hpp\<close>, in which the sessions wait whose writes have
  not reached enough replicas. The array is the list of its first \<^verbatim>\<open>_dataSize\<close> cells, since
  the cells behind are never read; a failing allocation is not modelled. The interface the
  synchronisation manager relies on is the locale \<open>session_pool\<close>, and \<open>session_queue\<close> where
  the order of the heap matters.
\<close>

section \<open>Heap cells\<close>

record clsSyncMinHeap =
  heapData :: "clsSyncSession list"
  spcSize :: nat

definition CLS_DEFAULT_HEAP_SIZE :: nat where
  "CLS_DEFAULT_HEAP_SIZE = 1"

definition new_heap :: clsSyncMinHeap where
  "new_heap = \<lparr>heapData = [], spcSize = CLS_DEFAULT_HEAP_SIZE\<rparr>"

section \<open>Operations\<close>

definition heap_father :: "nat \<Rightarrow> nat" where
  "heap_father child = (child - 1) div 2"

definition leftChild :: "nat \<Rightarrow> nat" where
  "leftChild father = father * 2 + 1"

definition rightChild :: "nat \<Rightarrow> nat" where
  "rightChild father = father * 2 + 2"

definition heap_swap :: "nat \<Rightarrow> nat \<Rightarrow> clsSyncSession list \<Rightarrow> clsSyncSession list" where
  "heap_swap i j h = h[i := h ! j, j := h ! i]"

text \<open>The order of two cells is the order of their log positions.\<close>

abbreviation key :: "clsSyncSession list \<Rightarrow> nat \<Rightarrow> nat" where
  "key h i \<equiv> endLsn (h ! i)"

function shiftUp :: "nat \<Rightarrow> clsSyncSession list \<Rightarrow> clsSyncSession list" where
  "shiftUp up h =
     (if up \<noteq> 0 \<and> key h up < key h (heap_father up)
      then shiftUp (heap_father up) (heap_swap up (heap_father up) h)
      else h)"
  by pat_completeness auto

termination
  by (relation "measure fst") (auto simp: heap_father_def)

definition smaller_child :: "nat \<Rightarrow> clsSyncSession list \<Rightarrow> nat" where
  "smaller_child down h =
     (if length h \<le> rightChild down then leftChild down
      else if key h (leftChild down) \<le> key h (rightChild down) then leftChild down
      else rightChild down)"

function shiftDown :: "nat \<Rightarrow> clsSyncSession list \<Rightarrow> clsSyncSession list" where
  "shiftDown down h =
     (if leftChild down < length h \<and> key h (smaller_child down h) < key h down
      then shiftDown (smaller_child down h) (heap_swap down (smaller_child down h) h)
      else h)"
  by pat_completeness auto

termination
  by (relation "measure (\<lambda>(d, h). length h - d)")
     (auto simp: heap_swap_def smaller_child_def leftChild_def rightChild_def)

declare shiftUp.simps [simp del] shiftDown.simps [simp del]

definition heap_push :: "clsSyncSession \<Rightarrow> clsSyncMinHeap \<Rightarrow> clsSyncMinHeap" where
  "heap_push session q =
     (let q = (if length (heapData q) = spcSize q then q\<lparr>spcSize := spcSize q + spcSize q\<rparr> else q)
      in q\<lparr>heapData := shiftUp (length (heapData q)) (heapData q @ [session])\<rparr>)"

definition heap_pop :: "clsSyncMinHeap \<Rightarrow> (clsSyncSession \<times> clsSyncMinHeap) option" where
  "heap_pop q =
     (if heapData q = [] then None
      else Some (heapData q ! 0,
                 q\<lparr>heapData := shiftDown 0 (butlast ((heapData q)[0 := last (heapData q)]))\<rparr>))"

definition heap_erase :: "nat \<Rightarrow> clsSyncMinHeap \<Rightarrow> sdb_rc \<times> clsSyncMinHeap" where
  "heap_erase sub q =
     (if heapData q = [] \<or> length (heapData q) \<le> sub then (SDB_INVALIDARG, q)
      else (SDB_OK, q\<lparr>heapData := shiftDown sub (butlast ((heapData q)[sub := last (heapData q)]))\<rparr>))"

definition heap_root :: "clsSyncMinHeap \<Rightarrow> clsSyncSession option" where
  "heap_root q = (if heapData q = [] then None else Some (heapData q ! 0))"

section \<open>What the heap contains\<close>

abbreviation sessions_of :: "clsSyncMinHeap \<Rightarrow> clsSyncSession multiset" where
  "sessions_of q \<equiv> mset (heapData q)"

lemma heap_swap_laws [simp]:
  "length (heap_swap i j h) = length h"
  "i < length h \<Longrightarrow> j < length h \<Longrightarrow> mset (heap_swap i j h) = mset h"
  by (simp_all add: heap_swap_def mset_swap)

lemma heap_swap_nth:
  assumes "i < length h" and "j < length h" and "k < length h"
  shows "heap_swap i j h ! k = h ! (if k = i then j else if k = j then i else k)"
  using assms by (auto simp: heap_swap_def nth_list_update)

lemma shiftUp_mset: "up < length h \<Longrightarrow> mset (shiftUp up h) = mset h"
proof (induction up h rule: shiftUp.induct)
  case (1 up h)
  have "heap_father up < length h" using 1(2) by (auto simp: heap_father_def)
  with 1 show ?case by (subst shiftUp.simps) (simp del: One_nat_def)
qed

lemma smaller_child_less: "leftChild down < length h \<Longrightarrow> smaller_child down h < length h"
  by (auto simp: smaller_child_def)

lemma shiftDown_mset: "mset (shiftDown down h) = mset h"
proof (induction down h rule: shiftDown.induct)
  case (1 down h)
  show ?case
  proof (cases "leftChild down < length h \<and> key h (smaller_child down h) < key h down")
    case True
    then have "down < length h" by (simp add: leftChild_def)
    with True 1 show ?thesis by (subst shiftDown.simps) (simp add: smaller_child_less)
  next
    case False
    then show ?thesis by (subst shiftDown.simps) auto
  qed
qed

lemma mset_replace_last:
  assumes "i < length h"
  shows "mset h = add_mset (h ! i) (mset (butlast (h[i := last h])))"
proof -
  obtain t z where h: "h = t @ [z]" using assms by (cases h rule: rev_cases) auto
  show ?thesis
  proof (cases "i < length t")
    case True
    have b: "butlast (h[i := last h]) = t[i := z]" using True by (simp add: h list_update_append)
    have m: "mset (t[i := z]) = mset t + {#z#} - {#t ! i#}" using True by (simp add: mset_update)
    have "t ! i \<in># mset t" using True by simp
    then show ?thesis unfolding b m using True by (simp add: h nth_append)
  next
    case False
    then have "i = length t" using assms by (simp add: h)
    then show ?thesis by (simp add: h)
  qed
qed

lemma push_sessions: "sessions_of (heap_push s q) = add_mset s (sessions_of q)"
  by (simp add: heap_push_def Let_def shiftUp_mset)

lemma pop_sessions:
  assumes "heap_pop q = Some (s, q')"
  shows "heap_root q = Some s" and "sessions_of q = add_mset s (sessions_of q')"
proof -
  have ne: "heapData q \<noteq> []" using assms by (auto simp: heap_pop_def split: if_splits)
  then have s: "s = heapData q ! 0"
    and q': "sessions_of q' = mset (butlast ((heapData q)[0 := last (heapData q)]))"
    using assms by (auto simp: heap_pop_def shiftDown_mset)
  show "heap_root q = Some s" using ne by (simp add: heap_root_def s)
  show "sessions_of q = add_mset s (sessions_of q')"
    using ne mset_replace_last [of 0 "heapData q"] unfolding s q' by simp
qed

lemma pop_root: "heap_root q = Some s \<Longrightarrow> \<exists>q'. heap_pop q = Some (s, q')"
  by (auto simp: heap_root_def heap_pop_def split: if_splits)

lemma erase_sessions:
  assumes "sub < length (heapData q)"
  shows "fst (heap_erase sub q) = SDB_OK"
    and "sessions_of q = add_mset (heapData q ! sub) (sessions_of (snd (heap_erase sub q)))"
  using assms mset_replace_last [of sub "heapData q"]
  by (auto simp: heap_erase_def shiftDown_mset)

section \<open>Heap order\<close>

definition heap_ok :: "clsSyncSession list \<Rightarrow> bool" where
  "heap_ok h \<longleftrightarrow> (\<forall>i < length h. i \<noteq> 0 \<longrightarrow> key h (heap_father i) \<le> key h i)"

text \<open>The order holds except between a cell and its father, or between a cell and its children.\<close>

definition heap_but_up :: "nat \<Rightarrow> clsSyncSession list \<Rightarrow> bool" where
  "heap_but_up up h \<longleftrightarrow>
     (\<forall>i < length h. i \<noteq> 0 \<longrightarrow> i \<noteq> up \<longrightarrow> key h (heap_father i) \<le> key h i) \<and>
     (\<forall>i < length h. i \<noteq> 0 \<longrightarrow> heap_father i = up \<longrightarrow> up \<noteq> 0 \<longrightarrow> key h (heap_father up) \<le> key h i)"

definition heap_but_down :: "nat \<Rightarrow> clsSyncSession list \<Rightarrow> bool" where
  "heap_but_down down h \<longleftrightarrow>
     (\<forall>i < length h. i \<noteq> 0 \<longrightarrow> heap_father i \<noteq> down \<longrightarrow> key h (heap_father i) \<le> key h i) \<and>
     (\<forall>i < length h. i \<noteq> 0 \<longrightarrow> heap_father i = down \<longrightarrow> down \<noteq> 0 \<longrightarrow>
        key h (heap_father down) \<le> key h i)"

lemma heap_father_less: "i \<noteq> 0 \<Longrightarrow> heap_father i < i"
  by (auto simp: heap_father_def)

lemma heap_father_iff: "i \<noteq> 0 \<Longrightarrow> heap_father i = d \<longleftrightarrow> i = leftChild d \<or> i = rightChild d"
  unfolding heap_father_def leftChild_def rightChild_def by auto

lemma shiftUp_step:
  assumes inv: "heap_but_up up h" and up: "up < length h" "up \<noteq> 0"
    and less: "key h up < key h (heap_father up)"
  shows "heap_but_up (heap_father up) (heap_swap up (heap_father up) h)"
proof -
  define f where "f = heap_father up"
  have f: "f < length h" "f \<noteq> up" using up heap_father_less [of up] by (auto simp: f_def)
  note nth = heap_swap_nth [OF up(1) f(1)]
  have ord: "key h (heap_father i) \<le> key h i" if "i < length h" "i \<noteq> 0" "i \<noteq> up" for i
    using inv that by (simp add: heap_but_up_def)
  have sub: "key h f \<le> key h i" if "i < length h" "i \<noteq> 0" "heap_father i = up" for i
    using inv that up by (simp add: heap_but_up_def f_def)
  have lt: "key h up < key h f" using less by (simp add: f_def)
  show ?thesis unfolding heap_but_up_def f_def [symmetric] heap_swap_laws
  proof (intro conjI allI impI)
    fix i assume i: "i < length h" "i \<noteq> 0" "i \<noteq> f"
    have fi: "heap_father i < length h" using i heap_father_less [of i] by simp
    show "key (heap_swap up f h) (heap_father i) \<le> key (heap_swap up f h) i"
    proof (cases "i = up")
      case True
      then have "heap_father i = f" by (simp add: f_def)
      then show ?thesis using True i(1) fi f lt by (simp add: nth)
    next
      case False
      then show ?thesis using i fi ord [of i] sub [of i] lt f(2) by (auto simp: nth)
    qed
  next
    fix i assume i: "i < length h" "i \<noteq> 0" "heap_father i = f" "f \<noteq> 0"
    have ff: "heap_father f < f" using i heap_father_less [of f] by simp
    have "key h (heap_father f) \<le> key h f" using ord [of f] f i by simp
    moreover have "i \<noteq> f" using i heap_father_less [of i] by auto
    moreover have "heap_father f \<noteq> up" using ff f_def heap_father_less [of up] up by simp
    ultimately show "key (heap_swap up f h) (heap_father f) \<le> key (heap_swap up f h) i"
      using i ff f ord [of i] by (auto simp: nth)
  qed
qed

lemma shiftUp_ok: "heap_but_up up h \<Longrightarrow> up < length h \<Longrightarrow> heap_ok (shiftUp up h)"
proof (induction up h rule: shiftUp.induct)
  case (1 up h)
  show ?case
  proof (cases "up \<noteq> 0 \<and> key h up < key h (heap_father up)")
    case True
    then have "heap_father up < length h" using 1(3) heap_father_less [of up] by simp
    with True 1 show ?thesis by (subst shiftUp.simps) (simp add: shiftUp_step)
  next
    case False
    then show ?thesis using 1(2) by (subst shiftUp.simps) (auto simp: heap_ok_def heap_but_up_def)
  qed
qed

lemma smaller_child_le:
  assumes "i < length h" and "i \<noteq> 0" and "heap_father i = down"
  shows "key h (smaller_child down h) \<le> key h i"
  using assms heap_father_iff [of i down] by (auto simp: smaller_child_def)

lemma smaller_child_father: "smaller_child down h \<noteq> 0 \<and> heap_father (smaller_child down h) = down"
  by (simp add: smaller_child_def heap_father_def leftChild_def rightChild_def)

lemma shiftDown_step:
  assumes inv: "heap_but_down down h" and left: "leftChild down < length h"
    and less: "key h (smaller_child down h) < key h down"
  shows "heap_but_down (smaller_child down h) (heap_swap down (smaller_child down h) h)"
proof -
  define c where "c = smaller_child down h"
  have d: "down < length h" using left by (simp add: leftChild_def)
  have c: "c < length h" "c \<noteq> 0" "heap_father c = down" "c \<noteq> down" "\<not> c < down"
    using left smaller_child_father [of down h] smaller_child_less [OF left] heap_father_less [of c]
    by (auto simp: c_def)
  note nth = heap_swap_nth [OF d c(1)]
  have ord: "key h (heap_father i) \<le> key h i" if "i < length h" "i \<noteq> 0" "heap_father i \<noteq> down" for i
    using inv that by (simp add: heap_but_down_def)
  have sub: "key h (heap_father down) \<le> key h i"
    if "i < length h" "i \<noteq> 0" "heap_father i = down" "down \<noteq> 0" for i
    using inv that by (simp add: heap_but_down_def)
  have min: "key h c \<le> key h i" if "i < length h" "i \<noteq> 0" "heap_father i = down" for i
    using smaller_child_le [OF that] by (simp add: c_def)
  have lt: "key h c < key h down" using less by (simp add: c_def)
  show ?thesis unfolding heap_but_down_def c_def [symmetric] heap_swap_laws
  proof (intro conjI allI impI)
    fix i assume i: "i < length h" "i \<noteq> 0" "heap_father i \<noteq> c"
    have fi: "heap_father i < length h" "heap_father i \<noteq> i" using i heap_father_less [of i] by simp_all
    show "key (heap_swap down c h) (heap_father i) \<le> key (heap_swap down c h) i"
      using i fi ord [of i] sub [of i] sub [of c] min [of i] lt c by (auto simp: nth)
  next
    fix i assume i: "i < length h" "i \<noteq> 0" "heap_father i = c"
    have "key h c \<le> key h i" using ord [of i] i c by simp
    moreover have "i \<noteq> c" "i \<noteq> down" using i c heap_father_less [of i] by auto
    ultimately show "key (heap_swap down c h) (heap_father c) \<le> key (heap_swap down c h) i"
      using i c d by (simp add: nth)
  qed
qed

lemma shiftDown_ok: "heap_but_down down h \<Longrightarrow> heap_ok (shiftDown down h)"
proof (induction down h rule: shiftDown.induct)
  case (1 down h)
  show ?case
  proof (cases "leftChild down < length h \<and> key h (smaller_child down h) < key h down")
    case True
    then have "heap_but_down (smaller_child down h) (heap_swap down (smaller_child down h) h)"
      using shiftDown_step [OF 1(2)] by blast
    with True 1(1) show ?thesis by (subst shiftDown.simps) simp
  next
    case False
    have "key h down \<le> key h i" if i: "i < length h" "i \<noteq> 0" "heap_father i = down" for i
    proof -
      have "leftChild down < length h"
        using i heap_father_iff [of i down] by (auto simp: leftChild_def rightChild_def)
      then show ?thesis using False smaller_child_le [OF i] by simp
    qed
    moreover have "shiftDown down h = h" using False by (subst shiftDown.simps) auto
    ultimately show ?thesis using 1(2) by (auto simp: heap_ok_def heap_but_down_def)
  qed
qed

lemma push_ok: "heap_ok (heapData q) \<Longrightarrow> heap_ok (heapData (heap_push s q))"
proof -
  assume ok: "heap_ok (heapData q)"
  let ?h = "heapData q" and ?n = "length (heapData q)"
  have "heap_but_up ?n (?h @ [s])"
    unfolding heap_but_up_def
  proof (intro conjI allI impI)
    fix i assume i: "i < length (?h @ [s])" "i \<noteq> 0" "i \<noteq> ?n"
    then have "i < ?n" "heap_father i < ?n" using heap_father_less [of i] by auto
    with ok i show "key (?h @ [s]) (heap_father i) \<le> key (?h @ [s]) i"
      by (simp add: heap_ok_def nth_append)
  next
    fix i assume "i < length (?h @ [s])" "i \<noteq> 0" "heap_father i = ?n"
    then show "key (?h @ [s]) (heap_father ?n) \<le> key (?h @ [s]) i"
      using heap_father_less [of i] by simp
  qed
  then have "heap_ok (shiftUp ?n (?h @ [s]))" by (rule shiftUp_ok) simp
  then show ?thesis by (auto simp: heap_push_def Let_def)
qed

lemma pop_ok:
  assumes ok: "heap_ok (heapData q)" and pop: "heap_pop q = Some (s, q')"
  shows "heap_ok (heapData q')"
proof -
  let ?h = "heapData q"
  let ?g = "butlast (?h[0 := last ?h])"
  have nth: "?g ! i = ?h ! i" if "i < length ?g" "i \<noteq> 0" for i
    using that by (simp add: nth_butlast)
  have "heap_but_down 0 ?g"
    unfolding heap_but_down_def
  proof (intro conjI allI impI)
    fix i assume i: "i < length ?g" "i \<noteq> 0" "heap_father i \<noteq> 0"
    then have "heap_father i < length ?g" using heap_father_less [of i] by simp
    with i ok show "key ?g (heap_father i) \<le> key ?g i" by (simp add: nth heap_ok_def)
  qed simp
  then show ?thesis using pop by (auto simp: heap_pop_def shiftDown_ok split: if_splits)
qed

lemma heap_root_le: "heap_ok h \<Longrightarrow> i < length h \<Longrightarrow> key h 0 \<le> key h i"
proof (induction i rule: less_induct)
  case (less i)
  show ?case
  proof (cases "i = 0")
    case False
    then have "heap_father i < i" by (rule heap_father_less)
    with less False show ?thesis unfolding heap_ok_def by (meson le_trans less_trans)
  qed simp
qed

lemma root_min:
  assumes "heap_ok (heapData q)" and "heap_root q = Some s" and "t \<in># sessions_of q"
  shows "endLsn s \<le> endLsn t"
  using assms heap_root_le by (auto simp: heap_root_def in_set_conv_nth split: if_splits)

section \<open>The heap provides the interface of the manager\<close>

interpretation heap_pool: session_pool sessions_of heap_root heap_pop heap_push
proof unfold_locales
  show "heap_root q = None \<Longrightarrow> sessions_of q = {#}" for q by (simp add: heap_root_def split: if_splits)
  show "heap_root q = Some s \<Longrightarrow> \<exists>q'. heap_pop q = Some (s, q')" for q s by (rule pop_root)
  show "heap_pop q = None \<Longrightarrow> heap_root q = None" for q
    by (simp add: heap_pop_def heap_root_def split: if_splits)
  show "heap_pop q = Some (s, q') \<Longrightarrow> sessions_of q = add_mset s (sessions_of q')" for q s q'
    by (rule pop_sessions)
  show "sessions_of (heap_push s q) = add_mset s (sessions_of q)" for q s by (rule push_sessions)
qed

interpretation heap_queue:
  session_queue sessions_of heap_root heap_pop heap_push "\<lambda>q. heap_ok (heapData q)"
proof unfold_locales
  show "endLsn s \<le> endLsn t"
    if "heap_ok (heapData q)" "heap_root q = Some s" "t \<in># sessions_of q" for q s t
    using that by (rule root_min)
  show "heap_ok (heapData q')" if "heap_ok (heapData q)" "heap_pop q = Some (s, q')" for q s q'
    using that by (rule pop_ok)
  show "heap_ok (heapData q) \<Longrightarrow> heap_ok (heapData (heap_push s q))" for q s by (rule push_ok)
qed

end
