(* ===== verification/GroupInfo.thy ===== *)
theory GroupInfo
  imports DpsLsn
begin

text \<open>
  What a node knows of its replica group (\<^verbatim>\<open>clsDef.hpp\<close>): the members with their last beat, the
  members that are alive, the primary and the node itself. \<^verbatim>\<open>alives\<close> holds pointers into the map
  \<^verbatim>\<open>info\<close>; a pointer is modelled by the key of the map node it points to.
\<close>

unbundle bit_operations_syntax

section \<open>Identifiers and enumerations\<close>

type_synonym routeID = nat

definition MSG_INVALID_ROUTEID :: routeID where
  "MSG_INVALID_ROUTEID = 0"

text \<open>The columns of the 64-bit union \<^verbatim>\<open>_MsgRouteID\<close>, on a little-endian machine.\<close>

definition route_groupID :: "routeID \<Rightarrow> nat" where
  "route_groupID rid = rid mod 4294967296"

definition route_nodeID :: "routeID \<Rightarrow> nat" where
  "route_nodeID rid = rid div 4294967296 mod 65536"

definition SPARE_GROUPID :: nat where
  "SPARE_GROUPID = 5"

definition CLS_REPLSET_MAX_NODE_SIZE :: nat where
  "CLS_REPLSET_MAX_NODE_SIZE = 7"

datatype CLS_SYNC_STATUS = CLS_SYNC_STATUS_NONE | CLS_SYNC_STATUS_PEER | CLS_SYNC_STATUS_RC

datatype CLS_GROUP_ROLE = CLS_GROUP_ROLE_SECONDARY | CLS_GROUP_ROLE_PRIMARY

datatype CLS_NODE_SERVICE_STATUS = SERVICE_NORMAL | SERVICE_ABNORMAL | SERVICE_UNKNOWN

definition CLS_BEATID_BEGIN :: nat where
  "CLS_BEATID_BEGIN = 1"

definition CLS_BEATID_INVALID :: nat where
  "CLS_BEATID_INVALID = 0"

definition CLS_NODE_KEEPALIVE_TIMEOUT :: nat where
  "CLS_NODE_KEEPALIVE_TIMEOUT = 6000"

section \<open>Beats and members\<close>

record clsGroupBeat =
  beat_endLsn :: DPS_LSN
  identity :: routeID
  beat_weight :: nat
  beat_hashCode :: nat
  beat_version :: nat
  role :: CLS_GROUP_ROLE
  syncStatus :: CLS_SYNC_STATUS
  beatID :: nat
  serviceStatus :: CLS_NODE_SERVICE_STATUS

definition new_beat :: clsGroupBeat where
  "new_beat = \<lparr>beat_endLsn = \<lparr>lsn_offset = DPS_INVALID_LSN_OFFSET, lsn_version = DPS_INVALID_LSN_VERSION\<rparr>,
     identity = MSG_INVALID_ROUTEID, beat_weight = 0, beat_hashCode = 0, beat_version = 0,
     role = CLS_GROUP_ROLE_SECONDARY, syncStatus = CLS_SYNC_STATUS_NONE,
     beatID = CLS_BEATID_INVALID, serviceStatus = SERVICE_UNKNOWN\<rparr>"

text \<open>The caret of C++ is exclusive or.\<close>

definition CLS_BEAT_ID_OVERTURN_WINDOW :: nat where
  "CLS_BEAT_ID_OVERTURN_WINDOW = unat ((2 :: 32 word) XOR 31)"

definition isValidID :: "clsGroupBeat \<Rightarrow> nat \<Rightarrow> bool" where
  "isValidID b rid =
     (if CLS_BEATID_INVALID = beatID b then True
      else if beatID b < rid then True
      else if CLS_BEAT_ID_OVERTURN_WINDOW < u32_sub (beatID b) rid then True
      else False)"

record clsSharingStatus =
  beat :: clsGroupBeat
  ss_timeout :: nat
  breakTime :: nat
  deadtime :: nat
  sendFailedTimes :: nat

definition new_sharing :: clsSharingStatus where
  "new_sharing = \<lparr>beat = new_beat, ss_timeout = 0, breakTime = 0, deadtime = 0, sendFailedTimes = 0\<rparr>"

section \<open>The group\<close>

record clsGroupInfo =
  info :: "(routeID \<times> clsSharingStatus) list"
  alives :: "(routeID \<times> routeID) list"
  gprimary :: routeID
  glocal :: routeID
  localBeatID :: nat
  gversion :: nat
  hashCode :: nat

definition new_groupInfo :: clsGroupInfo where
  "new_groupInfo = \<lparr>info = [], alives = [], gprimary = 0, glocal = 0,
     localBeatID = CLS_BEATID_BEGIN, gversion = 0, hashCode = 0\<rparr>"

definition nextBeatID :: "clsGroupInfo \<Rightarrow> nat \<times> clsGroupInfo" where
  "nextBeatID g =
     (let b = u32 (localBeatID g + 1);
          b = (if b \<le> CLS_BEATID_BEGIN then CLS_BEATID_BEGIN + 1 else b)
      in (b, g\<lparr>localBeatID := b\<rparr>))"

definition groupSize :: "clsGroupInfo \<Rightarrow> nat" where
  "groupSize g = length (info g) + 1"

definition aliveSize :: "clsGroupInfo \<Rightarrow> nat" where
  "aliveSize g = length (alives g) + 1"

definition isAllNodeBeat :: "clsGroupInfo \<Rightarrow> bool" where
  "isAllNodeBeat g = list_all (\<lambda>(_, status). beatID (beat status) \<noteq> 0) (info g)"

definition isAllNodeAbnormal :: "nat \<Rightarrow> clsGroupInfo \<Rightarrow> bool" where
  "isAllNodeAbnormal tmo g =
     list_all (\<lambda>(_, status).
       if SERVICE_NORMAL = serviceStatus (beat status) then False
       else if SERVICE_UNKNOWN = serviceStatus (beat status) \<and> (0 = tmo \<or> breakTime status < tmo)
       then False
       else True) (info g)"

fun count_alive :: "nat \<Rightarrow> (routeID \<times> clsSharingStatus) list \<Rightarrow> nat" where
  "count_alive tmo [] = 1"
| "count_alive tmo ((_, status) # m) =
     (if SERVICE_UNKNOWN = serviceStatus (beat status) \<and> (0 = tmo \<or> tmo < breakTime status)
      then count_alive tmo m
      else count_alive tmo m + 1)"

definition getAlivesByTimeout :: "nat \<Rightarrow> clsGroupInfo \<Rightarrow> nat" where
  "getAlivesByTimeout tmo g = count_alive tmo (info g)"

definition getNodeSendFailedTimes :: "routeID \<Rightarrow> clsGroupInfo \<Rightarrow> nat" where
  "getNodeSendFailedTimes nodeID g =
     (case map_of (info g) nodeID of Some status \<Rightarrow> sendFailedTimes status | None \<Rightarrow> 4294967295)"

text \<open>
  The members an iteration over \<^verbatim>\<open>alives\<close> reads through its pointers. A dangling pointer would
  drop out of the list; \<open>group_ok\<close> below excludes it.
\<close>

definition alive_members :: "clsGroupInfo \<Rightarrow> clsSharingStatus list" where
  "alive_members g = List.map_filter (\<lambda>(_, p). map_of (info g) p) (alives g)"

definition is_alive :: "routeID \<Rightarrow> clsGroupInfo \<Rightarrow> bool" where
  "is_alive rid g \<longleftrightarrow> map_of (alives g) rid \<noteq> None"

definition primary_is_me :: "clsGroupInfo \<Rightarrow> bool" where
  "primary_is_me g \<longleftrightarrow> glocal g = gprimary g \<and> gprimary g \<noteq> MSG_INVALID_ROUTEID"

text \<open>How far the log of a member reaches into the local log (\<^verbatim>\<open>clsUtil.cpp\<close>).\<close>

definition clsSyncWindow :: "DPS_LSN \<Rightarrow> DPS_LSN \<Rightarrow> DPS_LSN \<Rightarrow> DPS_LSN \<Rightarrow> CLS_SYNC_STATUS" where
  "clsSyncWindow remoteLsn fileBeginLsn memBeginLsn endLsn =
     (let frc = lsn_compare fileBeginLsn remoteLsn;
          mrc = lsn_compare memBeginLsn remoteLsn;
          erc = lsn_compare endLsn remoteLsn
      in if 0 < frc then CLS_SYNC_STATUS_NONE
         else if frc \<le> 0 \<and> 0 < mrc then CLS_SYNC_STATUS_RC
         else if mrc \<le> 0 \<and> 0 < erc then CLS_SYNC_STATUS_PEER
         else if 0 = erc then CLS_SYNC_STATUS_PEER
         else CLS_SYNC_STATUS_NONE)"

section \<open>Well-formed groups\<close>

text \<open>
  Every pointer of \<^verbatim>\<open>alives\<close> points to the member of the same key, the node is not a member of
  its own list, the list fits the group size, and a known primary is the node itself or an alive
  member.
\<close>

definition group_ok :: "clsGroupInfo \<Rightarrow> bool" where
  "group_ok g \<longleftrightarrow>
     smap_ok (info g) \<and> smap_ok (alives g) \<and>
     (\<forall>(k, p) \<in> set (alives g). p = k \<and> map_of (info g) k \<noteq> None) \<and>
     map_of (info g) (glocal g) = None \<and> map_of (info g) MSG_INVALID_ROUTEID = None \<and>
     (gprimary g \<noteq> MSG_INVALID_ROUTEID \<longrightarrow> gprimary g = glocal g \<or> is_alive (gprimary g) g)"

lemma overturn_window: "CLS_BEAT_ID_OVERTURN_WINDOW = 29"
proof -
  have "(2 :: 32 word) XOR 31 = 29" by code_simp
  then show ?thesis by (simp add: CLS_BEAT_ID_OVERTURN_WINDOW_def)
qed

end
