(* ===== verification/SyncManager.thy ===== *)
theory SyncManager
  imports SyncHeap GroupInfo
begin

text \<open>
  The synchronisation manager (\<^verbatim>\<open>clsSyncManager.cpp\<close>): a session that has written with
  \<^verbatim>\<open>w\<close> copies waits in the heap of its \<^verbatim>\<open>sub = w - 2\<close> until \<^verbatim>\<open>w - 1\<close> members have passed its log
  position. The array \<^verbatim>\<open>_notifyList\<close> is the list of its first \<^verbatim>\<open>_validSync\<close> entries. Waking a
  session is a pair of its thread and the code it is woken with; a write outside an array is the
  value \<open>None\<close>.
\<close>

section \<open>State\<close>

record clsSyncStatus =
  ns_offset :: nat
  ns_id :: routeID
  ns_valid :: bool
  sameReqTimes :: nat

definition CLS_SAME_SYNC_LSN_MAX_TIMES :: nat where
  "CLS_SAME_SYNC_LSN_MAX_TIMES = 20"

definition ns_isValid :: "clsSyncStatus \<Rightarrow> bool" where
  "ns_isValid n =
     (if DPS_INVALID_LSN_OFFSET = ns_offset n \<or> \<not> ns_valid n \<or>
         CLS_SAME_SYNC_LSN_MAX_TIMES < sameReqTimes n
      then False else True)"

record clsSyncManager =
  syncList :: "clsSyncMinHeap list"
  checkList :: "nat list"
  notifyList :: "clsSyncStatus list"
  aliveCount :: nat
  wakeTimeout :: nat
  enableSync :: bool

definition CLS_SYNC_SET_NUM :: nat where
  "CLS_SYNC_SET_NUM = CLS_REPLSET_MAX_NODE_SIZE - 1"

definition new_syncMgr :: clsSyncManager where
  "new_syncMgr = \<lparr>syncList = replicate CLS_SYNC_SET_NUM new_heap,
     checkList = replicate CLS_SYNC_SET_NUM DPS_INVALID_LSN_OFFSET, notifyList = [],
     aliveCount = 0, wakeTimeout = 0, enableSync = True\<rparr>"

abbreviation validSync :: "clsSyncManager \<Rightarrow> nat" where
  "validSync m \<equiv> length (notifyList m)"

type_synonym wakeups = "(nat \<times> sdb_rc) list"

definition CLS_REPLSE_WRITE_ONE :: nat where
  "CLS_REPLSE_WRITE_ONE = 1"

definition CLS_SYNC_REQ_INTERVAL :: nat where
  "CLS_SYNC_REQ_INTERVAL = 2000"

definition CLS_WAKE_W_TIMEOUT :: nat where
  "CLS_WAKE_W_TIMEOUT = CLS_SYNC_REQ_INTERVAL"

definition CLS_W_2_SUB :: "nat \<Rightarrow> nat" where
  "CLS_W_2_SUB num = num - 2"

section \<open>Members\<close>

text \<open>A loop that changes the first element it finds and breaks.\<close>

fun upd_first :: "('a \<Rightarrow> bool) \<Rightarrow> ('a \<Rightarrow> 'a) \<Rightarrow> 'a list \<Rightarrow> 'a list" where
  "upd_first P f [] = []"
| "upd_first P f (x # xs) = (if P x then f x # xs else x # upd_first P f xs)"

definition updateNodeStatus :: "routeID \<Rightarrow> bool \<Rightarrow> clsSyncManager \<Rightarrow> clsSyncManager" where
  "updateNodeStatus rid valid m =
     (if list_ex (\<lambda>n. ns_id n = rid) (notifyList m)
      then m\<lparr>notifyList := upd_first (\<lambda>n. ns_id n = rid) (\<lambda>n. n\<lparr>ns_valid := valid\<rparr>) (notifyList m),
             aliveCount := (if valid then u32 (aliveCount m + 1) else u32_sub (aliveCount m) 1)\<rparr>
      else m)"

definition notifyFullSync :: "routeID \<Rightarrow> clsSyncManager \<Rightarrow> clsSyncManager" where
  "notifyFullSync rid m =
     m\<lparr>notifyList := upd_first (\<lambda>n. ns_id n = rid) (\<lambda>n. n\<lparr>ns_offset := DPS_INVALID_LSN_OFFSET\<rparr>)
         (notifyList m)\<rparr>"

datatype sync_strategy = CLS_SYNC_NONE | CLS_SYNC_KEEPNORMAL | CLS_SYNC_KEEPALL

fun arbit_loop :: "sync_strategy \<Rightarrow> clsSyncStatus list \<Rightarrow> nat \<Rightarrow> nat" where
  "arbit_loop syncSty [] offset = offset"
| "arbit_loop syncSty (n # ns) offset =
     (if DPS_INVALID_LSN_OFFSET = ns_offset n then arbit_loop syncSty ns offset
      else if CLS_SYNC_KEEPNORMAL = syncSty \<and> \<not> ns_isValid n then arbit_loop syncSty ns offset
      else if DPS_INVALID_LSN_OFFSET = offset \<or> ns_offset n < offset
      then arbit_loop syncSty ns (ns_offset n)
      else arbit_loop syncSty ns offset)"

definition getSyncCtrlArbitLSN :: "sync_strategy \<Rightarrow> clsSyncManager \<Rightarrow> nat" where
  "getSyncCtrlArbitLSN syncSty m =
     (if 0 = validSync m \<or> CLS_SYNC_NONE = syncSty then DPS_INVALID_LSN_OFFSET
      else arbit_loop syncSty (notifyList m) DPS_INVALID_LSN_OFFSET)"

definition atLeastOne :: "nat \<Rightarrow> clsSyncManager \<Rightarrow> bool" where
  "atLeastOne offset m = list_ex (\<lambda>n. compareOffset offset (ns_offset n) < 0) (notifyList m)"

text \<open>The members that are told that the log has grown beyond the given position.\<close>

definition sync_notify :: "nat \<Rightarrow> clsSyncManager \<Rightarrow> routeID list" where
  "sync_notify offset m =
     map ns_id (filter (\<lambda>n. ns_id n \<noteq> 0 \<and> offset = ns_offset n) (notifyList m))"

section \<open>Change of the group\<close>

text \<open>What becomes of a session whose heap is cleared: \<open>left\<close> is the array that is passed.\<close>

definition clear_session ::
  "nat \<Rightarrow> nat \<Rightarrow> nat \<Rightarrow> nat \<Rightarrow> nat \<Rightarrow> clsSyncStatus list \<Rightarrow> clsSyncSession \<Rightarrow> clsSyncManager \<Rightarrow>
   (wakeups \<times> clsSyncManager) option" where
  "clear_session okW removed endRemovedSub preSyncNum removedSub left session m =
     (let complete = length (filter (\<lambda>n. endLsn session < ns_offset n) (take (preSyncNum - 1) left))
      in if okW \<le> complete then Some ([(eduCB session, SDB_OK)], m)
         else if endRemovedSub + removed < removedSub + 1
         then Some ([(eduCB session, SDB_CLS_WAIT_SYNC_FAILED)], m)
         else if endRemovedSub = 0 then None
         else Some ([], m\<lparr>syncList := (syncList m)
           [endRemovedSub - 1 := heap_push session (syncList m ! (endRemovedSub - 1))]\<rparr>))"

fun clear_sessions ::
  "(clsSyncSession \<Rightarrow> clsSyncManager \<Rightarrow> (wakeups \<times> clsSyncManager) option) \<Rightarrow>
   clsSyncSession list \<Rightarrow> clsSyncManager \<Rightarrow> (wakeups \<times> clsSyncManager) option" where
  "clear_sessions f [] m = Some ([], m)"
| "clear_sessions f (s # ss) m =
     do {
       (w, m) \<leftarrow> f s m;
       (ws, m) \<leftarrow> clear_sessions f ss m;
       Some (w @ ws, m)
     }"

definition clear_sub ::
  "nat \<Rightarrow> nat \<Rightarrow> nat \<Rightarrow> nat \<Rightarrow> clsSyncStatus list \<Rightarrow> nat \<Rightarrow> clsSyncManager \<Rightarrow>
   (wakeups \<times> clsSyncManager) option" where
  "clear_sub okW removed endRemovedSub preSyncNum left removedSub m =
     do {
       (ss, q) \<leftarrow> pop_all heap_pop (syncList m ! removedSub);
       clear_sessions (clear_session okW removed endRemovedSub preSyncNum removedSub left) ss
         (m\<lparr>syncList := (syncList m)[removedSub := q]\<rparr>)
     }"

fun clear_loop ::
  "(nat \<Rightarrow> clsSyncManager \<Rightarrow> (wakeups \<times> clsSyncManager) option) \<Rightarrow>
   nat \<Rightarrow> nat \<Rightarrow> clsSyncManager \<Rightarrow> (wakeups \<times> clsSyncManager) option" where
  "clear_loop f endRemovedSub removedSub m =
     (if removedSub < endRemovedSub then Some ([], m)
      else do {
        (ws, m) \<leftarrow> f removedSub m;
        if removedSub = 0 then Some (ws, m)
        else do {
          (ws', m) \<leftarrow> clear_loop f endRemovedSub (removedSub - 1) m;
          Some (ws @ ws', m)
        }
      })"

definition clearSyncList ::
  "nat \<Rightarrow> nat \<Rightarrow> nat \<Rightarrow> nat \<Rightarrow> clsSyncStatus list \<Rightarrow> clsSyncManager \<Rightarrow>
   (wakeups \<times> clsSyncManager) option" where
  "clearSyncList removed removedAlives preAlives preSyncNum left m =
     (let okW = preSyncNum - removed;
          endRemovedSub = preAlives - removedAlives
      in clear_loop (clear_sub okW removed endRemovedSub preSyncNum left) endRemovedSub
           (preSyncNum - 1) m)"

definition updateNotifyList ::
  "clsGroupInfo \<Rightarrow> bool \<Rightarrow> clsSyncManager \<Rightarrow> (wakeups \<times> clsSyncManager) option" where
  "updateNotifyList g newNodeValid m =
     (let m = m\<lparr>aliveCount := length (alives g)\<rparr>;
          in_group = (\<lambda>n. map_of (info g) (ns_id n) \<noteq> None);
          prevAlives = length (filter ns_valid (notifyList m));
          removed = length (filter (\<lambda>n. \<not> in_group n) (notifyList m));
          aliveRemoved = length (filter (\<lambda>n. \<not> in_group n \<and> ns_valid n) (notifyList m));
          status = filter in_group (notifyList m)
      in do {
        (ws, m) \<leftarrow> (if removed \<noteq> 0
                  then clearSyncList removed aliveRemoved prevAlives (validSync m) (notifyList m) m
                  else Some ([], m));
        let merged = status @ map (\<lambda>(k, _). \<lparr>ns_offset = 0, ns_id = k, ns_valid = newNodeValid,
                                             sameReqTimes = 0\<rparr>)
                       (filter (\<lambda>(k, _). \<not> list_ex (\<lambda>n. ns_id n = k) status) (info g));
        if CLS_SYNC_SET_NUM < length merged then None
        else Some (ws, m\<lparr>notifyList := merged\<rparr>)
      })"

section \<open>Waiting\<close>

datatype sync_result = Return sdb_rc | WaitIn nat

definition sync_session ::
  "clsGroupInfo \<Rightarrow> clsSyncSession \<Rightarrow> nat \<Rightarrow> clsSyncManager \<Rightarrow> sync_result \<times> clsSyncManager" where
  "sync_session g session w m =
     (if w \<le> CLS_REPLSE_WRITE_ONE then (Return SDB_OK, m)
      else if 0 = validSync m then (Return SDB_OK, m)
      else if MSG_INVALID_ROUTEID = gprimary g \<or> gprimary g \<noteq> glocal g
      then (Return SDB_CLS_WAIT_SYNC_FAILED, m)
      else if aliveCount m < validSync m \<and> aliveCount m + 1 < w
      then (Return SDB_CLS_WAIT_SYNC_FAILED, m)
      else let sub = (if validSync m + 1 < w then CLS_W_2_SUB (validSync m + 1) else CLS_W_2_SUB w)
        in if DPS_INVALID_LSN_OFFSET \<noteq> checkList m ! sub \<and> endLsn session < checkList m ! sub
           then (Return SDB_OK, m)
           else (WaitIn sub, m\<lparr>syncList := (syncList m)[sub := heap_push session (syncList m ! sub)]\<rparr>))"

definition OSS_ONE_SEC :: int where
  "OSS_ONE_SEC = 1000"

text \<open>
  The loop of \<^verbatim>\<open>_wait\<close>. Every round brings whether the thread is interrupted and what its event
  was signalled with, if at all; the result is the return code and whether the session takes itself
  out of the heap, and \<open>None\<close> if the rounds do not end the wait.
\<close>

fun wait_loop :: "(bool \<times> sdb_rc option) list \<Rightarrow> int \<Rightarrow> (sdb_rc \<times> bool) option" where
  "wait_loop [] tmo = None"
| "wait_loop ((interrupted, ev) # rounds) tmo =
     (if interrupted then Some (SDB_APP_INTERRUPT, True)
      else case ev of
        Some rc \<Rightarrow> Some (rc, False)
      | None \<Rightarrow>
          let tmpTime = (if 0 \<le> tmo then (if OSS_ONE_SEC < tmo then OSS_ONE_SEC else tmo) else OSS_ONE_SEC)
          in if 0 \<le> tmo
             then (if tmo - tmpTime \<le> 0 then Some (SDB_TIMEOUT, True)
                   else wait_loop rounds (tmo - tmpTime))
             else wait_loop rounds tmo)"

fun cell_of :: "nat \<Rightarrow> nat \<Rightarrow> clsSyncSession list \<Rightarrow> nat option" where
  "cell_of cb i [] = None"
| "cell_of cb i (s # ss) = (if cb = eduCB s then Some i else cell_of cb (i + 1) ss)"

definition wait_remove :: "nat \<Rightarrow> nat \<Rightarrow> clsSyncManager \<Rightarrow> clsSyncManager" where
  "wait_remove cb sub m =
     (case cell_of cb 0 (heapData (syncList m ! sub)) of
        None \<Rightarrow> m
      | Some i \<Rightarrow> m\<lparr>syncList := (syncList m)[sub := snd (heap_erase i (syncList m ! sub))]\<rparr>)"

definition sync_wait ::
  "(bool \<times> sdb_rc option) list \<Rightarrow> nat \<Rightarrow> nat \<Rightarrow> int \<Rightarrow> clsSyncManager \<Rightarrow> (sdb_rc \<times> clsSyncManager) option" where
  "sync_wait rounds cb sub tmo m =
     (case wait_loop rounds tmo of
        None \<Rightarrow> None
      | Some (rc, remove) \<Rightarrow> Some (rc, if remove then wait_remove cb sub m else m))"

section \<open>Waking\<close>

definition plan_offset :: "clsSyncStatus \<Rightarrow> nat" where
  "plan_offset n =
     (if DPS_INVALID_LSN_OFFSET = ns_offset n then DPS_INVALID_LSN_OFFSET - 1 else ns_offset n)"

text \<open>The plan is a multiset, which iterates in ascending order.\<close>

definition createWakePlan :: "clsSyncManager \<Rightarrow> nat list" where
  "createWakePlan m = sort (map plan_offset (notifyList m))"

fun wake_loop :: "nat \<Rightarrow> nat list \<Rightarrow> clsSyncManager \<Rightarrow> (wakeups \<times> clsSyncManager) option" where
  "wake_loop sub [] m = Some ([], m)"
| "wake_loop sub (lsn # plan) m =
     do {
       (ss, q) \<leftarrow> drain heap_root heap_pop lsn (syncList m ! sub);
       (ws, m) \<leftarrow> wake_loop (sub + 1) plan
         (m\<lparr>checkList := (checkList m)[sub := lsn], syncList := (syncList m)[sub := q]\<rparr>);
       Some (map (\<lambda>s. (eduCB s, SDB_OK)) ss @ ws, m)
     }"

definition sync_wake :: "nat list \<Rightarrow> clsSyncManager \<Rightarrow> (wakeups \<times> clsSyncManager) option" where
  "sync_wake plan m = wake_loop 0 (rev plan) (m\<lparr>wakeTimeout := 0\<rparr>)"

definition complete_status :: "nat \<Rightarrow> clsSyncStatus \<Rightarrow> clsSyncStatus" where
  "complete_status offset n =
     (let result = compareOffset offset (ns_offset n);
          n' = n\<lparr>sameReqTimes := (if 0 = result then u32 (sameReqTimes n + 1) else 0)\<rparr>
      in if 0 < result then n'\<lparr>ns_offset := offset\<rparr> else n')"

definition sync_complete_inner ::
  "routeID \<Rightarrow> nat \<Rightarrow> clsSyncManager \<Rightarrow> (wakeups \<times> clsSyncManager) option" where
  "sync_complete_inner rid offset m =
     (let m = m\<lparr>notifyList := upd_first (\<lambda>n. ns_id n = rid) (complete_status offset) (notifyList m)\<rparr>
      in sync_wake (createWakePlan m) m)"

text \<open>A node that is not the primary forwards the report of a member to the primary.\<close>

datatype complete_result = Ignored | Forwarded routeID | Completed wakeups

definition sync_complete ::
  "clsGroupInfo \<Rightarrow> routeID \<Rightarrow> DPS_LSN \<Rightarrow> clsSyncManager \<Rightarrow> (complete_result \<times> clsSyncManager) option" where
  "sync_complete g rid lsn m =
     (if lsn_invalid lsn \<or> MSG_INVALID_ROUTEID = rid then Some (Ignored, m)
      else if gprimary g = glocal g \<and> MSG_INVALID_ROUTEID \<noteq> gprimary g
      then do {
        (ws, m) \<leftarrow> sync_complete_inner rid (lsn_offset lsn) m;
        Some (Completed ws, m)
      }
      else if MSG_INVALID_ROUTEID \<noteq> gprimary g then Some (Forwarded (gprimary g), m)
      else Some (Ignored, m))"

definition sync_handleTimeout :: "nat \<Rightarrow> clsSyncManager \<Rightarrow> (wakeups \<times> clsSyncManager) option" where
  "sync_handleTimeout interval m =
     (let m = m\<lparr>wakeTimeout := u32 (wakeTimeout m + interval)\<rparr>
      in if CLS_WAKE_W_TIMEOUT < wakeTimeout m then sync_wake (createWakePlan m) m else Some ([], m))"

text \<open>The loop of \<^verbatim>\<open>cut\<close> runs from the last heap in use down to the heap \<open>alives\<close>.\<close>

fun cut_loop :: "nat \<Rightarrow> nat \<Rightarrow> clsSyncManager \<Rightarrow> (wakeups \<times> clsSyncManager) option" where
  "cut_loop 0 al m = Some ([], m)"
| "cut_loop (Suc i) al m =
     (if i < al then Some ([], m)
      else do {
        (ss, q) \<leftarrow> pop_all heap_pop (syncList m ! i);
        (ws, m) \<leftarrow> cut_loop i al (m\<lparr>syncList := (syncList m)[i := q]\<rparr>);
        Some (map (\<lambda>s. (eduCB s, SDB_CLS_WAIT_SYNC_FAILED)) ss @ ws, m)
      })"

definition sync_cut :: "nat \<Rightarrow> clsSyncManager \<Rightarrow> (wakeups \<times> clsSyncManager) option" where
  "sync_cut al m = (if validSync m < al then Some ([], m) else cut_loop (validSync m) al m)"

section \<open>Sources of synchronisation\<close>

text \<open>The argument \<open>rand\<close> is the value \<^verbatim>\<open>ossRand()\<close> returns.\<close>

definition member_status :: "clsGroupInfo \<Rightarrow> routeID \<Rightarrow> CLS_SYNC_STATUS option" where
  "member_status g p = map_option (\<lambda>s. syncStatus (beat s)) (map_of (info g) p)"

definition sync_peers :: "CLS_SYNC_STATUS \<Rightarrow> clsGroupInfo \<Rightarrow> routeID set \<Rightarrow> routeID list" where
  "sync_peers st g blacklist =
     map fst (filter (\<lambda>(k, p). member_status g p = Some st \<and> k \<notin> blacklist) (alives g))"

definition getSyncSrc :: "nat \<Rightarrow> clsGroupInfo \<Rightarrow> routeID set \<Rightarrow> routeID" where
  "getSyncSrc rand g blacklist =
     (if is_alive (gprimary g) g \<and>
         Option.bind (map_of (alives g) (gprimary g)) (member_status g) = Some CLS_SYNC_STATUS_PEER
      then gprimary g
      else let ids = sync_peers CLS_SYNC_STATUS_PEER g blacklist
        in if ids = []
           then let ids = filter (\<lambda>k. k \<noteq> gprimary g) (sync_peers CLS_SYNC_STATUS_RC g blacklist)
             in if ids \<noteq> [] then ids ! (rand mod length ids) else gprimary g
           else ids ! (rand mod length ids))"

definition getFullSrc :: "clsGroupInfo \<Rightarrow> routeID" where
  "getFullSrc g =
     (if route_nodeID (gprimary g) \<noteq> route_nodeID (glocal g) then gprimary g else MSG_INVALID_ROUTEID)"

definition isReadyToReplay :: "clsGroupInfo \<Rightarrow> clsSyncManager \<Rightarrow> bool" where
  "isReadyToReplay g m = (if enableSync m then \<not> primary_is_me g else False)"

end
