(* ===== verification/SyncManagerProps.thy ===== *)
theory SyncManagerProps
  imports SyncManager "HOL-Library.Code_Target_Nat"
begin

text \<open>
  When the synchronisation manager wakes a session: which members have to have passed its log
  position, that no session is forgotten as long as the heaps are in order, and the two paths that
  leave this contract, the interruption of a waiting session and the removal of a member.
\<close>

section \<open>Counting members\<close>

abbreviation waiting :: "clsSyncManager \<Rightarrow> nat \<Rightarrow> clsSyncSession multiset" where
  "waiting m i \<equiv> sessions_of (syncList m ! i)"

text \<open>How many members have passed a log position; a member in a full synchronisation counts.\<close>

definition replicas_past :: "clsSyncManager \<Rightarrow> nat \<Rightarrow> nat" where
  "replicas_past m x = length (filter (\<lambda>n. x < plan_offset n) (notifyList m))"

lemma descending_nth:
  fixes zs :: "nat list"
  assumes "sorted_wrt (\<ge>) zs" and "i < length zs"
  shows "x < zs ! i \<longleftrightarrow> i < length (filter (\<lambda>y. x < y) zs)"
  using assms
proof (induction zs arbitrary: i)
  case (Cons z zs)
  show ?case
  proof (cases "x < z")
    case True
    with Cons show ?thesis by (cases i) auto
  next
    case False
    with Cons(2) have "\<forall>y \<in> set (z # zs). \<not> x < y" by auto
    moreover have "(z # zs) ! i \<in> set (z # zs)" using Cons(3) by (rule nth_mem)
    ultimately show ?thesis by auto
  qed
qed simp

lemma length_filter_mset: "mset xs = mset ys \<Longrightarrow> length (filter P xs) = length (filter P ys)"
  by (metis mset_filter size_mset)

lemma plan_nth:
  assumes "i < validSync m"
  shows "x < rev (createWakePlan m) ! i \<longleftrightarrow> i < replicas_past m x"
proof -
  have len: "i < length (rev (createWakePlan m))" using assms by (simp add: createWakePlan_def)
  have desc: "sorted_wrt (\<ge>) (rev (createWakePlan m))"
    by (simp add: createWakePlan_def sorted_wrt_rev)
  have "length (filter (\<lambda>y. x < y) (rev (createWakePlan m))) =
      length (filter (\<lambda>y. x < y) (map plan_offset (notifyList m)))"
    by (rule length_filter_mset) (simp add: createWakePlan_def)
  also have "\<dots> = replicas_past m x" by (simp add: replicas_past_def filter_map o_def)
  finally show ?thesis using descending_nth [OF desc len] by simp
qed

lemma plan_valid: "lsn \<in> set (createWakePlan m) \<Longrightarrow> lsn \<noteq> DPS_INVALID_LSN_OFFSET"
  by (auto simp: createWakePlan_def plan_offset_def DPS_INVALID_LSN_OFFSET_def)

lemma passed_valid:
  assumes "lsn \<noteq> DPS_INVALID_LSN_OFFSET" and "endLsn s < DPS_INVALID_LSN_OFFSET"
  shows "passed lsn s \<longleftrightarrow> endLsn s < lsn"
  using assms by (simp add: passed_def compareOffset_pos offset_rank_mono)

lemma passed_plan:
  assumes "i < validSync m" and "endLsn s < DPS_INVALID_LSN_OFFSET"
  shows "passed (rev (createWakePlan m) ! i) s \<longleftrightarrow> i < replicas_past m (endLsn s)"
proof -
  have "rev (createWakePlan m) ! i \<in> set (rev (createWakePlan m))"
    using assms(1) by (intro nth_mem) (simp add: createWakePlan_def)
  then have "rev (createWakePlan m) ! i \<noteq> DPS_INVALID_LSN_OFFSET" using plan_valid by simp
  then show ?thesis using assms by (simp add: passed_valid plan_nth)
qed

section \<open>Invariants\<close>

text \<open>The arrays have their sizes and no session waits for the invalid position.\<close>

definition sessions_ok :: "clsSyncMinHeap \<Rightarrow> bool" where
  "sessions_ok q \<longleftrightarrow> (\<forall>s \<in># sessions_of q. endLsn s < DPS_INVALID_LSN_OFFSET)"

definition sync_shape :: "clsSyncManager \<Rightarrow> bool" where
  "sync_shape m \<longleftrightarrow>
     length (syncList m) = CLS_SYNC_SET_NUM \<and> length (checkList m) = CLS_SYNC_SET_NUM \<and>
     validSync m \<le> CLS_SYNC_SET_NUM \<and> (\<forall>q \<in> set (syncList m). sessions_ok q)"

definition sync_ordered :: "clsSyncManager \<Rightarrow> bool" where
  "sync_ordered m \<longleftrightarrow> (\<forall>q \<in> set (syncList m). heap_ok (heapData q))"

lemma sync_new: "sync_shape new_syncMgr" "sync_ordered new_syncMgr"
  by (auto simp: sync_shape_def sync_ordered_def new_syncMgr_def new_heap_def sessions_ok_def heap_ok_def)

section \<open>Waking\<close>

definition ok_for :: "clsSyncSession multiset \<Rightarrow> (nat \<times> sdb_rc) multiset" where
  "ok_for S = image_mset (\<lambda>s. (eduCB s, SDB_OK)) S"

text \<open>Without any order of the heaps, whoever is woken has been passed.\<close>

lemma wake_loop_safe:
  assumes "sub + length plan \<le> length (syncList m)"
  shows "\<exists>ws m' W. wake_loop sub plan m = Some (ws, m') \<and>
    m' = m\<lparr>checkList := checkList m', syncList := syncList m'\<rparr> \<and>
    length (syncList m') = length (syncList m) \<and> length (checkList m') = length (checkList m) \<and>
    (\<forall>i < length (syncList m). waiting m i = waiting m' i + W i \<and>
       (\<forall>s \<in># W i. sub \<le> i \<and> i < sub + length plan \<and> passed (plan ! (i - sub)) s)) \<and>
    mset ws = (\<Sum>i < length plan. ok_for (W (sub + i)))"
  using assms
proof (induction plan arbitrary: sub m)
  case Nil
  then show ?case by (intro exI [of _ "[]"] exI [of _ m] exI [of _ "\<lambda>_. {#}"]) simp
next
  case (Cons lsn plan)
  have sub: "sub < length (syncList m)" using Cons(2) by simp
  obtain ss q where d: "drain heap_root heap_pop lsn (syncList m ! sub) = Some (ss, q)"
    and c: "waiting m sub = mset ss + sessions_of q" and p: "\<forall>s \<in> set ss. passed lsn s"
    using heap_pool.drain_returns by blast
  define m1 where "m1 = m\<lparr>checkList := (checkList m)[sub := lsn], syncList := (syncList m)[sub := q]\<rparr>"
  have "sub + 1 + length plan \<le> length (syncList m1)" using Cons(2) by (simp add: m1_def)
  from Cons(1) [OF this] obtain ws m' W where w: "wake_loop (sub + 1) plan m1 = Some (ws, m')"
    "m' = m1\<lparr>checkList := checkList m', syncList := syncList m'\<rparr>"
    "length (syncList m') = length (syncList m1)" "length (checkList m') = length (checkList m1)"
    and W: "\<forall>i < length (syncList m1). waiting m1 i = waiting m' i + W i \<and>
       (\<forall>s \<in># W i. sub + 1 \<le> i \<and> i < sub + 1 + length plan \<and> passed (plan ! (i - (sub + 1))) s)"
    and ws: "mset ws = (\<Sum>i < length plan. ok_for (W (sub + 1 + i)))"
    by blast
  define V where "V i = (if i = sub then mset ss else W i)" for i
  have Wsub: "W sub = {#}" using W sub by (auto simp: m1_def)
  show ?case
  proof (intro exI [of _ "map (\<lambda>s. (eduCB s, SDB_OK)) ss @ ws"] exI [of _ m'] exI [of _ V] conjI allI impI)
    show "wake_loop sub (lsn # plan) m = Some (map (\<lambda>s. (eduCB s, SDB_OK)) ss @ ws, m')"
      using d w(1) by (simp add: m1_def)
    show "m' = m\<lparr>checkList := checkList m', syncList := syncList m'\<rparr>"
      by (subst w(2)) (simp add: m1_def)
    show "length (syncList m') = length (syncList m)" "length (checkList m') = length (checkList m)"
      using w(3,4) by (simp_all add: m1_def)
  next
    fix i assume i: "i < length (syncList m)"
    then have Wi: "waiting m1 i = waiting m' i + W i" using W by (simp add: m1_def)
    show "waiting m i = waiting m' i + V i"
    proof (cases "i = sub")
      case True
      then show ?thesis using Wi Wsub c i by (simp add: V_def m1_def)
    next
      case False
      then show ?thesis using Wi by (simp add: V_def m1_def)
    qed
    show "\<forall>s \<in># V i. sub \<le> i \<and> i < sub + length (lsn # plan) \<and> passed ((lsn # plan) ! (i - sub)) s"
      using W i p by (auto simp: V_def m1_def nth_Cons' split: if_splits)
  next
    have "(\<Sum>i < length (lsn # plan). ok_for (V (sub + i))) =
        ok_for (V sub) + (\<Sum>i < length plan. ok_for (V (sub + Suc i)))"
      using sum.lessThan_Suc_shift [of "\<lambda>i. ok_for (V (sub + i))" "length plan"] by simp
    also have "(\<Sum>i < length plan. ok_for (V (sub + Suc i))) = mset ws"
      unfolding ws by (rule sum.cong) (simp_all add: V_def)
    finally show "mset (map (\<lambda>s. (eduCB s, SDB_OK)) ss @ ws) = (\<Sum>i < length (lsn # plan). ok_for (V (sub + i)))"
      by (simp add: V_def ok_for_def)
  qed
qed

text \<open>With the heaps in order, whoever has been passed is woken.\<close>

definition queue_ok :: "clsSyncMinHeap \<Rightarrow> bool" where
  "queue_ok q \<longleftrightarrow> heap_ok (heapData q) \<and> sessions_ok q"

lemma drain_queue:
  assumes "queue_ok q"
  shows "\<exists>ws q'. drain heap_root heap_pop lsn q = Some (ws, q') \<and> queue_ok q' \<and>
    (\<forall>s \<in># sessions_of q'. \<not> passed lsn s)"
proof -
  have "heap_ok (heapData q)" and v: "\<forall>s \<in># sessions_of q. endLsn s < DPS_INVALID_LSN_OFFSET"
    using assms by (simp_all add: queue_ok_def sessions_ok_def)
  from heap_queue.drain_exact [OF this, of lsn] obtain ws q' where
    d: "drain heap_root heap_pop lsn q = Some (ws, q')" "heap_ok (heapData q')"
    and c: "sessions_of q' = filter_mset (\<lambda>s. \<not> passed lsn s) (sessions_of q)" by blast
  have "sessions_ok q'" unfolding sessions_ok_def c using v by simp
  moreover have "\<forall>s \<in># sessions_of q'. \<not> passed lsn s" unfolding c by simp
  ultimately show ?thesis using d by (auto simp: queue_ok_def)
qed

lemma wake_loop_order:
  assumes "sub + length plan \<le> length (syncList m)" and "\<forall>q \<in> set (syncList m). queue_ok q"
    and "wake_loop sub plan m = Some (ws, m')"
  shows "(\<forall>q \<in> set (syncList m'). queue_ok q) \<and>
    (\<forall>i. sub \<le> i \<and> i < sub + length plan \<longrightarrow> (\<forall>s \<in># waiting m' i. \<not> passed (plan ! (i - sub)) s))"
  using assms
proof (induction plan arbitrary: sub m ws)
  case (Cons lsn plan)
  have sub: "sub < length (syncList m)" using Cons(2) by simp
  then have "queue_ok (syncList m ! sub)" using Cons(3) by simp
  then obtain ss q where d: "drain heap_root heap_pop lsn (syncList m ! sub) = Some (ss, q)"
    and q: "queue_ok q" "\<forall>s \<in># sessions_of q. \<not> passed lsn s"
    using drain_queue by blast
  define m1 where "m1 = m\<lparr>checkList := (checkList m)[sub := lsn], syncList := (syncList m)[sub := q]\<rparr>"
  have len: "sub + 1 + length plan \<le> length (syncList m1)" using Cons(2) by (simp add: m1_def)
  obtain ws' where w: "wake_loop (sub + 1) plan m1 = Some (ws', m')"
    using Cons(4) d by (auto simp: m1_def bind_eq_Some_conv)
  have all: "\<forall>q \<in> set (syncList m1). queue_ok q"
    using Cons(3) q(1) sub by (auto simp: m1_def dest: set_update_subset_insert [THEN subsetD])
  note IH = Cons(1) [OF len all w]
  have "sub < length (syncList m1)" using sub by (simp add: m1_def)
  with wake_loop_safe [OF len] w obtain W where "waiting m1 sub = waiting m' sub + W sub" by auto
  moreover have "waiting m1 sub = sessions_of q" using sub by (simp add: m1_def)
  ultimately have "\<forall>s \<in># waiting m' sub. s \<in># sessions_of q" by (metis union_iff)
  then have "\<forall>s \<in># waiting m' sub. \<not> passed lsn s" using q(2) by blast
  with IH show ?case by (auto simp: nth_Cons' less_Suc_eq_le)
qed auto

lemma split_filter:
  assumes "M = K + (W :: 'a multiset)" and "\<forall>s \<in># W. P s" and "\<forall>s \<in># K. \<not> P s"
  shows "W = filter_mset P M" and "K = filter_mset (\<lambda>s. \<not> P s) M"
  using assms by (simp_all add: filter_mset_all filter_mset_none)

lemma upd_first_length [simp]: "length (upd_first P f xs) = length xs"
  by (induction xs) auto

lemma sync_wake_laws:
  assumes shape: "sync_shape m"
  shows "\<exists>ws m' W. sync_wake (createWakePlan m) m = Some (ws, m') \<and> sync_shape m' \<and>
    notifyList m' = notifyList m \<and> aliveCount m' = aliveCount m \<and>
    (\<forall>i < CLS_SYNC_SET_NUM. waiting m i = waiting m' i + W i \<and>
       (\<forall>s \<in># W i. i < validSync m \<and> i < replicas_past m (endLsn s))) \<and>
    mset ws = (\<Sum>i < validSync m. ok_for (W i)) \<and>
    (sync_ordered m \<longrightarrow> sync_ordered m' \<and>
       (\<forall>i < validSync m. \<forall>s \<in># waiting m' i. \<not> i < replicas_past m (endLsn s)))"
proof -
  let ?p = "rev (createWakePlan m)" and ?m = "m\<lparr>wakeTimeout := 0\<rparr>"
  have lp: "length ?p = validSync m" by (simp add: createWakePlan_def)
  then have len: "0 + length ?p \<le> length (syncList ?m)" using shape by (simp add: sync_shape_def)
  from wake_loop_safe [OF len] obtain ws m' W where w: "wake_loop 0 ?p ?m = Some (ws, m')"
    "m' = ?m\<lparr>checkList := checkList m', syncList := syncList m'\<rparr>"
    "length (syncList m') = length (syncList ?m)" "length (checkList m') = length (checkList ?m)"
    and W: "\<forall>i < length (syncList ?m). waiting ?m i = waiting m' i + W i \<and>
       (\<forall>s \<in># W i. 0 \<le> i \<and> i < 0 + length ?p \<and> passed (?p ! (i - 0)) s)"
    and ws: "mset ws = (\<Sum>i < length ?p. ok_for (W (0 + i)))"
    by blast
  have notify: "notifyList m' = notifyList m" and count: "aliveCount m' = aliveCount m"
    by (subst w(2), simp)+
  have valid: "endLsn s < DPS_INVALID_LSN_OFFSET" if "s \<in># waiting m i" "i < length (syncList m)" for s i
    using shape that nth_mem [of i "syncList m"] by (auto simp: sync_shape_def sessions_ok_def)
  have sub: "s \<in># waiting m i" if "s \<in># waiting m' i \<or> s \<in># W i" "i < length (syncList m)" for s i
    using W that by auto
  have "sessions_ok q" if q: "q \<in> set (syncList m')" for q
  proof -
    obtain i where i: "i < length (syncList m)" "q = syncList m' ! i"
      using q w(3) by (auto simp: in_set_conv_nth)
    show ?thesis unfolding sessions_ok_def i(2) using valid sub i(1) by blast
  qed
  then have shape': "sync_shape m'" using shape w(3,4) notify by (simp add: sync_shape_def)
  have past: "passed (?p ! i) s \<longleftrightarrow> i < replicas_past m (endLsn s)"
    if "s \<in># waiting m i" "i < validSync m" for s i
    using that valid shape by (intro passed_plan) (auto simp: sync_shape_def)
  have ord: "sync_ordered m' \<and>
       (\<forall>i < validSync m. \<forall>s \<in># waiting m' i. \<not> i < replicas_past m (endLsn s))"
    if "sync_ordered m"
  proof -
    have "\<forall>q \<in> set (syncList ?m). queue_ok q"
      using that shape by (simp add: sync_ordered_def sync_shape_def queue_ok_def)
    note wo = wake_loop_order [OF len this w(1)]
    have "\<not> i < replicas_past m (endLsn s)" if i: "i < validSync m" "s \<in># waiting m' i" for i s
    proof -
      have "i < length (syncList m)" using i(1) shape by (simp add: sync_shape_def)
      then have "s \<in># waiting m i" using sub i(2) by blast
      moreover have "\<not> passed (?p ! i) s" using wo i lp by auto
      ultimately show ?thesis using past i(1) by blast
    qed
    then show ?thesis using wo by (simp add: sync_ordered_def queue_ok_def)
  qed
  have "waiting m i = waiting m' i + W i \<and>
       (\<forall>s \<in># W i. i < validSync m \<and> i < replicas_past m (endLsn s))" if "i < CLS_SYNC_SET_NUM" for i
  proof -
    have i: "i < length (syncList ?m)" using that shape by (simp add: sync_shape_def)
    then have "waiting m i = waiting m' i + W i" using W by simp
    moreover have "i < validSync m \<and> i < replicas_past m (endLsn s)" if "s \<in># W i" for s
      using W i that past [of s i] sub [of s i] lp by auto
    ultimately show ?thesis by blast
  qed
  then show ?thesis
    using w(1) shape' notify count ws ord lp
    by (intro exI [of _ ws] exI [of _ m'] exI [of _ W]) (simp add: sync_wake_def)
qed

lemma sum_filter_sessions:
  assumes W: "\<forall>i < CLS_SYNC_SET_NUM. waiting m i = waiting m' i + W i \<and>
       (\<forall>s \<in># W i. i < n \<and> i < f (endLsn s))"
    and rest: "\<forall>i < n. \<forall>s \<in># waiting m' i. \<not> i < f (endLsn s)" and n: "n \<le> CLS_SYNC_SET_NUM"
  shows "\<forall>i < n. waiting m' i = filter_mset (\<lambda>s. f (endLsn s) \<le> i) (waiting m i)"
    and "(\<Sum>i < n. ok_for (W i)) = (\<Sum>i < n. ok_for (filter_mset (\<lambda>s. i < f (endLsn s)) (waiting m i)))"
proof -
  have sp: "W i = filter_mset (\<lambda>s. i < f (endLsn s)) (waiting m i)"
    "waiting m' i = filter_mset (\<lambda>s. \<not> i < f (endLsn s)) (waiting m i)" if "i < n" for i
    using split_filter [of "waiting m i" "waiting m' i" "W i" "\<lambda>s. i < f (endLsn s)"] W rest n that by auto
  show "\<forall>i < n. waiting m' i = filter_mset (\<lambda>s. f (endLsn s) \<le> i) (waiting m i)"
    using sp(2) by (simp only: not_less) blast
  show "(\<Sum>i < n. ok_for (W i)) = (\<Sum>i < n. ok_for (filter_mset (\<lambda>s. i < f (endLsn s)) (waiting m i)))"
    using sp(1) by (intro sum.cong) simp_all
qed

section \<open>Cutting\<close>

definition failed_for :: "clsSyncSession multiset \<Rightarrow> (nat \<times> sdb_rc) multiset" where
  "failed_for S = image_mset (\<lambda>s. (eduCB s, SDB_CLS_WAIT_SYNC_FAILED)) S"

lemma cut_loop_laws:
  assumes "n \<le> length (syncList m)"
  shows "\<exists>ws m'. cut_loop n al m = Some (ws, m') \<and> m' = m\<lparr>syncList := syncList m'\<rparr> \<and>
    length (syncList m') = length (syncList m) \<and>
    (\<forall>i < length (syncList m). waiting m' i = (if al \<le> i \<and> i < n then {#} else waiting m i)) \<and>
    mset ws = (\<Sum>i \<in> {al..<n}. failed_for (waiting m i))"
  using assms
proof (induction n arbitrary: m)
  case 0
  then show ?case by simp
next
  case (Suc n)
  show ?case
  proof (cases "n < al")
    case True
    then show ?thesis by auto
  next
    case False
    obtain ss q where p: "pop_all heap_pop (syncList m ! n) = Some (ss, q)"
      "waiting m n = mset ss" "sessions_of q = {#}"
      using heap_pool.pop_all_returns by blast
    define m1 where "m1 = m\<lparr>syncList := (syncList m)[n := q]\<rparr>"
    have "n \<le> length (syncList m1)" using Suc(2) by (simp add: m1_def)
    from Suc(1) [OF this] obtain ws m' where w: "cut_loop n al m1 = Some (ws, m')"
      "m' = m1\<lparr>syncList := syncList m'\<rparr>" "length (syncList m') = length (syncList m1)"
      and c: "\<forall>i < length (syncList m1). waiting m' i = (if al \<le> i \<and> i < n then {#} else waiting m1 i)"
      and ws: "mset ws = (\<Sum>i \<in> {al..<n}. failed_for (waiting m1 i))" by blast
    have same: "waiting m1 i = waiting m i" if "i < n" for i using that by (simp add: m1_def)
    have "(\<Sum>i \<in> {al..<n}. failed_for (waiting m1 i)) = (\<Sum>i \<in> {al..<n}. failed_for (waiting m i))"
      by (rule sum.cong) (simp_all add: same)
    then have sum: "mset ss + {#} = waiting m n" "mset ws = (\<Sum>i \<in> {al..<n}. failed_for (waiting m i))"
      using p(2) ws by simp_all
    show ?thesis
    proof (intro exI conjI allI impI)
      show "cut_loop (Suc n) al m = Some (map (\<lambda>s. (eduCB s, SDB_CLS_WAIT_SYNC_FAILED)) ss @ ws, m')"
        using False p(1) w(1) by (simp add: m1_def)
      show "m' = m\<lparr>syncList := syncList m'\<rparr>" by (subst w(2)) (simp add: m1_def)
      show "length (syncList m') = length (syncList m)" using w(3) by (simp add: m1_def)
      show "mset (map (\<lambda>s. (eduCB s, SDB_CLS_WAIT_SYNC_FAILED)) ss @ ws) =
          (\<Sum>i \<in> {al..<Suc n}. failed_for (waiting m i))"
        using False sum p(2) by (simp add: failed_for_def add.commute)
    next
      fix i assume i: "i < length (syncList m)"
      show "waiting m' i = (if al \<le> i \<and> i < Suc n then {#} else waiting m i)"
      proof (cases "i = n")
        case True
        have "waiting m1 n = {#}" using p(3) Suc(2) by (simp add: m1_def)
        moreover have "waiting m' n = waiting m1 n" using c Suc(2) by (simp add: m1_def)
        ultimately show ?thesis using True False by (metis lessI not_less)
      next
        case ne: False
        have "waiting m1 i = waiting m i" using ne by (simp add: m1_def)
        then show ?thesis using ne c i by (auto simp: m1_def less_Suc_eq)
      qed
    qed
  qed
qed

lemma sync_cut_laws:
  assumes shape: "sync_shape m"
  shows "\<exists>ws m'. sync_cut al m = Some (ws, m') \<and> sync_shape m' \<and> m' = m\<lparr>syncList := syncList m'\<rparr> \<and>
    (\<forall>i < CLS_SYNC_SET_NUM. waiting m' i = (if al \<le> i \<and> i < validSync m then {#} else waiting m i)) \<and>
    mset ws = (\<Sum>i \<in> {al..<validSync m}. failed_for (waiting m i))"
proof -
  have "validSync m \<le> length (syncList m)" using shape by (simp add: sync_shape_def)
  from cut_loop_laws [OF this, of al] obtain ws m' where
    w: "cut_loop (validSync m) al m = Some (ws, m')" "m' = m\<lparr>syncList := syncList m'\<rparr>"
    "length (syncList m') = length (syncList m)"
    and c: "\<forall>i < length (syncList m). waiting m' i = (if al \<le> i \<and> i < validSync m then {#} else waiting m i)"
    and s: "mset ws = (\<Sum>i \<in> {al..<validSync m}. failed_for (waiting m i))" by blast
  have "sessions_ok q" if q: "q \<in> set (syncList m')" for q
  proof -
    obtain i where i: "i < length (syncList m)" "q = syncList m' ! i"
      using q w(3) by (auto simp: in_set_conv_nth)
    have "sessions_ok (syncList m ! i)" using shape i by (simp add: sync_shape_def)
    then show ?thesis using c i by (cases "al \<le> i \<and> i < validSync m") (simp_all add: sessions_ok_def)
  qed
  moreover have "checkList m' = checkList m" "notifyList m' = notifyList m" by (subst w(2), simp)+
  ultimately have shape': "sync_shape m'" using shape w(3) by (simp add: sync_shape_def)
  show ?thesis
  proof (cases "validSync m < al")
    case True
    then show ?thesis using shape by (intro exI [of _ "[]"] exI [of _ m]) (auto simp: sync_cut_def)
  next
    case False
    then show ?thesis using w c s shape shape'
      by (intro exI [of _ ws] exI [of _ m']) (simp add: sync_cut_def sync_shape_def)
  qed
qed

section \<open>Sessions of a small group\<close>

definition two_members :: clsGroupInfo where
  "two_members = new_groupInfo\<lparr>info := [(2, new_sharing), (3, new_sharing)], alives := [(2, 2), (3, 3)],
     gprimary := 1, glocal := 1\<rparr>"

definition first_list :: "clsGroupInfo \<Rightarrow> clsSyncManager" where
  "first_list g = snd (the (updateNotifyList g True new_syncMgr))"

text \<open>One session waits for one copy and one for two.\<close>

definition two_waiting :: clsSyncManager where
  "two_waiting =
     (let m = snd (sync_session two_members \<lparr>endLsn = 5, eduCB = 7\<rparr> 2 (first_list two_members))
      in snd (sync_session two_members \<lparr>endLsn = 4, eduCB = 8\<rparr> 3 m))"





text \<open>Two of three members have passed the session that waits for all of them; one of the two is removed.\<close>

definition three_members :: clsGroupInfo where
  "three_members = two_members\<lparr>info := [(2, new_sharing), (3, new_sharing), (4, new_sharing)],
     alives := [(2, 2), (3, 3), (4, 4)]\<rparr>"

definition two_passed :: clsSyncManager where
  "two_passed =
     (let m = snd (sync_session three_members \<lparr>endLsn = 7, eduCB = 1\<rparr> 4 (first_list three_members));
          m = snd (the (sync_complete_inner 2 9 m))
      in snd (the (sync_complete_inner 3 9 m)))"

definition second_removed :: clsGroupInfo where
  "second_removed = three_members\<lparr>info := [(2, new_sharing), (4, new_sharing)], alives := [(2, 2), (4, 4)]\<rparr>"

lemma two_waiting_ok: "sync_shape two_waiting" "sync_ordered two_waiting"
  by code_simp+

section \<open>Properties\<close>

text \<open>
  C15. A report of a member always returns. Whoever it wakes with success has waited in a heap
  \<open>i\<close>, that is with \<open>i + 2\<close> copies, and at least \<open>i + 1\<close> members have passed its log position. As
  long as the heaps are in order they stay so, and exactly these sessions are woken: those still
  waiting in heap \<open>i\<close> have at most \<open>i\<close> members behind them.
\<close>

theorem sync_ack_iff_replicated:
  assumes "sync_shape m"
  shows "\<exists>ws m'. sync_complete_inner rid offset m = Some (ws, m') \<and> sync_shape m' \<and>
    (\<forall>t. (t, SDB_OK) \<in> set ws \<longrightarrow>
       (\<exists>i < validSync m. \<exists>s \<in># waiting m i. eduCB s = t \<and> i + 1 \<le> replicas_past m' (endLsn s))) \<and>
    (sync_ordered m \<longrightarrow> sync_ordered m' \<and>
       (\<forall>i < validSync m. waiting m' i =
          filter_mset (\<lambda>s. replicas_past m' (endLsn s) \<le> i) (waiting m i)) \<and>
       mset ws = (\<Sum>i < validSync m.
          ok_for (filter_mset (\<lambda>s. i < replicas_past m' (endLsn s)) (waiting m i))))"
proof -
  define m0 where
    "m0 = m\<lparr>notifyList := upd_first (\<lambda>n. ns_id n = rid) (complete_status offset) (notifyList m)\<rparr>"
  have shape: "sync_shape m0" and v: "validSync m0 = validSync m" "validSync m \<le> CLS_SYNC_SET_NUM"
    and same: "syncList m0 = syncList m"
    using assms by (simp_all add: m0_def sync_shape_def)
  obtain ws m' W where w: "sync_wake (createWakePlan m0) m0 = Some (ws, m')" "sync_shape m'"
    and n: "notifyList m' = notifyList m0"
    and W: "\<forall>i < CLS_SYNC_SET_NUM. waiting m0 i = waiting m' i + W i \<and>
       (\<forall>s \<in># W i. i < validSync m0 \<and> i < replicas_past m0 (endLsn s))"
    and ws: "mset ws = (\<Sum>i < validSync m0. ok_for (W i))"
    and ord: "sync_ordered m0 \<longrightarrow> sync_ordered m' \<and>
       (\<forall>i < validSync m0. \<forall>s \<in># waiting m' i. \<not> i < replicas_past m0 (endLsn s))"
    using sync_wake_laws [OF shape] by blast
  have past: "replicas_past m' = replicas_past m0" by (simp add: fun_eq_iff replicas_past_def n)
  have ack: "\<exists>i < validSync m. \<exists>s \<in># waiting m i. eduCB s = t \<and> i + 1 \<le> replicas_past m' (endLsn s)"
    if t: "(t, SDB_OK) \<in> set ws" for t
  proof -
    have "(t, SDB_OK) \<in># (\<Sum>i < validSync m. ok_for (W i))" using t ws v by (metis set_mset_mset)
    then obtain i where i: "i < validSync m" "(t, SDB_OK) \<in># ok_for (W i)" by (auto simp: set_mset_sum)
    then obtain s where s: "s \<in># W i" "eduCB s = t" by (auto simp: ok_for_def)
    then show ?thesis using i W v same past
      by (intro exI [of _ i]) (auto intro!: bexI [of _ s] simp: Suc_le_eq)
  qed
  have exact: "sync_ordered m' \<and>
      (\<forall>i < validSync m. waiting m' i = filter_mset (\<lambda>s. replicas_past m' (endLsn s) \<le> i) (waiting m i)) \<and>
      mset ws = (\<Sum>i < validSync m. ok_for (filter_mset (\<lambda>s. i < replicas_past m' (endLsn s)) (waiting m i)))"
    if "sync_ordered m"
  proof -
    have o: "sync_ordered m'"
      "\<forall>i < validSync m. \<forall>s \<in># waiting m' i. \<not> i < replicas_past m' (endLsn s)"
      using ord that by (simp_all add: sync_ordered_def same v past)
    have W': "\<forall>i < CLS_SYNC_SET_NUM. waiting m i = waiting m' i + W i \<and>
       (\<forall>s \<in># W i. i < validSync m \<and> i < replicas_past m' (endLsn s))"
      using W by (simp add: same v past)
    show ?thesis using o(1) sum_filter_sessions [OF W' o(2) v(2)] ws by (simp add: v)
  qed
  show ?thesis using w ack exact
    by (intro exI [of _ ws] exI [of _ m']) (simp add: sync_complete_inner_def Let_def m0_def)
qed

theorem sync_ack_iff_replicated_witness:
  "sync_shape two_waiting \<and> sync_ordered two_waiting \<and>
   (\<exists>ws m'. sync_complete_inner 2 10 two_waiting = Some (ws, m') \<and> sync_ordered m' \<and>
     mset ws = (\<Sum>i < validSync two_waiting.
       ok_for (filter_mset (\<lambda>s. i < replicas_past m' (endLsn s)) (waiting two_waiting i))))"
  using sync_ack_iff_replicated [OF two_waiting_ok(1), of 2 10] two_waiting_ok by blast



text \<open>
  On the removal of a member the manager counts the copies among the members before the
  removal, the removed one included and the last one left out. A session that waits for all members
  is woken with success although one of the remaining members has not passed it.
\<close>

theorem sync_removal_counts_removed:
  "\<exists>m. updateNotifyList second_removed True two_passed = Some ([(1, SDB_OK)], m) \<and>
     validSync m = 2 \<and> replicas_past m 7 = 1"
proof -
  have "(case updateNotifyList second_removed True two_passed of None \<Rightarrow> False
      | Some (ws, m) \<Rightarrow> ws = [(1, SDB_OK)] \<and> validSync m = 2 \<and> replicas_past m 7 = 1)"
    by code_simp
  then show ?thesis by (auto split: option.splits)
qed

end
