(* ===== verification/VoteMachine.thy ===== *)
theory VoteMachine
  imports SyncManager
begin

text \<open>
  The election of a primary: the status objects \<^verbatim>\<open>_clsVSSilence\<close>, \<^verbatim>\<open>_clsVSSecondary\<close>,
  \<^verbatim>\<open>_clsVSVote\<close>, \<^verbatim>\<open>_clsVSAnnounce\<close> and \<^verbatim>\<open>_clsVSPrimary\<close> with their common base
  \<^verbatim>\<open>_clsVoteStatus\<close>, and the machine that runs one of them (\<^verbatim>\<open>clsVoteMachine.cpp\<close>). An operation
  takes the state of the node and returns it; what it sends is appended to the outbox of the node.
  What other parts of the engine contribute (options, start-up state, log) is the record \<open>nodeEnv\<close>,
  an argument of every operation.
\<close>

section \<open>Messages and environment\<close>

datatype CLS_ELECTION_STATUS =
    CLS_ELECTION_STATUS_SILENCE
  | CLS_ELECTION_STATUS_SEC
  | CLS_ELECTION_STATUS_VOTE
  | CLS_ELECTION_STATUS_ANNOUNCE
  | CLS_ELECTION_STATUS_PRIMARY

datatype CLS_ELECTION_ROUND = CLS_ELECTION_ROUND_STAGE_ONE | CLS_ELECTION_ROUND_STAGE_TWO

datatype clsMsg =
    MsgClsElectionBallot (weights: DPS_LSN) (ballot_identity: routeID) (ballot_round: CLS_ELECTION_ROUND)
  | MsgClsElectionRes (res_identity: routeID) (res_round: CLS_ELECTION_ROUND) (res: sdb_rc)
  | MsgClsBeat clsGroupBeat
  | MsgClsBeatRes routeID
  | MsgClsNodeStatusNotify (notify_node: routeID) (fullSync: bool)

text \<open>
  \<open>ntyActive\<close> is whether \<^verbatim>\<open>_clsMgr::ntyPrimaryChange\<close> passes a change of the primary on: the node
  has started up and the data centre is active and writable.
\<close>

record nodeEnv =
  sharingBreakTime :: nat
  optWeight :: nat
  startupOK :: bool
  bucketEmpty :: bool
  needSyncTrans :: bool
  expectLsn :: DPS_LSN
  fileBeginLsn :: DPS_LSN
  memBeginLsn :: DPS_LSN
  ntyActive :: bool

section \<open>State of a node\<close>

record clsVoteStatus =
  vs_time :: nat
  acceptedNum :: nat

record clsVoteMachine =
  vm_current :: "CLS_ELECTION_STATUS option"
  vm_status :: "CLS_ELECTION_STATUS \<Rightarrow> clsVoteStatus"
  shadowWeight :: nat
  forceMillis :: nat

text \<open>
  \<open>n_fault\<close> records that the synchronisation manager has not returned or has written outside an
  array; \<open>n_woken\<close> collects the sessions that were woken; \<open>n_restart\<close> records a call of
  \<^verbatim>\<open>PMD_RESTART_DB\<close>, after which the process starts again.
\<close>

record clsNode =
  n_info :: clsGroupInfo
  n_vote :: clsVoteMachine
  n_sync :: clsSyncManager
  startShiftTime :: int
  pmdPrimary :: bool
  n_active :: bool
  n_beatTime :: nat
  n_sent :: "(routeID \<times> clsMsg) list"
  n_woken :: wakeups
  n_fault :: bool
  n_restart :: bool

definition CLS_VOTE_CS_TIME :: nat where
  "CLS_VOTE_CS_TIME = 3000"

definition maxSliceTime :: nat where
  "maxSliceTime = 30000"

definition CLS_ELECTION_WEIGHT_MIN :: nat where
  "CLS_ELECTION_WEIGHT_MIN = 0"

definition CLS_ELECTION_WEIGHT_USR_MIN :: nat where
  "CLS_ELECTION_WEIGHT_USR_MIN = 1"

definition CLS_GET_WEIGHT :: "nat \<Rightarrow> nat \<Rightarrow> nat" where
  "CLS_GET_WEIGHT w shadow =
     (if CLS_ELECTION_WEIGHT_MIN = shadow then shadow else if w < shadow then shadow else w)"

definition CLS_IS_MAJORITY :: "nat \<Rightarrow> nat \<Rightarrow> bool" where
  "CLS_IS_MAJORITY now members \<longleftrightarrow> members div 2 < now"

text \<open>The conversion of a \<^verbatim>\<open>UINT32\<close> to an \<^verbatim>\<open>INT32\<close>.\<close>

definition s32 :: "nat \<Rightarrow> int" where
  "s32 n = (if n < 2147483648 then int n else int n - 4294967296)"

definition vs_of :: "CLS_ELECTION_STATUS \<Rightarrow> clsNode \<Rightarrow> clsVoteStatus" where
  "vs_of st nd = vm_status (n_vote nd) st"

definition upd_vote :: "(clsVoteMachine \<Rightarrow> clsVoteMachine) \<Rightarrow> clsNode \<Rightarrow> clsNode" where
  "upd_vote f nd = nd\<lparr>n_vote := f (n_vote nd)\<rparr>"

definition upd_vs :: "CLS_ELECTION_STATUS \<Rightarrow> (clsVoteStatus \<Rightarrow> clsVoteStatus) \<Rightarrow> clsNode \<Rightarrow> clsNode" where
  "upd_vs st f = upd_vote (\<lambda>v. v\<lparr>vm_status := (vm_status v)(st := f (vm_status v st))\<rparr>)"

definition add_time :: "CLS_ELECTION_STATUS \<Rightarrow> nat \<Rightarrow> clsNode \<Rightarrow> clsNode" where
  "add_time st millisec = upd_vs st (\<lambda>s. s\<lparr>vs_time := u32 (vs_time s + millisec)\<rparr>)"

definition inc_accepted :: "CLS_ELECTION_STATUS \<Rightarrow> clsNode \<Rightarrow> clsNode" where
  "inc_accepted st = upd_vs st (\<lambda>s. s\<lparr>acceptedNum := u32 (acceptedNum s + 1)\<rparr>)"

definition vs_isAccepted :: "CLS_ELECTION_STATUS \<Rightarrow> clsNode \<Rightarrow> bool" where
  "vs_isAccepted st nd = CLS_IS_MAJORITY (acceptedNum (vs_of st nd) + 1) (groupSize (n_info nd))"

definition upd_info :: "(clsGroupInfo \<Rightarrow> clsGroupInfo) \<Rightarrow> clsNode \<Rightarrow> clsNode" where
  "upd_info f nd = nd\<lparr>n_info := f (n_info nd)\<rparr>"

definition syncSend :: "routeID \<Rightarrow> clsMsg \<Rightarrow> clsNode \<Rightarrow> clsNode" where
  "syncSend dest msg nd = nd\<lparr>n_sent := n_sent nd @ [(dest, msg)]\<rparr>"

text \<open>Run an operation of the synchronisation manager of the node.\<close>

definition on_sync ::
  "(clsSyncManager \<Rightarrow> (wakeups \<times> clsSyncManager) option) \<Rightarrow> clsNode \<Rightarrow> clsNode" where
  "on_sync f nd =
     (case f (n_sync nd) of
        None \<Rightarrow> nd\<lparr>n_fault := True\<rparr>
      | Some (ws, m) \<Rightarrow> nd\<lparr>n_sync := m, n_woken := n_woken nd @ ws\<rparr>)"

section \<open>Ballots\<close>

definition broadcastAlives :: "clsMsg \<Rightarrow> clsNode \<Rightarrow> clsNode" where
  "broadcastAlives msg nd =
     nd\<lparr>n_sent := n_sent nd @ map (\<lambda>st. (identity (beat st), msg)) (alive_members (n_info nd))\<rparr>"

text \<open>The first \<^verbatim>\<open>_launch\<close>: send a ballot to all alive members unless something speaks against it.\<close>

definition launch :: "nodeEnv \<Rightarrow> CLS_ELECTION_ROUND \<Rightarrow> clsNode \<Rightarrow> sdb_rc \<times> clsNode" where
  "launch e rnd nd =
     (let g = n_info nd in
      if 0 \<noteq> gprimary g then (SDB_CLS_VOTE_FAILED, nd)
      else if \<not> CLS_IS_MAJORITY (aliveSize g) (groupSize g) then (SDB_CLS_VOTE_FAILED, nd)
      else if \<not> startupOK e \<and> \<not> isAllNodeAbnormal 0 g then (SDB_CLS_VOTE_FAILED, nd)
      else if \<not> bucketEmpty e then (SDB_CLS_VOTE_FAILED, nd)
      else if needSyncTrans e \<and> startupOK e then (SDB_CLS_VOTE_FAILED, nd)
      else if list_ex (\<lambda>st. \<not> (SERVICE_ABNORMAL = serviceStatus (beat st) \<and> startupOK e) \<and>
                             lsn_compare (expectLsn e) (beat_endLsn (beat st)) < 0) (alive_members g)
      then (SDB_CLS_VOTE_FAILED, nd)
      else (SDB_OK, broadcastAlives (MsgClsElectionBallot (expectLsn e) (glocal g) rnd) nd))"

text \<open>Which node is preferred when a ballot reaches a node that may judge it: the position in the log
  decides, then the weights, then the identifiers.\<close>

definition prefers_ballot :: "nodeEnv \<Rightarrow> nat \<Rightarrow> nat \<Rightarrow> DPS_LSN \<Rightarrow> routeID \<Rightarrow> routeID \<Rightarrow> bool" where
  "prefers_ballot e shadow remoteWeight lsn rid me =
     (let cRc = lsn_compare (expectLsn e) lsn
      in if cRc < 0 then True
         else if 0 < cRc then False
         else let w = CLS_GET_WEIGHT (optWeight e) shadow
           in if w < remoteWeight then True
              else if remoteWeight < w then False
              else if remoteWeight < optWeight e then False
              else if rid < me then False
              else True)"

text \<open>The second \<^verbatim>\<open>_launch\<close>: answer a ballot.\<close>

definition answer :: "nodeEnv \<Rightarrow> DPS_LSN \<Rightarrow> routeID \<Rightarrow> CLS_ELECTION_ROUND \<Rightarrow> clsNode \<Rightarrow> sdb_rc \<times> clsNode" where
  "answer e lsn rid rnd nd =
     (let g = n_info nd;
          accept = (SDB_OK, syncSend rid (MsgClsElectionRes (glocal g) rnd SDB_OK) nd);
          accepterr = (SDB_CLS_VOTE_FAILED,
                       syncSend rid (MsgClsElectionRes (glocal g) rnd SDB_CLS_VOTE_FAILED) nd)
      in case map_of (info g) rid of
        None \<Rightarrow> (SDB_CLS_VOTE_FAILED, nd)
      | Some peer \<Rightarrow>
          let peerAbnormal = (SERVICE_NORMAL \<noteq> serviceStatus (beat peer));
              localAbnormal = (\<not> startupOK e)
          in if MSG_INVALID_ROUTEID \<noteq> gprimary g then accepterr
             else if \<not> CLS_IS_MAJORITY (aliveSize g) (groupSize g) then (SDB_CLS_VOTE_FAILED, nd)
             else if list_ex (\<lambda>st. \<not> (\<not> peerAbnormal \<and> SERVICE_ABNORMAL = serviceStatus (beat st)) \<and>
                                    lsn_compare lsn (beat_endLsn (beat st)) < 0) (alive_members g)
             then accepterr
             else if \<not> localAbnormal \<or> peerAbnormal
             then (if prefers_ballot e (shadowWeight (n_vote nd)) (beat_weight (beat peer)) lsn rid (glocal g)
                   then accept else accepterr)
             else accept)"

section \<open>The status objects\<close>

text \<open>The handlers return the next status.\<close>

definition silence_handleTimeout :: "nodeEnv \<Rightarrow> nat \<Rightarrow> clsNode \<Rightarrow> CLS_ELECTION_STATUS \<times> clsNode" where
  "silence_handleTimeout e millisec nd =
     (let nd = add_time CLS_ELECTION_STATUS_SILENCE millisec nd;
          t = vs_time (vs_of CLS_ELECTION_STATUS_SILENCE nd)
      in (if sharingBreakTime e + 1000 \<le> t \<or> maxSliceTime \<le> t
          then CLS_ELECTION_STATUS_SEC else CLS_ELECTION_STATUS_SILENCE, nd))"

definition silence_active :: "clsNode \<Rightarrow> CLS_ELECTION_STATUS \<times> clsNode" where
  "silence_active nd =
     (let nd = upd_vs CLS_ELECTION_STATUS_SILENCE (\<lambda>s. s\<lparr>vs_time := 0\<rparr>) nd
      in (if groupSize (n_info nd) = 1 then CLS_ELECTION_STATUS_SEC else CLS_ELECTION_STATUS_SILENCE, nd))"

fun secondary_handleInput :: "nodeEnv \<Rightarrow> clsMsg \<Rightarrow> clsNode \<Rightarrow> CLS_ELECTION_STATUS \<times> clsNode" where
  "secondary_handleInput e (MsgClsElectionBallot lsn rid rnd) nd =
     (let nd = nd\<lparr>startShiftTime := -1\<rparr>;
          (rc, nd) = answer e lsn rid rnd nd
      in (if rnd \<noteq> CLS_ELECTION_ROUND_STAGE_ONE \<and> rc = SDB_OK
          then CLS_ELECTION_STATUS_SILENCE else CLS_ELECTION_STATUS_SEC, nd))"
| "secondary_handleInput e _ nd = (CLS_ELECTION_STATUS_SEC, nd)"

definition secondary_handleTimeout :: "nat \<Rightarrow> clsNode \<Rightarrow> CLS_ELECTION_STATUS \<times> clsNode" where
  "secondary_handleTimeout millisec nd =
     (let nd = add_time CLS_ELECTION_STATUS_SEC millisec nd;
          nd = (if 0 < startShiftTime nd \<and> isAllNodeBeat (n_info nd) then nd\<lparr>startShiftTime := -1\<rparr> else nd);
          t = vs_time (vs_of CLS_ELECTION_STATUS_SEC nd)
      in if (startShiftTime nd < 0 \<or> startShiftTime nd \<le> s32 t) \<and> CLS_VOTE_CS_TIME \<le> t
         then (CLS_ELECTION_STATUS_VOTE, nd\<lparr>startShiftTime := -1\<rparr>)
         else (CLS_ELECTION_STATUS_SEC, nd))"

definition secondary_active :: "clsNode \<Rightarrow> CLS_ELECTION_STATUS \<times> clsNode" where
  "secondary_active nd =
     (let nd = upd_vs CLS_ELECTION_STATUS_SEC (\<lambda>s. s\<lparr>vs_time := 0\<rparr>) nd
      in if groupSize (n_info nd) = 1
         then (CLS_ELECTION_STATUS_VOTE, nd\<lparr>startShiftTime := -1\<rparr>)
         else (CLS_ELECTION_STATUS_SEC, nd))"

fun vote_handleInput :: "nodeEnv \<Rightarrow> clsMsg \<Rightarrow> clsNode \<Rightarrow> CLS_ELECTION_STATUS \<times> clsNode" where
  "vote_handleInput e (MsgClsElectionBallot lsn rid rnd) nd =
     (let (rc, nd) = answer e lsn rid rnd nd
      in (if rc = SDB_OK
          then (if rnd = CLS_ELECTION_ROUND_STAGE_ONE then CLS_ELECTION_STATUS_SEC
                else CLS_ELECTION_STATUS_SILENCE)
          else CLS_ELECTION_STATUS_VOTE, nd))"
| "vote_handleInput e (MsgClsElectionRes rid rnd rc) nd =
     (if rnd = CLS_ELECTION_ROUND_STAGE_ONE
      then (if rc = SDB_OK
            then let nd = inc_accepted CLS_ELECTION_STATUS_VOTE nd
              in (if groupSize (n_info nd) \<le> acceptedNum (vs_of CLS_ELECTION_STATUS_VOTE nd) + 1
                  then CLS_ELECTION_STATUS_ANNOUNCE else CLS_ELECTION_STATUS_VOTE, nd)
            else (CLS_ELECTION_STATUS_SEC, nd))
      else (CLS_ELECTION_STATUS_VOTE, nd))"
| "vote_handleInput e _ nd = (CLS_ELECTION_STATUS_VOTE, nd)"

definition vote_handleTimeout :: "nodeEnv \<Rightarrow> nat \<Rightarrow> clsNode \<Rightarrow> CLS_ELECTION_STATUS \<times> clsNode" where
  "vote_handleTimeout e millisec nd =
     (let nd = add_time CLS_ELECTION_STATUS_VOTE millisec nd
      in (if CLS_VOTE_CS_TIME \<le> vs_time (vs_of CLS_ELECTION_STATUS_VOTE nd)
          then (if \<not> startupOK e \<and> isAllNodeAbnormal 0 (n_info nd) then CLS_ELECTION_STATUS_SEC
                else if vs_isAccepted CLS_ELECTION_STATUS_VOTE nd then CLS_ELECTION_STATUS_ANNOUNCE
                else CLS_ELECTION_STATUS_SEC)
          else CLS_ELECTION_STATUS_VOTE, nd))"

definition vote_active :: "nodeEnv \<Rightarrow> clsNode \<Rightarrow> CLS_ELECTION_STATUS \<times> clsNode" where
  "vote_active e nd =
     (let nd = upd_vs CLS_ELECTION_STATUS_VOTE (\<lambda>s. s\<lparr>vs_time := 0, acceptedNum := 0\<rparr>) nd
      in if groupSize (n_info nd) = 1 \<and> startupOK e then (CLS_ELECTION_STATUS_ANNOUNCE, nd)
         else (CLS_ELECTION_STATUS_VOTE, snd (launch e CLS_ELECTION_ROUND_STAGE_ONE nd)))"

fun announce_handleInput :: "clsMsg \<Rightarrow> clsNode \<Rightarrow> CLS_ELECTION_STATUS \<times> clsNode" where
  "announce_handleInput (MsgClsElectionRes rid rnd rc) nd =
     (if rnd = CLS_ELECTION_ROUND_STAGE_ONE then (CLS_ELECTION_STATUS_ANNOUNCE, nd)
      else if rc = SDB_OK
      then let nd = inc_accepted CLS_ELECTION_STATUS_ANNOUNCE nd
        in (if groupSize (n_info nd) \<le> acceptedNum (vs_of CLS_ELECTION_STATUS_ANNOUNCE nd) + 1
            then CLS_ELECTION_STATUS_PRIMARY else CLS_ELECTION_STATUS_ANNOUNCE, nd)
      else (CLS_ELECTION_STATUS_SILENCE, nd))"
| "announce_handleInput _ nd = (CLS_ELECTION_STATUS_ANNOUNCE, nd)"

definition announce_handleTimeout :: "nat \<Rightarrow> clsNode \<Rightarrow> CLS_ELECTION_STATUS \<times> clsNode" where
  "announce_handleTimeout millisec nd =
     (let nd = add_time CLS_ELECTION_STATUS_ANNOUNCE millisec nd
      in (if CLS_VOTE_CS_TIME \<le> vs_time (vs_of CLS_ELECTION_STATUS_ANNOUNCE nd)
          then (if vs_isAccepted CLS_ELECTION_STATUS_ANNOUNCE nd then CLS_ELECTION_STATUS_PRIMARY
                else CLS_ELECTION_STATUS_SILENCE)
          else CLS_ELECTION_STATUS_ANNOUNCE, nd))"

definition announce_active :: "nodeEnv \<Rightarrow> clsNode \<Rightarrow> CLS_ELECTION_STATUS \<times> clsNode" where
  "announce_active e nd =
     (let nd = upd_vs CLS_ELECTION_STATUS_ANNOUNCE (\<lambda>s. s\<lparr>vs_time := 0, acceptedNum := 0\<rparr>) nd
      in if groupSize (n_info nd) = 1 then (CLS_ELECTION_STATUS_PRIMARY, nd)
         else (CLS_ELECTION_STATUS_ANNOUNCE, snd (launch e CLS_ELECTION_ROUND_STAGE_TWO nd)))"

definition primary_handleTimeout :: "nat \<Rightarrow> clsNode \<Rightarrow> CLS_ELECTION_STATUS \<times> clsNode" where
  "primary_handleTimeout millisec nd =
     (let nd = add_time CLS_ELECTION_STATUS_PRIMARY millisec nd
      in if CLS_VOTE_CS_TIME \<le> vs_time (vs_of CLS_ELECTION_STATUS_PRIMARY nd)
         then (if CLS_IS_MAJORITY (length (alives (n_info nd)) + 1) (groupSize (n_info nd))
               then (CLS_ELECTION_STATUS_PRIMARY, upd_vs CLS_ELECTION_STATUS_PRIMARY (\<lambda>s. s\<lparr>vs_time := 0\<rparr>) nd)
               else (CLS_ELECTION_STATUS_SILENCE, nd))
         else (CLS_ELECTION_STATUS_PRIMARY, nd))"

definition reelectionDone :: "clsNode \<Rightarrow> clsNode" where
  "reelectionDone = upd_vote (\<lambda>v. v\<lparr>shadowWeight := CLS_ELECTION_WEIGHT_USR_MIN\<rparr>)"

definition primary_active :: "clsNode \<Rightarrow> CLS_ELECTION_STATUS \<times> clsNode" where
  "primary_active nd =
     (let nd = upd_vs CLS_ELECTION_STATUS_PRIMARY (\<lambda>s. s\<lparr>vs_time := 0\<rparr>) nd;
          nd = upd_info (\<lambda>g. g\<lparr>gprimary := glocal g\<rparr>) nd;
          nd = nd\<lparr>pmdPrimary := True\<rparr>
      in (CLS_ELECTION_STATUS_PRIMARY, reelectionDone nd))"

text \<open>After the change, \<^verbatim>\<open>ntyPrimaryChange\<close> cuts the sessions that wait for copies.\<close>

definition primary_deactive :: "nodeEnv \<Rightarrow> clsNode \<Rightarrow> clsNode" where
  "primary_deactive e nd =
     (let nd = upd_info (\<lambda>g. if glocal g = gprimary g then g\<lparr>gprimary := MSG_INVALID_ROUTEID\<rparr> else g) nd;
          nd = nd\<lparr>pmdPrimary := False\<rparr>
      in if ntyActive e then on_sync (sync_cut 0) nd else nd)"

section \<open>The machine\<close>

fun vs_active :: "nodeEnv \<Rightarrow> CLS_ELECTION_STATUS \<Rightarrow> clsNode \<Rightarrow> CLS_ELECTION_STATUS \<times> clsNode" where
  "vs_active e CLS_ELECTION_STATUS_SILENCE nd = silence_active nd"
| "vs_active e CLS_ELECTION_STATUS_SEC nd = secondary_active nd"
| "vs_active e CLS_ELECTION_STATUS_VOTE nd = vote_active e nd"
| "vs_active e CLS_ELECTION_STATUS_ANNOUNCE nd = announce_active e nd"
| "vs_active e CLS_ELECTION_STATUS_PRIMARY nd = primary_active nd"

fun vs_deactive :: "nodeEnv \<Rightarrow> CLS_ELECTION_STATUS option \<Rightarrow> clsNode \<Rightarrow> clsNode" where
  "vs_deactive e (Some CLS_ELECTION_STATUS_PRIMARY) nd = primary_deactive e nd"
| "vs_deactive e _ nd = nd"

fun vs_handleInput :: "nodeEnv \<Rightarrow> CLS_ELECTION_STATUS \<Rightarrow> clsMsg \<Rightarrow> clsNode \<Rightarrow> CLS_ELECTION_STATUS \<times> clsNode" where
  "vs_handleInput e CLS_ELECTION_STATUS_SILENCE msg nd = (CLS_ELECTION_STATUS_SILENCE, nd)"
| "vs_handleInput e CLS_ELECTION_STATUS_SEC msg nd = secondary_handleInput e msg nd"
| "vs_handleInput e CLS_ELECTION_STATUS_VOTE msg nd = vote_handleInput e msg nd"
| "vs_handleInput e CLS_ELECTION_STATUS_ANNOUNCE msg nd = announce_handleInput msg nd"
| "vs_handleInput e CLS_ELECTION_STATUS_PRIMARY msg nd = (CLS_ELECTION_STATUS_PRIMARY, nd)"

fun vs_handleTimeout :: "nodeEnv \<Rightarrow> CLS_ELECTION_STATUS \<Rightarrow> nat \<Rightarrow> clsNode \<Rightarrow> CLS_ELECTION_STATUS \<times> clsNode" where
  "vs_handleTimeout e CLS_ELECTION_STATUS_SILENCE ms nd = silence_handleTimeout e ms nd"
| "vs_handleTimeout e CLS_ELECTION_STATUS_SEC ms nd = secondary_handleTimeout ms nd"
| "vs_handleTimeout e CLS_ELECTION_STATUS_VOTE ms nd = vote_handleTimeout e ms nd"
| "vs_handleTimeout e CLS_ELECTION_STATUS_ANNOUNCE ms nd = announce_handleTimeout ms nd"
| "vs_handleTimeout e CLS_ELECTION_STATUS_PRIMARY ms nd = primary_handleTimeout ms nd"

text \<open>A status that does not keep itself on activation hands over to the next one in this order.\<close>

fun rank :: "CLS_ELECTION_STATUS \<Rightarrow> nat" where
  "rank CLS_ELECTION_STATUS_SILENCE = 0"
| "rank CLS_ELECTION_STATUS_SEC = 1"
| "rank CLS_ELECTION_STATUS_VOTE = 2"
| "rank CLS_ELECTION_STATUS_ANNOUNCE = 3"
| "rank CLS_ELECTION_STATUS_PRIMARY = 4"

lemma rank_le: "rank st \<le> 4"
  by (cases st) simp_all

lemma vs_active_rank:
  assumes "vs_active e st nd = (st', nd')" and "st' \<noteq> st"
  shows "rank st' = Suc (rank st)"
  using assms
  by (cases st) (auto simp: silence_active_def secondary_active_def vote_active_def announce_active_def
      primary_active_def Let_def split: if_splits)

text \<open>
  The loop of the macro \<^verbatim>\<open>CLS_VOTE_ACTIVE_STATUS\<close>: leave the previous status, activate the next one
  and go on with the status its activation asks for.
\<close>

function activate_loop ::
  "nodeEnv \<Rightarrow> CLS_ELECTION_STATUS option \<Rightarrow> CLS_ELECTION_STATUS \<Rightarrow> clsNode \<Rightarrow> clsNode" where
  "activate_loop e prevVS next nd =
     (let (next', nd') = vs_active e next (vs_deactive e prevVS nd)
      in if next' = next then upd_vote (\<lambda>v. v\<lparr>vm_current := Some next\<rparr>) nd'
         else activate_loop e (Some next) next' nd')"
  by pat_completeness auto

termination
proof (relation "measure (\<lambda>(e, prevVS, next, nd). 4 - rank next)", goal_cases)
  case 1
  show ?case by simp
next
  case (2 e prevVS "next" nd p next' nd')
  then have "rank next' = Suc (rank next)" by (metis vs_active_rank)
  then show ?case using rank_le [of next'] by simp
qed

declare activate_loop.simps [simp del]

definition activate_status :: "nodeEnv \<Rightarrow> CLS_ELECTION_STATUS \<Rightarrow> clsNode \<Rightarrow> clsNode" where
  "activate_status e next nd =
     (let now = vm_current (n_vote nd);
          nd = (if now = Some next then nd else activate_loop e now next nd)
      in upd_vote (\<lambda>v. v\<lparr>forceMillis := 0\<rparr>) nd)"

text \<open>The status objects are created without initial values: \<open>junk\<close> is what their fields hold.\<close>

definition vote_init :: "nodeEnv \<Rightarrow> (CLS_ELECTION_STATUS \<Rightarrow> clsVoteStatus) \<Rightarrow> clsNode \<Rightarrow> clsNode" where
  "vote_init e junk nd =
     activate_status e CLS_ELECTION_STATUS_SILENCE (upd_vote (\<lambda>v. v\<lparr>vm_status := junk\<rparr>) nd)"

definition vm_handleInput :: "nodeEnv \<Rightarrow> clsMsg \<Rightarrow> clsNode \<Rightarrow> sdb_rc \<times> clsNode" where
  "vm_handleInput e msg nd =
     (case vm_current (n_vote nd) of
        None \<Rightarrow> (SDB_INVALIDARG, nd)
      | Some st \<Rightarrow> let (next, nd) = vs_handleInput e st msg nd in (SDB_OK, activate_status e next nd))"

definition vm_handleTimeout :: "nodeEnv \<Rightarrow> nat \<Rightarrow> clsNode \<Rightarrow> clsNode" where
  "vm_handleTimeout e millisec nd =
     (case vm_current (n_vote nd) of
        None \<Rightarrow> nd
      | Some st \<Rightarrow>
          if 0 < forceMillis (n_vote nd)
          then upd_vote (\<lambda>v. v\<lparr>forceMillis :=
                 (if forceMillis v \<le> millisec then 0 else forceMillis v - millisec)\<rparr>) nd
          else let (next, nd) = vs_handleTimeout e st millisec nd in activate_status e next nd)"

definition vm_force :: "nodeEnv \<Rightarrow> CLS_ELECTION_STATUS \<Rightarrow> nat \<Rightarrow> clsNode \<Rightarrow> clsNode" where
  "vm_force e st millis nd =
     (let nd = activate_status e st nd
      in if 0 < millis then upd_vote (\<lambda>v. v\<lparr>forceMillis := millis\<rparr>) nd else nd)"

end
