(* ===== verification/ReplicateSet.thy ===== *)
theory ReplicateSet
  imports VoteMachine
begin

text \<open>
  The replica set of a node (\<^verbatim>\<open>clsReplicateSet.cpp\<close>), which feeds the vote machine and the
  synchronisation manager: beats keep the list of alive members, missing beats break it, the
  catalogue replaces the list of members, and messages, timers and events reach the vote machine.
  Requests to the catalogue and the event a reelection waits for are not modelled.
\<close>

section \<open>Alive members\<close>

definition reset_times :: "clsSharingStatus \<Rightarrow> clsSharingStatus" where
  "reset_times st = st\<lparr>ss_timeout := 0, breakTime := 0, deadtime := 0, sendFailedTimes := 0\<rparr>"

definition alive :: "routeID \<Rightarrow> clsNode \<Rightarrow> sdb_rc \<times> clsNode" where
  "alive rid nd =
     (case map_of (info (n_info nd)) rid of
        None \<Rightarrow> (SDB_REPL_INVALID_GROUP_MEMBER, nd)
      | Some status \<Rightarrow>
          let nd = (if \<not> is_alive rid (n_info nd)
                    then (upd_info (\<lambda>g. g\<lparr>alives := smap_insert rid rid (alives g)\<rparr>) nd)
                      \<lparr>n_sync := updateNodeStatus (identity (beat status)) True (n_sync nd)\<rparr>
                    else nd)
          in (SDB_OK, upd_info (\<lambda>g. g\<lparr>info := smap_put rid (reset_times status) (info g)\<rparr>) nd))"

definition aliveNode :: "routeID \<Rightarrow> clsNode \<Rightarrow> sdb_rc \<times> clsNode" where
  "aliveNode rid nd =
     (case map_of (alives (n_info nd)) rid of
        None \<Rightarrow> (SDB_CLS_NODE_BSFAULT, nd)
      | Some p \<Rightarrow> (SDB_OK, upd_info (\<lambda>g. case map_of (info g) p of
            None \<Rightarrow> g
          | Some status \<Rightarrow> g\<lparr>info := smap_put p (reset_times status) (info g)\<rparr>) nd))"

text \<open>The first two loops of \<^verbatim>\<open>_checkBreak\<close> let the time of every member run on.\<close>

definition run_times :: "nat \<Rightarrow> clsGroupInfo \<Rightarrow> clsGroupInfo" where
  "run_times millisec g =
     g\<lparr>info := map (\<lambda>(k, st).
        if is_alive k g then (k, st\<lparr>ss_timeout := u32 (ss_timeout st + millisec)\<rparr>)
        else (k, st\<lparr>breakTime := u32 (breakTime st + millisec)\<rparr>)) (info g)\<rparr>"

definition break_member :: "routeID \<Rightarrow> clsSharingStatus \<Rightarrow> clsNode \<Rightarrow> clsNode" where
  "break_member k status nd =
     (let st = status\<lparr>beat := (beat status)\<lparr>beatID := CLS_BEATID_INVALID, serviceStatus := SERVICE_UNKNOWN\<rparr>\<rparr>
      in (upd_info (\<lambda>g. g\<lparr>gprimary := (if k = gprimary g then MSG_INVALID_ROUTEID else gprimary g),
             info := smap_put k st (info g), alives := smap_erase k (alives g)\<rparr>) nd)
         \<lparr>n_sync := updateNodeStatus (identity (beat status)) False (n_sync nd)\<rparr>)"

fun break_loop :: "nat \<Rightarrow> (routeID \<times> routeID) list \<Rightarrow> clsNode \<Rightarrow> clsNode" where
  "break_loop breakTm [] nd = nd"
| "break_loop breakTm ((k, p) # as) nd =
     (case map_of (info (n_info nd)) p of
        None \<Rightarrow> break_loop breakTm as nd
      | Some status \<Rightarrow>
          break_loop breakTm as (if breakTm \<le> ss_timeout status then break_member k status nd else nd))"

definition checkBreak :: "nodeEnv \<Rightarrow> nat \<Rightarrow> clsNode \<Rightarrow> clsNode" where
  "checkBreak e millisec nd =
     (let nd = upd_info (run_times millisec) nd;
          needErase = list_ex (\<lambda>st. sharingBreakTime e \<le> ss_timeout st) (alive_members (n_info nd))
      in if \<not> needErase then nd
         else let nd = break_loop (sharingBreakTime e) (alives (n_info nd)) nd
           in if primary_is_me (n_info nd) then on_sync (sync_cut (length (alives (n_info nd)))) nd else nd)"

section \<open>Beats\<close>

text \<open>What a beat says about the primary.\<close>

definition beat_role :: "nodeEnv \<Rightarrow> clsGroupBeat \<Rightarrow> clsNode \<Rightarrow> clsNode" where
  "beat_role e b nd =
     (if CLS_GROUP_ROLE_PRIMARY = role b
      then let
        nd = nd\<lparr>startShiftTime := -1\<rparr>;
        nd = (if primary_is_me (n_info nd)
              then (if lsn_compare (expectLsn e) (beat_endLsn b) \<le> 0
                    then vm_force e CLS_ELECTION_STATUS_SILENCE 0
                           (upd_info (\<lambda>g. g\<lparr>gprimary := identity b\<rparr>) nd)
                    else nd)
              else if gprimary (n_info nd) \<noteq> identity b
              then upd_info (\<lambda>g. g\<lparr>gprimary := identity b\<rparr>)
                     (vm_force e CLS_ELECTION_STATUS_SILENCE 0 nd)
              else nd)
        in if CLS_ELECTION_WEIGHT_USR_MIN \<noteq> shadowWeight (n_vote nd) then reelectionDone nd else nd
      else if gprimary (n_info nd) = identity b
      then upd_info (\<lambda>g. g\<lparr>gprimary := MSG_INVALID_ROUTEID\<rparr>) nd
      else nd)"

definition handleSharingBeat :: "nodeEnv \<Rightarrow> clsGroupBeat \<Rightarrow> clsNode \<Rightarrow> sdb_rc \<times> clsNode" where
  "handleSharingBeat e b nd =
     (let g = n_info nd;
          known = map_of (info g) (identity b)
      in if beat_hashCode b \<noteq> hashCode g \<or> (known = None \<and> beat_version b \<le> gversion g)
         then (SDB_REPL_INVALID_GROUP_MEMBER, nd)
         else let
           (rc, nd) =
             (if gversion g < beat_version b then (SDB_REPL_LOCAL_G_V_EXPIRED, nd)
              else case known of
                None \<Rightarrow> (SDB_OK, nd)
              | Some status \<Rightarrow>
                  (SDB_OK, beat_role e b
                     (upd_info (\<lambda>g. g\<lparr>info := smap_put (identity b) (status\<lparr>beat := b\<rparr>) (info g)\<rparr>) nd)));
           nd = snd (alive (identity b) nd)
           in (rc, syncSend (identity b) (MsgClsBeatRes (glocal (n_info nd))) nd))"

definition handleSharingBeatRes :: "routeID \<Rightarrow> clsNode \<Rightarrow> sdb_rc \<times> clsNode" where
  "handleSharingBeatRes rid nd = alive rid nd"

text \<open>
  What sending a beat comes to: the argument \<open>net\<close> tells for every member whether it is delivered,
  whether the connection is refused or whether it fails otherwise.
\<close>

datatype send_result = Sent | Refused | SendFailed

definition beat_of :: "nodeEnv \<Rightarrow> nat \<Rightarrow> clsNode \<Rightarrow> clsGroupBeat" where
  "beat_of e bid nd =
     (let g = n_info nd in
      new_beat\<lparr>identity := glocal g, beat_endLsn := expectLsn e, beat_version := gversion g,
        beat_hashCode := hashCode g,
        role := (if primary_is_me g then CLS_GROUP_ROLE_PRIMARY else CLS_GROUP_ROLE_SECONDARY),
        beatID := bid,
        serviceStatus := (if startupOK e then SERVICE_NORMAL else SERVICE_ABNORMAL),
        beat_weight := CLS_GET_WEIGHT (optWeight e) (shadowWeight (n_vote nd))\<rparr>)"

definition beat_member ::
  "nodeEnv \<Rightarrow> (routeID \<Rightarrow> send_result) \<Rightarrow> clsGroupBeat \<Rightarrow> routeID \<times> clsSharingStatus \<Rightarrow> clsNode \<Rightarrow> clsNode" where
  "beat_member e net b kst nd =
     (let (k, st) = kst in
      if sharingBreakTime e \<le> deadtime st \<and> n_beatTime nd \<le> deadtime st
      then upd_info (\<lambda>g. g\<lparr>info := smap_put k (st\<lparr>deadtime := deadtime st - n_beatTime nd\<rparr>) (info g)\<rparr>) nd
      else let
        b = b\<lparr>syncStatus := clsSyncWindow (beat_endLsn (beat st)) (fileBeginLsn e) (memBeginLsn e) (expectLsn e)\<rparr>;
        failed = (case net k of Refused \<Rightarrow> u32 (sendFailedTimes st + 1) | _ \<Rightarrow> sendFailedTimes st);
        dead = (if is_alive k (n_info nd) then deadtime st
                else u32 (u32_sub (sharingBreakTime e) 1 +
                  (case net k of Refused \<Rightarrow> 1800000 | _ \<Rightarrow> 120000)))
        in case net k of
          Sent \<Rightarrow> syncSend (identity (beat st)) (MsgClsBeat b)
            (upd_info (\<lambda>g. g\<lparr>info := smap_put k (st\<lparr>sendFailedTimes := 0\<rparr>) (info g)\<rparr>) nd)
        | _ \<Rightarrow> upd_info (\<lambda>g. g\<lparr>info := smap_put k (st\<lparr>sendFailedTimes := failed, deadtime := dead\<rparr>) (info g)\<rparr>) nd)"

definition sharingBeat :: "nodeEnv \<Rightarrow> (routeID \<Rightarrow> send_result) \<Rightarrow> clsNode \<Rightarrow> clsNode" where
  "sharingBeat e net nd =
     (if info (n_info nd) = [] then nd
      else let (bid, g) = nextBeatID (n_info nd);
               b = beat_of e bid nd;
               nd = nd\<lparr>n_info := g\<rparr>
        in fold (beat_member e net b) (info g) nd)"

section \<open>The members of the group\<close>

text \<open>A node of the catalogue's reply: its identifier and whether it is active.\<close>

record netRouteNode =
  rn_id :: routeID
  rn_active :: bool

text \<open>\<open>updateRoute\<close> tells for which members the route has changed.\<close>

definition add_member :: "(routeID \<Rightarrow> bool) \<Rightarrow> routeID \<times> netRouteNode \<Rightarrow> clsNode \<Rightarrow> clsNode" where
  "add_member updateRoute kn nd =
     (let (k, node) = kn in
      if k = glocal (n_info nd) then nd
      else if \<not> rn_active node \<and> startShiftTime nd < 0 then nd
      else if updateRoute (rn_id node)
      then let
        old = (case map_of (info (n_info nd)) k of None \<Rightarrow> new_sharing | Some st \<Rightarrow> st);
        st = old\<lparr>beat := (beat old)\<lparr>identity := rn_id node, beatID := 0\<rparr>\<rparr>
        in snd (alive (rn_id node) (upd_info (\<lambda>g. g\<lparr>info := smap_put k st (info g)\<rparr>) nd))
      else nd)"

text \<open>An inactive member becomes active for the rest of the function while the node is starting.\<close>

definition node_stays :: "int \<Rightarrow> (routeID \<times> netRouteNode) list \<Rightarrow> routeID \<Rightarrow> bool" where
  "node_stays shift nodes k =
     (case map_of nodes k of None \<Rightarrow> False | Some node \<Rightarrow> rn_active node \<or> \<not> shift < 0)"

definition drop_members :: "(routeID \<Rightarrow> bool) \<Rightarrow> clsGroupInfo \<Rightarrow> clsGroupInfo" where
  "drop_members stays g =
     g\<lparr>gprimary := (if map_of (info g) (gprimary g) \<noteq> None \<and> \<not> stays (gprimary g) then 0 else gprimary g),
       alives := filter (\<lambda>(k, _). stays k \<or> map_of (info g) k = None) (alives g),
       info := filter (\<lambda>(k, _). stays k) (info g)\<rparr>"

definition setGroupSet ::
  "(routeID \<Rightarrow> bool) \<Rightarrow> nat \<Rightarrow> (routeID \<times> netRouteNode) list \<Rightarrow> clsNode \<Rightarrow> sdb_rc \<times> clsNode" where
  "setGroupSet updateRoute version nodes nd =
     (let g = n_info nd in
      if version \<le> gversion g then (SDB_REPL_REMOTE_G_V_EXPIRED, nd)
      else if CLS_REPLSET_MAX_NODE_SIZE < length nodes then (SDB_CLS_INVALID_GROUP_NUM, nd)
      else let
        nd = upd_info (\<lambda>g. g\<lparr>gversion := version\<rparr>) nd;
        spare = (SPARE_GROUPID = route_groupID (glocal g));
        nodes = (if spare then [] else nodes);
        hasLocal = (spare \<or> map_of nodes (glocal g) \<noteq> None);
        nd = fold (add_member updateRoute) nodes nd
        in if \<not> hasLocal then (SDB_OK, nd\<lparr>n_restart := True\<rparr>)
           else let nd = upd_info (drop_members (node_stays (startShiftTime nd) nodes)) nd
             in (SDB_OK, on_sync (updateNotifyList (n_info nd) True) nd))"

text \<open>
  The reply of the catalogue, with the parsed version, members and hash code. The first one activates
  the replica set and starts the vote machine.
\<close>

definition handleGroupRes ::
  "nodeEnv \<Rightarrow> (routeID \<Rightarrow> bool) \<Rightarrow> (CLS_ELECTION_STATUS \<Rightarrow> clsVoteStatus) \<Rightarrow> nat \<Rightarrow>
   (routeID \<times> netRouteNode) list \<Rightarrow> nat \<Rightarrow> clsNode \<Rightarrow> sdb_rc \<times> clsNode" where
  "handleGroupRes e updateRoute junk version nodes grpHashCode nd =
     (let (rc, nd) = setGroupSet updateRoute version nodes nd
      in if rc \<noteq> SDB_OK \<and> rc \<noteq> SDB_REPL_REMOTE_G_V_EXPIRED then (rc, nd)
         else let nd = upd_info (\<lambda>g. g\<lparr>hashCode := grpHashCode\<rparr>) nd
           in (SDB_OK, if n_active nd then nd else vote_init e junk (nd\<lparr>n_active := True\<rparr>)))"

section \<open>Messages, timers and events\<close>

fun handleMsg :: "nodeEnv \<Rightarrow> clsMsg \<Rightarrow> clsNode \<Rightarrow> sdb_rc \<times> clsNode" where
  "handleMsg e (MsgClsNodeStatusNotify rid full) nd =
     (SDB_OK, if full then nd\<lparr>n_sync := notifyFullSync rid (n_sync nd)\<rparr> else nd)"
| "handleMsg e (MsgClsBeat b) nd =
     (if n_active nd then handleSharingBeat e b nd else (SDB_REPL_GROUP_NOT_ACTIVE, nd))"
| "handleMsg e (MsgClsBeatRes rid) nd =
     (if n_active nd then handleSharingBeatRes rid nd else (SDB_REPL_GROUP_NOT_ACTIVE, nd))"
| "handleMsg e msg nd =
     (if n_active nd then vm_handleInput e msg nd else (SDB_REPL_GROUP_NOT_ACTIVE, nd))"

definition CLS_SHARING_BETA_INTERVAL :: nat where
  "CLS_SHARING_BETA_INTERVAL = 2000"

text \<open>The timer of the replica set, when it is due.\<close>

definition onTimer :: "nodeEnv \<Rightarrow> (routeID \<Rightarrow> send_result) \<Rightarrow> nat \<Rightarrow> clsNode \<Rightarrow> clsNode" where
  "onTimer e net interval nd =
     (if \<not> n_active nd then nd
      else let
        nd = nd\<lparr>n_beatTime := u32 (n_beatTime nd + interval)\<rparr>;
        nd = (if CLS_SHARING_BETA_INTERVAL \<le> n_beatTime nd then (sharingBeat e net nd)\<lparr>n_beatTime := 0\<rparr> else nd);
        nd = checkBreak e interval nd;
        nd = vm_handleTimeout e interval nd
        in on_sync (sync_handleTimeout interval) nd)"

definition handleStepDown :: "nodeEnv \<Rightarrow> clsNode \<Rightarrow> clsNode" where
  "handleStepDown e nd =
     vm_force e CLS_ELECTION_STATUS_SEC 0 (upd_vote (\<lambda>v. v\<lparr>shadowWeight := CLS_ELECTION_WEIGHT_MIN\<rparr>) nd)"

definition handleStepUp :: "nodeEnv \<Rightarrow> nat \<Rightarrow> clsNode \<Rightarrow> clsNode" where
  "handleStepUp e seconds nd = vm_force e CLS_ELECTION_STATUS_PRIMARY (u32 (seconds * 1000)) nd"

text \<open>The check of \<^verbatim>\<open>stepUp\<close> before it posts the event.\<close>

definition stepUp :: "nodeEnv \<Rightarrow> clsNode \<Rightarrow> sdb_rc" where
  "stepUp e nd =
     (if MSG_INVALID_ROUTEID \<noteq> gprimary (n_info nd) then SDB_CLS_CAN_NOT_STEP_UP
      else if \<not> n_active nd then SDB_CLS_NODE_INFO_EXPIRED
      else if atLeastOne (lsn_offset (expectLsn e)) (n_sync nd) then SDB_CLS_CAN_NOT_STEP_UP
      else SDB_OK)"

text \<open>The wrapper \<^verbatim>\<open>_clsReplicateSet::sync\<close>.\<close>

definition repl_sync :: "nat \<Rightarrow> nat \<Rightarrow> nat \<Rightarrow> clsNode \<Rightarrow> sync_result \<times> clsNode" where
  "repl_sync offset cb w nd =
     (if DPS_INVALID_LSN_OFFSET = offset \<or> w \<le> 1 then (Return SDB_OK, nd)
      else let (r, m) = sync_session (n_info nd) \<lparr>endLsn = offset, eduCB = cb\<rparr>
                          (if CLS_REPLSET_MAX_NODE_SIZE < w then CLS_REPLSET_MAX_NODE_SIZE else w) (n_sync nd)
        in (r, nd\<lparr>n_sync := m\<rparr>))"

text \<open>The report of a member on its log position, as \<^verbatim>\<open>_clsReplSrcSession::handleVirSyncReq\<close> passes it on.\<close>

definition node_complete :: "routeID \<Rightarrow> DPS_LSN \<Rightarrow> clsNode \<Rightarrow> clsNode" where
  "node_complete rid lsn nd =
     (case sync_complete (n_info nd) rid lsn (n_sync nd) of
        None \<Rightarrow> nd\<lparr>n_fault := True\<rparr>
      | Some (r, m) \<Rightarrow> nd\<lparr>n_sync := m, n_woken := n_woken nd @ (case r of Completed ws \<Rightarrow> ws | _ \<Rightarrow> [])\<rparr>)"

end
