(* ===== verification/NodeInvariant.thy ===== *)
theory NodeInvariant
  imports ReplicateSet SyncManagerProps
begin

text \<open>
  The invariant of a node of a replica group: the group information is well-formed, every member is
  stored under its own identifier, and the synchronisation manager keeps one entry per member, marks
  the alive ones and knows their number. Every operation of the replica set keeps it.
\<close>

section \<open>Ordered maps with a known key\<close>

lemma smap_put_keys:
  assumes "smap_ok m" and "map_of m k \<noteq> None"
  shows "map fst (smap_put k v m) = map fst m"
  using assms
proof (induction k v m rule: smap_put.induct)
  case (2 k v k' v' m)
  show ?case
  proof (cases "k < k'")
    case True
    with 2(2) have "map_of ((k', v') # m) k = None" by (auto simp: map_of_eq_None_iff)
    with 2(3) show ?thesis by simp
  qed (use 2 in \<open>auto split: if_splits\<close>)
qed simp

lemma smap_put_length_new: "map_of m k = None \<Longrightarrow> length (smap_put k v m) = Suc (length m)"
  by (induction k v m rule: smap_put.induct) (auto split: if_splits)

lemma smap_erase_length:
  assumes "smap_ok m" and "map_of m k \<noteq> None"
  shows "Suc (length (smap_erase k m)) = length m"
proof -
  have "distinct (map fst m)" using assms(1) by (rule smap_ok_distinct)
  moreover have "k \<in> fst ` set m" using assms(2) by (metis map_of_eq_None_iff)
  ultimately show ?thesis
  proof (induction m)
    case (Cons b m)
    show ?case
    proof (cases "fst b = k")
      case True
      with Cons(2) have "smap_erase k m = m" by (intro smap_erase_absent) auto
      then show ?thesis using True by (simp add: smap_erase_def)
    qed (use Cons in \<open>auto simp: smap_erase_def\<close>)
  qed simp
qed

lemma map_of_filter_keys: "map_of (filter (\<lambda>(k, _). P k) m) k = (if P k then map_of m k else None)"
  by (induction m) auto

lemma smap_ok_filter: "smap_ok m \<Longrightarrow> smap_ok (filter P m)"
  by (induction m) auto

lemma smap_card_keys: "smap_ok m \<Longrightarrow> card (fst ` set m) = length m"
  using distinct_card [OF smap_ok_distinct, of m] by simp

section \<open>Groups\<close>

lemma group_ok_put:
  assumes "group_ok g" and "map_of (info g) k \<noteq> None"
  shows "group_ok (g\<lparr>info := smap_put k st (info g)\<rparr>)"
  using assms unfolding group_ok_def is_alive_def by auto

lemma group_ok_primary:
  assumes "group_ok g" and "p = MSG_INVALID_ROUTEID \<or> p = glocal g \<or> is_alive p g"
  shows "group_ok (g\<lparr>gprimary := p\<rparr>)"
  using assms unfolding group_ok_def is_alive_def by auto

lemma is_alive_insert:
  "\<not> is_alive k g \<Longrightarrow> is_alive j (g\<lparr>alives := smap_insert k p (alives g)\<rparr>) \<longleftrightarrow> j = k \<or> is_alive j g"
  by (auto simp: is_alive_def smap_insert_def)

lemma group_ok_alive:
  assumes g: "group_ok g" and k: "map_of (info g) k \<noteq> None" and new: "\<not> is_alive k g"
  shows "group_ok (g\<lparr>alives := smap_insert k k (alives g)\<rparr>)"
proof -
  have notin: "k \<notin> fst ` set (alives g)" using new by (simp add: is_alive_def map_of_eq_None_iff)
  have ins: "smap_insert k k (alives g) = smap_put k k (alives g)"
    using notin by (rule smap_insert_new)
  show ?thesis using g k unfolding group_ok_def ins
    by (auto simp: set_smap_put_new [OF notin] is_alive_def)
qed

lemma group_ok_erase:
  assumes g: "group_ok g"
  shows "group_ok (g\<lparr>gprimary := (if k = gprimary g then MSG_INVALID_ROUTEID else gprimary g),
     alives := smap_erase k (alives g)\<rparr>)"
proof -
  have "set (smap_erase k (alives g)) \<subseteq> set (alives g)" by (auto simp: smap_erase_def)
  then show ?thesis using g unfolding group_ok_def is_alive_def by auto
qed

lemma alive_member_info:
  assumes "group_ok g" and "is_alive k g"
  shows "map_of (alives g) k = Some k" and "map_of (info g) k \<noteq> None" and "k \<noteq> glocal g" and "k \<noteq> MSG_INVALID_ROUTEID"
proof -
  obtain p where p: "map_of (alives g) k = Some p" using assms(2) by (auto simp: is_alive_def)
  then have "(k, p) \<in> set (alives g)" by (rule map_of_SomeD)
  then have "p = k \<and> map_of (info g) k \<noteq> None" using assms(1) by (auto simp: group_ok_def)
  then show "map_of (alives g) k = Some k" "map_of (info g) k \<noteq> None" using p by simp_all
  then show "k \<noteq> glocal g" "k \<noteq> MSG_INVALID_ROUTEID" using assms(1) by (auto simp: group_ok_def)
qed

section \<open>Members and their entries\<close>

definition members_ok :: "clsGroupInfo \<Rightarrow> bool" where
  "members_ok g \<longleftrightarrow> group_ok g \<and> (\<forall>(k, st) \<in> set (info g). identity (beat st) = k)"

text \<open>The synchronisation manager follows the group.\<close>

definition sync_linked :: "clsGroupInfo \<Rightarrow> clsSyncManager \<Rightarrow> bool" where
  "sync_linked g m \<longleftrightarrow> sync_shape m \<and> distinct (map ns_id (notifyList m)) \<and>
     ns_id ` set (notifyList m) = fst ` set (info g) \<and>
     (\<forall>n \<in> set (notifyList m). ns_valid n \<longleftrightarrow> is_alive (ns_id n) g) \<and>
     aliveCount m = length (alives g)"

definition node_ok :: "clsNode \<Rightarrow> bool" where
  "node_ok nd \<longleftrightarrow> members_ok (n_info nd) \<and> sync_linked (n_info nd) (n_sync nd) \<and> \<not> n_fault nd"

lemma members_ok_put:
  assumes "members_ok g" and "map_of (info g) k \<noteq> None" and "identity (beat st) = k"
  shows "members_ok (g\<lparr>info := smap_put k st (info g)\<rparr>)"
proof -
  have ok: "smap_ok (info g)" using assms(1) by (simp add: members_ok_def group_ok_def)
  have "identity (beat st') = j" if "(j, st') \<in> set (smap_put k st (info g))" for j st'
  proof -
    have "map_of (smap_put k st (info g)) j = Some st'"
      using that smap_mem [OF smap_ok_put [OF ok]] by blast
    then show ?thesis using assms by (auto simp: members_ok_def split: if_splits dest!: map_of_SomeD)
  qed
  then show ?thesis using assms group_ok_put by (auto simp: members_ok_def)
qed

lemma members_ok_identity:
  "members_ok g \<Longrightarrow> map_of (info g) k = Some st \<Longrightarrow> identity (beat st) = k"
  by (auto simp: members_ok_def dest!: map_of_SomeD)

lemma length_alives_le:
  assumes "group_ok g"
  shows "length (alives g) \<le> length (info g)"
proof -
  have "fst ` set (alives g) \<subseteq> fst ` set (info g)"
    using assms by (fastforce simp: group_ok_def map_of_eq_None_iff)
  then have "card (fst ` set (alives g)) \<le> card (fst ` set (info g))" by (intro card_mono) auto
  then show ?thesis using assms by (simp add: group_ok_def smap_card_keys)
qed

section \<open>The link between the group and the synchronisation manager\<close>

lemma linked_info:
  assumes "sync_linked g m" and "map fst (info g') = map fst (info g)" and "alives g' = alives g"
  shows "sync_linked g' m"
proof -
  have "fst ` set (info g') = fst ` set (info g)" using assms(2) by (metis set_map)
  then show ?thesis using assms unfolding sync_linked_def is_alive_def by simp
qed

lemma linked_mgr:
  assumes "sync_linked g m" and "sync_shape m'" and "map ns_id (notifyList m') = map ns_id (notifyList m)"
    and "map ns_valid (notifyList m') = map ns_valid (notifyList m)" and "aliveCount m' = aliveCount m"
  shows "sync_linked g m'"
proof -
  have len: "validSync m' = validSync m" using assms(3) by (metis length_map)
  have ids: "ns_id ` set (notifyList m') = ns_id ` set (notifyList m)" using assms(3) by (metis set_map)
  have "ns_valid n \<longleftrightarrow> is_alive (ns_id n) g" if n: "n \<in> set (notifyList m')" for n
  proof -
    obtain i where i: "i < validSync m'" "n = notifyList m' ! i" using n by (auto simp: in_set_conv_nth)
    have "ns_id n = ns_id (notifyList m ! i)" "ns_valid n = ns_valid (notifyList m ! i)"
      using i len assms(3,4) by (metis nth_map)+
    then show ?thesis using assms(1) i len by (simp add: sync_linked_def)
  qed
  then show ?thesis using assms ids by (simp add: sync_linked_def)
qed

lemma upd_first_map:
  assumes "\<And>x. h (f x) = h x"
  shows "map h (upd_first P f xs) = map h xs"
  by (induction xs) (simp_all add: assms)

lemma upd_first_distinct:
  assumes "distinct (map ns_id ns)" and "n \<in> set (upd_first (\<lambda>n. ns_id n = k) (\<lambda>n. n\<lparr>ns_valid := v\<rparr>) ns)"
  shows "(ns_id n = k \<and> ns_valid n = v) \<or> (ns_id n \<noteq> k \<and> n \<in> set ns)"
  using assms
proof (induction ns)
  case (Cons a ns)
  then show ?case by (cases "ns_id a = k") (auto simp: image_iff)
qed simp

lemma updateNodeStatus_shape: "sync_shape m \<Longrightarrow> sync_shape (updateNodeStatus k v m)"
  by (simp add: updateNodeStatus_def sync_shape_def)

text \<open>A member becomes alive, or its beat is missing: the manager is told and counts.\<close>

lemma linked_status:
  assumes l: "sync_linked g m" and k: "k \<in> fst ` set (info g)"
    and alive: "\<And>j. is_alive j g' \<longleftrightarrow> (if j = k then v else is_alive j g)"
    and info: "map fst (info g') = map fst (info g)"
    and len: "length (alives g') = (if v then Suc (length (alives g)) else length (alives g) - 1)"
    and few: "length (alives g) < 4294967295" and pos: "v \<or> 0 < length (alives g)"
  shows "sync_linked g' (updateNodeStatus k v m)"
proof -
  let ?ns = "upd_first (\<lambda>n. ns_id n = k) (\<lambda>n. n\<lparr>ns_valid := v\<rparr>) (notifyList m)"
  have ids: "ns_id ` set (notifyList m) = fst ` set (info g)" "distinct (map ns_id (notifyList m))"
    using l by (simp_all add: sync_linked_def)
  then have ex: "list_ex (\<lambda>n. ns_id n = k) (notifyList m)" using k by (force simp: list_ex_iff)
  have upd: "updateNodeStatus k v m = m\<lparr>notifyList := ?ns,
      aliveCount := (if v then u32 (aliveCount m + 1) else u32_sub (aliveCount m) 1)\<rparr>"
    using ex by (simp add: updateNodeStatus_def)
  have map_ids: "map ns_id ?ns = map ns_id (notifyList m)" by (rule upd_first_map) simp
  have count: "aliveCount m = length (alives g)" using l by (simp add: sync_linked_def)
  have "fst ` set (info g') = fst ` set (info g)" using info by (metis set_map)
  moreover have "ns_id ` set ?ns = ns_id ` set (notifyList m)" using map_ids by (metis set_map)
  moreover have "ns_valid n \<longleftrightarrow> is_alive (ns_id n) g'" if "n \<in> set ?ns" for n
    using upd_first_distinct [OF ids(2) that] l by (auto simp: alive sync_linked_def)
  moreover have "sync_shape (updateNodeStatus k v m)" using l by (simp add: sync_linked_def updateNodeStatus_shape)
  moreover have "aliveCount (updateNodeStatus k v m) = length (alives g')"
    unfolding upd
    using few pos len count u32_id [of "length (alives g) + 1"] u32_sub_id [of 1 "length (alives g)"]
    by (cases v) (simp_all add: Suc_le_eq)
  ultimately show ?thesis using ids map_ids upd by (simp add: sync_linked_def)
qed

lemma linked_few:
  assumes "sync_linked g m" and "group_ok g"
  shows "length (alives g) < 4294967295"
proof -
  have "length (alives g) \<le> length (info g)" by (rule length_alives_le [OF assms(2)])
  also have "\<dots> = card (fst ` set (info g))" using assms(2) by (simp add: group_ok_def smap_card_keys)
  also have "\<dots> = card (ns_id ` set (notifyList m))" using assms(1) by (simp add: sync_linked_def)
  also have "\<dots> \<le> validSync m" by (metis card_length length_map set_map)
  also have "\<dots> \<le> 6" using assms(1)
    by (simp add: sync_linked_def sync_shape_def CLS_SYNC_SET_NUM_def CLS_REPLSET_MAX_NODE_SIZE_def)
  finally show ?thesis by simp
qed

section \<open>The synchronisation manager of a node\<close>

lemma linked_cut:
  assumes "sync_linked g m"
  shows "\<exists>ws m'. sync_cut al m = Some (ws, m') \<and> sync_linked g m'"
proof -
  have "sync_shape m" using assms by (simp add: sync_linked_def)
  from sync_cut_laws [OF this, of al] obtain ws m' where
    c: "sync_cut al m = Some (ws, m')" "sync_shape m'" "m' = m\<lparr>syncList := syncList m'\<rparr>" by auto
  have "notifyList m' = notifyList m" "aliveCount m' = aliveCount m" by (subst c(3), simp)+
  then show ?thesis using c(1) linked_mgr [OF assms c(2)] by simp
qed

lemma linked_wake:
  assumes "sync_linked g m"
  shows "\<exists>ws m'. sync_wake (createWakePlan m) m = Some (ws, m') \<and> sync_linked g m'"
proof -
  have "sync_shape m" using assms by (simp add: sync_linked_def)
  from sync_wake_laws [OF this] obtain ws m' where
    "sync_wake (createWakePlan m) m = Some (ws, m')" "sync_shape m'" "notifyList m' = notifyList m"
    "aliveCount m' = aliveCount m" by auto
  then show ?thesis using linked_mgr [OF assms] by simp
qed

lemma linked_timeout:
  assumes "sync_linked g m"
  shows "\<exists>ws m'. sync_handleTimeout ms m = Some (ws, m') \<and> sync_linked g m'"
proof -
  have l: "sync_linked g (m\<lparr>wakeTimeout := t\<rparr>)" for t
    using linked_mgr [OF assms] assms by (simp add: sync_linked_def sync_shape_def)
  show ?thesis using linked_wake [OF l] l by (simp add: sync_handleTimeout_def Let_def)
qed

lemma linked_notifyFullSync: "sync_linked g m \<Longrightarrow> sync_linked g (notifyFullSync k m)"
  by (rule linked_mgr) (auto simp: notifyFullSync_def sync_linked_def sync_shape_def upd_first_map)

lemma linked_session:
  assumes l: "sync_linked g m" and s: "endLsn s < DPS_INVALID_LSN_OFFSET"
  shows "sync_linked g (snd (sync_session g' s w m))"
proof -
  have "sync_shape (m\<lparr>syncList := (syncList m)[i := heap_push s (syncList m ! i)]\<rparr>)" for i
  proof (cases "i < length (syncList m)")
    case True
    have "sessions_ok (syncList m ! i)" using l True by (simp add: sync_linked_def sync_shape_def)
    then have "sessions_ok (heap_push s (syncList m ! i))" using s by (simp add: sessions_ok_def push_sessions)
    then show ?thesis using l True
      by (auto simp: sync_linked_def sync_shape_def dest!: set_update_subset_insert [THEN subsetD])
  next
    case False
    then have "(syncList m)[i := heap_push s (syncList m ! i)] = syncList m"
      by (simp add: list_update_beyond)
    then show ?thesis using l by (simp add: sync_linked_def)
  qed
  then have "sync_linked g (m\<lparr>syncList := (syncList m)[i := heap_push s (syncList m ! i)]\<rparr>)" for i
    using linked_mgr [OF l] by simp
  then show ?thesis using l by (simp add: sync_session_def Let_def)
qed

lemma on_sync_ok:
  assumes "node_ok nd"
    and "sync_linked (n_info nd) (n_sync nd) \<Longrightarrow>
      \<exists>ws m'. f (n_sync nd) = Some (ws, m') \<and> sync_linked (n_info nd) m'"
  shows "node_ok (on_sync f nd)"
  using assms by (auto simp: node_ok_def on_sync_def)

section \<open>The operations keep the invariant\<close>

lemma node_ok_info:
  assumes "node_ok nd" and "members_ok (f (n_info nd))"
    and "map fst (info (f (n_info nd))) = map fst (info (n_info nd))"
    and "alives (f (n_info nd)) = alives (n_info nd)"
  shows "node_ok (upd_info f nd)"
  using assms linked_info [of "n_info nd" "n_sync nd" "f (n_info nd)"] by (auto simp: node_ok_def upd_info_def)

lemma node_ok_put:
  assumes "node_ok nd" and "map_of (info (n_info nd)) k \<noteq> None" and "identity (beat st) = k"
  shows "node_ok (upd_info (\<lambda>g. g\<lparr>info := smap_put k st (info g)\<rparr>) nd)"
proof -
  have "members_ok (n_info nd)" using assms(1) by (simp add: node_ok_def)
  then show ?thesis
    using members_ok_put [OF _ assms(2,3)] assms(1,2)
    by (intro node_ok_info) (simp_all add: smap_put_keys members_ok_def group_ok_def)
qed

lemma node_ok_primary:
  assumes "node_ok nd"
    and "p = MSG_INVALID_ROUTEID \<or> p = glocal (n_info nd) \<or> is_alive p (n_info nd)"
  shows "node_ok (upd_info (\<lambda>g. g\<lparr>gprimary := p\<rparr>) nd)"
  using assms group_ok_primary [of "n_info nd" p]
  by (intro node_ok_info) (auto simp: node_ok_def members_ok_def)

lemma node_ok_cong:
  assumes "node_ok nd" and "n_info nd' = n_info nd" and "n_sync nd' = n_sync nd" and "n_fault nd' = n_fault nd"
  shows "node_ok nd'"
  using assms by (simp add: node_ok_def)

lemma alive_ok:
  assumes ok: "node_ok nd"
  shows "node_ok (snd (alive k nd))"
    and "fst (alive k nd) = SDB_OK \<Longrightarrow> is_alive k (n_info (snd (alive k nd)))"
proof -
  let ?g = "n_info nd"
  have m: "members_ok ?g" and g: "group_ok ?g" using ok by (simp_all add: node_ok_def members_ok_def)
  have *: "node_ok (snd (alive k nd)) \<and> (fst (alive k nd) = SDB_OK \<longrightarrow> is_alive k (n_info (snd (alive k nd))))"
  proof (cases "map_of (info ?g) k")
    case None
    then show ?thesis using ok by (simp add: alive_def)
  next
    case (Some st)
    have id: "identity (beat st) = k" by (rule members_ok_identity [OF m Some])
    define nd1 where "nd1 = (if \<not> is_alive k ?g
      then (upd_info (\<lambda>g. g\<lparr>alives := smap_insert k k (alives g)\<rparr>) nd)
        \<lparr>n_sync := updateNodeStatus (identity (beat st)) True (n_sync nd)\<rparr>
      else nd)"
    have info: "info (n_info nd1) = info ?g" by (simp add: nd1_def upd_info_def)
    have al: "is_alive k (n_info nd1)"
      by (cases "is_alive k ?g") (simp_all add: nd1_def upd_info_def is_alive_insert)
    have "node_ok nd1"
    proof (cases "is_alive k ?g")
      case True
      then show ?thesis using ok by (simp add: nd1_def)
    next
      case False
      let ?g' = "?g\<lparr>alives := smap_insert k k (alives ?g)\<rparr>"
      have "length (alives ?g') = Suc (length (alives ?g))"
        using False by (simp add: is_alive_def smap_insert_def smap_put_length_new)
      moreover have "k \<in> fst ` set (info ?g)" using Some by (force dest: map_of_SomeD)
      ultimately have "sync_linked ?g' (updateNodeStatus k True (n_sync nd))" if "sync_linked ?g (n_sync nd)"
        using linked_status [OF that, of k ?g' True] False linked_few [OF that g] is_alive_insert [OF False] by auto
      moreover have "members_ok ?g'" using m group_ok_alive [OF g _ False] Some by (simp add: members_ok_def)
      ultimately show ?thesis using ok False id by (auto simp: nd1_def node_ok_def upd_info_def)
    qed
    then have "node_ok (upd_info (\<lambda>g. g\<lparr>info := smap_put k (reset_times st) (info g)\<rparr>) nd1)"
      using Some id by (intro node_ok_put) (simp_all add: info reset_times_def)
    moreover have "alive k nd =
        (SDB_OK, upd_info (\<lambda>g. g\<lparr>info := smap_put k (reset_times st) (info g)\<rparr>) nd1)"
      using Some by (simp add: alive_def nd1_def Let_def)
    ultimately show ?thesis using al by (simp add: upd_info_def is_alive_def)
  qed
  then show "node_ok (snd (alive k nd))"
    and "fst (alive k nd) = SDB_OK \<Longrightarrow> is_alive k (n_info (snd (alive k nd)))" by blast+
qed

lemma aliveNode_ok: "node_ok nd \<Longrightarrow> node_ok (snd (aliveNode k nd))"
proof -
  assume ok: "node_ok nd"
  show ?thesis
  proof (cases "map_of (alives (n_info nd)) k")
    case None
    then show ?thesis using ok by (simp add: aliveNode_def)
  next
    case (Some p)
    have g: "group_ok (n_info nd)" "members_ok (n_info nd)" using ok by (simp_all add: node_ok_def members_ok_def)
    have "is_alive k (n_info nd)" using Some by (simp add: is_alive_def)
    from alive_member_info [OF g(1) this] Some obtain st where
      st: "p = k" "map_of (info (n_info nd)) k = Some st" by auto
    then have "identity (beat st) = k" using members_ok_identity [OF g(2)] by blast
    then have "node_ok (upd_info (\<lambda>g. g\<lparr>info := smap_put k (reset_times st) (info g)\<rparr>) nd)"
      using ok st by (intro node_ok_put) (simp_all add: reset_times_def)
    then show ?thesis using Some st by (simp add: aliveNode_def upd_info_def)
  qed
qed

lemma run_times_ok: "node_ok nd \<Longrightarrow> node_ok (upd_info (run_times ms) nd)"
proof -
  assume ok: "node_ok nd"
  let ?g = "n_info nd"
  have keys: "map fst (info (run_times ms ?g)) = map fst (info ?g)"
    by (simp add: run_times_def split_def comp_def if_distrib)
  have dom: "map_of (info (run_times ms ?g)) k = None \<longleftrightarrow> map_of (info ?g) k = None" for k
    using keys by (metis map_of_eq_None_iff set_map)
  have "smap_ok (info (run_times ms ?g)) = smap_ok (info ?g)" using keys by (simp add: smap_ok_def)
  moreover have "alives (run_times ms ?g) = alives ?g" "glocal (run_times ms ?g) = glocal ?g"
    "gprimary (run_times ms ?g) = gprimary ?g" by (simp_all add: run_times_def)
  ultimately have "group_ok (run_times ms ?g)"
    using ok dom by (simp add: node_ok_def members_ok_def group_ok_def is_alive_def)
  moreover have "\<forall>(k, st) \<in> set (info (run_times ms ?g)). identity (beat st) = k"
    using ok by (auto simp: node_ok_def members_ok_def run_times_def split: if_splits)
  ultimately show ?thesis using ok keys
    by (intro node_ok_info) (simp_all add: members_ok_def run_times_def)
qed

lemma break_member_ok:
  assumes ok: "node_ok nd" and al: "is_alive k (n_info nd)" and st: "map_of (info (n_info nd)) k = Some st"
  shows "node_ok (break_member k st nd)"
proof -
  let ?g = "n_info nd"
  have m: "members_ok ?g" and g: "group_ok ?g" using ok by (simp_all add: node_ok_def members_ok_def)
  have id: "identity (beat st) = k" by (rule members_ok_identity [OF m st])
  define st' where "st' = st\<lparr>beat := (beat st)\<lparr>beatID := CLS_BEATID_INVALID, serviceStatus := SERVICE_UNKNOWN\<rparr>\<rparr>"
  define p where "p = (if k = gprimary ?g then MSG_INVALID_ROUTEID else gprimary ?g)"
  define g1 where "g1 = ?g\<lparr>gprimary := p, alives := smap_erase k (alives ?g)\<rparr>"
  have g1: "group_ok g1" using group_ok_erase [OF g, of k] by (simp add: g1_def p_def)
  then have "members_ok g1" using m by (simp add: members_ok_def g1_def)
  then have m2: "members_ok (g1\<lparr>info := smap_put k st' (info g1)\<rparr>)"
    using st id by (intro members_ok_put) (simp_all add: g1_def st'_def)
  let ?g2 = "g1\<lparr>info := smap_put k st' (info g1)\<rparr>"
  have ok_maps: "smap_ok (info ?g)" "smap_ok (alives ?g)" using g by (simp_all add: group_ok_def)
  have "sync_linked ?g2 (updateNodeStatus k False (n_sync nd))" if l: "sync_linked ?g (n_sync nd)"
  proof (rule linked_status [OF l])
    show "k \<in> fst ` set (info ?g)" using st by (force dest: map_of_SomeD)
    show "is_alive j ?g2 \<longleftrightarrow> (if j = k then False else is_alive j ?g)" for j
      by (simp add: is_alive_def g1_def)
    show "map fst (info ?g2) = map fst (info ?g)" using st ok_maps by (simp add: g1_def smap_put_keys)
    have "Suc (length (smap_erase k (alives ?g))) = length (alives ?g)"
      using al by (intro smap_erase_length [OF ok_maps(2)]) (simp add: is_alive_def)
    then show "length (alives ?g2) = (if False then Suc (length (alives ?g)) else length (alives ?g) - 1)"
      and "False \<or> 0 < length (alives ?g)" by (simp_all only: g1_def) auto
    show "length (alives ?g) < 4294967295" by (rule linked_few [OF l g])
  qed
  moreover have "break_member k st nd = nd\<lparr>n_info := ?g2, n_sync := updateNodeStatus k False (n_sync nd)\<rparr>"
    by (simp add: break_member_def upd_info_def g1_def p_def st'_def Let_def id)
  ultimately show ?thesis using m2 ok by (simp add: node_ok_def)
qed

lemma break_member_others:
  assumes "j \<noteq> k"
  shows "is_alive j (n_info (break_member k st nd)) \<longleftrightarrow> is_alive j (n_info nd)"
    and "map_of (info (n_info (break_member k st nd))) j = map_of (info (n_info nd)) j"
  using assms by (simp_all add: break_member_def upd_info_def Let_def is_alive_def)

lemma break_loop_ok:
  assumes "node_ok nd" and "distinct (map fst as)"
    and "\<forall>x \<in> set as. snd x = fst x \<and> is_alive (fst x) (n_info nd)"
  shows "node_ok (break_loop t as nd)"
  using assms
proof (induction as arbitrary: nd)
  case (Cons a as)
  obtain k p where a: "a = (k, p)" by (cases a)
  have k: "p = k" "is_alive k (n_info nd)" using Cons(4) a by auto
  have "group_ok (n_info nd)" using Cons(2) by (simp add: node_ok_def members_ok_def)
  then obtain st where st: "map_of (info (n_info nd)) k = Some st" using alive_member_info(2) k(2) by blast
  let ?nd = "if t \<le> ss_timeout st then break_member k st nd else nd"
  have ok: "node_ok ?nd" using break_member_ok [OF Cons(2) k(2) st] Cons(2) by simp
  have rest: "\<forall>x \<in> set as. snd x = fst x \<and> is_alive (fst x) (n_info ?nd)"
  proof
    fix x assume x: "x \<in> set as"
    then have "fst x \<noteq> k" using Cons(3) a by auto
    then show "snd x = fst x \<and> is_alive (fst x) (n_info ?nd)"
      using Cons(4) x break_member_others(1) by simp
  qed
  have "break_loop t (a # as) nd = break_loop t as ?nd" using a k st by simp
  moreover have "distinct (map fst as)" using Cons(3) by simp
  ultimately show ?case using Cons(1) [OF ok _ rest] by simp
qed simp

lemma checkBreak_ok: "node_ok nd \<Longrightarrow> node_ok (checkBreak e ms nd)"
proof -
  assume "node_ok nd"
  then have ok: "node_ok (upd_info (run_times ms) nd)" by (rule run_times_ok)
  let ?nd = "upd_info (run_times ms) nd"
  have g: "group_ok (n_info ?nd)" using ok by (simp add: node_ok_def members_ok_def)
  have "distinct (map fst (alives (n_info ?nd)))" using g by (simp add: group_ok_def smap_ok_distinct)
  moreover have "\<forall>x \<in> set (alives (n_info ?nd)). snd x = fst x \<and> is_alive (fst x) (n_info ?nd)"
    using g by (auto simp: group_ok_def is_alive_def map_of_eq_None_iff split_beta)
  ultimately have b: "node_ok (break_loop t (alives (n_info ?nd)) ?nd)" for t by (rule break_loop_ok [OF ok])
  then have "node_ok (on_sync (sync_cut n) (break_loop t (alives (n_info ?nd)) ?nd))" for n t
    by (rule on_sync_ok) (rule linked_cut)
  then show ?thesis using ok b by (simp add: checkBreak_def Let_def)
qed

lemma nextBeatID_ok: "node_ok nd \<Longrightarrow> node_ok (nd\<lparr>n_info := snd (nextBeatID (n_info nd))\<rparr>)"
  using node_ok_info [of nd "\<lambda>g. snd (nextBeatID g)"]
  by (simp add: upd_info_def nextBeatID_def Let_def node_ok_def members_ok_def group_ok_def is_alive_def)

lemma beat_member_ok:
  assumes "node_ok nd" and "map_of (info (n_info nd)) k \<noteq> None" and "identity (beat st) = k"
  shows "node_ok (beat_member e net b (k, st) nd)"
    and "map_of (info (n_info (beat_member e net b (k, st) nd))) j = None \<longleftrightarrow> map_of (info (n_info nd)) j = None"
proof -
  have put: "node_ok (upd_info (\<lambda>g. g\<lparr>info := smap_put k st' (info g)\<rparr>) nd)" if "identity (beat st') = k" for st'
    using assms(1,2) that by (rule node_ok_put)
  have "node_ok (syncSend d m nd')" if "node_ok nd'" for d m nd'
    using that by (rule node_ok_cong) (simp_all add: syncSend_def)
  with put assms show "node_ok (beat_member e net b (k, st) nd)"
    by (auto simp: beat_member_def Let_def split: send_result.splits)
  show "map_of (info (n_info (beat_member e net b (k, st) nd))) j = None \<longleftrightarrow> map_of (info (n_info nd)) j = None"
    using assms(2) by (auto simp: beat_member_def Let_def upd_info_def syncSend_def split: send_result.splits)
qed

lemma beat_fold_ok:
  assumes "node_ok nd" and "\<forall>(k, st) \<in> set ms. map_of (info (n_info nd)) k \<noteq> None \<and> identity (beat st) = k"
  shows "node_ok (fold (beat_member e net b) ms nd)"
  using assms
proof (induction ms arbitrary: nd)
  case (Cons m ms)
  obtain k st where m: "m = (k, st)" by (cases m)
  then have k: "map_of (info (n_info nd)) k \<noteq> None" "identity (beat st) = k" using Cons(3) by auto
  show ?case unfolding fold_simps m
    using Cons(3) beat_member_ok [OF Cons(2) k] by (intro Cons(1)) auto
qed simp

lemma sharingBeat_ok: "node_ok nd \<Longrightarrow> node_ok (sharingBeat e net nd)"
proof -
  assume ok: "node_ok nd"
  obtain bid g where n: "nextBeatID (n_info nd) = (bid, g)" by (cases "nextBeatID (n_info nd)")
  have "node_ok (nd\<lparr>n_info := g\<rparr>)" using nextBeatID_ok [OF ok] n by simp
  moreover from this have "\<forall>(k, st) \<in> set (info g). map_of (info g) k \<noteq> None \<and> identity (beat st) = k"
    by (auto simp: node_ok_def members_ok_def map_of_eq_None_iff intro: rev_image_eqI)
  ultimately show ?thesis using ok n beat_fold_ok [of "nd\<lparr>n_info := g\<rparr>" "info g"]
    by (simp add: sharingBeat_def)
qed

end
