(* ===== verification/NodeSteps.thy ===== *)
theory NodeSteps
  imports NodeInvariant
begin

text \<open>
  Every message, timer, event and write of a node keeps its invariant: first what the vote machine
  may change of a node at all, then the handlers of the replica set.
\<close>

section \<open>What the vote machine changes\<close>

text \<open>
  Of the group information only the primary, which stays, becomes the node itself or becomes unknown;
  the synchronisation manager keeps its link to the group.
\<close>

definition vote_frame :: "clsNode \<Rightarrow> clsNode \<Rightarrow> bool" where
  "vote_frame nd nd' \<longleftrightarrow>
     (\<exists>p \<in> {gprimary (n_info nd), glocal (n_info nd), MSG_INVALID_ROUTEID}. n_info nd' = (n_info nd)\<lparr>gprimary := p\<rparr>) \<and>
     n_active nd' = n_active nd \<and>
     (\<forall>g. sync_linked g (n_sync nd) \<longrightarrow> \<not> n_fault nd \<longrightarrow> sync_linked g (n_sync nd') \<and> \<not> n_fault nd')"

lemma vote_frame_same:
  assumes "n_info nd' = n_info nd" and "n_active nd' = n_active nd" and "n_sync nd' = n_sync nd" and "n_fault nd' = n_fault nd"
  shows "vote_frame nd nd'"
  using assms by (simp add: vote_frame_def)

lemma vote_frame_refl [simp]: "vote_frame nd nd"
  by (rule vote_frame_same) simp_all

lemma vote_frame_trans [trans]:
  assumes "vote_frame a b" and "vote_frame b c"
  shows "vote_frame a c"
  using assms by (auto simp: vote_frame_def)

lemma frame_upd_vote [simp]: "vote_frame nd (upd_vote f nd)"
  by (rule vote_frame_same) (simp_all add: upd_vote_def)

lemma frame_upd_vs [simp]: "vote_frame nd (upd_vs st f nd)"
  by (simp add: upd_vs_def)

lemma frame_add_time [simp]: "vote_frame nd (add_time st ms nd)"
  by (simp add: add_time_def)

lemma frame_inc_accepted [simp]: "vote_frame nd (inc_accepted st nd)"
  by (simp add: inc_accepted_def)

lemma frame_shift [simp]: "vote_frame nd (nd\<lparr>startShiftTime := t\<rparr>)"
  by (rule vote_frame_same) simp_all

lemma frame_send [simp]: "vote_frame nd (syncSend d m nd)"
  by (rule vote_frame_same) (simp_all add: syncSend_def)

lemma frame_broadcast [simp]: "vote_frame nd (broadcastAlives m nd)"
  by (rule vote_frame_same) (simp_all add: broadcastAlives_def)

lemma frame_launch [simp]: "vote_frame nd (snd (launch e rnd nd))"
  by (simp add: launch_def Let_def)

lemma frame_answer [simp]: "vote_frame nd (snd (answer e lsn rid rnd nd))"
  by (simp add: answer_def Let_def split: option.split)

lemma frame_on_sync_cut [simp]: "vote_frame nd (on_sync (sync_cut al) nd)"
proof -
  have "sync_linked g (n_sync (on_sync (sync_cut al) nd)) \<and> \<not> n_fault (on_sync (sync_cut al) nd)"
    if "sync_linked g (n_sync nd)" and "\<not> n_fault nd" for g
    using linked_cut [OF that(1), of al] that(2) by (auto simp: on_sync_def)
  then show ?thesis by (auto simp: vote_frame_def on_sync_def split: option.splits)
qed

lemma frame_reelectionDone [simp]: "vote_frame nd (reelectionDone nd)"
  by (simp add: reelectionDone_def)

lemma frame_primary_active [simp]: "vote_frame nd (snd (primary_active nd))"
proof -
  let ?a = "upd_vs CLS_ELECTION_STATUS_PRIMARY (\<lambda>s. s\<lparr>vs_time := 0\<rparr>) nd"
  let ?b = "(upd_info (\<lambda>g. g\<lparr>gprimary := glocal g\<rparr>) ?a)\<lparr>pmdPrimary := True\<rparr>"
  have "vote_frame nd ?a" by simp
  also have "vote_frame ?a ?b" by (simp add: vote_frame_def upd_info_def)
  also have "vote_frame ?b (reelectionDone ?b)" by simp
  finally show ?thesis by (simp add: primary_active_def Let_def)
qed

lemma frame_primary_deactive [simp]: "vote_frame nd (primary_deactive e nd)"
proof -
  let ?a = "(upd_info (\<lambda>g. if glocal g = gprimary g then g\<lparr>gprimary := MSG_INVALID_ROUTEID\<rparr> else g) nd)\<lparr>pmdPrimary := False\<rparr>"
  have a: "vote_frame nd ?a" by (simp add: vote_frame_def upd_info_def)
  then have "vote_frame nd (on_sync (sync_cut 0) ?a)" by (rule vote_frame_trans) simp
  with a show ?thesis by (simp add: primary_deactive_def Let_def)
qed

lemma frame_vs_deactive [simp]: "vote_frame nd (vs_deactive e st nd)"
  by (cases "(e, st, nd)" rule: vs_deactive.cases) simp_all

lemma frame_vs_active [simp]: "vote_frame nd (snd (vs_active e st nd))"
proof (cases st)
  case CLS_ELECTION_STATUS_SEC
  let ?a = "upd_vs CLS_ELECTION_STATUS_SEC (\<lambda>s. s\<lparr>vs_time := 0\<rparr>) nd"
  have "vote_frame nd (?a\<lparr>startShiftTime := t\<rparr>)" for t
    by (rule vote_frame_trans [of _ ?a]) simp_all
  then show ?thesis using CLS_ELECTION_STATUS_SEC by (simp add: secondary_active_def Let_def)
next
  case CLS_ELECTION_STATUS_VOTE
  let ?a = "upd_vs CLS_ELECTION_STATUS_VOTE (\<lambda>s. s\<lparr>vs_time := 0, acceptedNum := 0\<rparr>) nd"
  have "vote_frame nd (snd (launch e rnd ?a))" for rnd by (rule vote_frame_trans [of _ ?a]) simp_all
  then show ?thesis using CLS_ELECTION_STATUS_VOTE by (simp add: vote_active_def Let_def)
next
  case CLS_ELECTION_STATUS_ANNOUNCE
  let ?a = "upd_vs CLS_ELECTION_STATUS_ANNOUNCE (\<lambda>s. s\<lparr>vs_time := 0, acceptedNum := 0\<rparr>) nd"
  have "vote_frame nd (snd (launch e rnd ?a))" for rnd by (rule vote_frame_trans [of _ ?a]) simp_all
  then show ?thesis using CLS_ELECTION_STATUS_ANNOUNCE by (simp add: announce_active_def Let_def)
qed (simp_all add: silence_active_def Let_def)

lemma frame_activate_loop: "vote_frame nd (activate_loop e prev st nd)"
proof (induction e prev st nd rule: activate_loop.induct)
  case (1 e prev st nd)
  let ?a = "vs_deactive e prev nd"
  obtain st' b where b: "vs_active e st ?a = (st', b)" by (cases "vs_active e st ?a")
  have "vote_frame nd ?a" by simp
  also have "vote_frame ?a b" using frame_vs_active [of ?a e st] b by simp
  finally have ab: "vote_frame nd b" .
  show ?case
  proof (cases "st' = st")
    case True
    with ab b show ?thesis
      by (subst activate_loop.simps) (simp add: vote_frame_trans [OF ab])
  next
    case False
    have "vote_frame b (activate_loop e (Some st) st' b)" using 1 [OF b [symmetric] refl False] .
    with ab have "vote_frame nd (activate_loop e (Some st) st' b)" by (rule vote_frame_trans)
    with False b show ?thesis by (subst activate_loop.simps) simp
  qed
qed

lemma frame_activate_status [simp]: "vote_frame nd (activate_status e st nd)"
proof -
  let ?a = "if vm_current (n_vote nd) = Some st then nd else activate_loop e (vm_current (n_vote nd)) st nd"
  have "vote_frame nd ?a" by (simp add: frame_activate_loop)
  also have "vote_frame ?a (activate_status e st nd)" by (simp add: activate_status_def Let_def)
  finally show ?thesis .
qed

lemma frame_vm_force [simp]: "vote_frame nd (vm_force e st ms nd)"
proof -
  have "vote_frame nd (upd_vote f (activate_status e st nd))" for f
    by (rule vote_frame_trans [of _ "activate_status e st nd"]) simp_all
  then show ?thesis by (simp add: vm_force_def Let_def)
qed

lemma frame_handleInput [simp]: "vote_frame nd (snd (vs_handleInput e st m nd))"
proof (cases st)
  case CLS_ELECTION_STATUS_SEC
  have "vote_frame nd (snd (answer e lsn rid rnd (nd\<lparr>startShiftTime := t\<rparr>)))" for lsn rid rnd t
    by (rule vote_frame_trans [of _ "nd\<lparr>startShiftTime := t\<rparr>"]) simp_all
  then show ?thesis using CLS_ELECTION_STATUS_SEC by (cases m) (simp_all add: Let_def split_def)
next
  case CLS_ELECTION_STATUS_VOTE
  then show ?thesis by (cases m) (simp_all add: Let_def split_def)
next
  case CLS_ELECTION_STATUS_ANNOUNCE
  then show ?thesis by (cases m) (simp_all add: Let_def)
qed simp_all

lemma frame_handleTimeout [simp]: "vote_frame nd (snd (vs_handleTimeout e st ms nd))"
proof -
  have t: "vote_frame nd ((add_time s ms nd)\<lparr>startShiftTime := x\<rparr>)"
    "vote_frame nd (upd_vs s f (add_time s ms nd))" for s x f
    by (rule vote_frame_trans [of _ "add_time s ms nd"], simp_all)+
  show ?thesis
    by (cases st) (simp_all add: t silence_handleTimeout_def secondary_handleTimeout_def vote_handleTimeout_def
        announce_handleTimeout_def primary_handleTimeout_def Let_def)
qed

lemma frame_vm_handleInput [simp]: "vote_frame nd (snd (vm_handleInput e m nd))"
  using vote_frame_trans [OF frame_handleInput frame_activate_status]
  by (simp add: vm_handleInput_def Let_def split_def split: option.split)

lemma frame_vm_handleTimeout [simp]: "vote_frame nd (vm_handleTimeout e ms nd)"
  using vote_frame_trans [OF frame_handleTimeout frame_activate_status]
  by (simp add: vm_handleTimeout_def Let_def split_def split: option.split)

lemma frame_vote_init [simp]: "vote_frame nd (vote_init e junk nd)"
  unfolding vote_init_def by (rule vote_frame_trans [OF frame_upd_vote frame_activate_status])

section \<open>Handlers of the replica set\<close>

lemma frame_node_ok:
  assumes ok: "node_ok nd" and f: "vote_frame nd nd'"
  shows "node_ok nd'"
proof -
  obtain p where p: "p \<in> {gprimary (n_info nd), glocal (n_info nd), MSG_INVALID_ROUTEID}"
    "n_info nd' = (n_info nd)\<lparr>gprimary := p\<rparr>" using f unfolding vote_frame_def by blast
  have m: "members_ok (n_info nd)" using ok by (simp add: node_ok_def)
  then have "group_ok (n_info nd')"
    unfolding p(2) using p(1) by (intro group_ok_primary) (auto simp: members_ok_def group_ok_def)
  then have "members_ok (n_info nd')" using m by (simp add: members_ok_def p(2))
  moreover have "sync_linked (n_info nd) (n_sync nd') \<and> \<not> n_fault nd'"
    using f ok unfolding vote_frame_def node_ok_def by blast
  ultimately show ?thesis
    using linked_info [of "n_info nd" "n_sync nd'" "n_info nd'"] by (simp add: node_ok_def p(2))
qed

text \<open>While a beat of member \<open>k\<close> is handled, \<open>k\<close> may be the primary before it is marked alive.\<close>

definition pending :: "routeID \<Rightarrow> clsNode \<Rightarrow> bool" where
  "pending k nd \<longleftrightarrow>
     node_ok (upd_info (\<lambda>g. g\<lparr>gprimary := MSG_INVALID_ROUTEID\<rparr>) nd) \<and>
     (gprimary (n_info nd) \<in> {MSG_INVALID_ROUTEID, glocal (n_info nd), k} \<or> is_alive (gprimary (n_info nd)) (n_info nd))"

lemma pending_of_ok: "node_ok nd \<Longrightarrow> pending k nd"
  using node_ok_primary [of nd MSG_INVALID_ROUTEID]
  by (auto simp: pending_def node_ok_def members_ok_def group_ok_def)

lemma pending_primary:
  "pending k nd \<Longrightarrow> p \<in> {MSG_INVALID_ROUTEID, k} \<Longrightarrow> pending k (upd_info (\<lambda>g. g\<lparr>gprimary := p\<rparr>) nd)"
  by (auto simp: pending_def upd_info_def)

lemma pending_frame:
  assumes pd: "pending k nd" and f: "vote_frame nd nd'"
  shows "pending k nd'"
proof -
  obtain p where p: "p \<in> {gprimary (n_info nd), glocal (n_info nd), MSG_INVALID_ROUTEID}"
    "n_info nd' = (n_info nd)\<lparr>gprimary := p\<rparr>" using f unfolding vote_frame_def by blast
  let ?u = "upd_info (\<lambda>g. g\<lparr>gprimary := MSG_INVALID_ROUTEID\<rparr>)"
  have "vote_frame (?u nd) (?u nd')" using f p(2) by (simp add: vote_frame_def upd_info_def)
  moreover have "node_ok (?u nd)" using pd by (simp add: pending_def)
  ultimately have "node_ok (?u nd')" by (metis frame_node_ok)
  then show ?thesis using pd p by (auto simp: pending_def is_alive_def)
qed

lemma alive_primary:
  "alive k (upd_info (\<lambda>g. g\<lparr>gprimary := p\<rparr>) nd) =
     (fst (alive k nd), upd_info (\<lambda>g. g\<lparr>gprimary := p\<rparr>) (snd (alive k nd)))"
  by (simp add: alive_def upd_info_def Let_def is_alive_def split: option.split)

lemma alive_keeps:
  "glocal (n_info (snd (alive k nd))) = glocal (n_info nd)"
  "is_alive j (n_info nd) \<Longrightarrow> is_alive j (n_info (snd (alive k nd)))"
  by (auto simp: alive_def upd_info_def Let_def is_alive_def smap_insert_def split: option.split)

lemma alive_pending:
  assumes pd: "pending k nd" and k: "map_of (info (n_info nd)) k \<noteq> None"
  shows "node_ok (snd (alive k nd))"
proof -
  let ?p = "gprimary (n_info nd)"
  let ?nd = "upd_info (\<lambda>g. g\<lparr>gprimary := MSG_INVALID_ROUTEID\<rparr>) nd"
  have ok: "node_ok ?nd" using pd by (simp add: pending_def)
  have nd: "nd = upd_info (\<lambda>g. g\<lparr>gprimary := ?p\<rparr>) ?nd" by (simp add: upd_info_def)
  have "fst (alive k ?nd) = SDB_OK" using k by (auto simp: alive_def upd_info_def Let_def)
  then have al: "is_alive k (n_info (snd (alive k ?nd)))" by (rule alive_ok(2) [OF ok])
  have "?p = MSG_INVALID_ROUTEID \<or> ?p = glocal (n_info ?nd) \<or> ?p = k \<or> is_alive ?p (n_info ?nd)"
    using pd by (auto simp: pending_def upd_info_def is_alive_def)
  then have "node_ok (upd_info (\<lambda>g. g\<lparr>gprimary := ?p\<rparr>) (snd (alive k ?nd)))"
    using alive_ok(1) [OF ok] al alive_keeps [where k = k and nd = ?nd] by (intro node_ok_primary) auto
  then show ?thesis by (subst nd) (simp add: alive_primary)
qed

lemma frame_info:
  assumes "vote_frame nd nd'"
  shows "info (n_info nd') = info (n_info nd)" and "glocal (n_info nd') = glocal (n_info nd)"
    and "n_active nd' = n_active nd"
  using assms by (auto simp: vote_frame_def)

lemma beat_role_pending:
  assumes "pending (identity b) nd"
  shows "pending (identity b) (beat_role e b nd)"
proof -
  let ?k = "identity b"
  have f: "pending ?k (vm_force e st ms nd')" "pending ?k (nd'\<lparr>startShiftTime := -1\<rparr>)"
    "pending ?k (reelectionDone nd')" if "pending ?k nd'" for st ms nd'
    using that by (auto elim: pending_frame)
  have p: "pending ?k (upd_info (\<lambda>g. g\<lparr>gprimary := identity b\<rparr>) nd')"
    "pending ?k (upd_info (\<lambda>g. g\<lparr>gprimary := MSG_INVALID_ROUTEID\<rparr>) nd')" if "pending ?k nd'" for nd'
    using that by (auto intro: pending_primary)
  show ?thesis using assms by (simp add: beat_role_def Let_def f p)
qed

lemma beat_role_info:
  "info (n_info (beat_role e b nd)) = info (n_info nd)"
  "glocal (n_info (beat_role e b nd)) = glocal (n_info nd)"
  "n_active (beat_role e b nd) = n_active nd"
  by (simp_all add: beat_role_def Let_def upd_info_def frame_info [OF frame_vm_force] frame_info [OF frame_reelectionDone])

lemma handleSharingBeat_ok:
  assumes ok: "node_ok nd"
  shows "node_ok (snd (handleSharingBeat e b nd))"
proof -
  let ?k = "identity b"
  have send: "node_ok (syncSend d m nd')" if "node_ok nd'" for d m nd'
    using that frame_send by (rule frame_node_ok)
  show ?thesis
  proof (cases "map_of (info (n_info nd)) ?k")
    case None
    then show ?thesis using ok send by (simp add: handleSharingBeat_def Let_def alive_def)
  next
    case (Some st)
    let ?nd1 = "upd_info (\<lambda>g. g\<lparr>info := smap_put ?k (st\<lparr>beat := b\<rparr>) (info g)\<rparr>) nd"
    have "node_ok ?nd1" using Some by (intro node_ok_put [OF ok]) simp_all
    then have "pending ?k (beat_role e b ?nd1)" by (intro beat_role_pending pending_of_ok)
    then have "node_ok (snd (alive ?k (beat_role e b ?nd1)))"
      by (rule alive_pending) (simp add: beat_role_info upd_info_def)
    then show ?thesis using ok Some send alive_ok(1) [OF ok] by (simp add: handleSharingBeat_def Let_def)
  qed
qed

lemma handleMsg_ok:
  assumes "node_ok nd"
  shows "node_ok (snd (handleMsg e m nd))"
proof (cases m)
  case (MsgClsNodeStatusNotify rid full)
  then show ?thesis using assms linked_notifyFullSync by (simp add: node_ok_def)
qed (use assms handleSharingBeat_ok alive_ok(1) frame_node_ok [OF assms frame_vm_handleInput] in
    \<open>simp_all add: handleSharingBeatRes_def\<close>)

lemma onTimer_ok:
  assumes "node_ok nd"
  shows "node_ok (onTimer e net ms nd)"
proof -
  have beat: "node_ok (nd'\<lparr>n_beatTime := t\<rparr>)" if "node_ok nd'" for nd' t
    using that by (rule node_ok_cong) simp_all
  have vote: "node_ok (vm_handleTimeout e ms nd')" if "node_ok nd'" for nd'
    using that frame_vm_handleTimeout by (rule frame_node_ok)
  have sync: "node_ok (on_sync (sync_handleTimeout ms) nd')" if "node_ok nd'" for nd'
    using that by (rule on_sync_ok) (rule linked_timeout)
  show ?thesis using assms
    by (simp add: onTimer_def Let_def beat vote sync checkBreak_ok sharingBeat_ok)
qed

lemma step_events_ok:
  assumes "node_ok nd"
  shows "node_ok (handleStepDown e nd)" and "node_ok (handleStepUp e seconds nd)"
proof -
  show "node_ok (handleStepUp e seconds nd)"
    unfolding handleStepUp_def by (rule frame_node_ok [OF assms]) simp
  have "vote_frame nd (handleStepDown e nd)"
    unfolding handleStepDown_def by (rule vote_frame_trans [OF frame_upd_vote frame_vm_force])
  then show "node_ok (handleStepDown e nd)" by (rule frame_node_ok [OF assms])
qed

lemma repl_sync_ok:
  assumes "node_ok nd" and "offset \<le> DPS_INVALID_LSN_OFFSET"
  shows "node_ok (snd (repl_sync offset cb w nd))"
proof (cases "offset = DPS_INVALID_LSN_OFFSET \<or> w \<le> 1")
  case False
  then have "endLsn \<lparr>endLsn = offset, eduCB = cb\<rparr> < DPS_INVALID_LSN_OFFSET" using assms(2) by simp
  then show ?thesis using assms(1) False linked_session
    by (simp add: repl_sync_def node_ok_def Let_def split_def)
qed (use assms in \<open>auto simp: repl_sync_def\<close>)

end
