(* ===== verification/VoteMoves.thy ===== *)
theory VoteMoves
  imports NodeSteps
begin

text \<open>
  What the handlers of a node do to its part in the election. The view of a node is its status, the
  votes it has counted since it announced itself and the time it has been silent; the relation
  \<open>vote_move\<close> says how a view may change, and with which of its own votes. Every message and every
  timer of a node in a group of two or more is such a move.
\<close>

section \<open>Moves\<close>

type_synonym view = "CLS_ELECTION_STATUS \<times> nat \<times> nat"

text \<open>
  \<open>vote_move n lim d ack\<close> is a move in a group of \<open>n\<close> nodes during which the timer advances by \<open>d\<close>
  milliseconds and, if \<open>ack\<close>, one vote arrives; \<open>lim\<close> is the least time a node keeps silent. The
  label is the node that is voted for.
\<close>

inductive vote_move :: "nat \<Rightarrow> nat \<Rightarrow> nat \<Rightarrow> bool \<Rightarrow> view \<Rightarrow> routeID option \<Rightarrow> view \<Rightarrow> bool"
  for n lim d :: nat and ack :: bool
where
  stay_silent: "t' \<le> t + d \<Longrightarrow>
    vote_move n lim d ack (CLS_ELECTION_STATUS_SILENCE, a, t) None (CLS_ELECTION_STATUS_SILENCE, a, t')"
| wake_up: "lim \<le> t + d \<Longrightarrow>
    vote_move n lim d ack (CLS_ELECTION_STATUS_SILENCE, a, t) None (CLS_ELECTION_STATUS_SEC, a, t')"
| campaign: "s \<in> {CLS_ELECTION_STATUS_SEC, CLS_ELECTION_STATUS_VOTE} \<Longrightarrow>
    s' \<in> {CLS_ELECTION_STATUS_SEC, CLS_ELECTION_STATUS_VOTE} \<Longrightarrow> vote_move n lim d ack (s, a, t) None (s', a, t)"
| announce: "vote_move n lim d ack (CLS_ELECTION_STATUS_VOTE, a, t) None (CLS_ELECTION_STATUS_ANNOUNCE, 0, t)"
| grant: "s \<in> {CLS_ELECTION_STATUS_SEC, CLS_ELECTION_STATUS_VOTE} \<Longrightarrow>
    vote_move n lim d ack (s, a, t) (Some c) (CLS_ELECTION_STATUS_SILENCE, a, 0)"
| count: "a' \<le> a + of_bool ack \<Longrightarrow>
    vote_move n lim d ack (CLS_ELECTION_STATUS_ANNOUNCE, a, t) None (CLS_ELECTION_STATUS_ANNOUNCE, a', t)"
| elect: "a' \<le> a + of_bool ack \<Longrightarrow> CLS_IS_MAJORITY (a' + 1) n \<Longrightarrow>
    vote_move n lim d ack (CLS_ELECTION_STATUS_ANNOUNCE, a, t) None (CLS_ELECTION_STATUS_PRIMARY, a', t)"
| stay_primary:
    "vote_move n lim d ack (CLS_ELECTION_STATUS_PRIMARY, a, t) None (CLS_ELECTION_STATUS_PRIMARY, a, t)"
| give_up: "s \<noteq> CLS_ELECTION_STATUS_SILENCE \<Longrightarrow> a' \<le> a + of_bool ack \<Longrightarrow>
    vote_move n lim d ack (s, a, t) None (CLS_ELECTION_STATUS_SILENCE, a', 0)"

inductive_cases silent_move: "vote_move n lim d ack (CLS_ELECTION_STATUS_SILENCE, a, t) l v"
inductive_cases announced_move: "vote_move n lim d ack (CLS_ELECTION_STATUS_ANNOUNCE, a, t) l v"
inductive_cases primary_move: "vote_move n lim d ack (CLS_ELECTION_STATUS_PRIMARY, a, t) l v"

section \<open>Views of a node\<close>

definition votes_counted :: "clsNode \<Rightarrow> nat" where
  "votes_counted nd = acceptedNum (vs_of CLS_ELECTION_STATUS_ANNOUNCE nd)"

definition silent_time :: "clsNode \<Rightarrow> nat" where
  "silent_time nd = vs_time (vs_of CLS_ELECTION_STATUS_SILENCE nd)"

definition view_of :: "clsNode \<Rightarrow> view" where
  "view_of nd = (the (vm_current (n_vote nd)), votes_counted nd, silent_time nd)"

text \<open>A vote is a positive answer to a ballot of the second round.\<close>

fun is_vote :: "clsMsg \<Rightarrow> bool" where
  "is_vote (MsgClsElectionRes rid rnd rc) = (rnd = CLS_ELECTION_ROUND_STAGE_TWO \<and> rc = SDB_OK)"
| "is_vote _ = False"

definition votes_in :: "(routeID \<times> clsMsg) list \<Rightarrow> routeID list" where
  "votes_in out = map fst (filter (\<lambda>(_, m). is_vote m) out)"

definition label_votes :: "routeID option \<Rightarrow> routeID list" where
  "label_votes l = (case l of None \<Rightarrow> [] | Some c \<Rightarrow> [c])"

lemma votes_in_simps [simp]:
  "votes_in [] = []" "votes_in (xs @ ys) = votes_in xs @ votes_in ys"
  "votes_in (x # xs) = (if is_vote (snd x) then fst x # votes_in xs else votes_in xs)"
  by (auto simp: votes_in_def split_def)

lemma votes_in_none: "\<forall>x \<in> set out. \<not> is_vote (snd x) \<Longrightarrow> votes_in out = []"
  by (induction out) simp_all

text \<open>The rest of the node that matters: who it is and which group it knows.\<close>

definition same_group :: "clsNode \<Rightarrow> clsNode \<Rightarrow> bool" where
  "same_group nd nd' \<longleftrightarrow> glocal (n_info nd') = glocal (n_info nd) \<and> n_active nd' = n_active nd \<and>
     map fst (info (n_info nd')) = map fst (info (n_info nd))"

lemma same_group_size: "same_group nd nd' \<Longrightarrow> groupSize (n_info nd') = groupSize (n_info nd)"
  unfolding same_group_def groupSize_def by (metis length_map)

lemma same_group_refl [simp]: "same_group nd nd"
  by (simp add: same_group_def)

lemma same_group_trans: "same_group a b \<Longrightarrow> same_group b c \<Longrightarrow> same_group a c"
  by (simp add: same_group_def)

text \<open>An operation that leaves the election alone.\<close>

definition quiet :: "clsNode \<Rightarrow> clsNode \<Rightarrow> bool" where
  "quiet nd nd' \<longleftrightarrow> vm_current (n_vote nd') = vm_current (n_vote nd) \<and> view_of nd' = view_of nd \<and>
     votes_in (n_sent nd') = votes_in (n_sent nd) \<and> same_group nd nd'"

lemma quiet_same:
  assumes "n_vote nd' = n_vote nd" and "votes_in (n_sent nd') = votes_in (n_sent nd)" and "same_group nd nd'"
  shows "quiet nd nd'"
  using assms by (simp add: quiet_def view_of_def votes_counted_def silent_time_def vs_of_def)

lemma quiet_refl [simp]: "quiet nd nd"
  by (simp add: quiet_def)

lemma quiet_trans [trans]: "quiet a b \<Longrightarrow> quiet b c \<Longrightarrow> quiet a c"
  by (auto simp: quiet_def intro: same_group_trans)

lemma quiet_info:
  assumes "glocal (f (n_info nd)) = glocal (n_info nd)"
    and "map fst (info (f (n_info nd))) = map fst (info (n_info nd))"
  shows "quiet nd (upd_info f nd)"
  using assms by (intro quiet_same) (simp_all add: upd_info_def same_group_def)

lemma frame_same_group: "vote_frame nd nd' \<Longrightarrow> same_group nd nd'"
  by (simp add: same_group_def frame_info)

section \<open>Moves of a node\<close>

text \<open>\<open>moves d ack nd nd'\<close>: the node makes one move and sends the vote of its label.\<close>

definition moves :: "nat \<Rightarrow> bool \<Rightarrow> clsNode \<Rightarrow> clsNode \<Rightarrow> bool" where
  "moves d ack nd nd' \<longleftrightarrow> vm_current (n_vote nd') \<noteq> None \<and> same_group nd nd' \<and>
     (\<exists>l. vote_move (groupSize (n_info nd)) 6000 d ack (view_of nd) l (view_of nd') \<and>
          votes_in (n_sent nd') = votes_in (n_sent nd) @ label_votes l)"

lemma vote_move_stay: "vote_move n lim d ack v None v"
proof -
  obtain s a t where v: "v = (s, a, t)" by (cases v)
  show ?thesis unfolding v by (cases s) (auto intro: vote_move.intros)
qed

lemma quiet_moves: "vm_current (n_vote nd) \<noteq> None \<Longrightarrow> quiet nd nd' \<Longrightarrow> moves d ack nd nd'"
  by (auto simp: quiet_def moves_def label_votes_def intro: vote_move_stay)

lemma moves_quiet: "moves d ack a b \<Longrightarrow> quiet b c \<Longrightarrow> moves d ack a c"
  by (auto simp: quiet_def moves_def intro: same_group_trans)

lemma quiet_then_moves: "quiet a b \<Longrightarrow> moves d ack b c \<Longrightarrow> moves d ack a c"
  by (auto simp: quiet_def moves_def intro: same_group_trans) (metis same_group_size)

section \<open>Activation\<close>

text \<open>In a group of two or more a status keeps itself on activation.\<close>

lemma vs_active_stays: "groupSize (n_info nd) \<noteq> 1 \<Longrightarrow> fst (vs_active e st nd) = st"
  by (cases st) (simp_all add: silence_active_def secondary_active_def vote_active_def announce_active_def
      primary_active_def Let_def upd_vs_def upd_vote_def)

lemma deactive_quiet: "quiet nd (vs_deactive e st nd)"
proof -
  have "n_vote (on_sync f nd') = n_vote nd'" "n_sent (on_sync f nd') = n_sent nd'" for f nd'
    by (simp_all add: on_sync_def split: option.split)
  then have "n_vote (primary_deactive e nd) = n_vote nd" "n_sent (primary_deactive e nd) = n_sent nd"
    by (simp_all add: primary_deactive_def Let_def upd_info_def)
  then have "quiet nd (primary_deactive e nd)"
    by (intro quiet_same) (simp_all add: frame_same_group)
  then show ?thesis by (cases "(e, st, nd)" rule: vs_deactive.cases) simp_all
qed

lemma votes_broadcast: "\<not> is_vote m \<Longrightarrow> votes_in (n_sent (broadcastAlives m nd)) = votes_in (n_sent nd)"
  by (simp add: broadcastAlives_def votes_in_none)

lemma launch_quiet: "quiet nd (snd (launch e rnd nd))"
proof (rule quiet_same)
  show "n_vote (snd (launch e rnd nd)) = n_vote nd" by (simp add: launch_def Let_def broadcastAlives_def)
  show "votes_in (n_sent (snd (launch e rnd nd))) = votes_in (n_sent nd)"
    by (simp add: launch_def Let_def votes_broadcast)
qed (simp add: frame_same_group)

text \<open>What the fields of the status objects are after an update.\<close>

lemma vs_of_upd: "vs_of st' (upd_vs st f nd) = (if st' = st then f (vs_of st nd) else vs_of st' nd)"
  by (simp add: vs_of_def upd_vs_def upd_vote_def)

lemma upd_vs_others [simp]:
  "n_info (upd_vs st f nd) = n_info nd" "n_sent (upd_vs st f nd) = n_sent nd"
  "vm_current (n_vote (upd_vs st f nd)) = vm_current (n_vote nd)"
  by (simp_all add: upd_vs_def upd_vote_def)

lemma quiet_fields:
  assumes "quiet nd nd'"
  shows "votes_counted nd' = votes_counted nd" and "silent_time nd' = silent_time nd"
    and "votes_in (n_sent nd') = votes_in (n_sent nd)" and "vm_current (n_vote nd') = vm_current (n_vote nd)"
    and "same_group nd nd'"
  using assms by (simp_all add: quiet_def view_of_def)

lemma vs_active_view:
  "votes_counted (snd (vs_active e st nd)) = (if st = CLS_ELECTION_STATUS_ANNOUNCE then 0 else votes_counted nd)"
  "silent_time (snd (vs_active e st nd)) = (if st = CLS_ELECTION_STATUS_SILENCE then 0 else silent_time nd)"
  "votes_in (n_sent (snd (vs_active e st nd))) = votes_in (n_sent nd)"
proof -
  note defs = silence_active_def secondary_active_def vote_active_def announce_active_def primary_active_def
    reelectionDone_def
  show "votes_counted (snd (vs_active e st nd)) = (if st = CLS_ELECTION_STATUS_ANNOUNCE then 0 else votes_counted nd)"
    by (cases st) (simp_all add: defs Let_def votes_counted_def vs_of_upd [unfolded vs_of_def] vs_of_def upd_info_def upd_vote_def
        quiet_fields(1) [OF launch_quiet, unfolded votes_counted_def vs_of_def])
  show "silent_time (snd (vs_active e st nd)) = (if st = CLS_ELECTION_STATUS_SILENCE then 0 else silent_time nd)"
    by (cases st) (simp_all add: defs Let_def silent_time_def vs_of_upd [unfolded vs_of_def] vs_of_def upd_info_def upd_vote_def
        quiet_fields(2) [OF launch_quiet, unfolded silent_time_def vs_of_def])
  show "votes_in (n_sent (snd (vs_active e st nd))) = votes_in (n_sent nd)"
    by (cases st) (simp_all add: defs Let_def upd_info_def upd_vote_def quiet_fields(3) [OF launch_quiet])
qed

lemma upd_current_fields [simp]:
  "votes_counted (upd_vote (\<lambda>v. v\<lparr>vm_current := c\<rparr>) nd) = votes_counted nd"
  "silent_time (upd_vote (\<lambda>v. v\<lparr>vm_current := c\<rparr>) nd) = silent_time nd"
  "votes_counted (upd_vote (\<lambda>v. v\<lparr>forceMillis := ms\<rparr>) nd) = votes_counted nd"
  "silent_time (upd_vote (\<lambda>v. v\<lparr>forceMillis := ms\<rparr>) nd) = silent_time nd"
  by (simp_all add: votes_counted_def silent_time_def vs_of_def upd_vote_def)

lemma activate_view:
  fixes st :: CLS_ELECTION_STATUS and nd :: clsNode
  assumes size: "groupSize (n_info nd) \<noteq> 1"
  defines "fresh \<equiv> \<lambda>st'. st' = st \<and> vm_current (n_vote nd) \<noteq> Some st"
  shows "vm_current (n_vote (activate_status e st nd)) = Some st"
    and "votes_counted (activate_status e st nd) = (if fresh CLS_ELECTION_STATUS_ANNOUNCE then 0 else votes_counted nd)"
    and "silent_time (activate_status e st nd) = (if fresh CLS_ELECTION_STATUS_SILENCE then 0 else silent_time nd)"
    and "votes_in (n_sent (activate_status e st nd)) = votes_in (n_sent nd)"
proof -
  let ?c = "vm_current (n_vote nd)"
  let ?a = "vs_deactive e ?c nd"
  let ?b = "snd (vs_active e st ?a)"
  have q: "quiet nd ?a" by (rule deactive_quiet)
  have "groupSize (n_info ?a) \<noteq> 1" using same_group_size [OF quiet_fields(5) [OF q]] size by simp
  then have "fst (vs_active e st ?a) = st" by (rule vs_active_stays)
  then have loop: "activate_loop e ?c st nd = upd_vote (\<lambda>v. v\<lparr>vm_current := Some st\<rparr>) ?b"
    by (subst activate_loop.simps) (simp add: split_def)
  have act: "activate_status e st nd = upd_vote (\<lambda>v. v\<lparr>forceMillis := 0\<rparr>)
      (if ?c = Some st then nd else upd_vote (\<lambda>v. v\<lparr>vm_current := Some st\<rparr>) ?b)"
    by (simp add: activate_status_def Let_def loop)
  note v = vs_active_view quiet_fields [OF q] fresh_def
  show "vm_current (n_vote (activate_status e st nd)) = Some st"
    unfolding act by (cases "?c = Some st") (simp_all add: upd_vote_def)
  show "votes_counted (activate_status e st nd) = (if fresh CLS_ELECTION_STATUS_ANNOUNCE then 0 else votes_counted nd)"
    unfolding act by (cases "?c = Some st") (auto simp: v)
  show "silent_time (activate_status e st nd) = (if fresh CLS_ELECTION_STATUS_SILENCE then 0 else silent_time nd)"
    unfolding act by (cases "?c = Some st") (auto simp: v)
  show "votes_in (n_sent (activate_status e st nd)) = votes_in (n_sent nd)"
    unfolding act by (cases "?c = Some st") (simp_all add: v upd_vote_def)
qed

lemma activate_moves:
  assumes size: "groupSize (n_info nd) \<noteq> 1" and s: "vm_current (n_vote nd) = Some s" "vm_current (n_vote nd1) = Some s"
    and same: "same_group nd nd1" and out: "votes_in (n_sent nd1) = votes_in (n_sent nd) @ label_votes l"
    and move: "vote_move (groupSize (n_info nd)) 6000 d ack (s, votes_counted nd, silent_time nd) l
      (st, if st = CLS_ELECTION_STATUS_ANNOUNCE \<and> s \<noteq> st then 0 else votes_counted nd1,
           if st = CLS_ELECTION_STATUS_SILENCE \<and> s \<noteq> st then 0 else silent_time nd1)"
  shows "moves d ack nd (activate_status e st nd1)"
proof -
  have "groupSize (n_info nd1) \<noteq> 1" using size same_group_size [OF same] by simp
  note a = activate_view [OF this, of e st]
  have "same_group nd (activate_status e st nd1)"
    using same frame_same_group [OF frame_activate_status] by (rule same_group_trans)
  moreover have v1: "view_of (activate_status e st nd1) =
      (st, if st = CLS_ELECTION_STATUS_ANNOUNCE \<and> s \<noteq> st then 0 else votes_counted nd1,
           if st = CLS_ELECTION_STATUS_SILENCE \<and> s \<noteq> st then 0 else silent_time nd1)"
    using s by (auto simp: view_of_def a)
  moreover have v0: "view_of nd = (s, votes_counted nd, silent_time nd)" using s by (simp add: view_of_def)
  moreover have "votes_in (n_sent (activate_status e st nd1)) = votes_in (n_sent nd) @ label_votes l"
    using out by (simp add: a)
  ultimately show ?thesis unfolding moves_def v0 v1 using move a(1) by blast
qed

section \<open>Messages and timers of the vote machine\<close>

lemma answer_fields:
  "n_vote (snd (answer e lsn rid rnd nd)) = n_vote nd"
  "votes_in (n_sent (snd (answer e lsn rid rnd nd))) = votes_in (n_sent nd) @
     label_votes (if fst (answer e lsn rid rnd nd) = SDB_OK \<and> rnd = CLS_ELECTION_ROUND_STAGE_TWO then Some rid else None)"
  by (auto simp: answer_def Let_def syncSend_def label_votes_def split: option.split)

lemma view_fields_cong:
  assumes "n_vote nd' = n_vote nd"
  shows "votes_counted nd' = votes_counted nd" and "silent_time nd' = silent_time nd"
  using assms by (simp_all add: votes_counted_def silent_time_def vs_of_def)

lemma inc_accepted_fields:
  "votes_counted (inc_accepted st nd) =
     (if st = CLS_ELECTION_STATUS_ANNOUNCE then u32 (votes_counted nd + 1) else votes_counted nd)"
  "silent_time (inc_accepted st nd) = silent_time nd"
  "acceptedNum (vs_of st (inc_accepted st nd)) = u32 (acceptedNum (vs_of st nd) + 1)"
  "n_sent (inc_accepted st nd) = n_sent nd" "n_info (inc_accepted st nd) = n_info nd"
  "vm_current (n_vote (inc_accepted st nd)) = vm_current (n_vote nd)"
  by (simp_all add: inc_accepted_def votes_counted_def silent_time_def vs_of_upd)

lemma add_time_fields:
  "votes_counted (add_time st ms nd) = votes_counted nd"
  "silent_time (add_time st ms nd) =
     (if st = CLS_ELECTION_STATUS_SILENCE then u32 (silent_time nd + ms) else silent_time nd)"
  "n_sent (add_time st ms nd) = n_sent nd" "n_info (add_time st ms nd) = n_info nd"
  "vm_current (n_vote (add_time st ms nd)) = vm_current (n_vote nd)"
  by (simp_all add: add_time_def votes_counted_def silent_time_def vs_of_upd)

lemma u32_le: "u32 n \<le> n"
  by (simp add: u32_def)

lemma majority_of_all: "n \<le> a \<Longrightarrow> 0 < n \<Longrightarrow> CLS_IS_MAJORITY a n"
  by (simp add: CLS_IS_MAJORITY_def)

text \<open>A ballot: the node stays in its status, or answers with a vote and falls silent.\<close>

lemma ballot_moves:
  assumes size: "groupSize (n_info nd) \<noteq> 1" and s: "vm_current (n_vote nd) = Some s"
    and st: "s \<in> {CLS_ELECTION_STATUS_SEC, CLS_ELECTION_STATUS_VOTE}"
    and nd1: "n_vote nd1 = n_vote nd" "n_sent nd1 = n_sent nd" "same_group nd nd1"
    and nxt: "st' = (if fst (answer e lsn rid rnd nd1) = SDB_OK \<and> rnd = CLS_ELECTION_ROUND_STAGE_TWO
      then CLS_ELECTION_STATUS_SILENCE else st'')" "st'' \<in> {CLS_ELECTION_STATUS_SEC, CLS_ELECTION_STATUS_VOTE}"
  shows "moves d ack nd (activate_status e st' (snd (answer e lsn rid rnd nd1)))"
proof -
  let ?nd2 = "snd (answer e lsn rid rnd nd1)"
  have v: "n_vote ?nd2 = n_vote nd" by (simp add: answer_fields nd1)
  have same: "same_group nd ?nd2"
    using nd1(3) frame_same_group [OF frame_answer] by (rule same_group_trans)
  show ?thesis
    by (rule activate_moves [OF size s _ same])
      (use s st nxt in \<open>auto simp: answer_fields view_fields_cong [OF answer_fields(1)] view_fields_cong [OF nd1(1)] nd1
         intro: vote_move.intros\<close>)
qed

lemma stay_moves:
  assumes size: "groupSize (n_info nd) \<noteq> 1" and s: "vm_current (n_vote nd) = Some s"
  shows "moves d ack nd (activate_status e s nd)"
  by (rule activate_moves [OF size s s, where l = None]) (auto simp: label_votes_def intro: vote_move_stay)

lemma round_two: "rnd \<noteq> CLS_ELECTION_ROUND_STAGE_ONE \<longleftrightarrow> rnd = CLS_ELECTION_ROUND_STAGE_TWO"
  by (cases rnd) simp_all

lemma secondary_input_moves:
  assumes size: "groupSize (n_info nd) \<noteq> 1" and s: "vm_current (n_vote nd) = Some CLS_ELECTION_STATUS_SEC"
  shows "moves d ack nd (activate_status e (fst (secondary_handleInput e m nd)) (snd (secondary_handleInput e m nd)))"
proof (cases m)
  case (MsgClsElectionBallot lsn rid rnd)
  show ?thesis
    unfolding MsgClsElectionBallot secondary_handleInput.simps Let_def split_def fst_conv snd_conv
    by (rule ballot_moves [OF size s, where st'' = CLS_ELECTION_STATUS_SEC]) (auto simp: same_group_def round_two)
qed (use stay_moves [OF size s] in simp_all)

lemma vote_input_moves:
  assumes size: "groupSize (n_info nd) \<noteq> 1" and s: "vm_current (n_vote nd) = Some CLS_ELECTION_STATUS_VOTE"
  shows "moves d ack nd (activate_status e (fst (vote_handleInput e m nd)) (snd (vote_handleInput e m nd)))"
proof (cases m)
  case (MsgClsElectionBallot lsn rid rnd)
  show ?thesis
    unfolding MsgClsElectionBallot vote_handleInput.simps Let_def split_def fst_conv snd_conv
    by (rule ballot_moves [OF size s, where st'' = "if fst (answer e lsn rid rnd nd) = SDB_OK
         then CLS_ELECTION_STATUS_SEC else CLS_ELECTION_STATUS_VOTE"]) (auto simp: round_two)
next
  case (MsgClsElectionRes rid rnd rc)
  let ?nd1 = "inc_accepted CLS_ELECTION_STATUS_VOTE nd"
  have "moves d ack nd (activate_status e st ?nd1)"
    if "st \<in> {CLS_ELECTION_STATUS_VOTE, CLS_ELECTION_STATUS_ANNOUNCE}" for st
    by (rule activate_moves [OF size s, where l = None])
      (use that s in \<open>auto simp: inc_accepted_fields label_votes_def frame_same_group intro: vote_move.intros\<close>)
  moreover have "moves d ack nd (activate_status e CLS_ELECTION_STATUS_SEC nd)"
    by (rule activate_moves [OF size s s, where l = None]) (auto simp: label_votes_def intro: vote_move.intros)
  ultimately show ?thesis using stay_moves [OF size s] MsgClsElectionRes by (simp add: Let_def)
qed (use stay_moves [OF size s] in simp_all)

lemma announce_input_moves:
  assumes size: "groupSize (n_info nd) \<noteq> 1" and s: "vm_current (n_vote nd) = Some CLS_ELECTION_STATUS_ANNOUNCE"
  shows "moves d (is_vote m) nd (activate_status e (fst (announce_handleInput m nd)) (snd (announce_handleInput m nd)))"
proof (cases m)
  case (MsgClsElectionRes rid rnd rc)
  let ?nd1 = "inc_accepted CLS_ELECTION_STATUS_ANNOUNCE nd"
  have pos: "0 < groupSize (n_info nd)" by (simp add: groupSize_def)
  have le: "u32 (votes_counted nd + 1) \<le> votes_counted nd + of_bool True" using u32_le by simp
  have "moves d True nd (activate_status e CLS_ELECTION_STATUS_ANNOUNCE ?nd1)"
    by (rule activate_moves [OF size s, where l = None])
      (use s le in \<open>auto simp: inc_accepted_fields label_votes_def frame_same_group intro: vote_move.count\<close>)
  moreover have "moves d True nd (activate_status e CLS_ELECTION_STATUS_PRIMARY ?nd1)"
    if "groupSize (n_info nd) \<le> acceptedNum (vs_of CLS_ELECTION_STATUS_ANNOUNCE ?nd1) + 1"
    by (rule activate_moves [OF size s, where l = None])
      (use s le that majority_of_all [OF _ pos] in
       \<open>auto simp: inc_accepted_fields label_votes_def frame_same_group votes_counted_def intro!: vote_move.elect\<close>)
  moreover have "moves d ack nd (activate_status e CLS_ELECTION_STATUS_SILENCE nd)" for ack
    by (rule activate_moves [OF size s s, where l = None]) (auto simp: label_votes_def intro: vote_move.give_up)
  ultimately show ?thesis using stay_moves [OF size s] MsgClsElectionRes
    by (simp add: Let_def round_two) (simp add: inc_accepted_fields)
qed (use stay_moves [OF size s] in simp_all)

lemma vm_handleInput_moves:
  assumes size: "groupSize (n_info nd) \<noteq> 1" and s: "vm_current (n_vote nd) \<noteq> None"
  shows "moves d (is_vote m) nd (snd (vm_handleInput e m nd))"
proof -
  obtain st where st: "vm_current (n_vote nd) = Some st" using s by blast
  show ?thesis using st stay_moves [OF size st] secondary_input_moves [OF size] vote_input_moves [OF size]
      announce_input_moves [OF size]
    by (cases st) (simp_all add: vm_handleInput_def Let_def split_def)
qed

lemma silence_timeout_moves:
  assumes size: "groupSize (n_info nd) \<noteq> 1" and s: "vm_current (n_vote nd) = Some CLS_ELECTION_STATUS_SILENCE"
    and break: "5000 \<le> sharingBreakTime e"
  shows "moves ms ack nd (activate_status e (fst (silence_handleTimeout e ms nd)) (snd (silence_handleTimeout e ms nd)))"
proof -
  let ?nd1 = "add_time CLS_ELECTION_STATUS_SILENCE ms nd"
  let ?t = "vs_time (vs_of CLS_ELECTION_STATUS_SILENCE ?nd1)"
  have t: "?t = u32 (silent_time nd + ms)" using add_time_fields(2) [of CLS_ELECTION_STATUS_SILENCE ms nd]
    by (simp add: silent_time_def)
  have le: "u32 (silent_time nd + ms) \<le> silent_time nd + ms" by (rule u32_le)
  have "moves ms ack nd (activate_status e CLS_ELECTION_STATUS_SILENCE ?nd1)"
    by (rule activate_moves [OF size s, where l = None])
      (use s le in \<open>auto simp: add_time_fields label_votes_def frame_same_group intro: vote_move.stay_silent\<close>)
  moreover have "moves ms ack nd (activate_status e CLS_ELECTION_STATUS_SEC ?nd1)"
    if "sharingBreakTime e + 1000 \<le> ?t \<or> maxSliceTime \<le> ?t"
  proof -
    have "6000 \<le> silent_time nd + ms" using that le break by (auto simp: t maxSliceTime_def)
    then show ?thesis
      by (intro activate_moves [OF size s, where l = None])
        (use s in \<open>auto simp: add_time_fields label_votes_def frame_same_group intro: vote_move.wake_up\<close>)
  qed
  ultimately show ?thesis by (simp add: silence_handleTimeout_def Let_def)
qed

lemma secondary_timeout_moves:
  assumes size: "groupSize (n_info nd) \<noteq> 1" and s: "vm_current (n_vote nd) = Some CLS_ELECTION_STATUS_SEC"
  shows "moves ms ack nd (activate_status e (fst (secondary_handleTimeout ms nd)) (snd (secondary_handleTimeout ms nd)))"
proof -
  let ?nd1 = "add_time CLS_ELECTION_STATUS_SEC ms nd"
  have shift: "votes_counted (nd'\<lparr>startShiftTime := x\<rparr>) = votes_counted nd'"
    "silent_time (nd'\<lparr>startShiftTime := x\<rparr>) = silent_time nd'" for nd' x by (rule view_fields_cong; simp)+
  have m: "moves ms ack nd (activate_status e st nd2)"
    if st: "st \<in> {CLS_ELECTION_STATUS_SEC, CLS_ELECTION_STATUS_VOTE}" and nd2: "nd2 \<in> {?nd1, ?nd1\<lparr>startShiftTime := -1\<rparr>}" for st nd2
    by (rule activate_moves [OF size s, where l = None])
      (use st nd2 s in \<open>auto simp: add_time_fields shift label_votes_def same_group_def frame_info [OF frame_add_time]
         intro: vote_move.campaign\<close>)
  show ?thesis using m [of CLS_ELECTION_STATUS_SEC ?nd1] m [of CLS_ELECTION_STATUS_SEC "?nd1\<lparr>startShiftTime := -1\<rparr>"]
      m [of CLS_ELECTION_STATUS_VOTE "?nd1\<lparr>startShiftTime := -1\<rparr>"]
    by (simp add: secondary_handleTimeout_def Let_def)
qed

lemma vote_timeout_moves:
  assumes size: "groupSize (n_info nd) \<noteq> 1" and s: "vm_current (n_vote nd) = Some CLS_ELECTION_STATUS_VOTE"
  shows "moves ms ack nd (activate_status e (fst (vote_handleTimeout e ms nd)) (snd (vote_handleTimeout e ms nd)))"
proof -
  let ?nd1 = "add_time CLS_ELECTION_STATUS_VOTE ms nd"
  have "moves ms ack nd (activate_status e st ?nd1)"
    if "st \<in> {CLS_ELECTION_STATUS_SEC, CLS_ELECTION_STATUS_VOTE, CLS_ELECTION_STATUS_ANNOUNCE}" for st
    by (rule activate_moves [OF size s, where l = None])
      (use that s in \<open>auto simp: add_time_fields label_votes_def frame_same_group intro: vote_move.intros\<close>)
  then show ?thesis by (simp add: vote_handleTimeout_def Let_def)
qed

lemma announce_timeout_moves:
  assumes size: "groupSize (n_info nd) \<noteq> 1" and s: "vm_current (n_vote nd) = Some CLS_ELECTION_STATUS_ANNOUNCE"
  shows "moves ms ack nd (activate_status e (fst (announce_handleTimeout ms nd)) (snd (announce_handleTimeout ms nd)))"
proof -
  let ?nd1 = "add_time CLS_ELECTION_STATUS_ANNOUNCE ms nd"
  have "moves ms ack nd (activate_status e st ?nd1)"
    if "st \<in> {CLS_ELECTION_STATUS_ANNOUNCE, CLS_ELECTION_STATUS_SILENCE}" for st
    by (rule activate_moves [OF size s, where l = None])
      (use that s in \<open>auto simp: add_time_fields label_votes_def frame_same_group intro: vote_move.intros\<close>)
  moreover have "moves ms ack nd (activate_status e CLS_ELECTION_STATUS_PRIMARY ?nd1)"
    if "vs_isAccepted CLS_ELECTION_STATUS_ANNOUNCE ?nd1"
  proof -
    have "CLS_IS_MAJORITY (votes_counted nd + 1) (groupSize (n_info nd))"
      using that add_time_fields(1) [of CLS_ELECTION_STATUS_ANNOUNCE ms nd]
      by (simp add: vs_isAccepted_def votes_counted_def add_time_fields)
    then show ?thesis
      by (intro activate_moves [OF size s, where l = None])
        (use s in \<open>auto simp: add_time_fields label_votes_def frame_same_group intro: vote_move.elect\<close>)
  qed
  ultimately show ?thesis by (simp add: announce_handleTimeout_def Let_def)
qed

lemma primary_timeout_moves:
  assumes size: "groupSize (n_info nd) \<noteq> 1" and s: "vm_current (n_vote nd) = Some CLS_ELECTION_STATUS_PRIMARY"
  shows "moves ms ack nd (activate_status e (fst (primary_handleTimeout ms nd)) (snd (primary_handleTimeout ms nd)))"
proof -
  let ?nd1 = "add_time CLS_ELECTION_STATUS_PRIMARY ms nd"
  let ?nd2 = "upd_vs CLS_ELECTION_STATUS_PRIMARY (\<lambda>s. s\<lparr>vs_time := 0\<rparr>) ?nd1"
  have v: "votes_counted ?nd2 = votes_counted nd" "silent_time ?nd2 = silent_time nd"
    using add_time_fields(1,2) [of CLS_ELECTION_STATUS_PRIMARY ms nd]
    by (simp_all add: votes_counted_def silent_time_def vs_of_upd)
  have "moves ms ack nd (activate_status e CLS_ELECTION_STATUS_PRIMARY nd')" if "nd' \<in> {?nd1, ?nd2}" for nd'
    by (rule activate_moves [OF size s, where l = None])
      (use that s in \<open>auto simp: v add_time_fields label_votes_def same_group_def frame_info [OF frame_add_time]
         frame_info [OF frame_upd_vs] intro: vote_move.intros\<close>)
  moreover have "moves ms ack nd (activate_status e CLS_ELECTION_STATUS_SILENCE ?nd1)"
    by (rule activate_moves [OF size s, where l = None])
      (use s in \<open>auto simp: add_time_fields label_votes_def frame_same_group intro: vote_move.give_up\<close>)
  ultimately show ?thesis by (simp add: primary_handleTimeout_def Let_def)
qed

lemma vm_handleTimeout_moves:
  assumes size: "groupSize (n_info nd) \<noteq> 1" and s: "vm_current (n_vote nd) \<noteq> None" and "5000 \<le> sharingBreakTime e"
  shows "moves ms ack nd (vm_handleTimeout e ms nd)"
proof -
  obtain st where st: "vm_current (n_vote nd) = Some st" using s by blast
  have "quiet nd (upd_vote (\<lambda>v. v\<lparr>forceMillis := f v\<rparr>) nd)" for f
    by (simp add: quiet_def view_of_def votes_counted_def silent_time_def vs_of_def upd_vote_def same_group_def)
  then have force: "moves ms ack nd (upd_vote (\<lambda>v. v\<lparr>forceMillis := f v\<rparr>) nd)" for f
    using s by (blast intro: quiet_moves)
  show ?thesis using st force silence_timeout_moves [OF size _ assms(3)] secondary_timeout_moves [OF size]
      vote_timeout_moves [OF size] announce_timeout_moves [OF size] primary_timeout_moves [OF size]
    by (cases st) (simp_all add: vm_handleTimeout_def Let_def split_def)
qed

section \<open>Messages and timers of the replica set\<close>

lemma same_group_maps:
  assumes "same_group nd nd'"
  shows "smap_ok (info (n_info nd')) = smap_ok (info (n_info nd))"
    and "map_of (info (n_info nd')) k = None \<longleftrightarrow> map_of (info (n_info nd)) k = None"
proof -
  have keys: "map fst (info (n_info nd')) = map fst (info (n_info nd))" using assms by (simp add: same_group_def)
  then show "smap_ok (info (n_info nd')) = smap_ok (info (n_info nd))" by (simp add: smap_ok_def)
  show "map_of (info (n_info nd')) k = None \<longleftrightarrow> map_of (info (n_info nd)) k = None"
    using keys by (metis map_of_eq_None_iff set_map)
qed

lemma quiet_put:
  assumes "smap_ok (info (n_info nd))" and "map_of (info (n_info nd)) k \<noteq> None"
  shows "quiet nd (upd_info (\<lambda>g. g\<lparr>info := smap_put k st (info g)\<rparr>) nd)"
  using assms by (intro quiet_info) (simp_all add: smap_put_keys)

lemma quiet_sync: "quiet nd (on_sync f nd)"
  by (rule quiet_same) (simp_all add: on_sync_def same_group_def split: option.split)

lemma quiet_send: "\<not> is_vote m \<Longrightarrow> quiet nd (syncSend d m nd)"
  by (rule quiet_same) (simp_all add: syncSend_def same_group_def)

lemma quiet_alive:
  assumes ok: "smap_ok (info (n_info nd))"
  shows "quiet nd (snd (alive k nd))"
proof (cases "map_of (info (n_info nd)) k")
  case None
  then show ?thesis by (simp add: alive_def)
next
  case (Some st)
  have "map fst (smap_put k (reset_times st) (info (n_info nd))) = map fst (info (n_info nd))"
    using Some by (intro smap_put_keys [OF ok]) simp
  then show ?thesis using Some
    by (intro quiet_same) (auto simp: alive_def Let_def upd_info_def same_group_def)
qed

lemma quiet_run_times: "quiet nd (upd_info (run_times ms) nd)"
  by (rule quiet_info) (simp_all add: run_times_def split_def comp_def if_distrib)

lemma quiet_break_member:
  assumes "smap_ok (info (n_info nd))" and "map_of (info (n_info nd)) k \<noteq> None"
  shows "quiet nd (break_member k st nd)"
  by (rule quiet_same)
    (use assms in \<open>simp_all add: break_member_def Let_def upd_info_def same_group_def smap_put_keys\<close>)

lemma quiet_break_loop:
  assumes "smap_ok (info (n_info nd))" and "\<forall>x \<in> set as. snd x = fst x"
  shows "quiet nd (break_loop t as nd)"
  using assms
proof (induction as arbitrary: nd)
  case (Cons a as)
  obtain k where a: "a = (k, k)" using Cons(3) by (cases a) simp
  show ?case
  proof (cases "map_of (info (n_info nd)) k")
    case None
    then show ?thesis using Cons a by simp
  next
    case (Some st)
    let ?nd = "if t \<le> ss_timeout st then break_member k st nd else nd"
    have q: "quiet nd ?nd" using quiet_break_member [OF Cons(2)] Some by simp
    have "smap_ok (info (n_info ?nd))" using same_group_maps(1) [OF quiet_fields(5) [OF q]] Cons(2) by simp
    then have "quiet ?nd (break_loop t as ?nd)" using Cons(1) [of ?nd] Cons(3) by simp
    with q have "quiet nd (break_loop t as ?nd)" by (rule quiet_trans)
    then show ?thesis using a Some by simp
  qed
qed simp

lemma quiet_checkBreak:
  assumes "node_ok nd"
  shows "quiet nd (checkBreak e ms nd)"
proof -
  let ?nd = "upd_info (run_times ms) nd"
  let ?b = "break_loop (sharingBreakTime e) (alives (n_info ?nd)) ?nd"
  have "node_ok ?nd" using assms by (rule run_times_ok)
  then have "smap_ok (info (n_info ?nd))" "\<forall>x \<in> set (alives (n_info ?nd)). snd x = fst x"
    by (auto simp: node_ok_def members_ok_def group_ok_def)
  then have "quiet ?nd ?b" by (rule quiet_break_loop)
  with quiet_run_times have b: "quiet nd ?b" by (rule quiet_trans)
  then have "quiet nd (on_sync f ?b)" for f using quiet_sync by (rule quiet_trans)
  with b show ?thesis using quiet_run_times by (simp add: checkBreak_def Let_def)
qed

lemma quiet_beat_member:
  assumes "smap_ok (info (n_info nd))" and "map_of (info (n_info nd)) (fst kst) \<noteq> None"
  shows "quiet nd (beat_member e net b kst nd)"
proof -
  obtain k st where kst: "kst = (k, st)" by (cases kst)
  have put: "quiet nd (upd_info (\<lambda>g. g\<lparr>info := smap_put k st' (info g)\<rparr>) nd)" for st'
    using assms kst by (intro quiet_put) simp_all
  have "quiet nd (syncSend d (MsgClsBeat b') (upd_info (\<lambda>g. g\<lparr>info := smap_put k st' (info g)\<rparr>) nd))" for d b' st'
    by (rule quiet_trans [OF put quiet_send]) simp
  with put show ?thesis by (simp add: kst beat_member_def Let_def split: send_result.split)
qed

lemma quiet_beat_fold:
  assumes "smap_ok (info (n_info nd))" and "\<forall>x \<in> set ms. map_of (info (n_info nd)) (fst x) \<noteq> None"
  shows "quiet nd (fold (beat_member e net b) ms nd)"
  using assms
proof (induction ms arbitrary: nd)
  case (Cons m ms)
  have q: "quiet nd (beat_member e net b m nd)" using Cons(2,3) by (intro quiet_beat_member) simp_all
  note same = same_group_maps [OF quiet_fields(5) [OF q]]
  have "quiet (beat_member e net b m nd) (fold (beat_member e net b) ms (beat_member e net b m nd))"
    using Cons(2,3) by (intro Cons(1)) (simp_all add: same)
  with q show ?case unfolding fold_simps by (rule quiet_trans)
qed simp

lemma quiet_sharingBeat:
  assumes "node_ok nd"
  shows "quiet nd (sharingBeat e net nd)"
proof -
  obtain bid g where n: "nextBeatID (n_info nd) = (bid, g)" by (cases "nextBeatID (n_info nd)")
  then have g: "info g = info (n_info nd)" "glocal g = glocal (n_info nd)" by (auto simp: nextBeatID_def Let_def)
  have "smap_ok (info (n_info nd))" using assms by (simp add: node_ok_def members_ok_def group_ok_def)
  then have "quiet (nd\<lparr>n_info := g\<rparr>) (fold (beat_member e net b) (info g) (nd\<lparr>n_info := g\<rparr>))" for b
    by (intro quiet_beat_fold) (auto simp: g map_of_eq_None_iff intro: rev_image_eqI)
  moreover have "quiet nd (nd\<lparr>n_info := g\<rparr>)" by (rule quiet_same) (simp_all add: same_group_def g)
  ultimately have "quiet nd (fold (beat_member e net b) (info g) (nd\<lparr>n_info := g\<rparr>))" for b
    by (blast intro: quiet_trans)
  then show ?thesis by (simp add: sharingBeat_def n)
qed

lemma force_silence_moves:
  assumes size: "groupSize (n_info nd) \<noteq> 1" and s: "vm_current (n_vote nd) \<noteq> None"
  shows "moves d ack nd (vm_force e CLS_ELECTION_STATUS_SILENCE 0 nd)"
proof -
  obtain st where st: "vm_current (n_vote nd) = Some st" using s by blast
  have "moves d ack nd (activate_status e CLS_ELECTION_STATUS_SILENCE nd)"
  proof (cases "st = CLS_ELECTION_STATUS_SILENCE")
    case True
    then show ?thesis using stay_moves [OF size] st by simp
  next
    case False
    then show ?thesis
      by (intro activate_moves [OF size st st, where l = None])
        (auto simp: label_votes_def intro: vote_move.give_up)
  qed
  then show ?thesis by (simp add: vm_force_def Let_def)
qed

lemma beat_role_moves:
  assumes size: "groupSize (n_info nd) \<noteq> 1" and s: "vm_current (n_vote nd) \<noteq> None"
  shows "moves d ack nd (beat_role e b nd)"
proof -
  have p: "quiet nd' (upd_info (\<lambda>g. g\<lparr>gprimary := x\<rparr>) nd')" for nd' x by (rule quiet_info) simp_all
  have r: "quiet nd' (reelectionDone nd')" for nd'
    by (simp add: quiet_def view_of_def votes_counted_def silent_time_def vs_of_def upd_vote_def same_group_def reelectionDone_def)
  let ?a = "nd\<lparr>startShiftTime := -1\<rparr>"
  have a: "quiet nd ?a" by (rule quiet_same) (simp_all add: same_group_def)
  have force: "moves d ack nd (vm_force e CLS_ELECTION_STATUS_SILENCE 0 nd')" if "quiet nd nd'" for nd'
    using that size s same_group_size [OF quiet_fields(5) [OF that]] quiet_fields(4) [OF that]
    by (intro quiet_then_moves [OF that] force_silence_moves) simp_all
  have "moves d ack nd nd'" if "quiet nd nd'" for nd' using s that by (rule quiet_moves)
  then have "moves d ack nd nd" "moves d ack nd ?a" "moves d ack nd (upd_info (\<lambda>g. g\<lparr>gprimary := x\<rparr>) nd)" for x
    using a p by simp_all
  moreover have "moves d ack nd (vm_force e CLS_ELECTION_STATUS_SILENCE 0 (upd_info (\<lambda>g. g\<lparr>gprimary := x\<rparr>) ?a))"
    "moves d ack nd (upd_info (\<lambda>g. g\<lparr>gprimary := x\<rparr>) (vm_force e CLS_ELECTION_STATUS_SILENCE 0 ?a))" for x
    using force [OF quiet_trans [OF a p]] moves_quiet [OF force [OF a] p] by simp_all
  ultimately show ?thesis using moves_quiet [OF _ r]
    unfolding beat_role_def Let_def by (simp only: if_True if_False split: if_split) blast
qed

lemma moves_trans_group: "moves d ack nd nd' \<Longrightarrow> same_group nd nd'"
  by (simp add: moves_def)

lemma beat_moves:
  assumes ok: "node_ok nd" and size: "groupSize (n_info nd) \<noteq> 1" and s: "vm_current (n_vote nd) \<noteq> None"
  shows "moves d ack nd (snd (handleSharingBeat e b nd))"
proof -
  let ?k = "identity b"
  have smap: "smap_ok (info (n_info nd))" using ok by (simp add: node_ok_def members_ok_def group_ok_def)
  have stay: "moves d ack nd nd" using s by (rule quiet_moves) simp
  have finish: "moves d ack nd (syncSend ?k (MsgClsBeatRes me) (snd (alive ?k nd')))" if m: "moves d ack nd nd'" for nd' me
  proof -
    have "smap_ok (info (n_info nd'))" using same_group_maps(1) [OF moves_trans_group [OF m]] smap by simp
    then have "quiet nd' (snd (alive ?k nd'))" by (rule quiet_alive)
    with m have "moves d ack nd (snd (alive ?k nd'))" by (rule moves_quiet)
    then show ?thesis by (rule moves_quiet) (rule quiet_send, simp)
  qed
  show ?thesis
  proof (cases "map_of (info (n_info nd)) ?k")
    case None
    then show ?thesis using stay finish [OF stay] by (simp add: handleSharingBeat_def Let_def)
  next
    case (Some st)
    let ?nd1 = "upd_info (\<lambda>g. g\<lparr>info := smap_put ?k (st\<lparr>beat := b\<rparr>) (info g)\<rparr>) nd"
    have q: "quiet nd ?nd1" using Some by (intro quiet_put [OF smap]) simp
    have "moves d ack ?nd1 (beat_role e b ?nd1)"
      using size s same_group_size [OF quiet_fields(5) [OF q]] quiet_fields(4) [OF q]
      by (intro beat_role_moves) simp_all
    with q have "moves d ack nd (beat_role e b ?nd1)" by (rule quiet_then_moves)
    then show ?thesis using stay finish finish [OF stay] Some by (simp add: handleSharingBeat_def Let_def)
  qed
qed

lemma handleMsg_moves:
  assumes ok: "node_ok nd" and size: "groupSize (n_info nd) \<noteq> 1" and s: "vm_current (n_vote nd) \<noteq> None"
  shows "moves d (is_vote m) nd (snd (handleMsg e m nd))"
proof -
  have smap: "smap_ok (info (n_info nd))" using ok by (simp add: node_ok_def members_ok_def group_ok_def)
  have stay: "moves d ack nd nd" for ack using s by (rule quiet_moves) simp
  have beat_res: "moves d ack nd (snd (alive k nd))" for ack k
    using s quiet_alive [OF smap] by (rule quiet_moves)
  have full: "moves d ack nd (nd\<lparr>n_sync := x\<rparr>)" for ack x
    by (rule quiet_moves [OF s quiet_same]) (simp_all add: same_group_def)
  show ?thesis
    by (cases m)
      (use stay beat_res full beat_moves [OF ok size s] vm_handleInput_moves [OF size s, where m = m and e = e] in
       \<open>auto simp: handleSharingBeatRes_def\<close>)
qed

lemma onTimer_moves:
  assumes ok: "node_ok nd" and size: "groupSize (n_info nd) \<noteq> 1" and s: "vm_current (n_vote nd) \<noteq> None"
    and break: "5000 \<le> sharingBreakTime e"
  shows "moves ms ack nd (onTimer e net ms nd)"
proof (cases "n_active nd")
  case False
  then show ?thesis using quiet_moves [OF s quiet_refl] by (simp add: onTimer_def)
next
  case True
  have bt: "quiet nd' (nd'\<lparr>n_beatTime := t\<rparr>)" for nd' t by (rule quiet_same) (simp_all add: same_group_def)
  let ?a = "nd\<lparr>n_beatTime := u32 (n_beatTime nd + ms)\<rparr>"
  define b where "b = (if CLS_SHARING_BETA_INTERVAL \<le> n_beatTime ?a then (sharingBeat e net ?a)\<lparr>n_beatTime := 0\<rparr> else ?a)"
  have ok_bt: "node_ok (nd'\<lparr>n_beatTime := t\<rparr>)" if "node_ok nd'" for nd' t
    using that by (rule node_ok_cong) simp_all
  have ok_b: "node_ok b" using ok by (simp add: b_def ok_bt sharingBeat_ok)
  have "quiet ?a ((sharingBeat e net ?a)\<lparr>n_beatTime := 0\<rparr>)"
    by (rule quiet_trans [OF quiet_sharingBeat bt]) (rule ok_bt [OF ok])
  then have "quiet nd b" using bt [of nd] by (auto simp: b_def intro: quiet_trans)
  then have c: "quiet nd (checkBreak e ms b)" using quiet_checkBreak [OF ok_b] by (rule quiet_trans)
  have "moves ms ack (checkBreak e ms b) (vm_handleTimeout e ms (checkBreak e ms b))"
    using size s break same_group_size [OF quiet_fields(5) [OF c]] quiet_fields(4) [OF c]
    by (intro vm_handleTimeout_moves) simp_all
  with c have "moves ms ack nd (vm_handleTimeout e ms (checkBreak e ms b))" by (rule quiet_then_moves)
  then have "moves ms ack nd (on_sync f (vm_handleTimeout e ms (checkBreak e ms b)))" for f
    using quiet_sync by (rule moves_quiet)
  then show ?thesis using True by (simp add: onTimer_def Let_def b_def)
qed

end
