(* ===== verification/Ballots.thy ===== *)
theory Ballots
  imports VoteMoves
begin

text \<open>
  The election as a protocol, without the nodes that run it: every member has a view, votes are in
  flight, and a step is one move of one member or the loss of a vote. As long as no clock passes the
  time a voter keeps silent, at most one member is elected.
\<close>

section \<open>The protocol\<close>

record ballots =
  b_view :: "routeID \<Rightarrow> view"
  b_votes :: "routeID \<Rightarrow> nat"
  b_clock :: "routeID \<Rightarrow> nat"

definition cast :: "routeID option \<Rightarrow> (routeID \<Rightarrow> nat) \<Rightarrow> routeID \<Rightarrow> nat" where
  "cast l votes c = votes c + of_bool (l = Some c)"

inductive ballot_step :: "routeID set \<Rightarrow> nat \<Rightarrow> ballots \<Rightarrow> ballots \<Rightarrow> bool" for V :: "routeID set" and lim :: nat where
  act: "v \<in> V \<Longrightarrow> b_clock b v + d < lim \<Longrightarrow> (ack \<longrightarrow> 0 < b_votes b v) \<Longrightarrow>
    vote_move (card V) lim d ack (b_view b v) l w \<Longrightarrow>
    ballot_step V lim b
      \<lparr>b_view = (b_view b)(v := w),
       b_votes = cast l ((b_votes b)(v := b_votes b v - of_bool ack)),
       b_clock = (b_clock b)(v := b_clock b v + d)\<rparr>"
| lose: "0 < b_votes b c \<Longrightarrow> ballot_step V lim b (b\<lparr>b_votes := (b_votes b)(c := b_votes b c - 1)\<rparr>)"

section \<open>The invariant\<close>

text \<open>
  For every member: whether it was primary at the start, whether it has announced itself since, for
  whom it has voted since, its view and its clock. Who has announced itself or voted is bound until
  its silence ends, which is after the time considered.
\<close>

definition hushed :: "view \<Rightarrow> nat \<Rightarrow> bool" where
  "hushed w clk \<longleftrightarrow> fst w = CLS_ELECTION_STATUS_SILENCE \<and> snd (snd w) \<le> clk"

definition member_inv :: "nat \<Rightarrow> bool \<Rightarrow> bool \<Rightarrow> routeID option \<Rightarrow> view \<Rightarrow> nat \<Rightarrow> bool" where
  "member_inv n isOld isA gv w clk \<longleftrightarrow>
     (isA \<longrightarrow> gv = None \<and>
        (fst w = CLS_ELECTION_STATUS_ANNOUNCE \<or> fst w = CLS_ELECTION_STATUS_PRIMARY \<or> hushed w clk)) \<and>
     (gv \<noteq> None \<longrightarrow> hushed w clk) \<and>
     (fst w = CLS_ELECTION_STATUS_ANNOUNCE \<longrightarrow> isA) \<and>
     (fst w = CLS_ELECTION_STATUS_PRIMARY \<longrightarrow> isOld \<or> isA \<and> CLS_IS_MAJORITY (fst (snd w) + 1) n)"

lemma member_move:
  assumes "vote_move n lim d ack v l w" and "member_inv n isOld isA gv v clk" and "clk + d < lim"
  shows "member_inv n isOld (isA \<or> fst w = CLS_ELECTION_STATUS_ANNOUNCE) (if l = None then gv else l) w (clk + d)"
    and "l \<noteq> None \<Longrightarrow> gv = None"
    and "isA \<Longrightarrow> fst (snd w) \<le> fst (snd v) + of_bool ack"
    and "\<not> isA \<Longrightarrow> fst w = CLS_ELECTION_STATUS_ANNOUNCE \<Longrightarrow> fst (snd w) = 0"
  using assms by (induction rule: vote_move.induct) (auto simp: member_inv_def hushed_def)

definition voters :: "routeID set \<Rightarrow> (routeID \<Rightarrow> routeID option) \<Rightarrow> routeID \<Rightarrow> routeID set" where
  "voters V g c = {v \<in> V. g v = Some c}"

definition ballot_inv :: "routeID set \<Rightarrow> routeID set \<Rightarrow> ballots \<Rightarrow> bool" where
  "ballot_inv V Old b \<longleftrightarrow>
     (\<exists>A g. (\<forall>c. (if c \<in> A then fst (snd (b_view b c)) else 0) + b_votes b c \<le> card (voters V g c)) \<and>
        (\<forall>v \<in> V. member_inv (card V) (v \<in> Old) (v \<in> A) (g v) (b_view b v) (b_clock b v)))"

lemma voters_grant:
  assumes "finite V" and "v \<in> V" and "g v = None"
  shows "card (voters V (g(v \<mapsto> c)) c') = card (voters V g c') + of_bool (c' = c)"
proof (cases "c' = c")
  case True
  have "voters V (g(v \<mapsto> c)) c = insert v (voters V g c)" "v \<notin> voters V g c"
    using assms(2,3) by (auto simp: voters_def)
  moreover have "finite (voters V g c)" using assms(1) by (simp add: voters_def)
  ultimately show ?thesis using True by simp
next
  case False
  then have "voters V (g(v \<mapsto> c)) c' = voters V g c'" using assms(3) by (auto simp: voters_def)
  then show ?thesis using False by simp
qed

lemma ballot_inv_step:
  assumes fin: "finite V" and step: "ballot_step V lim b b'" and inv: "ballot_inv V Old b"
  shows "ballot_inv V Old b'"
proof -
  obtain A g where votes: "\<And>c. (if c \<in> A then fst (snd (b_view b c)) else 0) + b_votes b c \<le> card (voters V g c)"
    and mem: "\<And>v. v \<in> V \<Longrightarrow> member_inv (card V) (v \<in> Old) (v \<in> A) (g v) (b_view b v) (b_clock b v)"
    using inv unfolding ballot_inv_def by blast
  from step show ?thesis
  proof cases
    case (lose c)
    have "(if k \<in> A then fst (snd (b_view b' k)) else 0) + b_votes b' k \<le> card (voters V g k)" for k
      using votes [of k] by (auto simp: lose split: if_splits)
    moreover have "member_inv (card V) (v \<in> Old) (v \<in> A) (g v) (b_view b' v) (b_clock b' v)" if "v \<in> V" for v
      using mem [OF that] by (simp add: lose)
    ultimately show ?thesis unfolding ballot_inv_def by blast
  next
    case (act v d ack l w)
    note m = member_move [OF act(5) mem [OF act(2)] act(3)]
    define A' where "A' = (if fst w = CLS_ELECTION_STATUS_ANNOUNCE then insert v A else A)"
    define g' where "g' = (if l = None then g else g(v := l))"
    have card: "card (voters V g' c) = card (voters V g c) + of_bool (l = Some c)" for c
      using m(2) voters_grant [OF fin act(2)] by (cases l) (auto simp: g'_def)
    have "(if c \<in> A' then fst (snd (b_view b' c)) else 0) + b_votes b' c \<le> card (voters V g' c)" for c
    proof (cases "c = v")
      case True
      then show ?thesis using votes [of v] m(3,4) act(4) unfolding card
        by (auto simp: act(1) A'_def cast_def split: if_splits)
    next
      case False
      then show ?thesis using votes [of c] unfolding card by (auto simp: act(1) A'_def cast_def split: if_splits)
    qed
    moreover have "member_inv (card V) (u \<in> Old) (u \<in> A') (g' u) (b_view b' u) (b_clock b' u)" if "u \<in> V" for u
    proof (cases "u = v")
      case True
      then show ?thesis using m(1) by (auto simp: act(1) A'_def g'_def split: if_splits)
    next
      case False
      then show ?thesis using mem [OF that] by (auto simp: act(1) A'_def g'_def)
    qed
    ultimately show ?thesis unfolding ballot_inv_def by blast
  qed
qed

section \<open>At most one member is elected\<close>

lemma ballot_inv_unique:
  assumes fin: "finite V" and inv: "ballot_inv V Old b" and c: "c \<in> V" "c' \<in> V"
    and new: "c \<notin> Old" "c' \<notin> Old"
    and primary: "fst (b_view b c) = CLS_ELECTION_STATUS_PRIMARY" "fst (b_view b c') = CLS_ELECTION_STATUS_PRIMARY"
  shows "c = c'"
proof (rule ccontr)
  assume ne: "c \<noteq> c'"
  obtain A g where votes: "\<And>c. (if c \<in> A then fst (snd (b_view b c)) else 0) + b_votes b c \<le> card (voters V g c)"
    and mem: "\<And>v. v \<in> V \<Longrightarrow> member_inv (card V) (v \<in> Old) (v \<in> A) (g v) (b_view b v) (b_clock b v)"
    using inv unfolding ballot_inv_def by blast
  have k: "k \<in> A \<and> g k = None \<and> CLS_IS_MAJORITY (fst (snd (b_view b k)) + 1) (card V)"
    if "k \<in> V" "k \<notin> Old" "fst (b_view b k) = CLS_ELECTION_STATUS_PRIMARY" for k
    using mem [OF that(1)] that(2,3) by (auto simp: member_inv_def)
  have half: "card V div 2 < card (insert k (voters V g k))"
    if "k \<in> V" "k \<notin> Old" "fst (b_view b k) = CLS_ELECTION_STATUS_PRIMARY" for k
  proof -
    have "k \<notin> voters V g k" using k [OF that] by (simp add: voters_def)
    then have "card (insert k (voters V g k)) = card (voters V g k) + 1" using fin by (simp add: voters_def)
    then show ?thesis using k [OF that] votes [of k] by (simp add: CLS_IS_MAJORITY_def)
  qed
  let ?S = "insert c (voters V g c)" and ?S' = "insert c' (voters V g c')"
  have "?S \<inter> ?S' = {}" using ne k [OF c(1) new(1) primary(1)] k [OF c(2) new(2) primary(2)]
    by (auto simp: voters_def)
  moreover have "finite ?S" "finite ?S'" using fin by (simp_all add: voters_def)
  ultimately have "card ?S + card ?S' = card (?S \<union> ?S')" by (metis card_Un_disjoint)
  also have "\<dots> \<le> card V" using c by (intro card_mono [OF fin]) (auto simp: voters_def)
  finally show False using half [OF c(1) new(1) primary(1)] half [OF c(2) new(2) primary(2)] by linarith
qed

end
