(* ===== verification/NodeLife.thy ===== *)
theory NodeLife
  imports NodeSteps
begin

text \<open>
  The members of a group and the life of a node: the reply of the catalogue adds members without
  breaking the invariant of the node, and so do the reports of members and the sessions that leave.
\<close>

section \<open>New members\<close>

text \<open>
  While the reply of the catalogue is worked in, the synchronisation manager knows the members \<open>old\<close>
  it knew before, and every further member is alive.
\<close>

definition growing :: "routeID set \<Rightarrow> clsNode \<Rightarrow> bool" where
  "growing old nd \<longleftrightarrow> members_ok (n_info nd) \<and> \<not> n_fault nd \<and> sync_shape (n_sync nd) \<and>
     distinct (map ns_id (notifyList (n_sync nd))) \<and> ns_id ` set (notifyList (n_sync nd)) = old \<and>
     old \<subseteq> fst ` set (info (n_info nd)) \<and>
     (\<forall>n \<in> set (notifyList (n_sync nd)). ns_valid n \<longleftrightarrow> is_alive (ns_id n) (n_info nd)) \<and>
     (\<forall>k \<in> fst ` set (info (n_info nd)) - old. is_alive k (n_info nd))"

lemma growing_of_ok: "node_ok nd \<Longrightarrow> growing (fst ` set (info (n_info nd))) nd"
  by (simp add: growing_def node_ok_def sync_linked_def)

lemma alive_result:
  assumes "map_of (info (n_info nd)) k = Some st"
  shows "n_info (snd (alive k nd)) = (n_info nd)\<lparr>alives := smap_insert k k (alives (n_info nd)),
      info := smap_put k (reset_times st) (info (n_info nd))\<rparr>"
    and "n_sync (snd (alive k nd)) = (if is_alive k (n_info nd) then n_sync nd
      else updateNodeStatus (identity (beat st)) True (n_sync nd))"
    and "n_fault (snd (alive k nd)) = n_fault nd"
    and "startShiftTime (snd (alive k nd)) = startShiftTime nd"
  using assms by (auto simp: alive_def Let_def upd_info_def is_alive_def smap_insert_def)

lemma members_ok_new:
  assumes m: "members_ok g" and k: "k \<noteq> glocal g" "k \<noteq> MSG_INVALID_ROUTEID" and st: "identity (beat st) = k"
  shows "members_ok (g\<lparr>info := smap_put k st (info g)\<rparr>)"
proof -
  have ok: "smap_ok (info g)" using m by (simp add: members_ok_def group_ok_def)
  have "identity (beat st') = j" if "(j, st') \<in> set (smap_put k st (info g))" for j st'
  proof -
    have "map_of (smap_put k st (info g)) j = Some st'"
      using that smap_mem [OF smap_ok_put [OF ok]] by blast
    then show ?thesis using m st by (auto simp: members_ok_def split: if_splits dest!: map_of_SomeD)
  qed
  moreover have "group_ok (g\<lparr>info := smap_put k st (info g)\<rparr>)"
    using m k unfolding members_ok_def group_ok_def is_alive_def by auto
  ultimately show ?thesis by (auto simp: members_ok_def)
qed

lemma alive_members:
  assumes m: "members_ok (n_info nd)" and k: "map_of (info (n_info nd)) k = Some st"
  shows "members_ok (n_info (snd (alive k nd)))"
proof -
  let ?g = "(n_info nd)\<lparr>alives := smap_insert k k (alives (n_info nd))\<rparr>"
  have g: "group_ok (n_info nd)" using m by (simp add: members_ok_def)
  have "group_ok ?g"
  proof (cases "is_alive k (n_info nd)")
    case True
    then have "?g = n_info nd" by (auto simp: is_alive_def smap_insert_def)
    with g show ?thesis by simp
  next
    case False
    then show ?thesis using group_ok_alive [OF g] k by simp
  qed
  then have "members_ok ?g" using m by (simp add: members_ok_def)
  moreover have "identity (beat st) = k" using members_ok_identity [OF m k] .
  ultimately have "members_ok (?g\<lparr>info := smap_put k (reset_times st) (info ?g)\<rparr>)"
    using k by (intro members_ok_put) (simp_all add: reset_times_def)
  then show ?thesis by (simp add: alive_result(1) [OF k])
qed

lemma upd_first_ids:
  "map ns_id (notifyList (updateNodeStatus k v m)) = map ns_id (notifyList m)"
  by (simp add: updateNodeStatus_def upd_first_map)

lemma updateNodeStatus_valid:
  assumes "distinct (map ns_id (notifyList m))" and "n \<in> set (notifyList (updateNodeStatus k v m))"
  shows "(ns_id n = k \<and> ns_valid n = v) \<or> (ns_id n \<noteq> k \<and> n \<in> set (notifyList m))"
proof (cases "list_ex (\<lambda>n. ns_id n = k) (notifyList m)")
  case True
  then show ?thesis using upd_first_distinct [OF assms(1)] assms(2) by (simp add: updateNodeStatus_def)
next
  case False
  then show ?thesis using assms(2) by (auto simp: updateNodeStatus_def list_ex_iff)
qed

lemma growing_add:
  assumes gr: "growing old nd" and k: "k \<noteq> glocal (n_info nd)" "k \<noteq> MSG_INVALID_ROUTEID" and st: "identity (beat st) = k"
  shows "growing old (snd (alive k (upd_info (\<lambda>g. g\<lparr>info := smap_put k st (info g)\<rparr>) nd)))"
proof -
  let ?nd1 = "upd_info (\<lambda>g. g\<lparr>info := smap_put k st (info g)\<rparr>) nd"
  let ?nd2 = "snd (alive k ?nd1)"
  have i1: "n_info ?nd1 = (n_info nd)\<lparr>info := smap_put k st (info (n_info nd))\<rparr>" "n_sync ?nd1 = n_sync nd"
    by (simp_all add: upd_info_def)
  have k1: "map_of (info (n_info ?nd1)) k = Some st" by (simp add: i1)
  note r = alive_result [OF k1]
  have "members_ok (n_info ?nd1)" unfolding i1 using gr k st by (intro members_ok_new) (simp_all add: growing_def)
  then have m: "members_ok (n_info ?nd2)" using k1 by (rule alive_members)
  have keys: "fst ` set (info (n_info ?nd2)) = insert k (fst ` set (info (n_info nd)))"
    unfolding r(1) i1 by (simp add: set_smap_put)
  have alive1: "is_alive k (n_info ?nd1) = is_alive k (n_info nd)" by (simp add: i1 is_alive_def)
  have al: "is_alive j (n_info ?nd2) \<longleftrightarrow> j = k \<or> is_alive j (n_info nd)" for j
    unfolding r(1) i1 by (auto simp: is_alive_def smap_insert_def split: option.splits)
  have sync: "n_sync ?nd2 = (if is_alive k (n_info nd) then n_sync nd else updateNodeStatus k True (n_sync nd))"
    by (simp add: r(2) i1(2) alive1 st)
  have ids: "map ns_id (notifyList (n_sync ?nd2)) = map ns_id (notifyList (n_sync nd))"
    by (simp add: sync upd_first_ids)
  have "sync_shape (n_sync ?nd2)" using gr updateNodeStatus_shape by (simp add: sync growing_def)
  moreover have "ns_valid n \<longleftrightarrow> is_alive (ns_id n) (n_info ?nd2)" if n: "n \<in> set (notifyList (n_sync ?nd2))" for n
  proof (cases "is_alive k (n_info nd)")
    case True
    then show ?thesis using n gr by (auto simp: sync growing_def al)
  next
    case False
    then have "n \<in> set (notifyList (updateNodeStatus k True (n_sync nd)))" using n by (simp add: sync)
    from updateNodeStatus_valid [OF _ this] show ?thesis using gr by (auto simp: growing_def al)
  qed
  moreover have "ns_id ` set (notifyList (n_sync ?nd2)) = ns_id ` set (notifyList (n_sync nd))"
    using ids by (metis set_map)
  moreover have "\<not> n_fault ?nd2" unfolding r(3) using gr by (simp add: upd_info_def growing_def)
  ultimately show ?thesis using gr m ids keys by (auto simp: growing_def al)
qed

text \<open>What the reply of the catalogue has to be: a map from identifiers to nodes.\<close>

definition reply_ok :: "(routeID \<times> netRouteNode) list \<Rightarrow> bool" where
  "reply_ok nodes \<longleftrightarrow> smap_ok nodes \<and> (\<forall>(k, node) \<in> set nodes. rn_id node = k \<and> k \<noteq> MSG_INVALID_ROUTEID)"

lemma add_member_growing:
  assumes gr: "growing old nd" and n: "rn_id node = k" "k \<noteq> MSG_INVALID_ROUTEID"
  shows "growing old (add_member upd (k, node) nd)"
    and "glocal (n_info (add_member upd (k, node) nd)) = glocal (n_info nd)"
    and "startShiftTime (add_member upd (k, node) nd) = startShiftTime nd"
    and "fst ` set (info (n_info (add_member upd (k, node) nd))) \<subseteq> fst ` set (info (n_info nd)) \<union>
      (if k \<noteq> glocal (n_info nd) \<and> (rn_active node \<or> \<not> startShiftTime nd < 0) then {k} else {})"
proof -
  define old_st where "old_st = (case map_of (info (n_info nd)) k of None \<Rightarrow> new_sharing | Some st \<Rightarrow> st)"
  define st where "st = old_st\<lparr>beat := (beat old_st)\<lparr>identity := k, beatID := 0\<rparr>\<rparr>"
  let ?nd1 = "upd_info (\<lambda>g. g\<lparr>info := smap_put k st (info g)\<rparr>) nd"
  have eq: "add_member upd (k, node) nd =
      (if k = glocal (n_info nd) \<or> \<not> (rn_active node \<or> \<not> startShiftTime nd < 0) \<or> \<not> upd k then nd
       else snd (alive k ?nd1))"
    using n by (simp add: add_member_def Let_def st_def old_st_def)
  have k1: "map_of (info (n_info ?nd1)) k = Some st" by (simp add: upd_info_def)
  note r = alive_result [OF k1]
  have keys: "fst ` set (info (n_info (snd (alive k ?nd1)))) = insert k (fst ` set (info (n_info nd)))"
    unfolding r(1) by (simp add: upd_info_def set_smap_put)
  have "growing old (snd (alive k ?nd1))" if "k \<noteq> glocal (n_info nd)"
    using growing_add [OF gr that n(2), of st] by (simp add: st_def)
  then show "growing old (add_member upd (k, node) nd)" using gr by (simp add: eq)
  show "glocal (n_info (add_member upd (k, node) nd)) = glocal (n_info nd)"
    and "startShiftTime (add_member upd (k, node) nd) = startShiftTime nd"
    by (auto simp only: eq r split: if_splits) (simp_all add: upd_info_def)
  show "fst ` set (info (n_info (add_member upd (k, node) nd))) \<subseteq> fst ` set (info (n_info nd)) \<union>
      (if k \<noteq> glocal (n_info nd) \<and> (rn_active node \<or> \<not> startShiftTime nd < 0) then {k} else {})"
    unfolding eq using keys by (simp add: subset_insertI)
qed

definition joining :: "(routeID \<times> netRouteNode) list \<Rightarrow> routeID \<Rightarrow> int \<Rightarrow> routeID set" where
  "joining nodes me shift = {k. k \<noteq> me \<and> (\<exists>node. (k, node) \<in> set nodes \<and> (rn_active node \<or> \<not> shift < 0))}"

lemma joining_Cons:
  "joining ((k, node) # nodes) me shift =
     (if k \<noteq> me \<and> (rn_active node \<or> \<not> shift < 0) then {k} else {}) \<union> joining nodes me shift"
  by (auto simp: joining_def)

lemma add_members_growing:
  fixes upd
  assumes "growing old nd" and "\<forall>(k, node) \<in> set nodes. rn_id node = k \<and> k \<noteq> MSG_INVALID_ROUTEID"
  defines "nd' \<equiv> fold (add_member upd) nodes nd"
  shows "growing old nd' \<and> glocal (n_info nd') = glocal (n_info nd) \<and> startShiftTime nd' = startShiftTime nd \<and>
    fst ` set (info (n_info nd')) \<subseteq> fst ` set (info (n_info nd)) \<union> joining nodes (glocal (n_info nd)) (startShiftTime nd)"
  using assms(1,2) unfolding nd'_def
proof (induction nodes arbitrary: nd)
  case (Cons n nodes)
  obtain k node where n: "n = (k, node)" by (cases n)
  have k: "rn_id node = k" "k \<noteq> MSG_INVALID_ROUTEID" using Cons(3) n by auto
  note a = add_member_growing [OF Cons(2) k, of upd]
  have "\<forall>(k, node) \<in> set nodes. rn_id node = k \<and> k \<noteq> MSG_INVALID_ROUTEID" using Cons(3) by simp
  from Cons(1) [OF a(1) this] a(4) show ?case
    unfolding n fold_simps joining_Cons a(2,3) comp_apply Un_assoc [symmetric] by (meson Un_mono order_refl order_trans)
qed simp

lemma drop_members_none:
  assumes m: "members_ok g" and stays: "\<forall>k \<in> fst ` set (info g). stays k"
  shows "drop_members stays g = g"
proof -
  have info: "filter (\<lambda>(k, _). stays k) (info g) = info g"
    using stays by (intro filter_True) auto
  have "stays (fst x)" if "x \<in> set (alives g)" for x
  proof -
    have "map_of (info g) (fst x) \<noteq> None" using m that by (auto simp: members_ok_def group_ok_def)
    then show ?thesis using stays by (auto simp: map_of_eq_None_iff)
  qed
  then have alives: "filter (\<lambda>(k, _). stays k \<or> map_of (info g) k = None) (alives g) = alives g"
    by (intro filter_True) auto
  have "\<not> (map_of (info g) (gprimary g) \<noteq> None \<and> \<not> stays (gprimary g))"
    using stays by (auto simp: map_of_eq_None_iff)
  then have p: "(if map_of (info g) (gprimary g) \<noteq> None \<and> \<not> stays (gprimary g) then 0 else gprimary g) = gprimary g"
    by (rule if_not_P)
  show ?thesis unfolding drop_members_def info alives p by simp
qed

lemma updateNotifyList_grown:
  assumes gr: "growing old nd" and few: "length (info (n_info nd)) \<le> CLS_SYNC_SET_NUM"
  shows "\<exists>m. updateNotifyList (n_info nd) True (n_sync nd) = Some ([], m) \<and> sync_linked (n_info nd) m"
proof -
  let ?g = "n_info nd" and ?m = "n_sync nd"
  let ?new = "filter (\<lambda>(k, _). \<not> list_ex (\<lambda>n. ns_id n = k) (notifyList ?m)) (info ?g)"
  let ?entry = "\<lambda>k. \<lparr>ns_offset = 0, ns_id = k, ns_valid = True, sameReqTimes = 0\<rparr> :: clsSyncStatus"
  let ?merged = "notifyList ?m @ map (\<lambda>(k, _). ?entry k) ?new"
  have ids: "ns_id ` set (notifyList ?m) = old" "old \<subseteq> fst ` set (info ?g)" "distinct (map ns_id (notifyList ?m))"
    using gr by (simp_all add: growing_def)
  then have all: "\<forall>n \<in> set (notifyList ?m). map_of (info ?g) (ns_id n) \<noteq> None"
    by (auto simp: map_of_eq_None_iff)
  then have keep: "filter (\<lambda>n. map_of (info ?g) (ns_id n) \<noteq> None) (notifyList ?m) = notifyList ?m"
    and none: "filter (\<lambda>n. \<not> map_of (info ?g) (ns_id n) \<noteq> None) (notifyList ?m) = []"
    by (auto intro!: filter_True filter_False)
  have d: "distinct (map fst (info ?g))" using gr by (simp add: growing_def members_ok_def group_ok_def smap_ok_distinct)
  have new: "map ns_id (map (\<lambda>(k, _). ?entry k) ?new) = map fst ?new" by (simp add: split_def comp_def)
  have new_set: "fst ` set ?new = fst ` set (info ?g) - old" using ids(1) by (force simp: list_ex_iff)
  have dist: "distinct (map ns_id ?merged)"
    unfolding map_append new using ids d new_set distinct_map_filter [OF d] by (auto simp: distinct_append)
  have new_ids: "ns_id ` set (map (\<lambda>(k, _). ?entry k) ?new) = fst ` set ?new"
    using arg_cong [OF new, of set] by (simp only: set_map)
  have set: "ns_id ` set ?merged = fst ` set (info ?g)"
    unfolding set_append image_Un new_ids new_set ids(1) using ids(2) by blast
  have "length ?merged = card (ns_id ` set ?merged)"
    using distinct_card [OF dist] by (simp only: length_map set_map)
  also have "\<dots> = length (info ?g)"
    unfolding set using distinct_card [OF d] by (simp only: length_map set_map)
  finally have len: "length ?merged \<le> CLS_SYNC_SET_NUM" using few by simp
  let ?res = "?m\<lparr>aliveCount := length (alives ?g), notifyList := ?merged\<rparr>"
  have upd: "updateNotifyList ?g True ?m = Some ([], ?res)"
    unfolding updateNotifyList_def Let_def using len by (simp add: keep [simplified] none [simplified])
  have valid: "ns_valid n \<longleftrightarrow> is_alive (ns_id n) ?g" if mg: "n \<in> set ?merged" for n
  proof (cases "n \<in> set (notifyList ?m)")
    case True
    then show ?thesis using gr by (simp add: growing_def)
  next
    case False
    then have "n \<in> (\<lambda>(k, _). ?entry k) ` set ?new" using mg by (simp only: set_append set_map Un_iff) blast
    then obtain x where x: "n = (case x of (k, _) \<Rightarrow> ?entry k)" "x \<in> set ?new" by (rule imageE)
    define k where "k = fst x"
    have k: "n = ?entry k" "k \<in> fst ` set ?new" using x by (simp_all only: k_def split_def) (rule imageI)
    then have "k \<in> fst ` set (info ?g) - old" using new_set by simp
    then have "is_alive k ?g" using gr by (simp add: growing_def)
    then show ?thesis using k by simp
  qed
  have "sync_shape ?res" using gr len by (simp add: growing_def sync_shape_def)
  with dist set valid have "sync_linked ?g ?res" unfolding sync_linked_def by simp
  with upd show ?thesis by blast
qed

lemma setGroupSet_ok:
  assumes ok: "node_ok nd" and reply: "reply_ok nodes"
    and spare: "SPARE_GROUPID \<noteq> route_groupID (glocal (n_info nd))"
    and me: "map_of nodes (glocal (n_info nd)) \<noteq> None"
    and stay: "\<forall>k \<in> fst ` set (info (n_info nd)). node_stays (startShiftTime nd) nodes k"
  shows "node_ok (snd (setGroupSet upd version nodes nd))"
proof (cases "version \<le> gversion (n_info nd) \<or> CLS_REPLSET_MAX_NODE_SIZE < length nodes")
  case True
  then show ?thesis using ok by (auto simp: setGroupSet_def Let_def)
next
  case False
  let ?old = "fst ` set (info (n_info nd))" and ?me = "glocal (n_info nd)" and ?t = "startShiftTime nd"
  let ?nd0 = "upd_info (\<lambda>g. g\<lparr>gversion := version\<rparr>) nd"
  define nd1 where "nd1 = fold (add_member upd) nodes ?nd0"
  have "node_ok ?nd0" using ok
    by (intro node_ok_info) (simp_all add: node_ok_def members_ok_def group_ok_def is_alive_def)
  then have "growing ?old ?nd0" using growing_of_ok [of ?nd0] by (simp add: upd_info_def)
  moreover have "\<forall>(k, node) \<in> set nodes. rn_id node = k \<and> k \<noteq> MSG_INVALID_ROUTEID"
    using reply by (simp add: reply_ok_def)
  ultimately have a: "growing ?old nd1" "glocal (n_info nd1) = ?me" "startShiftTime nd1 = ?t"
    "fst ` set (info (n_info nd1)) \<subseteq> ?old \<union> joining nodes ?me ?t"
    using add_members_growing [of ?old ?nd0 nodes upd] unfolding nd1_def by (simp_all add: upd_info_def)
  have m: "members_ok (n_info nd1)" using a(1) by (simp add: growing_def)
  have "node_stays ?t nodes k" if "k \<in> joining nodes ?me ?t" for k
    using that reply smap_mem [of nodes] by (auto simp: joining_def node_stays_def reply_ok_def split: option.split)
  then have all: "\<forall>k \<in> fst ` set (info (n_info nd1)). node_stays ?t nodes k" using a(4) stay by blast
  then have drop: "upd_info (drop_members (node_stays (startShiftTime nd1) nodes)) nd1 = nd1"
    using drop_members_none [OF m] by (simp add: upd_info_def a(3))
  have "fst ` set (info (n_info nd1)) \<subseteq> fst ` set nodes - {?me}"
  proof
    fix k assume k: "k \<in> fst ` set (info (n_info nd1))"
    then have "map_of nodes k \<noteq> None" using all by (auto simp: node_stays_def split: option.splits)
    moreover have "?me \<notin> fst ` set (info (n_info nd1))"
      using m a(2) by (simp add: members_ok_def group_ok_def map_of_eq_None_iff)
    then have "k \<noteq> ?me" using k by blast
    ultimately show "k \<in> fst ` set nodes - {?me}" by (simp add: map_of_eq_None_iff)
  qed
  then have "card (fst ` set (info (n_info nd1))) \<le> card (fst ` set nodes - {?me})" by (intro card_mono) simp_all
  also have "\<dots> = length nodes - 1" using me reply
    by (simp add: map_of_eq_None_iff reply_ok_def smap_card_keys)
  also have "\<dots> \<le> CLS_SYNC_SET_NUM" using False
    by (auto simp: CLS_SYNC_SET_NUM_def CLS_REPLSET_MAX_NODE_SIZE_def)
  finally have "length (info (n_info nd1)) \<le> CLS_SYNC_SET_NUM"
    using m by (simp add: smap_card_keys members_ok_def group_ok_def)
  from updateNotifyList_grown [OF a(1) this] obtain sm where
    sm: "updateNotifyList (n_info nd1) True (n_sync nd1) = Some ([], sm)" "sync_linked (n_info nd1) sm" by blast
  have "snd (setGroupSet upd version nodes nd) = on_sync (updateNotifyList (n_info nd1) True) nd1"
    using False me spare drop by (auto simp: setGroupSet_def Let_def nd1_def)
  moreover have "node_ok \<dots>" using m a(1) sm by (simp add: on_sync_def node_ok_def growing_def)
  ultimately show ?thesis by simp
qed

lemma handleGroupRes_ok:
  assumes "node_ok nd" and "reply_ok nodes"
    and "SPARE_GROUPID \<noteq> route_groupID (glocal (n_info nd))"
    and "map_of nodes (glocal (n_info nd)) \<noteq> None"
    and "\<forall>k \<in> fst ` set (info (n_info nd)). node_stays (startShiftTime nd) nodes k"
  shows "node_ok (snd (handleGroupRes e upd junk version nodes hash nd))"
proof -
  have set: "node_ok (snd (setGroupSet upd version nodes nd))" using assms by (rule setGroupSet_ok)
  have hash: "node_ok (upd_info (\<lambda>g. g\<lparr>hashCode := hash\<rparr>) nd')" if "node_ok nd'" for nd'
    using that by (intro node_ok_info) (simp_all add: node_ok_def members_ok_def group_ok_def is_alive_def)
  have act: "node_ok (vote_init e junk (nd'\<lparr>n_active := True\<rparr>))" if "node_ok nd'" for nd'
    using node_ok_cong [OF that, of "nd'\<lparr>n_active := True\<rparr>"] by (auto intro: frame_node_ok)
  show ?thesis using set hash act by (simp add: handleGroupRes_def Let_def split_def)
qed

section \<open>Reports and sessions that leave\<close>

lemma linked_complete:
  assumes l: "sync_linked g m"
  shows "\<exists>r m'. sync_complete g rid lsn m = Some (r, m') \<and> sync_linked g m'"
proof -
  define m0 where "m0 = m\<lparr>notifyList := upd_first (\<lambda>n. ns_id n = rid) (complete_status (lsn_offset lsn)) (notifyList m)\<rparr>"
  have "ns_id (complete_status off n) = ns_id n" "ns_valid (complete_status off n) = ns_valid n" for off n
    by (simp_all add: complete_status_def Let_def)
  then have "map ns_id (notifyList m0) = map ns_id (notifyList m)" "map ns_valid (notifyList m0) = map ns_valid (notifyList m)"
    by (simp_all add: m0_def upd_first_map)
  moreover from this(1) have "sync_shape m0"
    using l by (auto simp: sync_linked_def sync_shape_def m0_def dest: arg_cong [where f = length])
  ultimately have "sync_linked g m0" using linked_mgr [OF l, of m0] by (simp add: m0_def)
  from linked_wake [OF this] obtain ws m' where
    w: "sync_wake (createWakePlan m0) m0 = Some (ws, m')" "sync_linked g m'" by blast
  have "sync_complete_inner rid (lsn_offset lsn) m = Some (ws, m')"
    using w(1) by (simp add: sync_complete_inner_def m0_def Let_def)
  then show ?thesis using l w(2) by (simp add: sync_complete_def)
qed

lemma node_complete_ok:
  assumes "node_ok nd"
  shows "node_ok (node_complete rid lsn nd)"
  using assms linked_complete [of "n_info nd" "n_sync nd" rid lsn]
  by (auto simp: node_ok_def node_complete_def)

lemma cell_of_bound: "cell_of cb i ss = Some j \<Longrightarrow> i \<le> j \<and> j < i + length ss"
  by (induction cb i ss rule: cell_of.induct) (fastforce split: if_splits)+

lemma linked_wait_remove:
  assumes l: "sync_linked g m" and sub: "sub < CLS_SYNC_SET_NUM"
  shows "sync_linked g (wait_remove cb sub m)"
proof (cases "cell_of cb 0 (heapData (syncList m ! sub))")
  case None
  then show ?thesis using l by (simp add: wait_remove_def)
next
  case (Some i)
  let ?q = "syncList m ! sub"
  have shape: "sync_shape m" using l by (simp add: sync_linked_def)
  have "i < length (heapData ?q)" using cell_of_bound [OF Some] by simp
  then have e: "sessions_of ?q = add_mset (heapData ?q ! i) (sessions_of (snd (heap_erase i ?q)))"
    by (rule erase_sessions(2))
  have "sessions_ok ?q" using shape sub by (simp add: sync_shape_def)
  then have "sessions_ok (snd (heap_erase i ?q))" by (simp add: sessions_ok_def e)
  then have "sync_shape (m\<lparr>syncList := (syncList m)[sub := snd (heap_erase i ?q)]\<rparr>)"
    using shape by (auto simp: sync_shape_def dest!: set_update_subset_insert [THEN subsetD])
  then show ?thesis using linked_mgr [OF l] Some by (simp add: wait_remove_def)
qed

section \<open>The life of a node\<close>

definition new_node :: "routeID \<Rightarrow> int \<Rightarrow> clsNode" where
  "new_node me shift =
     \<lparr>n_info = new_groupInfo\<lparr>glocal := me\<rparr>,
      n_vote = \<lparr>vm_current = None, vm_status = (\<lambda>_. \<lparr>vs_time = 0, acceptedNum = 0\<rparr>),
                shadowWeight = CLS_ELECTION_WEIGHT_USR_MIN, forceMillis = 0\<rparr>,
      n_sync = new_syncMgr, startShiftTime = shift, pmdPrimary = False, n_active = False, n_beatTime = 0,
      n_sent = [], n_woken = [], n_fault = False, n_restart = False\<rparr>"

inductive node_life :: "clsNode \<Rightarrow> bool" where
  start: "node_life (new_node me shift)"
| message: "node_life nd \<Longrightarrow> node_life (snd (handleMsg e msg nd))"
| timer: "node_life nd \<Longrightarrow> node_life (onTimer e net ms nd)"
| step_down: "node_life nd \<Longrightarrow> node_life (handleStepDown e nd)"
| step_up: "node_life nd \<Longrightarrow> node_life (handleStepUp e seconds nd)"
| session: "node_life nd \<Longrightarrow> offset \<le> DPS_INVALID_LSN_OFFSET \<Longrightarrow> node_life (snd (repl_sync offset cb w nd))"
| leave: "node_life nd \<Longrightarrow> sub < CLS_SYNC_SET_NUM \<Longrightarrow> node_life (nd\<lparr>n_sync := wait_remove cb sub (n_sync nd)\<rparr>)"
| report: "node_life nd \<Longrightarrow> node_life (node_complete rid lsn nd)"
| catalogue: "node_life nd \<Longrightarrow> reply_ok nodes \<Longrightarrow> SPARE_GROUPID \<noteq> route_groupID (glocal (n_info nd)) \<Longrightarrow>
    map_of nodes (glocal (n_info nd)) \<noteq> None \<Longrightarrow>
    \<forall>k \<in> fst ` set (info (n_info nd)). node_stays (startShiftTime nd) nodes k \<Longrightarrow>
    node_life (snd (handleGroupRes e upd junk version nodes hash nd))"

lemma new_node_ok: "node_ok (new_node me shift)"
  using sync_new
  by (simp add: new_node_def node_ok_def members_ok_def group_ok_def new_groupInfo_def sync_linked_def is_alive_def
      new_syncMgr_def MSG_INVALID_ROUTEID_def)

lemma node_life_ok: "node_life nd \<Longrightarrow> node_ok nd"
proof (induction rule: node_life.induct)
  case (leave nd sub cb)
  then show ?case using linked_wait_remove by (simp add: node_ok_def)
next
  case (session nd offset cb w)
  from session(3,2) show ?case by (rule repl_sync_ok)
next
  case (catalogue nd nodes e upd junk version hash)
  from catalogue(6,2-5) show ?case by (rule handleGroupRes_ok)
qed (simp_all add: new_node_ok handleMsg_ok onTimer_ok step_events_ok node_complete_ok)

end
