(* ===== verification/Election.thy ===== *)
theory Election
  imports Ballots NodeLife
begin

text \<open>
  A replica group as a system: its nodes with the handlers of \<^verbatim>\<open>clsReplicateSet.cpp\<close>, the messages
  between them, which may be delayed, reordered or lost, and the time that has passed on the timer of
  every node. Every step of the system is a step of the protocol in theory \<open>Ballots\<close>.
\<close>

section \<open>The system\<close>

record cluster =
  cl_node :: "routeID \<Rightarrow> clsNode"
  cl_net :: "(routeID \<times> clsMsg) multiset"
  cl_time :: "routeID \<Rightarrow> nat"

text \<open>A node handles something with an empty outbox; what it sends goes to the network.\<close>

definition with_node :: "routeID \<Rightarrow> (clsNode \<Rightarrow> clsNode) \<Rightarrow> cluster \<Rightarrow> cluster" where
  "with_node v f s =
     (let nd = f ((cl_node s v)\<lparr>n_sent := []\<rparr>)
      in s\<lparr>cl_node := (cl_node s)(v := nd), cl_net := cl_net s + mset (n_sent nd)\<rparr>)"

text \<open>
  The least value of the option \<^verbatim>\<open>sharingbreak\<close> is 5000 (\<^verbatim>\<open>pmdOptionsMgr.cpp\<close>), so a node keeps silent
  for at least 6000 milliseconds. The steps are considered until a timer has advanced that far.
\<close>

definition minSilence :: nat where
  "minSilence = 6000"

inductive cluster_step :: "routeID set \<Rightarrow> cluster \<Rightarrow> cluster \<Rightarrow> bool" for V :: "routeID set" where
  deliver: "v \<in> V \<Longrightarrow> (v, m) \<in># cl_net s \<Longrightarrow>
    cluster_step V s (with_node v (\<lambda>nd. snd (handleMsg e m nd)) (s\<lparr>cl_net := cl_net s - {#(v, m)#}\<rparr>))"
| timer: "v \<in> V \<Longrightarrow> 5000 \<le> sharingBreakTime e \<Longrightarrow> cl_time s v + ms < minSilence \<Longrightarrow>
    cluster_step V s (with_node v (onTimer e net ms) (s\<lparr>cl_time := (cl_time s)(v := cl_time s v + ms)\<rparr>))"
| lose: "x \<in># cl_net s \<Longrightarrow> cluster_step V s (s\<lparr>cl_net := cl_net s - {#x#}\<rparr>)"
| stray: "\<not> is_vote m \<Longrightarrow> cluster_step V s (s\<lparr>cl_net := cl_net s + {#(v, m)#}\<rparr>)"
| session: "v \<in> V \<Longrightarrow> offset \<le> DPS_INVALID_LSN_OFFSET \<Longrightarrow>
    cluster_step V s (with_node v (\<lambda>nd. snd (repl_sync offset cb w nd)) s)"
| report: "v \<in> V \<Longrightarrow> cluster_step V s (with_node v (node_complete rid lsn) s)"

abbreviation cluster_steps :: "routeID set \<Rightarrow> cluster \<Rightarrow> cluster \<Rightarrow> bool" where
  "cluster_steps V \<equiv> (cluster_step V)\<^sup>*\<^sup>*"

text \<open>A group of at least two nodes that know each other.\<close>

definition in_group :: "routeID set \<Rightarrow> clsNode \<Rightarrow> bool" where
  "in_group V nd \<longleftrightarrow> node_ok nd \<and> fst ` set (info (n_info nd)) = V - {glocal (n_info nd)} \<and>
     vm_current (n_vote nd) \<noteq> None"

definition cluster_ok :: "routeID set \<Rightarrow> cluster \<Rightarrow> bool" where
  "cluster_ok V s \<longleftrightarrow> finite V \<and> 2 \<le> card V \<and>
     (\<forall>v \<in> V. glocal (n_info (cl_node s v)) = v \<and> in_group V (cl_node s v) \<and> cl_time s v < minSilence)"

definition votes_for :: "routeID \<Rightarrow> (routeID \<times> clsMsg) multiset \<Rightarrow> nat" where
  "votes_for c net = size (filter_mset (\<lambda>x. fst x = c \<and> is_vote (snd x)) net)"

definition protocol_view :: "cluster \<Rightarrow> ballots" where
  "protocol_view s =
     \<lparr>b_view = (\<lambda>v. view_of (cl_node s v)), b_votes = (\<lambda>c. votes_for c (cl_net s)), b_clock = cl_time s\<rparr>"

section \<open>Every step is a step of the protocol\<close>

lemma in_group_size:
  assumes "in_group V nd" and "finite V" and "glocal (n_info nd) \<in> V"
  shows "groupSize (n_info nd) = card V"
proof -
  have "smap_ok (info (n_info nd))" using assms(1) by (simp add: in_group_def node_ok_def members_ok_def group_ok_def)
  then have "length (info (n_info nd)) = card (V - {glocal (n_info nd)})"
    using assms(1) smap_card_keys by (metis in_group_def)
  moreover have "0 < card V" using assms(2,3) by (auto simp: card_gt_0_iff)
  ultimately show ?thesis using assms(2,3) by (simp add: groupSize_def)
qed

lemma in_group_moves:
  assumes "in_group V nd" and "moves d ack nd nd'" and "node_ok nd'"
  shows "in_group V nd'" and "glocal (n_info nd') = glocal (n_info nd)"
proof -
  have "same_group nd nd'" using assms(2) by (simp add: moves_def)
  then have keys: "fst ` set (info (n_info nd')) = fst ` set (info (n_info nd))"
    and local: "glocal (n_info nd') = glocal (n_info nd)"
    by (metis same_group_def set_map, simp add: same_group_def)
  then show "in_group V nd'" using assms by (simp add: in_group_def moves_def)
  show "glocal (n_info nd') = glocal (n_info nd)" by (rule local)
qed

lemma votes_for_simps [simp]:
  "votes_for c (N + M) = votes_for c N + votes_for c M"
  "votes_for c (add_mset x N) = of_bool (fst x = c \<and> is_vote (snd x)) + votes_for c N"
  "votes_for c {#} = 0"
  by (simp_all add: votes_for_def)

lemma votes_for_none: "\<forall>x \<in># N. \<not> is_vote (snd x) \<Longrightarrow> votes_for c N = 0"
  by (induction N) simp_all

lemma votes_for_out: "votes_for c (mset out) = length (filter (\<lambda>k. k = c) (votes_in out))"
  by (induction out) simp_all

lemma votes_for_label: "votes_in out = label_votes l \<Longrightarrow> votes_for c (mset out) = of_bool (l = Some c)"
  by (auto simp: votes_for_out label_votes_def split: option.split)

text \<open>A node makes a move, after a vote for it or nothing was taken from the network.\<close>

lemma with_node_step:
  assumes ok: "cluster_ok V s" and v: "v \<in> V"
    and move: "moves d ack ((cl_node s v)\<lparr>n_sent := []\<rparr>) (f ((cl_node s v)\<lparr>n_sent := []\<rparr>))"
    and keep: "node_ok (f ((cl_node s v)\<lparr>n_sent := []\<rparr>))"
    and clock: "cl_time s v + d < minSilence"
    and net: "\<And>c. votes_for c (cl_net s) = votes_for c N + of_bool (c = v \<and> ack)"
  defines "s' \<equiv> with_node v f (s\<lparr>cl_net := N, cl_time := (cl_time s)(v := cl_time s v + d)\<rparr>)"
  shows "cluster_ok V s'" and "ballot_step V minSilence (protocol_view s) (protocol_view s')"
proof -
  let ?nd = "(cl_node s v)\<lparr>n_sent := []\<rparr>"
  let ?nd' = "f ?nd"
  have grp: "in_group V ?nd" "glocal (n_info ?nd) = v"
    using ok v by (simp_all add: cluster_ok_def in_group_def node_ok_def)
  have s': "s' = \<lparr>cl_node = (cl_node s)(v := ?nd'), cl_net = N + mset (n_sent ?nd'),
      cl_time = (cl_time s)(v := cl_time s v + d)\<rparr>"
    by (cases s) (simp add: s'_def with_node_def Let_def)
  show "cluster_ok V s'"
    using ok in_group_moves [OF grp(1) move keep] grp(2) clock by (auto simp: cluster_ok_def s')
  have size: "groupSize (n_info ?nd) = card V" using in_group_size [OF grp(1)] ok v grp(2) by (simp add: cluster_ok_def)
  have view: "view_of ?nd = view_of (cl_node s v)"
    by (simp add: view_of_def votes_counted_def silent_time_def vs_of_def)
  obtain l where l: "vote_move (card V) minSilence d ack (view_of (cl_node s v)) l (view_of ?nd')"
    "votes_in (n_sent ?nd') = label_votes l"
    using move unfolding moves_def size view minSilence_def by auto
  have "protocol_view s' = \<lparr>b_view = (b_view (protocol_view s))(v := view_of ?nd'),
      b_votes = cast l ((b_votes (protocol_view s))(v := b_votes (protocol_view s) v - of_bool ack)),
      b_clock = (b_clock (protocol_view s))(v := b_clock (protocol_view s) v + d)\<rparr>"
    using net by (auto simp: protocol_view_def s' fun_eq_iff cast_def votes_for_label [OF l(2)])
  moreover have "ballot_step V minSilence (protocol_view s) \<dots>"
    using v clock l(1) net [of v] by (intro ballot_step.act) (auto simp: protocol_view_def)
  ultimately show "ballot_step V minSilence (protocol_view s) (protocol_view s')" by simp
qed

lemma votes_for_remove:
  assumes "x \<in># N"
  shows "votes_for c N = votes_for c (N - {#x#}) + of_bool (fst x = c \<and> is_vote (snd x))"
  using votes_for_simps(2) [of c x "N - {#x#}"] insert_DiffM [OF assms] by simp

lemma quiet_steps:
  "quiet nd (snd (repl_sync offset cb w nd))" "quiet nd (node_complete rid lsn nd)"
  by (rule quiet_same; simp add: repl_sync_def node_complete_def same_group_def Let_def split_def split: option.split)+

lemma cluster_step_refines:
  assumes ok: "cluster_ok V s" and step: "cluster_step V s s'"
  shows "cluster_ok V s' \<and> (ballot_step V minSilence)\<^sup>=\<^sup>= (protocol_view s) (protocol_view s')"
proof -
  have nd: "node_ok ((cl_node s v)\<lparr>n_sent := []\<rparr>)" "groupSize (n_info ((cl_node s v)\<lparr>n_sent := []\<rparr>)) \<noteq> 1"
    "vm_current (n_vote ((cl_node s v)\<lparr>n_sent := []\<rparr>)) \<noteq> None" "cl_time s v + 0 < minSilence" if "v \<in> V" for v
  proof -
    have g: "in_group V (cl_node s v)" "glocal (n_info (cl_node s v)) = v" "finite V" "2 \<le> card V"
      using ok that by (simp_all add: cluster_ok_def)
    show "node_ok ((cl_node s v)\<lparr>n_sent := []\<rparr>)" "vm_current (n_vote ((cl_node s v)\<lparr>n_sent := []\<rparr>)) \<noteq> None"
      using g(1) by (simp_all add: in_group_def node_ok_def)
    show "groupSize (n_info ((cl_node s v)\<lparr>n_sent := []\<rparr>)) \<noteq> 1"
      using in_group_size [OF g(1,3)] g that by simp
    show "cl_time s v + 0 < minSilence" using ok that by (simp add: cluster_ok_def)
  qed
  from step show ?thesis
  proof cases
    case (deliver v m e)
    note n = nd [OF deliver(2)]
    have "votes_for c (cl_net s) = votes_for c (cl_net s - {#(v, m)#}) + of_bool (c = v \<and> is_vote m)" for c
      using votes_for_remove [OF deliver(3), of c] by auto
    from with_node_step [where f = "\<lambda>nd. snd (handleMsg e m nd)", OF ok deliver(2) handleMsg_moves [OF n(1-3)] handleMsg_ok [OF n(1)] n(4) this] deliver(1)
    show ?thesis by simp
  next
    case (timer v e ms net)
    note n = nd [OF timer(2)]
    from with_node_step [where f = "onTimer e net ms", OF ok timer(2) onTimer_moves [OF n(1-3) timer(3), where ack = False] onTimer_ok [OF n(1)] timer(4),
        where N = "cl_net s"] timer(1)
    show ?thesis by simp
  next
    case (lose x)
    have "ballot_step V minSilence (protocol_view s) (protocol_view s')" if "is_vote (snd x)"
    proof -
      have "protocol_view s' = (protocol_view s)\<lparr>b_votes := (b_votes (protocol_view s))
          (fst x := b_votes (protocol_view s) (fst x) - 1)\<rparr>"
        using votes_for_remove [OF lose(2)] that by (auto simp: protocol_view_def lose(1) fun_eq_iff)
      moreover have "0 < b_votes (protocol_view s) (fst x)"
        using votes_for_remove [OF lose(2), of "fst x"] that by (simp add: protocol_view_def)
      ultimately show ?thesis using ballot_step.lose by metis
    qed
    moreover have "protocol_view s' = protocol_view s" if "\<not> is_vote (snd x)"
      using votes_for_remove [OF lose(2)] that by (simp add: protocol_view_def lose(1))
    moreover have "cluster_ok V s'" using ok by (simp add: cluster_ok_def lose(1))
    ultimately show ?thesis by (cases "is_vote (snd x)") simp_all
  next
    case (stray m v)
    then show ?thesis using ok by (simp add: cluster_ok_def protocol_view_def)
  next
    case (session v offset cb w)
    note n = nd [OF session(2)]
    from with_node_step [where f = "\<lambda>nd. snd (repl_sync offset cb w nd)", OF ok session(2) quiet_moves [OF n(3) quiet_steps(1)] repl_sync_ok [OF n(1) session(3)] n(4),
        where N = "cl_net s" and ack = False] session(1)
    show ?thesis by simp
  next
    case (report v rid lsn)
    note n = nd [OF report(2)]
    from with_node_step [where f = "node_complete rid lsn", OF ok report(2) quiet_moves [OF n(3) quiet_steps(2)] node_complete_ok [OF n(1)] n(4),
        where N = "cl_net s" and ack = False] report(1)
    show ?thesis by simp
  qed
qed

section \<open>From a quiet start\<close>

definition is_primary :: "cluster \<Rightarrow> routeID \<Rightarrow> bool" where
  "is_primary s v \<longleftrightarrow> vm_current (n_vote (cl_node s v)) = Some CLS_ELECTION_STATUS_PRIMARY"

text \<open>No node has announced itself, no vote is under way, and the timers start.\<close>

definition quiet_start :: "routeID set \<Rightarrow> cluster \<Rightarrow> bool" where
  "quiet_start V s \<longleftrightarrow> cluster_ok V s \<and> (\<forall>x \<in># cl_net s. \<not> is_vote (snd x)) \<and>
     (\<forall>v \<in> V. vm_current (n_vote (cl_node s v)) \<noteq> Some CLS_ELECTION_STATUS_ANNOUNCE \<and> cl_time s v = 0)"

lemma primary_view:
  "cluster_ok V s \<Longrightarrow> v \<in> V \<Longrightarrow>
    is_primary s v \<longleftrightarrow> fst (b_view (protocol_view s) v) = CLS_ELECTION_STATUS_PRIMARY"
  by (auto simp: cluster_ok_def in_group_def is_primary_def protocol_view_def view_of_def)

lemma quiet_start_inv:
  assumes "quiet_start V s"
  shows "ballot_inv V {v. is_primary s v} (protocol_view s)"
proof -
  have ok: "cluster_ok V s" using assms by (simp add: quiet_start_def)
  have "votes_for c (cl_net s) = 0" for c
    using assms votes_for_none by (simp add: quiet_start_def)
  then have "(if c \<in> {} then fst (snd (b_view (protocol_view s) c)) else 0) + b_votes (protocol_view s) c
      \<le> card (voters V (\<lambda>_. None) c)" for c by (simp add: protocol_view_def)
  moreover have "member_inv (card V) (v \<in> {v. is_primary s v}) (v \<in> {}) None (b_view (protocol_view s) v)
      (b_clock (protocol_view s) v)" if v: "v \<in> V" for v
  proof -
    have "vm_current (n_vote (cl_node s v)) \<noteq> None" "vm_current (n_vote (cl_node s v)) \<noteq> Some CLS_ELECTION_STATUS_ANNOUNCE"
      using assms v by (simp_all add: quiet_start_def cluster_ok_def in_group_def)
    then obtain st where "vm_current (n_vote (cl_node s v)) = Some st" "st \<noteq> CLS_ELECTION_STATUS_ANNOUNCE" by blast
    then show ?thesis using primary_view [OF ok v] by (auto simp: member_inv_def protocol_view_def view_of_def)
  qed
  ultimately show ?thesis unfolding ballot_inv_def by (intro exI [of _ "{}"] exI [of _ "\<lambda>_. None"]) blast
qed

lemma cluster_steps_inv:
  assumes "cluster_steps V s s'" and "cluster_ok V s" and "ballot_inv V Old (protocol_view s)"
  shows "cluster_ok V s' \<and> ballot_inv V Old (protocol_view s')"
  using assms
proof (induction rule: rtranclp_induct)
  case (step y z)
  then have y: "cluster_ok V y" "ballot_inv V Old (protocol_view y)" by simp_all
  from cluster_step_refines [OF y(1) step(2)] have z: "cluster_ok V z"
    "(ballot_step V minSilence)\<^sup>=\<^sup>= (protocol_view y) (protocol_view z)" by simp_all
  have "finite V" using y(1) by (simp add: cluster_ok_def)
  then have "ballot_inv V Old (protocol_view z)" using z(2) y(2) ballot_inv_step by auto
  with z(1) show ?case by simp
qed simp

end
