(* ===== verification/ElectionRun.thy ===== *)
theory ElectionRun
  imports Election "HOL-Library.Code_Target_Nat"
begin

text \<open>
  A group of two nodes, from the reply of the catalogue that makes them know each other to the election
  of the first one: the concrete states at which the theorems of the election are applied.
\<close>

definition env_at :: "nat \<Rightarrow> nodeEnv" where
  "env_at offset =
     \<lparr>sharingBreakTime = 7000, optWeight = 10, startupOK = True, bucketEmpty = True, needSyncTrans = False,
      expectLsn = \<lparr>lsn_offset = offset, lsn_version = 1\<rparr>, fileBeginLsn = \<lparr>lsn_offset = 0, lsn_version = 1\<rparr>,
      memBeginLsn = \<lparr>lsn_offset = 0, lsn_version = 1\<rparr>, ntyActive = True\<rparr>"

definition two_nodes :: "(routeID \<times> netRouteNode) list" where
  "two_nodes = [(1, \<lparr>rn_id = 1, rn_active = True\<rparr>), (2, \<lparr>rn_id = 2, rn_active = True\<rparr>)]"

definition joined :: "routeID \<Rightarrow> clsNode" where
  "joined me = snd (handleGroupRes (env_at 0) (\<lambda>_. True) (\<lambda>_. \<lparr>vs_time = 0, acceptedNum = 0\<rparr>) 1 two_nodes 0 (new_node me 0))"

definition node_in :: "CLS_ELECTION_STATUS \<Rightarrow> routeID \<Rightarrow> clsNode" where
  "node_in st me = upd_vote (\<lambda>v. v\<lparr>vm_current := Some st\<rparr>) (joined me)"

lemma joined_life:
  assumes "me \<in> {1, 2}"
  shows "node_life (joined me)"
proof -
  have "reply_ok two_nodes" by (simp add: reply_ok_def two_nodes_def MSG_INVALID_ROUTEID_def)
  moreover have "SPARE_GROUPID \<noteq> route_groupID (glocal (n_info (new_node me 0)))"
    using assms by (auto simp: SPARE_GROUPID_def route_groupID_def new_node_def)
  moreover have "map_of two_nodes (glocal (n_info (new_node me 0))) \<noteq> None"
    using assms by (auto simp: two_nodes_def new_node_def)
  moreover have "\<forall>k \<in> fst ` set (info (n_info (new_node me 0))). node_stays (startShiftTime (new_node me 0)) two_nodes k"
    by (simp add: new_node_def new_groupInfo_def)
  ultimately show ?thesis unfolding joined_def by (rule node_life.catalogue [OF node_life.start])
qed

lemma node_in_ok:
  assumes "me \<in> {1, 2}"
  shows "node_ok (node_in st me)"
proof -
  have "node_ok (joined me)" using joined_life [OF assms] by (rule node_life_ok)
  then show ?thesis by (rule node_ok_cong) (simp_all add: node_in_def upd_vote_def)
qed

lemma node_in_group:
  assumes "me \<in> {1, 2}"
  shows "glocal (n_info (node_in st me)) = me" and "in_group {1, 2} (node_in st me)"
    and "vm_current (n_vote (node_in st me)) = Some st"
proof -
  have "glocal (n_info (joined 1)) = 1" "glocal (n_info (joined 2)) = 2"
    "map fst (info (n_info (joined 1))) = [2]" "map fst (info (n_info (joined 2))) = [1]" by code_simp+
  then have j: "glocal (n_info (joined me)) = me" "map fst (info (n_info (joined me))) = [3 - me]"
    using assms by auto
  then have "set (map fst (info (n_info (joined me)))) = {3 - me}" by simp
  then have keys: "fst ` set (info (n_info (joined me))) = {1, 2} - {me}" using assms by auto
  show "glocal (n_info (node_in st me)) = me" "vm_current (n_vote (node_in st me)) = Some st"
    using j(1) by (simp_all add: node_in_def upd_vote_def)
  then show "in_group {1, 2} (node_in st me)"
    using node_in_ok [OF assms] keys j(1) by (simp add: in_group_def node_in_def upd_vote_def)
qed

section \<open>An election\<close>

definition before_vote :: cluster where
  "before_vote = \<lparr>cl_node = (\<lambda>v. if v = 1 then node_in CLS_ELECTION_STATUS_VOTE 1 else node_in CLS_ELECTION_STATUS_SEC 2),
     cl_net = {#}, cl_time = (\<lambda>_. 0)\<rparr>"

definition deliver_to :: "nodeEnv \<Rightarrow> routeID \<times> clsMsg \<Rightarrow> cluster \<Rightarrow> cluster" where
  "deliver_to e x s = with_node (fst x) (\<lambda>nd. snd (handleMsg e (snd x) nd)) (s\<lparr>cl_net := cl_net s - {#x#}\<rparr>)"

definition first_answer :: "routeID \<times> clsMsg" where
  "first_answer = (1, MsgClsElectionRes 2 CLS_ELECTION_ROUND_STAGE_ONE SDB_OK)"

definition second_ballot :: "routeID \<times> clsMsg" where
  "second_ballot = (2, MsgClsElectionBallot \<lparr>lsn_offset = 200, lsn_version = 1\<rparr> 1 CLS_ELECTION_ROUND_STAGE_TWO)"

definition second_answer :: "routeID \<times> clsMsg" where
  "second_answer = (1, MsgClsElectionRes 2 CLS_ELECTION_ROUND_STAGE_TWO SDB_OK)"

definition answered :: cluster where
  "answered = before_vote\<lparr>cl_net := {#first_answer#}\<rparr>"

definition announced :: cluster where
  "announced = deliver_to (env_at 200) first_answer answered"

definition granted :: cluster where
  "granted = deliver_to (env_at 100) second_ballot announced"

definition elected :: cluster where
  "elected = deliver_to (env_at 200) second_answer granted"

lemma before_vote_quiet: "quiet_start {1, 2} before_vote"
  using node_in_group [of 1] node_in_group [of 2]
  by (auto simp: quiet_start_def cluster_ok_def before_vote_def minSilence_def)

lemma deliver_step:
  assumes "fst x \<in> V" and "x \<in># cl_net s"
  shows "cluster_step V s (deliver_to e x s)"
  using cluster_step.deliver [of "fst x" V "snd x" s e] assms by (simp add: deliver_to_def)

lemma first_step: "cluster_step {1, 2} before_vote answered"
  using cluster_step.stray [of "snd first_answer" "{1, 2}" before_vote "fst first_answer"]
  by (simp add: answered_def first_answer_def before_vote_def)

lemma election_states:
  "second_ballot \<in># cl_net announced" "second_answer \<in># cl_net granted"
  "is_primary elected 1" "\<not> is_primary before_vote 1"
  by code_simp+

lemma election_run: "cluster_steps {1, 2} before_vote elected"
proof -
  have "cluster_step {1, 2} answered announced"
    unfolding announced_def by (rule deliver_step) (simp_all add: first_answer_def answered_def)
  moreover have "cluster_step {1, 2} announced granted"
    unfolding granted_def using election_states(1) by (intro deliver_step) (simp_all add: second_ballot_def)
  moreover have "cluster_step {1, 2} granted elected"
    unfolding elected_def using election_states(2) by (intro deliver_step) (simp_all add: second_answer_def)
  ultimately show ?thesis using first_step
    by (meson r_into_rtranclp rtranclp.rtrancl_into_rtrancl)
qed

end
