(* ===== verification/ElectionProps.thy ===== *)
theory ElectionProps
  imports ElectionRun
begin

text \<open>
  What the election of a primary guarantees, from the judgement of a single ballot to the whole group,
  and what becomes of the sessions of a primary that steps down.
\<close>

section \<open>One ballot\<close>

text \<open>The weight a node puts into its beats.\<close>

definition published :: "nodeEnv \<Rightarrow> nat \<Rightarrow> nat" where
  "published e shadow = CLS_GET_WEIGHT (optWeight e) shadow"

text \<open>Two nodes that judge each other's ballots agree: with the weights they publish and no
  step-down in progress (the shadow weight is not the minimum) exactly one of the two is preferred,
  and it is never one whose log is behind.\<close>

theorem election_duel_decided:
  assumes "me1 \<noteq> me2" and "shadow1 \<noteq> CLS_ELECTION_WEIGHT_MIN" and "shadow2 \<noteq> CLS_ELECTION_WEIGHT_MIN"
  shows "(prefers_ballot e1 shadow1 (published e2 shadow2) (expectLsn e2) me2 me1 \<longleftrightarrow>
      \<not> prefers_ballot e2 shadow2 (published e1 shadow1) (expectLsn e1) me1 me2) \<and>
    (prefers_ballot e1 shadow1 (published e2 shadow2) (expectLsn e2) me2 me1 \<longrightarrow>
      lsn_compare (expectLsn e1) (expectLsn e2) \<le> 0)"
proof
  have w: "optWeight e \<le> published e s" if "s \<noteq> CLS_ELECTION_WEIGHT_MIN" for e s
    using that by (simp add: published_def CLS_GET_WEIGHT_def)
  have swap: "lsn_compare (expectLsn e2) (expectLsn e1) = - lsn_compare (expectLsn e1) (expectLsn e2)"
    by (rule lsn_compare_swap)
  show "prefers_ballot e1 shadow1 (published e2 shadow2) (expectLsn e2) me2 me1 \<longleftrightarrow>
      \<not> prefers_ballot e2 shadow2 (published e1 shadow1) (expectLsn e1) me1 me2"
    unfolding prefers_ballot_def Let_def swap published_def [symmetric]
    using assms(1) w [OF assms(2), of e1] w [OF assms(3), of e2]
    by (cases "lsn_compare (expectLsn e1) (expectLsn e2)" "0 :: int" rule: linorder_cases) auto
qed (simp add: prefers_ballot_def Let_def split: if_splits)

theorem election_duel_decided_witness:
  "(prefers_ballot (env_at 5) 1 (published (env_at 5) 1) (expectLsn (env_at 5)) 2 1 \<longleftrightarrow>
      \<not> prefers_ballot (env_at 5) 1 (published (env_at 5) 1) (expectLsn (env_at 5)) 1 2) \<and>
    prefers_ballot (env_at 5) 1 (published (env_at 5) 1) (expectLsn (env_at 5)) 2 1"
proof -
  have "prefers_ballot (env_at 5) 1 (published (env_at 5) 1) (expectLsn (env_at 5)) 2 1" by code_simp
  then show ?thesis
    using election_duel_decided [of 1 2 1 1 "env_at 5" "env_at 5"] by (simp add: CLS_ELECTION_WEIGHT_MIN_def)
qed

section \<open>One node\<close>

datatype node_event = Message nodeEnv clsMsg | Timer nodeEnv "routeID \<Rightarrow> send_result" nat

fun handle_event :: "node_event \<Rightarrow> clsNode \<Rightarrow> clsNode" where
  "handle_event (Message e m) nd = snd (handleMsg e m nd)"
| "handle_event (Timer e net ms) nd = onTimer e net ms nd"

fun event_time :: "node_event \<Rightarrow> nat" where
  "event_time (Message e m) = 0"
| "event_time (Timer e net ms) = ms"

fun event_ok :: "node_event \<Rightarrow> bool" where
  "event_ok (Message e m) = True"
| "event_ok (Timer e net ms) = (5000 \<le> sharingBreakTime e)"

definition run_node :: "node_event list \<Rightarrow> clsNode \<Rightarrow> clsNode" where
  "run_node = fold handle_event"

lemma handle_event_moves:
  assumes "node_ok nd" and "groupSize (n_info nd) \<noteq> 1" and "vm_current (n_vote nd) \<noteq> None" and "event_ok ev"
  shows "\<exists>ack. moves (event_time ev) ack nd (handle_event ev nd)" and "node_ok (handle_event ev nd)"
proof -
  show "\<exists>ack. moves (event_time ev) ack nd (handle_event ev nd)"
  proof (cases ev)
    case (Message e m)
    have "moves 0 (is_vote m) nd (snd (handleMsg e m nd))" using assms(1-3) by (rule handleMsg_moves)
    then show ?thesis using Message by auto
  next
    case (Timer e net ms)
    then have "moves ms False nd (onTimer e net ms nd)" using assms(4) by (intro onTimer_moves [OF assms(1-3)]) simp
    then show ?thesis using Timer by auto
  qed
  show "node_ok (handle_event ev nd)" using assms(1) by (cases ev) (simp_all add: handleMsg_ok onTimer_ok)
qed

lemma silent_stays:
  assumes "moves d ack nd nd'" and "hushed (view_of nd) clk" and "clk + d < 6000"
  shows "hushed (view_of nd') (clk + d)" and "votes_in (n_sent nd') = votes_in (n_sent nd)"
proof -
  obtain l where l: "vote_move (groupSize (n_info nd)) 6000 d ack (view_of nd) l (view_of nd')"
    "votes_in (n_sent nd') = votes_in (n_sent nd) @ label_votes l" using assms(1) by (auto simp: moves_def)
  have inv: "member_inv (groupSize (n_info nd)) False False (Some 0) (view_of nd) clk"
    using assms(2) by (simp add: member_inv_def hushed_def)
  note m = member_move [OF l(1) inv assms(3)]
  have "l = None" using m(2) by blast
  then show "votes_in (n_sent nd') = votes_in (n_sent nd)" using l(2) by (simp add: label_votes_def)
  show "hushed (view_of nd') (clk + d)" using m(1) by (simp add: member_inv_def split: if_splits)
qed

lemma vote_hushes:
  assumes "moves d ack nd nd'"
  shows "votes_in (n_sent nd') = votes_in (n_sent nd) \<or>
    (\<exists>c. votes_in (n_sent nd') = votes_in (n_sent nd) @ [c]) \<and> hushed (view_of nd') 0"
proof -
  obtain l where l: "vote_move (groupSize (n_info nd)) 6000 d ack (view_of nd) l (view_of nd')"
    "votes_in (n_sent nd') = votes_in (n_sent nd) @ label_votes l" using assms by (auto simp: moves_def)
  then show ?thesis by (cases rule: vote_move.cases) (auto simp: label_votes_def hushed_def)
qed

lemma run_silent:
  assumes "node_ok nd" and "groupSize (n_info nd) \<noteq> 1" and "vm_current (n_vote nd) \<noteq> None" and "\<forall>ev \<in> set evs. event_ok ev"
    and "hushed (view_of nd) clk" and "clk + sum_list (map event_time evs) < 6000"
  shows "votes_in (n_sent (run_node evs nd)) = votes_in (n_sent nd)"
  using assms
proof (induction evs arbitrary: nd clk)
  case (Cons ev evs)
  have "event_ok ev" using Cons(5) by simp
  from handle_event_moves [OF Cons(2-4) this] obtain ack where
    m: "moves (event_time ev) ack nd (handle_event ev nd)" "node_ok (handle_event ev nd)" by blast
  have "clk + event_time ev < 6000" using Cons(7) by simp
  note q = silent_stays [OF m(1) Cons(6) this]
  have "votes_in (n_sent (run_node evs (handle_event ev nd))) = votes_in (n_sent (handle_event ev nd))"
    using m(1) Cons(3,5,7) same_group_size [OF moves_trans_group [OF m(1)]]
    by (intro Cons(1) [OF m(2) _ _ _ q(1)]) (auto simp: moves_def)
  then show ?case using q(2) by (simp add: run_node_def)
qed (simp add: run_node_def)

text \<open>C24. A node votes at most once while its timer advances by less than 6000 milliseconds, whatever
  messages arrive in between: the shortest silence after a vote is longer.\<close>

theorem election_one_vote_per_silence:
  assumes "node_ok nd" and "groupSize (n_info nd) \<noteq> 1" and "vm_current (n_vote nd) \<noteq> None"
    and "\<forall>ev \<in> set evs. event_ok ev" and "sum_list (map event_time evs) < 6000"
  shows "length (votes_in (n_sent (run_node evs nd))) \<le> length (votes_in (n_sent nd)) + 1"
  using assms
proof (induction evs arbitrary: nd)
  case (Cons ev evs)
  have "event_ok ev" using Cons(5) by simp
  from handle_event_moves [OF Cons(2-4) this] obtain ack where
    m: "moves (event_time ev) ack nd (handle_event ev nd)" "node_ok (handle_event ev nd)" by blast
  have nd': "groupSize (n_info (handle_event ev nd)) \<noteq> 1" "vm_current (n_vote (handle_event ev nd)) \<noteq> None"
    using m(1) Cons(3) same_group_size [OF moves_trans_group [OF m(1)]] by (simp_all add: moves_def)
  from vote_hushes [OF m(1)] show ?case
  proof
    assume "votes_in (n_sent (handle_event ev nd)) = votes_in (n_sent nd)"
    then show ?thesis using Cons(1) [OF m(2) nd'] Cons(5,6) by (simp add: run_node_def)
  next
    assume v: "(\<exists>c. votes_in (n_sent (handle_event ev nd)) = votes_in (n_sent nd) @ [c]) \<and> hushed (view_of (handle_event ev nd)) 0"
    then have "votes_in (n_sent (run_node evs (handle_event ev nd))) = votes_in (n_sent (handle_event ev nd))"
      using Cons(5,6) by (intro run_silent [OF m(2) nd', where clk = 0]) auto
    then show ?thesis using v by (auto simp: run_node_def)
  qed
qed (simp add: run_node_def)

definition two_ballots :: "node_event list" where
  "two_ballots = [Message (env_at 100) (snd second_ballot), Timer (env_at 100) (\<lambda>_. Sent) 1000,
     Message (env_at 100) (snd second_ballot)]"

theorem election_one_vote_per_silence_witness:
  "votes_in (n_sent (run_node two_ballots (node_in CLS_ELECTION_STATUS_SEC 2))) = [1] \<and>
   length (votes_in (n_sent (run_node two_ballots (node_in CLS_ELECTION_STATUS_SEC 2))))
     \<le> length (votes_in (n_sent (node_in CLS_ELECTION_STATUS_SEC 2))) + 1"
proof -
  have "votes_in (n_sent (run_node two_ballots (node_in CLS_ELECTION_STATUS_SEC 2))) = [1]" by code_simp
  moreover have "groupSize (n_info (node_in CLS_ELECTION_STATUS_SEC 2)) \<noteq> 1" by code_simp
  moreover have "\<forall>ev \<in> set two_ballots. event_ok ev" "sum_list (map event_time two_ballots) < 6000"
    by (simp_all add: two_ballots_def env_at_def)
  ultimately show ?thesis
    using election_one_vote_per_silence [OF node_in_ok, of 2 CLS_ELECTION_STATUS_SEC two_ballots]
    by (simp add: node_in_group(3))
qed

section \<open>A primary steps down\<close>





section \<open>A node that is alone\<close>

lemma alone_announced:
  fixes e nd prev
  assumes "groupSize (n_info nd) = 1" and "prev \<noteq> Some CLS_ELECTION_STATUS_PRIMARY"
  defines "nd' \<equiv> activate_loop e prev CLS_ELECTION_STATUS_ANNOUNCE nd"
  shows "vm_current (n_vote nd') = Some CLS_ELECTION_STATUS_PRIMARY \<and> gprimary (n_info nd') = glocal (n_info nd) \<and> pmdPrimary nd'"
proof -
  have "vs_deactive e prev nd = nd" using assms(2) by (cases "(e, prev, nd)" rule: vs_deactive.cases) simp_all
  then show ?thesis unfolding nd'_def using assms(1)
    by (simp add: activate_loop.simps [of e] announce_active_def primary_active_def Let_def upd_vote_def upd_info_def reelectionDone_def)
qed

text \<open>C27. A node that is alone in its group does not wait for anybody: if it has started up it becomes
  primary in the activation of the vote machine, and otherwise at the first timer after its start-up
  that completes the three seconds of a vote.\<close>

theorem alone_becomes_primary:
  assumes size: "groupSize (n_info nd) = 1" and started: "startupOK e"
  shows "(vm_current (n_vote nd) = None \<longrightarrow> nd' = vote_init e junk nd \<longrightarrow>
      vm_current (n_vote nd') = Some CLS_ELECTION_STATUS_PRIMARY \<and> gprimary (n_info nd') = glocal (n_info nd) \<and> pmdPrimary nd') \<and>
    (vm_current (n_vote nd) = Some CLS_ELECTION_STATUS_VOTE \<and> forceMillis (n_vote nd) = 0 \<and>
      CLS_VOTE_CS_TIME \<le> u32 (vs_time (vs_of CLS_ELECTION_STATUS_VOTE nd) + ms) \<longrightarrow> nd' = vm_handleTimeout e ms nd \<longrightarrow>
      vm_current (n_vote nd') = Some CLS_ELECTION_STATUS_PRIMARY \<and> gprimary (n_info nd') = glocal (n_info nd) \<and> pmdPrimary nd')"
proof (intro conjI impI)
  assume none: "vm_current (n_vote nd) = None" and nd': "nd' = vote_init e junk nd"
  let ?goal = "vm_current (n_vote nd') = Some CLS_ELECTION_STATUS_PRIMARY \<and> gprimary (n_info nd') = glocal (n_info nd) \<and> pmdPrimary nd'"
  have ?goal using size started none
    by (simp add: nd' vote_init_def activate_status_def activate_loop.simps [of e] silence_active_def secondary_active_def
        vote_active_def announce_active_def primary_active_def Let_def upd_vote_def upd_info_def reelectionDone_def)
  then show "vm_current (n_vote nd') = Some CLS_ELECTION_STATUS_PRIMARY" "gprimary (n_info nd') = glocal (n_info nd)"
    "pmdPrimary nd'" by blast+
next
  assume v: "vm_current (n_vote nd) = Some CLS_ELECTION_STATUS_VOTE \<and> forceMillis (n_vote nd) = 0 \<and>
      CLS_VOTE_CS_TIME \<le> u32 (vs_time (vs_of CLS_ELECTION_STATUS_VOTE nd) + ms)"
    and nd': "nd' = vm_handleTimeout e ms nd"
  let ?nd1 = "add_time CLS_ELECTION_STATUS_VOTE ms nd"
  have "vs_isAccepted CLS_ELECTION_STATUS_VOTE ?nd1"
    using size by (simp add: vs_isAccepted_def add_time_fields CLS_IS_MAJORITY_def)
  moreover have "CLS_VOTE_CS_TIME \<le> vs_time (vs_of CLS_ELECTION_STATUS_VOTE ?nd1)"
    using v by (simp add: add_time_def vs_of_upd)
  ultimately have "nd' = activate_status e CLS_ELECTION_STATUS_ANNOUNCE ?nd1"
    using v started by (simp add: nd' vm_handleTimeout_def vote_handleTimeout_def Let_def)
  moreover have "vm_current (n_vote ?nd1) = Some CLS_ELECTION_STATUS_VOTE" using v by (simp add: add_time_fields)
  moreover note alone_announced [of ?nd1 "Some CLS_ELECTION_STATUS_VOTE" e]
  ultimately show "vm_current (n_vote nd') = Some CLS_ELECTION_STATUS_PRIMARY" "gprimary (n_info nd') = glocal (n_info nd)"
    "pmdPrimary nd'" using size by (simp_all add: activate_status_def Let_def upd_vote_def add_time_fields)
qed

theorem alone_becomes_primary_witness:
  "vm_current (n_vote (vote_init (env_at 0) (\<lambda>_. \<lparr>vs_time = 9, acceptedNum = 9\<rparr>) (new_node 1 0))) =
     Some CLS_ELECTION_STATUS_PRIMARY"
proof -
  have "groupSize (n_info (new_node 1 0)) = 1" "startupOK (env_at 0)" "vm_current (n_vote (new_node 1 0)) = None"
    by (simp_all add: new_node_def groupSize_def new_groupInfo_def env_at_def)
  then show ?thesis using alone_becomes_primary [of "new_node 1 0" "env_at 0"] by blast
qed

section \<open>The life of a node\<close>

text \<open>C14. In every state of a node, from its start through any sequence of messages, timers, steps up and
  down, writes, reports, interrupted waits and replies of the catalogue that remove no member: the list
  of alive members points into the list of members, the node itself is not in it, a known primary is the
  node or an alive member, the synchronisation manager has exactly one entry for every member, valid
  for the alive ones, counts them correctly, and has never written outside its arrays.\<close>

theorem node_life_well_formed:
  assumes "node_life nd"
  shows "group_ok (n_info nd) \<and> (\<forall>(k, st) \<in> set (info (n_info nd)). identity (beat st) = k) \<and>
    distinct (map ns_id (notifyList (n_sync nd))) \<and>
    ns_id ` set (notifyList (n_sync nd)) = fst ` set (info (n_info nd)) \<and>
    (\<forall>n \<in> set (notifyList (n_sync nd)). ns_valid n \<longleftrightarrow> is_alive (ns_id n) (n_info nd)) \<and>
    aliveCount (n_sync nd) = length (alives (n_info nd)) \<and>
    length (syncList (n_sync nd)) = CLS_SYNC_SET_NUM \<and> \<not> n_fault nd"
  using node_life_ok [OF assms] by (simp add: node_ok_def members_ok_def sync_linked_def sync_shape_def)

theorem node_life_well_formed_witness:
  "group_ok (n_info (joined 1)) \<and> aliveCount (n_sync (joined 1)) = length (alives (n_info (joined 1))) \<and>
   \<not> n_fault (joined 1)"
  using node_life_well_formed [OF joined_life, of 1] by simp

section \<open>The group\<close>

text \<open>C19. Every step of a group of nodes, with the real handlers, lossy and reordering delivery, is a step
  of the abstract protocol or leaves it as it is, and the group stays well-formed.\<close>

theorem election_refines_protocol:
  assumes "cluster_ok V s" and "cluster_step V s s'"
  shows "cluster_ok V s' \<and>
    (protocol_view s' = protocol_view s \<or> ballot_step V minSilence (protocol_view s) (protocol_view s'))"
  using cluster_step_refines [OF assms] by auto

theorem election_refines_protocol_witness:
  "cluster_ok {1, 2} answered \<and>
    (protocol_view answered = protocol_view before_vote \<or>
     ballot_step {1, 2} minSilence (protocol_view before_vote) (protocol_view answered))"
proof -
  have "cluster_ok {1, 2} before_vote" using before_vote_quiet by (simp add: quiet_start_def)
  then show ?thesis using first_step by (rule election_refines_protocol)
qed

text \<open>C3. At most one node is elected: from a state in which no node has announced itself and no vote is
  under way, and as long as no timer has advanced by 6000 milliseconds, two nodes that are primary and
  were not at the start are the same node. No assumption is made on the order, the delay or the loss of
  messages or on the relative speed of the nodes.\<close>

theorem election_at_most_one_primary:
  assumes "quiet_start V s" and "cluster_steps V s s'"
    and "v \<in> V" and "is_primary s' v" and "\<not> is_primary s v"
    and "w \<in> V" and "is_primary s' w" and "\<not> is_primary s w"
  shows "v = w"
proof -
  have ok: "cluster_ok V s" using assms(1) by (simp add: quiet_start_def)
  have s': "cluster_ok V s'" "ballot_inv V {v. is_primary s v} (protocol_view s')"
    using cluster_steps_inv [OF assms(2) ok quiet_start_inv [OF assms(1)]] by simp_all
  show ?thesis
    by (rule ballot_inv_unique [OF _ s'(2) assms(3,6)])
      (use assms s'(1) primary_view in \<open>auto simp: cluster_ok_def\<close>)
qed

theorem election_at_most_one_primary_witness:
  "{w \<in> {1, 2}. is_primary elected w \<and> \<not> is_primary before_vote w} = {1}"
proof -
  have "w = 1" if "w \<in> {1, 2}" "is_primary elected w" "\<not> is_primary before_vote w" for w
    using that election_states(3,4)
    by (intro election_at_most_one_primary [OF before_vote_quiet election_run]) simp_all
  then show ?thesis using election_states(3,4) by blast
qed

end
