(* ===== verification/LzwBits.thy ===== *)
theory LzwBits
  imports Prelude "HOL-Library.Monad_Syntax"
begin

text \<open>
  The bit stream of the LZW compressor: the head of a dictionary and the context of
  \<^verbatim>\<open>utilLZWDictionary.hpp\<close>, and the inline readers and writers of
  \<^verbatim>\<open>utilCompressorLZW.hpp\<close>. The bit buffer is a 32-bit word whose \<^verbatim>\<open>_n\<close> low bits are
  pending. A read or write outside an array is \<open>None\<close>; positions are below \<^verbatim>\<open>2^32\<close>
  because an array has at most that many bytes.

  The lemmas show what the operations do to the stream read as a list of bits: a write
  appends the bits of its code, a read takes them off.
\<close>

unbundle bit_operations_syntax

section \<open>Memory\<close>

type_synonym byte = "8 word"

definition aref :: "'a list \<Rightarrow> nat \<Rightarrow> 'a option" where
  "aref xs i = (if i < length xs then Some (xs ! i) else None)"

definition aset :: "'a list \<Rightarrow> nat \<Rightarrow> 'a \<Rightarrow> 'a list option" where
  "aset xs i x = (if i < length xs then Some (xs[i := x]) else None)"

text \<open>\<^verbatim>\<open>ossMemcpy\<close> out of and into an array.\<close>

definition mem_read :: "'a list \<Rightarrow> nat \<Rightarrow> nat \<Rightarrow> 'a list option" where
  "mem_read xs pos n = (if pos + n \<le> length xs then Some (take n (drop pos xs)) else None)"

definition mem_write :: "'a list \<Rightarrow> nat \<Rightarrow> 'a list \<Rightarrow> 'a list option" where
  "mem_write xs pos ys =
     (if pos + length ys \<le> length xs
      then Some (take pos xs @ ys @ drop (pos + length ys) xs) else None)"

section \<open>Dictionary head and context\<close>

record utilLZWDictHead =
  lzh_maxCode :: nat
  lzh_maxValidCode :: nat
  lzh_codeSize :: nat
  lzh_varLenFlagSize :: nat
  lzh_splitInfo :: "nat list"

record utilLZWContext =
  lzc_stream :: "byte list"
  lzc_streamLen :: nat
  lzc_streamPos :: nat
  lzc_buf :: "32 word"
  lzc_n :: nat

definition UTIL_VAR_LEN_FLAG_SIZE :: nat where
  "UTIL_VAR_LEN_FLAG_SIZE = 2"

definition UTIL_MAX_DICT_SPLIT_NUM :: nat where
  "UTIL_MAX_DICT_SPLIT_NUM = 4"

definition DICT_BITS_UPBOUND :: "nat \<Rightarrow> nat" where
  "DICT_BITS_UPBOUND bits = 2 ^ bits - 1"

text \<open>The first of the four sizes that holds the code; both outputs keep their value when none does.\<close>

fun varLen_search :: "nat \<Rightarrow> nat list \<Rightarrow> nat \<Rightarrow> nat \<times> nat \<Rightarrow> nat \<times> nat" where
  "varLen_search code [] i out = out"
| "varLen_search code (s # ss) i out =
     (if code < DICT_BITS_UPBOUND s then (i, s) else varLen_search code ss (i + 1) out)"

definition getVarLenInfo :: "utilLZWDictHead \<Rightarrow> nat \<Rightarrow> nat \<times> nat \<Rightarrow> nat \<times> nat" where
  "getVarLenInfo h code out =
     varLen_search code (take UTIL_MAX_DICT_SPLIT_NUM (lzh_splitInfo h)) 0 out"

definition getVarLenSize :: "utilLZWDictHead \<Rightarrow> nat \<Rightarrow> nat option" where
  "getVarLenSize h lenIdx = aref (lzh_splitInfo h) lenIdx"

section \<open>Readers\<close>

text \<open>\<^verbatim>\<open>( 1 << bitNum ) - 1\<close>\<close>

definition low_mask :: "nat \<Rightarrow> 32 word" where
  "low_mask bitNum = push_bit bitNum 1 - 1"

definition readByte :: "utilLZWContext \<Rightarrow> (byte \<times> utilLZWContext) option" where
  "readByte ctx = do {
     ch \<leftarrow> aref (lzc_stream ctx) (lzc_streamPos ctx);
     Some (ch, ctx\<lparr>lzc_streamPos := lzc_streamPos ctx + 1\<rparr>)
   }"

definition fetch_byte :: "utilLZWContext \<Rightarrow> utilLZWContext option" where
  "fetch_byte ctx = do {
     (ch, ctx) \<leftarrow> readByte ctx;
     Some (ctx\<lparr>lzc_buf := push_bit 8 (lzc_buf ctx) OR ucast ch, lzc_n := lzc_n ctx + 8\<rparr>)
   }"

partial_function (option) fetch_bits :: "nat \<Rightarrow> utilLZWContext \<Rightarrow> utilLZWContext option" where
  "fetch_bits codeSize ctx =
     (if lzc_n ctx < codeSize then fetch_byte ctx \<bind> fetch_bits codeSize else Some ctx)"

declare fetch_bits.simps [code]

definition take_bits :: "nat \<Rightarrow> utilLZWContext \<Rightarrow> 32 word \<times> utilLZWContext" where
  "take_bits codeSize ctx =
     (let n = u32_sub (lzc_n ctx) codeSize in
      (drop_bit n (lzc_buf ctx) AND low_mask codeSize, ctx\<lparr>lzc_n := n\<rparr>))"

definition readCode :: "utilLZWDictHead \<Rightarrow> utilLZWContext \<Rightarrow> (nat \<times> utilLZWContext) option" where
  "readCode h ctx = do {
     ctx \<leftarrow> fetch_bits (lzh_codeSize h) ctx;
     let (bits, ctx) = take_bits (lzh_codeSize h) ctx;
     Some (unat bits, ctx)
   }"

definition readVarLenCode :: "utilLZWDictHead \<Rightarrow> utilLZWContext \<Rightarrow> (nat \<times> utilLZWContext) option" where
  "readVarLenCode h ctx = do {
     ctx \<leftarrow> (if lzc_n ctx < lzh_varLenFlagSize h then fetch_byte ctx else Some ctx);
     let (lenIdx, ctx) = take_bits (lzh_varLenFlagSize h) ctx;
     codeSize \<leftarrow> getVarLenSize h (unat lenIdx);
     ctx \<leftarrow> fetch_bits codeSize ctx;
     let (bits, ctx) = take_bits codeSize ctx;
     Some (unat bits, ctx)
   }"

section \<open>Writers\<close>

definition writeByte :: "byte \<Rightarrow> utilLZWContext \<Rightarrow> utilLZWContext option" where
  "writeByte ch ctx = do {
     s \<leftarrow> aset (lzc_stream ctx) (lzc_streamPos ctx) ch;
     Some (ctx\<lparr>lzc_stream := s, lzc_streamPos := lzc_streamPos ctx + 1\<rparr>)
   }"

fun drain_bits :: "nat \<Rightarrow> utilLZWContext \<Rightarrow> utilLZWContext option" where
  "drain_bits bitNum ctx =
     (if 8 \<le> bitNum
      then writeByte (ucast (drop_bit (bitNum - 8) (lzc_buf ctx))) ctx \<bind> drain_bits (bitNum - 8)
      else Some (ctx\<lparr>lzc_n := bitNum\<rparr>))"

declare drain_bits.simps [simp del]

definition writeBits :: "32 word \<Rightarrow> nat \<Rightarrow> utilLZWContext \<Rightarrow> utilLZWContext option" where
  "writeBits bits bitNum ctx =
     (let buf = push_bit bitNum (lzc_buf ctx) OR (bits AND low_mask bitNum) in
      drain_bits (bitNum + lzc_n ctx) (ctx\<lparr>lzc_buf := buf\<rparr>))"

definition writeBitsExt ::
  "utilLZWDictHead \<Rightarrow> 32 word \<Rightarrow> nat \<Rightarrow> nat \<Rightarrow> utilLZWContext \<Rightarrow> utilLZWContext option" where
  "writeBitsExt h bits bitNum codeLen ctx =
     (let buf = push_bit (bitNum + lzh_varLenFlagSize h) (lzc_buf ctx)
                OR push_bit bitNum (word_of_nat codeLen)
                OR (bits AND low_mask bitNum) in
      drain_bits (lzc_n ctx + bitNum + lzh_varLenFlagSize h) (ctx\<lparr>lzc_buf := buf\<rparr>))"

definition writeCode :: "utilLZWDictHead \<Rightarrow> nat \<Rightarrow> utilLZWContext \<Rightarrow> utilLZWContext option" where
  "writeCode h code ctx = writeBits (word_of_nat code) (lzh_codeSize h) ctx"

definition writeVarLenCode ::
  "utilLZWDictHead \<Rightarrow> nat \<Rightarrow> utilLZWContext \<Rightarrow> (nat \<times> utilLZWContext) option" where
  "writeVarLenCode h code ctx =
     (let (lenIndex, splitSize) = getVarLenInfo h code (0, 0) in do {
        ctx \<leftarrow> writeBitsExt h (word_of_nat code) splitSize lenIndex ctx;
        Some (splitSize, ctx)
      })"

definition flushBits :: "utilLZWContext \<Rightarrow> utilLZWContext option" where
  "flushBits ctx = (if lzc_n ctx \<noteq> 0 then writeBits 0 (8 - lzc_n ctx) ctx else Some ctx)"

section \<open>Bits of words\<close>

text \<open>The \<open>k\<close> low bits of a word, the most significant first.\<close>

definition to_bits :: "nat \<Rightarrow> 'a::len word \<Rightarrow> bool list" where
  "to_bits k w = map (bit w) (rev [0..<k])"

definition stream_bits :: "byte list \<Rightarrow> bool list" where
  "stream_bits bs = concat (map (to_bits 8) bs)"

lemma length_to_bits [simp]: "length (to_bits k w) = k"
  by (simp add: to_bits_def)

lemma nth_to_bits: "i < k \<Longrightarrow> to_bits k w ! i = bit w (k - Suc i)"
  by (simp add: to_bits_def rev_nth)

lemma to_bits_0 [simp]: "to_bits 0 w = []"
  by (simp add: to_bits_def)

lemma to_bits_split:
  "to_bits (a + b) w = map (\<lambda>i. bit w (i + b)) (rev [0..<a]) @ to_bits b w"
proof -
  have "[0..<a + b] = [0..<b] @ map (\<lambda>i. i + b) [0..<a]"
    using upt_add_eq_append [of 0 b a] by (simp add: map_add_upt add.commute)
  then show ?thesis by (simp add: to_bits_def rev_map o_def)
qed

lemma to_bits_drop:
  "to_bits (a + b) w = to_bits a (drop_bit b w) @ to_bits b w"
  by (simp add: to_bits_split) (simp add: to_bits_def bit_drop_bit_eq o_def add.commute)

lemma to_bits_cong: "(\<And>i. i < k \<Longrightarrow> bit v i = bit w i) \<Longrightarrow> to_bits k v = to_bits k w"
  by (simp add: to_bits_def)

lemma stream_bits_Nil [simp]: "stream_bits [] = []"
  and stream_bits_Cons [simp]: "stream_bits (b # bs) = to_bits 8 b @ stream_bits bs"
  and stream_bits_append [simp]: "stream_bits (bs @ cs) = stream_bits bs @ stream_bits cs"
  by (simp_all add: stream_bits_def)

lemma length_stream_bits [simp]: "length (stream_bits bs) = 8 * length bs"
  by (induction bs) auto

lemma low_mask_eq: "low_mask b = mask b"
  by (simp add: low_mask_def mask_eq_exp_minus_1 push_bit_eq_mult)

lemma to_bits_push_or:
  fixes v w :: "32 word"
  assumes "a + b \<le> 32"
  shows "to_bits (a + b) (push_bit b v OR (w AND low_mask b)) = to_bits a v @ to_bits b w"
proof -
  have hi: "to_bits a (drop_bit b (push_bit b v OR (w AND mask b))) = to_bits a v"
    using assms by (intro to_bits_cong) (auto simp: bit_simps)
  have lo: "to_bits b (push_bit b v OR (w AND mask b)) = to_bits b w"
    using assms by (intro to_bits_cong) (auto simp: bit_simps)
  show ?thesis unfolding low_mask_eq to_bits_drop hi lo ..
qed

lemma to_bits_ucast_byte: "to_bits 8 (ucast (w :: 32 word) :: byte) = to_bits 8 w"
  by (intro to_bits_cong) (auto simp: bit_simps)

lemma to_bits_of_byte: "to_bits 8 (ucast (b :: byte) :: 32 word) = to_bits 8 b"
  by (intro to_bits_cong) (auto simp: bit_simps)

text \<open>A code that fits is determined by its bits.\<close>

lemma to_bits_inj:
  fixes v w :: "32 word"
  assumes "to_bits k v = to_bits k w" and "k \<le> 32"
  shows "v AND mask k = w AND mask k"
proof (rule bit_word_eqI)
  fix i assume "i < LENGTH(32)"
  moreover have "i < k \<Longrightarrow> bit v i = bit w i"
    using arg_cong [OF assms(1), of "\<lambda>l. l ! (k - Suc i)"] by (simp add: nth_to_bits)
  ultimately show "bit (v AND mask k) i = bit (w AND mask k) i" by (auto simp: bit_simps)
qed


section \<open>Writing\<close>

text \<open>What has been written, and the pending bits of the buffer.\<close>

definition written :: "utilLZWContext \<Rightarrow> bool list" where
  "written ctx = stream_bits (take (lzc_streamPos ctx) (lzc_stream ctx)) @ to_bits (lzc_n ctx) (lzc_buf ctx)"

definition writing :: "nat \<Rightarrow> bool list \<Rightarrow> utilLZWContext \<Rightarrow> bool" where
  "writing cap bs ctx \<longleftrightarrow> lzc_n ctx < 8 \<and> lzc_streamPos ctx \<le> length (lzc_stream ctx) \<and>
     length (lzc_stream ctx) = cap \<and> written ctx = bs"

lemma writing_length:
  assumes "writing cap bs ctx"
  shows "length bs = 8 * lzc_streamPos ctx + lzc_n ctx"
  using assms by (auto simp: writing_def written_def)

lemma writing_pos:
  assumes "writing cap bs ctx"
  shows "lzc_streamPos ctx = length bs div 8" and "lzc_n ctx = length bs mod 8"
  using writing_length [OF assms] assms by (simp_all add: writing_def)

lemma writeByte_ok:
  assumes "lzc_streamPos ctx < length (lzc_stream ctx)"
  shows "writeByte ch ctx = Some (ctx\<lparr>lzc_stream := (lzc_stream ctx)[lzc_streamPos ctx := ch],
           lzc_streamPos := lzc_streamPos ctx + 1\<rparr>)"
  using assms by (simp add: writeByte_def aset_def)

lemma drain_bits_ok:
  assumes "t \<le> 32" "8 * lzc_streamPos ctx + t < 8 * length (lzc_stream ctx) + 8"
    and "lzc_streamPos ctx \<le> length (lzc_stream ctx)"
  shows "\<exists>ctx'. drain_bits t ctx = Some ctx' \<and>
           writing (length (lzc_stream ctx))
             (stream_bits (take (lzc_streamPos ctx) (lzc_stream ctx)) @ to_bits t (lzc_buf ctx)) ctx'"
  using assms
proof (induction t arbitrary: ctx rule: less_induct)
  case (less t)
  show ?case
  proof (cases "8 \<le> t")
    case False
    then show ?thesis using less.prems
      by (simp add: drain_bits.simps [of t] writing_def written_def)
  next
    case True
    define ch :: byte where "ch = ucast (drop_bit (t - 8) (lzc_buf ctx))"
    define c where "c = ctx\<lparr>lzc_stream := (lzc_stream ctx)[lzc_streamPos ctx := ch],
           lzc_streamPos := lzc_streamPos ctx + 1\<rparr>"
    have pos: "lzc_streamPos ctx < length (lzc_stream ctx)" using less.prems(2) True by simp
    have step: "drain_bits t ctx = drain_bits (t - 8) c"
      using True by (simp add: drain_bits.simps [of t] writeByte_ok [OF pos] c_def ch_def)
    have bits: "to_bits t (lzc_buf ctx) = to_bits 8 ch @ to_bits (t - 8) (lzc_buf ctx)"
      using to_bits_drop [of 8 "t - 8" "lzc_buf ctx"] True
      by (simp add: ch_def to_bits_ucast_byte)
    have "\<exists>ctx'. drain_bits (t - 8) c = Some ctx' \<and>
           writing (length (lzc_stream c))
             (stream_bits (take (lzc_streamPos c) (lzc_stream c)) @ to_bits (t - 8) (lzc_buf c)) ctx'"
      by (rule less.IH) (use True less.prems in \<open>auto simp: c_def\<close>)
    moreover have "take (lzc_streamPos c) (lzc_stream c) = take (lzc_streamPos ctx) (lzc_stream ctx) @ [ch]"
      using pos by (simp add: c_def take_Suc_conv_app_nth)
    ultimately show ?thesis unfolding step bits by (simp add: c_def)
  qed
qed

lemma writeBits_ok:
  assumes "writing cap bs ctx" and "bitNum \<le> 24" and "length bs + bitNum < 8 * cap + 8"
  shows "\<exists>ctx'. writeBits bits bitNum ctx = Some ctx' \<and> writing cap (bs @ to_bits bitNum bits) ctx'"
proof -
  define c where "c = ctx\<lparr>lzc_buf := push_bit bitNum (lzc_buf ctx) OR (bits AND low_mask bitNum)\<rparr>"
  have "\<exists>ctx'. drain_bits (lzc_n ctx + bitNum) c = Some ctx' \<and>
           writing (length (lzc_stream c))
             (stream_bits (take (lzc_streamPos c) (lzc_stream c)) @ to_bits (lzc_n ctx + bitNum) (lzc_buf c)) ctx'"
    by (rule drain_bits_ok) (use assms writing_length [OF assms(1)] in \<open>auto simp: c_def writing_def\<close>)
  moreover have "to_bits (lzc_n ctx + bitNum) (lzc_buf c) = to_bits (lzc_n ctx) (lzc_buf ctx) @ to_bits bitNum bits"
    unfolding c_def using assms by (simp add: to_bits_push_or writing_def)
  moreover have "bs = stream_bits (take (lzc_streamPos ctx) (lzc_stream ctx)) @ to_bits (lzc_n ctx) (lzc_buf ctx)"
    and "cap = length (lzc_stream ctx)" using assms(1) by (simp_all add: writing_def written_def)
  moreover have "writeBits bits bitNum ctx = drain_bits (lzc_n ctx + bitNum) c"
    by (simp add: writeBits_def c_def add.commute)
  ultimately show ?thesis by (simp add: c_def)
qed

lemma flushBits_ok:
  assumes "writing cap bs ctx" and "length bs \<le> 8 * cap"
  shows "\<exists>ctx' pad. flushBits ctx = Some ctx' \<and> writing cap (bs @ pad) ctx' \<and> length pad < 8 \<and>
           lzc_n ctx' = 0"
proof (cases "lzc_n ctx = 0")
  case True
  then show ?thesis using assms
    by (intro exI [of _ ctx] exI [of _ "[]"]) (simp add: flushBits_def)
next
  case False
  let ?k = "8 - lzc_n ctx"
  have len: "length bs = 8 * lzc_streamPos ctx + lzc_n ctx" "lzc_n ctx < 8"
    using writing_length [OF assms(1)] assms(1) by (auto simp: writing_def)
  obtain ctx' where c: "writeBits 0 ?k ctx = Some ctx'" "writing cap (bs @ to_bits ?k (0 :: 32 word)) ctx'"
    using writeBits_ok [OF assms(1), of ?k 0] assms(2) False len by force
  have "lzc_n ctx' = 0" using writing_pos(2) [OF c(2)] len by simp
  with c False show ?thesis
    by (intro exI [of _ ctx'] exI [of _ "to_bits ?k (0 :: 32 word)"]) (simp add: flushBits_def)
qed

text \<open>The bytes of a stream whose buffer is empty.\<close>

lemma writing_flushed:
  assumes "writing cap bs ctx" and "lzc_n ctx = 0"
  shows "stream_bits (take (lzc_streamPos ctx) (lzc_stream ctx)) = bs"
  using assms by (simp add: writing_def written_def)

section \<open>Reading\<close>

definition unread :: "utilLZWContext \<Rightarrow> bool list" where
  "unread ctx = to_bits (lzc_n ctx) (lzc_buf ctx) @ stream_bits (drop (lzc_streamPos ctx) (lzc_stream ctx))"

definition reading :: "byte list \<Rightarrow> bool list \<Rightarrow> utilLZWContext \<Rightarrow> bool" where
  "reading src bs ctx \<longleftrightarrow> lzc_n ctx < 8 \<and> lzc_streamPos ctx \<le> length src \<and>
     lzc_stream ctx = src \<and> unread ctx = bs"

lemma reading_length:
  assumes "reading src bs ctx"
  shows "length bs = lzc_n ctx + 8 * (length src - lzc_streamPos ctx)"
  using assms by (auto simp: reading_def unread_def)

lemma fetch_byte_ok:
  assumes "lzc_n ctx < length (unread ctx)" and "lzc_n ctx \<le> 24"
    and "lzc_streamPos ctx \<le> length (lzc_stream ctx)"
  shows "\<exists>ctx'. fetch_byte ctx = Some ctx' \<and> unread ctx' = unread ctx \<and> lzc_n ctx' = lzc_n ctx + 8 \<and>
           lzc_stream ctx' = lzc_stream ctx \<and> lzc_streamLen ctx' = lzc_streamLen ctx \<and>
           lzc_streamPos ctx' \<le> length (lzc_stream ctx)"
proof -
  have pos: "lzc_streamPos ctx < length (lzc_stream ctx)"
    using assms(1,3) by (auto simp: unread_def)
  let ?ch = "lzc_stream ctx ! lzc_streamPos ctx"
  have m: "ucast ?ch = ((ucast ?ch :: 32 word) AND low_mask 8)"
    by (rule bit_word_eqI) (auto simp: bit_simps low_mask_eq dest: bit_imp_le_length)
  have "to_bits (lzc_n ctx + 8) (push_bit 8 (lzc_buf ctx) OR ucast ?ch) =
      to_bits (lzc_n ctx) (lzc_buf ctx) @ to_bits 8 ?ch"
    by (subst m, subst to_bits_push_or) (use assms in \<open>simp_all add: to_bits_of_byte\<close>)
  then show ?thesis using pos
    by (simp add: fetch_byte_def readByte_def aref_def unread_def Cons_nth_drop_Suc [symmetric])
qed


lemma fetch_bits_ok:
  assumes "codeSize \<le> length (unread ctx)" and "codeSize \<le> 24" and "lzc_n ctx < codeSize + 8"
    and "lzc_streamPos ctx \<le> length (lzc_stream ctx)"
  shows "\<exists>ctx'. fetch_bits codeSize ctx = Some ctx' \<and> unread ctx' = unread ctx \<and>
           codeSize \<le> lzc_n ctx' \<and> lzc_n ctx' < codeSize + 8 \<and>
           lzc_stream ctx' = lzc_stream ctx \<and> lzc_streamLen ctx' = lzc_streamLen ctx \<and>
           lzc_streamPos ctx' \<le> length (lzc_stream ctx)"
  using assms
proof (induction "codeSize - lzc_n ctx" arbitrary: ctx rule: less_induct)
  case less
  show ?case
  proof (cases "lzc_n ctx < codeSize")
    case False
    then show ?thesis using less.prems by (simp add: fetch_bits.simps)
  next
    case True
    then obtain c where c: "fetch_byte ctx = Some c" "unread c = unread ctx" "lzc_n c = lzc_n ctx + 8"
        "lzc_stream c = lzc_stream ctx" "lzc_streamLen c = lzc_streamLen ctx"
        "lzc_streamPos c \<le> length (lzc_stream c)"
      using fetch_byte_ok [of ctx] less.prems by auto
    have "fetch_bits codeSize ctx = fetch_bits codeSize c"
      using True c(1) by (simp add: fetch_bits.simps [of _ ctx])
    with less.hyps [of c] c True less.prems show ?thesis by simp
  qed
qed

lemma take_bits_ok:
  assumes "codeSize \<le> lzc_n ctx" and "lzc_n ctx \<le> 32" and "take_bits codeSize ctx = (bits, ctx')"
  shows "to_bits codeSize bits @ unread ctx' = unread ctx" and "bits AND mask codeSize = bits"
    and "ctx' = ctx\<lparr>lzc_n := lzc_n ctx - codeSize\<rparr>"
proof -
  have n: "u32_sub (lzc_n ctx) codeSize = lzc_n ctx - codeSize"
    using assms by (intro u32_sub_id) auto
  have b: "bits = drop_bit (lzc_n ctx - codeSize) (lzc_buf ctx) AND mask codeSize"
    and c: "ctx' = ctx\<lparr>lzc_n := lzc_n ctx - codeSize\<rparr>"
    using assms(3) by (auto simp: take_bits_def n low_mask_eq Let_def)
  have "to_bits codeSize bits = to_bits codeSize (drop_bit (lzc_n ctx - codeSize) (lzc_buf ctx))"
    unfolding b by (intro to_bits_cong) (use assms in \<open>auto simp: bit_simps\<close>)
  then show "to_bits codeSize bits @ unread ctx' = unread ctx"
    using to_bits_drop [of codeSize "lzc_n ctx - codeSize" "lzc_buf ctx"] assms
    by (simp add: c unread_def)
  show "bits AND mask codeSize = bits" unfolding b by (simp add: and.assoc)
  show "ctx' = ctx\<lparr>lzc_n := lzc_n ctx - codeSize\<rparr>" by (rule c)
qed

text \<open>Fetching and taking \<open>codeSize\<close> bits reads the code that was written with them.\<close>

lemma fetch_take_ok:
  assumes "lzc_stream ctx = src" and "lzc_streamPos ctx \<le> length src" and "lzc_n ctx < 8"
    and "unread ctx = to_bits codeSize (word_of_nat code :: 32 word) @ bs"
    and "code < 2 ^ codeSize" and "codeSize \<le> 24"
  shows "\<exists>ctx1 bits ctx'. fetch_bits codeSize ctx = Some ctx1 \<and> take_bits codeSize ctx1 = (bits, ctx') \<and>
           unat bits = code \<and> reading src bs ctx' \<and> lzc_streamLen ctx' = lzc_streamLen ctx"
proof -
  obtain c where c: "fetch_bits codeSize ctx = Some c" "unread c = unread ctx"
      "codeSize \<le> lzc_n c" "lzc_n c < codeSize + 8" "lzc_stream c = src"
      "lzc_streamLen c = lzc_streamLen ctx" "lzc_streamPos c \<le> length src"
    using fetch_bits_ok [of codeSize ctx] assms by auto
  obtain bits ctx' where t: "take_bits codeSize c = (bits, ctx')" by fastforce
  note ok = take_bits_ok [OF c(3) _ t]
  have le: "lzc_n c \<le> 32" using c(4) assms(6) by simp
  have eq: "to_bits codeSize bits = to_bits codeSize (word_of_nat code :: 32 word)" "unread ctx' = bs"
    using ok(1) [OF le] c(2) assms(4) by (auto simp: append_eq_append_conv)
  have "bits = word_of_nat code AND mask codeSize"
    using to_bits_inj [OF eq(1)] ok(2) [OF le] assms(6) by simp
  also have "\<dots> = word_of_nat code"
    using assms(5,6) by (simp flip: take_bit_eq_mask add: take_bit_of_nat take_bit_nat_eq_self)
  finally have "unat bits = code"
    using assms(5,6) power_increasing [of codeSize 24 "2::nat"]
    by (simp add: unat_of_nat take_bit_nat_eq_self)
  moreover have "reading src bs ctx'"
    using ok(3) [OF le] eq(2) c by (auto simp: reading_def)
  ultimately show ?thesis using c t ok(3) [OF le] by auto
qed

lemma readCode_ok:
  assumes "reading src (to_bits (lzh_codeSize h) (word_of_nat code :: 32 word) @ bs) ctx"
    and "code < 2 ^ lzh_codeSize h" and "lzh_codeSize h \<le> 24"
  shows "\<exists>ctx'. readCode h ctx = Some (code, ctx') \<and> reading src bs ctx' \<and>
           lzc_streamLen ctx' = lzc_streamLen ctx"
  using fetch_take_ok [of ctx src "lzh_codeSize h" code bs] assms
  by (auto simp: reading_def readCode_def)

section \<open>Codes of variable length\<close>

lemma varLen_search_found:
  assumes "varLen_search code ss i out = (j, s)" and "\<exists>s \<in> set ss. code < DICT_BITS_UPBOUND s"
  shows "i \<le> j \<and> j < i + length ss \<and> ss ! (j - i) = s \<and> code < DICT_BITS_UPBOUND s"
  using assms
proof (induction code ss i out rule: varLen_search.induct)
  case (2 code s' ss i out)
  show ?case
  proof (cases "code < DICT_BITS_UPBOUND s'")
    case False
    with 2 have "Suc i \<le> j \<and> j < Suc i + length ss \<and> ss ! (j - Suc i) = s \<and> code < DICT_BITS_UPBOUND s"
      by auto
    then show ?thesis by (auto simp: nth_Cons')
  qed (use 2 in auto)
qed simp

text \<open>A head as finalizing a dictionary leaves it.\<close>

definition head_ok :: "utilLZWDictHead \<Rightarrow> bool" where
  "head_ok h \<longleftrightarrow> 8 \<le> lzh_codeSize h \<and> lzh_codeSize h \<le> 18 \<and>
     lzh_maxValidCode h < 2 ^ lzh_codeSize h \<and> lzh_varLenFlagSize h = UTIL_VAR_LEN_FLAG_SIZE \<and>
     lzh_splitInfo h =
       [lzh_codeSize h - 7, lzh_codeSize h - 5, lzh_codeSize h - 3, lzh_codeSize h]"

text \<open>The bits of a code in the format with a length flag.\<close>

definition varLen_bits :: "utilLZWDictHead \<Rightarrow> nat \<Rightarrow> bool list" where
  "varLen_bits h code =
     (let (i, s) = getVarLenInfo h code (0, 0) in
      to_bits 2 (word_of_nat i :: 32 word) @ to_bits s (word_of_nat code :: 32 word))"

lemma getVarLenInfo_ok:
  assumes "head_ok h" and "code < 2 ^ lzh_codeSize h - 1" and "getVarLenInfo h code out = (i, s)"
  shows "i < 4" and "getVarLenSize h i = Some s" and "code < 2 ^ s" and "s \<le> 18"
    and "lzh_codeSize h - 7 \<le> s" and "s \<le> lzh_codeSize h"
proof -
  have f: "i < length (lzh_splitInfo h) \<and> lzh_splitInfo h ! i = s \<and> code < DICT_BITS_UPBOUND s"
    using varLen_search_found [of code "take UTIL_MAX_DICT_SPLIT_NUM (lzh_splitInfo h)" 0 out i s] assms
    by (auto simp: getVarLenInfo_def head_ok_def DICT_BITS_UPBOUND_def UTIL_MAX_DICT_SPLIT_NUM_def)
  then show "i < 4" using assms(1) by (simp add: head_ok_def)
  show "getVarLenSize h i = Some s" using f by (simp add: getVarLenSize_def aref_def)
  show "code < 2 ^ s" using f by (auto simp: DICT_BITS_UPBOUND_def)
  have "s \<in> set (lzh_splitInfo h)" using f nth_mem by blast
  then show "s \<le> 18" and "lzh_codeSize h - 7 \<le> s" and "s \<le> lzh_codeSize h"
    using assms(1) by (auto simp: head_ok_def)
qed


lemma writeVarLenCode_ok:
  assumes "head_ok h" and "writing cap bs ctx" and "code < 2 ^ lzh_codeSize h - 1"
    and "length bs + length (varLen_bits h code) < 8 * cap + 8"
  shows "\<exists>ctx'. writeVarLenCode h code ctx = Some (snd (getVarLenInfo h code (0, 0)), ctx') \<and>
           writing cap (bs @ varLen_bits h code) ctx'"
proof -
  obtain i s where g: "getVarLenInfo h code (0, 0) = (i, s)" by fastforce
  note ok = getVarLenInfo_ok [OF assms(1,3) g]
  have vb: "varLen_bits h code = to_bits 2 (word_of_nat i :: 32 word) @ to_bits s (word_of_nat code :: 32 word)"
    by (simp add: varLen_bits_def g)
  have fl: "lzh_varLenFlagSize h = 2" using assms(1) by (simp add: head_ok_def UTIL_VAR_LEN_FLAG_SIZE_def)
  define w :: "32 word" where "w = push_bit s (word_of_nat i) OR (word_of_nat code AND low_mask s)"
  have wm: "w AND low_mask (s + 2) = w"
  proof (rule bit_word_eqI)
    fix n assume "n < LENGTH(32)"
    moreover have "bit (word_of_nat i :: 32 word) m \<Longrightarrow> m < 2" for m
      using ok(1) bit_take_bit_iff [of 2 "word_of_nat i :: 32 word" m]
      by (simp add: take_bit_of_nat take_bit_nat_eq_self)
    ultimately show "bit (w AND low_mask (s + 2)) n = bit w n"
      by (fastforce simp: w_def low_mask_eq bit_simps)
  qed
  have buf: "push_bit (s + 2) (lzc_buf ctx) OR push_bit s (word_of_nat i) OR (word_of_nat code AND low_mask s) =
     push_bit (s + 2) (lzc_buf ctx) OR (w AND low_mask (s + 2))"
    unfolding wm by (simp add: w_def or.assoc)
  have "writeBitsExt h (word_of_nat code) s i ctx = writeBits w (s + 2) ctx"
    unfolding writeBitsExt_def writeBits_def fl buf Let_def by (simp only: add.commute add.left_commute)
  moreover have "to_bits (s + 2) w = varLen_bits h code"
    using to_bits_push_or [of 2 s "word_of_nat i" "word_of_nat code"] ok(4)
    by (simp add: vb w_def add.commute)
  moreover have "\<exists>ctx'. writeBits w (s + 2) ctx = Some ctx' \<and> writing cap (bs @ to_bits (s + 2) w) ctx'"
    by (rule writeBits_ok [OF assms(2)]) (use assms(4) ok(4) in \<open>simp_all add: vb\<close>)
  ultimately show ?thesis by (auto simp: writeVarLenCode_def g)
qed

lemma readVarLenCode_ok:
  assumes "head_ok h" and "reading src (varLen_bits h code @ bs) ctx" and "code < 2 ^ lzh_codeSize h - 1"
  shows "\<exists>ctx'. readVarLenCode h ctx = Some (code, ctx') \<and> reading src bs ctx' \<and>
           lzc_streamLen ctx' = lzc_streamLen ctx"
proof -
  obtain i s where g: "getVarLenInfo h code (0, 0) = (i, s)" by fastforce
  note ok = getVarLenInfo_ok [OF assms(1,3) g]
  have fl: "lzh_varLenFlagSize h = 2" using assms(1) by (simp add: head_ok_def UTIL_VAR_LEN_FLAG_SIZE_def)
  have un: "unread ctx = to_bits 2 (word_of_nat i :: 32 word) @ to_bits s (word_of_nat code :: 32 word) @ bs"
    using assms(2) by (simp add: reading_def varLen_bits_def g)
  have flag: "(if lzc_n ctx < 2 then fetch_byte ctx else Some ctx) = fetch_bits 2 ctx"
  proof (cases "lzc_n ctx < 2")
    case True
    then obtain c where "fetch_byte ctx = Some c" "lzc_n c = lzc_n ctx + 8"
      using fetch_byte_ok [of ctx] assms(2) un by (auto simp: reading_def)
    then show ?thesis by (simp add: fetch_bits.simps [of 2 ctx] fetch_bits.simps [of 2 c])
  qed (simp add: fetch_bits.simps)
  obtain c1 b c2 where a: "fetch_bits 2 ctx = Some c1" "take_bits 2 c1 = (b, c2)" "unat b = i"
      "reading src (to_bits s (word_of_nat code :: 32 word) @ bs) c2" "lzc_streamLen c2 = lzc_streamLen ctx"
    using fetch_take_ok [of ctx src 2 i "to_bits s (word_of_nat code :: 32 word) @ bs"] assms(2) un ok(1)
    by (auto simp: reading_def)
  then show ?thesis
    using fetch_take_ok [of c2 src s code bs] ok
    by (auto simp: reading_def readVarLenCode_def fl flag)
qed

text \<open>
  The largest code of \<open>codeSize\<close> bits fits none of the four sizes, because the bound of a size
  excludes it: nothing but an empty flag is written for it.
\<close>

lemma varLen_top_code:
  assumes "head_ok h"
  shows "getVarLenInfo h (2 ^ lzh_codeSize h - 1) out = out"
proof -
  have "(2::nat) ^ (lzh_codeSize h - k) \<le> 2 ^ lzh_codeSize h" for k by (simp add: power_increasing)
  then show ?thesis using assms
    by (simp add: head_ok_def getVarLenInfo_def UTIL_MAX_DICT_SPLIT_NUM_def DICT_BITS_UPBOUND_def
        leD diff_le_mono)
qed

end
