(* ===== verification/LzwDictionary.thy ===== *)
theory LzwDictionary
  imports LzwBits
begin

text \<open>
  A finished LZW dictionary as it is stored with a collection: the head, the compression string
  table (CST), the map from its indexes to codes, the decompression string table (DST) and the
  string area, with the item macros and the two lookups \<^verbatim>\<open>findStrExt\<close> and
  \<^verbatim>\<open>getStrExt\<close> of \<^verbatim>\<open>utilLZWDictionary.hpp\<close>.

  \<open>dict_ok\<close> says that a function gives the string of every CST index: the children of an index
  extend its string by their character, and the DST item of its code spells it. The lemmas show
  that the two lookups then agree.
\<close>

section \<open>Items\<close>

definition CST_VALID_CODE_FLAG :: "32 word" where
  "CST_VALID_CODE_FLAG = 0x80000000"

definition CST_INVALID_CHILD :: nat where
  "CST_INVALID_CHILD = 0x007FFFFF"

definition CST_GET_CHILD :: "32 word \<Rightarrow> nat" where
  "CST_GET_CHILD item = unat (drop_bit 8 (item AND NOT CST_VALID_CODE_FLAG))"

definition CST_SET_CHILD :: "32 word \<Rightarrow> nat \<Rightarrow> 32 word" where
  "CST_SET_CHILD item child = (item AND 0x800000FF) OR push_bit 8 (word_of_nat child)"

definition CST_GET_CHAR :: "32 word \<Rightarrow> byte" where
  "CST_GET_CHAR item = ucast (item AND 0x000000FF)"

definition CST_SET_CHAR :: "32 word \<Rightarrow> byte \<Rightarrow> 32 word" where
  "CST_SET_CHAR item ch = (item AND 0xFFFFFF00) OR ucast ch"

definition DST_MAX_LOCAL_LEN :: nat where
  "DST_MAX_LOCAL_LEN = 3"

definition DST_REMOTE_FLAG :: "32 word" where
  "DST_REMOTE_FLAG = 0x80000000"

definition DST_LINK_FLAG :: "32 word" where
  "DST_LINK_FLAG = 0x40000000"

definition DST_LOCAL_LEN_MASK :: "32 word" where
  "DST_LOCAL_LEN_MASK = 0x60000000"

definition DST_REMOTE_LEN_MASK :: "32 word" where
  "DST_REMOTE_LEN_MASK = 0x000000FF"

definition DST_REMOTE_POS_MASK :: "32 word" where
  "DST_REMOTE_POS_MASK = 0x0fffff00"

definition DST_IS_REMOTE :: "32 word \<Rightarrow> bool" where
  "DST_IS_REMOTE item \<longleftrightarrow> item AND DST_REMOTE_FLAG \<noteq> 0"

definition DST_IS_LINK :: "32 word \<Rightarrow> bool" where
  "DST_IS_LINK item \<longleftrightarrow> item AND DST_LINK_FLAG \<noteq> 0"

definition DST_SET_REMOTE_FLAG :: "32 word \<Rightarrow> 32 word" where
  "DST_SET_REMOTE_FLAG item = item OR DST_REMOTE_FLAG"

definition DST_SET_LINK_FLAG :: "32 word \<Rightarrow> 32 word" where
  "DST_SET_LINK_FLAG item = item OR DST_LINK_FLAG"

definition DST_SET_LOCAL_LEN :: "32 word \<Rightarrow> nat \<Rightarrow> 32 word" where
  "DST_SET_LOCAL_LEN item len = item OR push_bit 29 (word_of_nat len)"

definition DST_GET_LOCAL_LEN :: "32 word \<Rightarrow> nat" where
  "DST_GET_LOCAL_LEN item = unat (drop_bit 29 (item AND DST_LOCAL_LEN_MASK))"

definition local_value :: "byte list \<Rightarrow> 32 word" where
  "local_value str = foldl (\<lambda>value c. push_bit 8 value OR ucast c) 0 str"

definition DST_SET_LOCAL_STR :: "32 word \<Rightarrow> byte list \<Rightarrow> 32 word" where
  "DST_SET_LOCAL_STR item str = (item AND push_bit (8 * length str) 0xffffffff) OR local_value str"

fun local_bytes :: "nat \<Rightarrow> 32 word \<Rightarrow> byte list" where
  "local_bytes 0 value = []"
| "local_bytes (Suc n) value = local_bytes n (drop_bit 8 value) @ [ucast (value AND 0x000000ff)]"

definition DST_GET_LOCAL_STR :: "32 word \<Rightarrow> byte list" where
  "DST_GET_LOCAL_STR item =
     (let len = DST_GET_LOCAL_LEN item in
      local_bytes len (item AND NOT (push_bit (8 * len) 0xffffffff)))"

definition DST_SET_REMOTE_POS :: "32 word \<Rightarrow> nat \<Rightarrow> 32 word" where
  "DST_SET_REMOTE_POS item pos = (item AND NOT DST_REMOTE_POS_MASK) OR push_bit 8 (word_of_nat pos)"

definition DST_SET_REMOTE_LEN :: "32 word \<Rightarrow> nat \<Rightarrow> 32 word" where
  "DST_SET_REMOTE_LEN item len = (item AND NOT DST_REMOTE_LEN_MASK) OR word_of_nat len"

definition DST_GET_REMOTE_POS :: "32 word \<Rightarrow> nat" where
  "DST_GET_REMOTE_POS item = unat (drop_bit 8 (item AND DST_REMOTE_POS_MASK))"

definition DST_GET_REMOTE_LEN :: "32 word \<Rightarrow> nat" where
  "DST_GET_REMOTE_LEN item = unat (item AND DST_REMOTE_LEN_MASK)"

section \<open>The dictionary and its lookups\<close>

record utilLZWDictionary =
  lzd_head :: utilLZWDictHead
  lzd_cst :: "32 word list"
  lzd_codeMap :: "nat list"
  lzd_dst :: "32 word list"
  lzd_strArea :: "byte list"

definition getMaxValidCode :: "utilLZWDictionary \<Rightarrow> nat" where
  "getMaxValidCode d = lzh_maxValidCode (lzd_head d)"

partial_function (option) cstBinSearch ::
  "utilLZWDictionary \<Rightarrow> nat \<Rightarrow> nat \<Rightarrow> byte \<Rightarrow> nat option" where
  "cstBinSearch d low high ch =
     (if low \<le> high then
        (let mid = u32 (low + high) div 2 in do {
           item \<leftarrow> aref (lzd_cst d) mid;
           let currCh = CST_GET_CHAR item;
           if currCh = ch then Some mid
           else if currCh < ch then cstBinSearch d (mid + 1) high ch
           else cstBinSearch d low (u32_sub mid 1) ch
         })
      else Some CST_INVALID_CHILD)"

declare cstBinSearch.simps [code]

text \<open>The end of the children of an index: the first child of a later index, less one.\<close>

partial_function (option) cst_high :: "utilLZWDictionary \<Rightarrow> nat \<Rightarrow> nat \<Rightarrow> nat option" where
  "cst_high d currIdx i =
     (if currIdx + i < getMaxValidCode d then do {
        item \<leftarrow> aref (lzd_cst d) (currIdx + i);
        if CST_GET_CHILD item = CST_INVALID_CHILD then cst_high d currIdx (i + 1)
        else Some (u32_sub (CST_GET_CHILD item) 1)
      } else Some (getMaxValidCode d))"

declare cst_high.simps [code]

partial_function (option) find_loop ::
  "utilLZWDictionary \<Rightarrow> byte list \<Rightarrow> nat \<Rightarrow> nat \<Rightarrow> nat \<Rightarrow> nat \<Rightarrow> (nat \<times> nat) option" where
  "find_loop d str len currIdx curPos matchLen =
     (if currIdx < u32_sub (getMaxValidCode d) 1 \<and> curPos < len then do {
        item \<leftarrow> aref (lzd_cst d) currIdx;
        let low = CST_GET_CHILD item;
        if low = CST_INVALID_CHILD then Some (currIdx, matchLen)
        else do {
          high \<leftarrow> cst_high d currIdx 1;
          ch \<leftarrow> aref str curPos;
          nextIdx \<leftarrow> cstBinSearch d low high ch;
          if nextIdx = CST_INVALID_CHILD then Some (currIdx, matchLen)
          else find_loop d str len nextIdx (curPos + 1) (matchLen + 1)
        }
      } else Some (currIdx, matchLen))"

declare find_loop.simps [code]

text \<open>The code of the match and the length of the match.\<close>

definition findStrExt :: "utilLZWDictionary \<Rightarrow> byte list \<Rightarrow> nat \<Rightarrow> (nat \<times> nat) option" where
  "findStrExt d str len = do {
     c \<leftarrow> aref str 0;
     (currIdx, matchLen) \<leftarrow> find_loop d str len (unat c) 1 1;
     code \<leftarrow> aref (lzd_codeMap d) currIdx;
     Some (code, matchLen)
   }"

text \<open>The code in the first three bytes of a linked string.\<close>

definition link_code :: "byte list \<Rightarrow> nat" where
  "link_code bs = unat (push_bit 16 (ucast (bs ! 0) :: 32 word) OR push_bit 8 (ucast (bs ! 1)) OR ucast (bs ! 2))"

partial_function (option) remote_loop ::
  "utilLZWDictionary \<Rightarrow> nat \<Rightarrow> nat \<Rightarrow> byte list \<Rightarrow> nat \<Rightarrow> (nat \<times> byte list) option" where
  "remote_loop d offset len tmpBuff pos = do {
     let pos = u32 (u32_sub pos len + 3);
     part \<leftarrow> mem_read (lzd_strArea d) (offset + 3) (u32_sub len 3);
     tmpBuff \<leftarrow> mem_write tmpBuff pos part;
     pre \<leftarrow> mem_read (lzd_strArea d) offset 3;
     item \<leftarrow> aref (lzd_dst d) (link_code pre);
     let offset = DST_GET_REMOTE_POS item;
     let len = DST_GET_REMOTE_LEN item;
     if \<not> DST_IS_LINK item then do {
       let pos = u32_sub pos len;
       part \<leftarrow> mem_read (lzd_strArea d) offset len;
       tmpBuff \<leftarrow> mem_write tmpBuff pos part;
       Some (pos, tmpBuff)
     } else remote_loop d offset len tmpBuff pos
   }"

declare remote_loop.simps [code]

definition dstGetRemoteStr ::
  "utilLZWDictionary \<Rightarrow> 32 word \<Rightarrow> byte list \<Rightarrow> nat \<Rightarrow> (nat \<times> byte list) option" where
  "dstGetRemoteStr d item buff at =
     (let offset = DST_GET_REMOTE_POS item; len = DST_GET_REMOTE_LEN item in
      if \<not> DST_IS_LINK item then do {
        str \<leftarrow> mem_read (lzd_strArea d) offset len;
        buff \<leftarrow> mem_write buff at str;
        Some (len, buff)
      } else do {
        (pos, tmpBuff) \<leftarrow> remote_loop d offset len (replicate 256 0) 256;
        str \<leftarrow> mem_read tmpBuff pos (256 - pos);
        buff \<leftarrow> mem_write buff at str;
        Some (256 - pos, buff)
      })"

text \<open>The length of the string, and the buffer with the string at position \<open>at\<close>.\<close>

definition getStrExt ::
  "utilLZWDictionary \<Rightarrow> nat \<Rightarrow> byte list \<Rightarrow> nat \<Rightarrow> (nat \<times> byte list) option" where
  "getStrExt d code buff at = do {
     item \<leftarrow> aref (lzd_dst d) code;
     if DST_IS_REMOTE item then dstGetRemoteStr d item buff at
     else do {
       buff \<leftarrow> mem_write buff at (DST_GET_LOCAL_STR item);
       Some (DST_GET_LOCAL_LEN item, buff)
     }
   }"

section \<open>What the decompression string table spells\<close>

inductive dst_str :: "utilLZWDictionary \<Rightarrow> nat \<Rightarrow> byte list \<Rightarrow> bool" for d where
  dst_local: "code < length (lzd_dst d) \<Longrightarrow> \<not> DST_IS_REMOTE (lzd_dst d ! code) \<Longrightarrow>
     dst_str d code (DST_GET_LOCAL_STR (lzd_dst d ! code))"
| dst_plain: "code < length (lzd_dst d) \<Longrightarrow> DST_IS_REMOTE (lzd_dst d ! code) \<Longrightarrow>
     \<not> DST_IS_LINK (lzd_dst d ! code) \<Longrightarrow>
     mem_read (lzd_strArea d) (DST_GET_REMOTE_POS (lzd_dst d ! code)) (DST_GET_REMOTE_LEN (lzd_dst d ! code)) = Some s \<Longrightarrow>
     dst_str d code s"
| dst_link: "code < length (lzd_dst d) \<Longrightarrow> DST_IS_REMOTE (lzd_dst d ! code) \<Longrightarrow>
     DST_IS_LINK (lzd_dst d ! code) \<Longrightarrow>
     mem_read (lzd_strArea d) (DST_GET_REMOTE_POS (lzd_dst d ! code)) (DST_GET_REMOTE_LEN (lzd_dst d ! code)) = Some (pre @ t) \<Longrightarrow>
     length pre = 3 \<Longrightarrow> dst_str d (link_code pre) s \<Longrightarrow> DST_IS_REMOTE (lzd_dst d ! link_code pre) \<Longrightarrow>
     dst_str d code (s @ t)"

lemma length_local_bytes [simp]: "length (local_bytes n v) = n"
  by (induction n v rule: local_bytes.induct) auto

lemma length_DST_GET_LOCAL_STR [simp]: "length (DST_GET_LOCAL_STR item) = DST_GET_LOCAL_LEN item"
  by (simp add: DST_GET_LOCAL_STR_def Let_def)

lemma mem_read_app:
  assumes "mem_read xs pos n = Some (ys @ zs)"
  shows "mem_read xs pos (length ys) = Some ys" and "mem_read xs (pos + length ys) (n - length ys) = Some zs"
    and "n = length ys + length zs"
proof -
  have l: "pos + n \<le> length xs" and e: "take n (drop pos xs) = ys @ zs"
    using assms by (auto simp: mem_read_def split: if_splits)
  have n: "n = length ys + length zs" using arg_cong [OF e, of length] l by simp
  show "n = length ys + length zs" by (rule n)
  have "take (length ys) (drop pos xs) = take (length ys) (take n (drop pos xs))" by (simp add: n)
  then show "mem_read xs pos (length ys) = Some ys" using l n unfolding e by (simp add: mem_read_def)
  show "mem_read xs (pos + length ys) (n - length ys) = Some zs"
    using l n arg_cong [OF e, of "drop (length ys)"] by (simp add: mem_read_def drop_take add.commute)
qed

lemma mem_read_length: "mem_read xs pos n = Some ys \<Longrightarrow> length ys = n"
  by (auto simp: mem_read_def split: if_splits)

lemma mem_write_before:
  assumes "drop pos buf = ys" and "length buf = k" and "length zs \<le> pos" and "pos \<le> k"
  shows "\<exists>buf'. mem_write buf (pos - length zs) zs = Some buf' \<and> drop (pos - length zs) buf' = zs @ ys \<and>
           length buf' = k"
  using assms by (auto simp: mem_write_def)

text \<open>The loop that follows the links puts the whole string at the end of the buffer.\<close>

lemma remote_loop_ok:
  assumes "dst_str d code s" and "DST_IS_REMOTE (lzd_dst d ! code)" and "DST_IS_LINK (lzd_dst d ! code)"
    and "drop pos buf = ys" and "length buf = 256" and "length s \<le> pos" and "pos \<le> 256"
  shows "\<exists>buf'. remote_loop d (DST_GET_REMOTE_POS (lzd_dst d ! code)) (DST_GET_REMOTE_LEN (lzd_dst d ! code)) buf pos =
           Some (pos - length s, buf') \<and> drop (pos - length s) buf' = s @ ys \<and> length buf' = 256"
  using assms
proof (induction arbitrary: pos buf ys)
  case (dst_link code pre t s)
  let ?it = "lzd_dst d ! code" and ?jt = "lzd_dst d ! link_code pre"
  note rd = mem_read_app [OF dst_link.hyps(4)]
  have len: "DST_GET_REMOTE_LEN ?it = 3 + length t" using rd(3) dst_link.hyps(5) by simp
  have p: "u32 (u32_sub pos (DST_GET_REMOTE_LEN ?it) + 3) = pos - length t"
  proof -
    have t: "length t \<le> pos" using dst_link.prems(5) by simp
    show ?thesis
    proof (cases "3 + length t \<le> pos")
      case True
      then show ?thesis unfolding len using dst_link.prems(6) by (simp add: u32_sub_id u32_id)
    next
      case False
      then have "u32_sub pos (3 + length t) = pos + 4294967296 - (3 + length t)"
        using t dst_link.prems(6) by (simp add: u32_sub_def)
      then have "u32_sub pos (3 + length t) + 3 = (pos - length t) + 4294967296" using t by simp
      then show ?thesis unfolding len u32_def using dst_link.prems(6) by simp
    qed
  qed
  have l3: "u32_sub (DST_GET_REMOTE_LEN ?it) 3 = length t"
    unfolding len using dst_link.prems(5,6) by (subst u32_sub_id) auto
  obtain b1 where b1: "mem_write buf (pos - length t) t = Some b1" "drop (pos - length t) b1 = t @ ys" "length b1 = 256"
    using mem_write_before [OF dst_link.prems(3,4), of t] dst_link.prems(5,6) by auto
  have code': "link_code pre < length (lzd_dst d)"
    using dst_link.hyps(6) by cases auto
  have r: "mem_read (lzd_strArea d) (DST_GET_REMOTE_POS ?it) 3 = Some pre"
    "mem_read (lzd_strArea d) (DST_GET_REMOTE_POS ?it + 3) (length t) = Some t"
    using rd(1,2) dst_link.hyps(5) by (simp_all add: len)
  have step: "remote_loop d (DST_GET_REMOTE_POS ?it) (DST_GET_REMOTE_LEN ?it) buf pos =
     (if \<not> DST_IS_LINK ?jt then do {
        part \<leftarrow> mem_read (lzd_strArea d) (DST_GET_REMOTE_POS ?jt) (DST_GET_REMOTE_LEN ?jt);
        tmpBuff \<leftarrow> mem_write b1 (u32_sub (pos - length t) (DST_GET_REMOTE_LEN ?jt)) part;
        Some (u32_sub (pos - length t) (DST_GET_REMOTE_LEN ?jt), tmpBuff)
      } else remote_loop d (DST_GET_REMOTE_POS ?jt) (DST_GET_REMOTE_LEN ?jt) b1 (pos - length t))"
    by (subst remote_loop.simps) (simp add: p l3 r b1(1) aref_def code' Let_def)
  show ?case
  proof (cases "DST_IS_LINK ?jt")
    case True
    have "\<exists>buf'. remote_loop d (DST_GET_REMOTE_POS ?jt) (DST_GET_REMOTE_LEN ?jt) b1 (pos - length t) =
           Some (pos - length t - length s, buf') \<and> drop (pos - length t - length s) buf' = s @ t @ ys \<and> length buf' = 256"
      by (rule dst_link.IH [OF dst_link.hyps(7) True b1(2,3)]) (use dst_link.prems in auto)
    then show ?thesis unfolding step using True by (simp add: diff_diff_left add.commute)
  next
    case False
    from dst_link.hyps(6) have s: "mem_read (lzd_strArea d) (DST_GET_REMOTE_POS ?jt) (DST_GET_REMOTE_LEN ?jt) = Some s"
      using False dst_link.hyps(7) by cases auto
    have ls: "DST_GET_REMOTE_LEN ?jt = length s" using mem_read_length [OF s] by simp
    have q: "u32_sub (pos - length t) (length s) = pos - length t - length s"
      using dst_link.prems(5,6) by (subst u32_sub_id) auto
    obtain b2 where b2: "mem_write b1 (pos - length t - length s) s = Some b2"
        "drop (pos - length t - length s) b2 = s @ t @ ys" "length b2 = 256"
      using mem_write_before [OF b1(2,3), of s] dst_link.prems(5,6) by force
    show ?thesis unfolding step using False s b2 by (simp add: ls q diff_diff_left add.commute)
  qed
qed auto


text \<open>The lookup of a code writes the string its item spells.\<close>

lemma getStrExt_ok:
  assumes "dst_str d code s" and "length s \<le> 256" and "at + length s \<le> length buff"
  shows "getStrExt d code buff at =
           Some (length s, take at buff @ s @ drop (at + length s) buff)"
proof -
  have c: "code < length (lzd_dst d)" using assms(1) by cases auto
  have w: "mem_write buff at s = Some (take at buff @ s @ drop (at + length s) buff)"
    using assms(3) by (simp add: mem_write_def)
  show ?thesis
  proof (cases "DST_IS_REMOTE (lzd_dst d ! code)")
    case False
    with assms(1) have "s = DST_GET_LOCAL_STR (lzd_dst d ! code)" by cases auto
    with False c w show ?thesis by (simp add: getStrExt_def aref_def)
  next
    case remote: True
    show ?thesis
    proof (cases "DST_IS_LINK (lzd_dst d ! code)")
      case False
      with assms(1) remote have s: "mem_read (lzd_strArea d) (DST_GET_REMOTE_POS (lzd_dst d ! code))
          (DST_GET_REMOTE_LEN (lzd_dst d ! code)) = Some s" by cases auto
      with False remote c w mem_read_length [OF s] show ?thesis
        by (simp add: getStrExt_def aref_def dstGetRemoteStr_def Let_def)
    next
      case True
      obtain b where b: "remote_loop d (DST_GET_REMOTE_POS (lzd_dst d ! code))
          (DST_GET_REMOTE_LEN (lzd_dst d ! code)) (replicate 256 0) 256 = Some (256 - length s, b)"
          "drop (256 - length s) b = s" "length b = 256"
        using remote_loop_ok [OF assms(1) remote True, of 256 "replicate 256 0" "[]"] assms(2) by auto
      then have "mem_read b (256 - length s) (256 - (256 - length s)) = Some s"
        using assms(2) by (simp add: mem_read_def)
      with b True remote c w assms(2) show ?thesis
        by (simp add: getStrExt_def aref_def dstGetRemoteStr_def Let_def)
    qed
  qed
qed

section \<open>Well-formed dictionaries\<close>

text \<open>The children of an index, as the search delimits them.\<close>

definition cst_children :: "utilLZWDictionary \<Rightarrow> nat \<Rightarrow> nat set" where
  "cst_children d i =
     (if CST_GET_CHILD (lzd_cst d ! i) = CST_INVALID_CHILD then {}
      else {CST_GET_CHILD (lzd_cst d ! i) .. the (cst_high d i 1)})"

definition dict_ok :: "utilLZWDictionary \<Rightarrow> (nat \<Rightarrow> byte list) \<Rightarrow> bool" where
  "dict_ok d str \<longleftrightarrow>
     head_ok (lzd_head d) \<and> 255 \<le> getMaxValidCode d \<and>
     length (lzd_cst d) = getMaxValidCode d + 1 \<and> length (lzd_codeMap d) = getMaxValidCode d + 1 \<and>
     length (lzd_dst d) = getMaxValidCode d + 1 \<and>
     (\<forall>c < 256. str c = [word_of_nat c]) \<and>
     (\<forall>i \<le> getMaxValidCode d. lzd_codeMap d ! i \<le> getMaxValidCode d \<and>
        dst_str d (lzd_codeMap d ! i) (str i) \<and> length (str i) \<le> 255) \<and>
     (\<forall>i < getMaxValidCode d. \<forall>j \<in> cst_children d i.
        0 < j \<and> j \<le> getMaxValidCode d \<and> str j = str i @ [CST_GET_CHAR (lzd_cst d ! j)])"

lemma dict_okD:
  assumes "dict_ok d str"
  shows dict_ok_head: "head_ok (lzd_head d)" and dict_ok_min: "255 \<le> getMaxValidCode d"
    and dict_ok_cst: "length (lzd_cst d) = getMaxValidCode d + 1"
    and dict_ok_map: "length (lzd_codeMap d) = getMaxValidCode d + 1"
    and dict_ok_single: "c < 256 \<Longrightarrow> str c = [word_of_nat c]"
    and dict_ok_code: "i \<le> getMaxValidCode d \<Longrightarrow> lzd_codeMap d ! i \<le> getMaxValidCode d"
    and dict_ok_str: "i \<le> getMaxValidCode d \<Longrightarrow> dst_str d (lzd_codeMap d ! i) (str i)"
    and dict_ok_len: "i \<le> getMaxValidCode d \<Longrightarrow> length (str i) \<le> 255"
    and dict_ok_child: "i < getMaxValidCode d \<Longrightarrow> j \<in> cst_children d i \<Longrightarrow>
      0 < j \<and> j \<le> getMaxValidCode d \<and> str j = str i @ [CST_GET_CHAR (lzd_cst d ! j)]"
  using assms by (auto simp: dict_ok_def)

lemma dict_ok_max: "dict_ok d str \<Longrightarrow> getMaxValidCode d < 262144"
  using power_increasing [of "lzh_codeSize (lzd_head d)" 18 "2::nat"] dict_ok_head [of d str]
  by (auto simp: head_ok_def getMaxValidCode_def)

lemma cst_high_total:
  assumes "dict_ok d str"
  shows "\<exists>high. cst_high d i k = Some high"
proof (induction "getMaxValidCode d - (i + k)" arbitrary: k rule: less_induct)
  case less
  show ?case
  proof (cases "i + k < getMaxValidCode d")
    case True
    with dict_ok_cst [OF assms] have a: "aref (lzd_cst d) (i + k) = Some (lzd_cst d ! (i + k))"
      by (simp add: aref_def)
    show ?thesis
      using less [of "k + 1"] True by (subst cst_high.simps) (simp add: a)
  qed (simp add: cst_high.simps)
qed

lemma cstBinSearch_ok:
  assumes "0 < low" and "high < length (lzd_cst d)" and "length (lzd_cst d) < 2147483648"
  shows "\<exists>r. cstBinSearch d low high ch = Some r \<and>
           (r \<noteq> CST_INVALID_CHILD \<longrightarrow> low \<le> r \<and> r \<le> high \<and> CST_GET_CHAR (lzd_cst d ! r) = ch)"
  using assms
proof (induction "high + 1 - low" arbitrary: low high rule: less_induct)
  case less
  show ?case
  proof (cases "low \<le> high")
    case False
    then show ?thesis by (simp add: cstBinSearch.simps)
  next
    case True
    define mid where "mid = (low + high) div 2"
    have m: "u32 (low + high) div 2 = mid" "low \<le> mid" "mid \<le> high" "u32_sub mid 1 = mid - 1"
      using True less.prems by (simp_all add: mid_def u32_id u32_sub_id)
    have a: "aref (lzd_cst d) mid = Some (lzd_cst d ! mid)" using m less.prems by (simp add: aref_def)
    have step: "cstBinSearch d low high ch =
       (if CST_GET_CHAR (lzd_cst d ! mid) = ch then Some mid
        else if CST_GET_CHAR (lzd_cst d ! mid) < ch then cstBinSearch d (mid + 1) high ch
        else cstBinSearch d low (mid - 1) ch)"
      by (subst cstBinSearch.simps) (simp add: True m a Let_def del: One_nat_def)
    consider "CST_GET_CHAR (lzd_cst d ! mid) = ch" | "CST_GET_CHAR (lzd_cst d ! mid) < ch"
      | "CST_GET_CHAR (lzd_cst d ! mid) \<noteq> ch" "\<not> CST_GET_CHAR (lzd_cst d ! mid) < ch" by blast
    then show ?thesis
    proof cases
      case 1
      then show ?thesis using m by (simp add: step)
    next
      case 2
      with less.hyps [of high "mid + 1"] less.prems m True
      have "\<exists>r. cstBinSearch d (mid + 1) high ch = Some r \<and>
           (r \<noteq> CST_INVALID_CHILD \<longrightarrow> mid + 1 \<le> r \<and> r \<le> high \<and> CST_GET_CHAR (lzd_cst d ! r) = ch)"
        by auto
      with 2 m show ?thesis by (auto simp: step)
    next
      case 3
      with less.hyps [of "mid - 1" low] less.prems m True
      have "\<exists>r. cstBinSearch d low (mid - 1) ch = Some r \<and>
           (r \<noteq> CST_INVALID_CHILD \<longrightarrow> low \<le> r \<and> r \<le> mid - 1 \<and> CST_GET_CHAR (lzd_cst d ! r) = ch)"
        by auto
      with 3 m show ?thesis by (auto simp: step)
    qed
  qed
qed


text \<open>One round of the search moves to a child of the current index.\<close>

lemma find_round:
  assumes "dict_ok d str" and "i < getMaxValidCode d" and "CST_GET_CHILD (lzd_cst d ! i) \<noteq> CST_INVALID_CHILD"
  shows "\<exists>high r. cst_high d i 1 = Some high \<and>
           cstBinSearch d (CST_GET_CHILD (lzd_cst d ! i)) high ch = Some r \<and>
           (r \<noteq> CST_INVALID_CHILD \<longrightarrow> r \<le> getMaxValidCode d \<and> str r = str i @ [ch])"
proof -
  let ?low = "CST_GET_CHILD (lzd_cst d ! i)"
  obtain high where high: "cst_high d i 1 = Some high" using cst_high_total [OF assms(1)] by blast
  have kids: "cst_children d i = {?low .. high}" using assms(3) high by (simp add: cst_children_def)
  show ?thesis
  proof (cases "?low \<le> high")
    case False
    then have "cstBinSearch d ?low high ch = Some CST_INVALID_CHILD" by (simp add: cstBinSearch.simps)
    with high show ?thesis by blast
  next
    case True
    have "0 < ?low" and h: "high \<le> getMaxValidCode d"
      using dict_ok_child [OF assms(1,2), of ?low] dict_ok_child [OF assms(1,2), of high] True kids by auto
    moreover have "length (lzd_cst d) = getMaxValidCode d + 1" by (rule dict_ok_cst [OF assms(1)])
    ultimately obtain r where "cstBinSearch d ?low high ch = Some r"
        "r \<noteq> CST_INVALID_CHILD \<longrightarrow> ?low \<le> r \<and> r \<le> high \<and> CST_GET_CHAR (lzd_cst d ! r) = ch"
      using cstBinSearch_ok [of ?low high d ch] dict_ok_max [OF assms(1)] by auto
    moreover have "r \<in> cst_children d i \<Longrightarrow> str r = str i @ [CST_GET_CHAR (lzd_cst d ! r)]"
      using dict_ok_child [OF assms(1,2)] by blast
    ultimately show ?thesis using high h kids by auto
  qed
qed

lemma find_loop_ok:
  assumes "dict_ok d str" and "i \<le> getMaxValidCode d" and "str i = take m s" and "0 < m" and "m \<le> len"
    and "len \<le> length s"
  shows "\<exists>i' m'. find_loop d s len i m m = Some (i', m') \<and> i' \<le> getMaxValidCode d \<and>
           str i' = take m' s \<and> 0 < m' \<and> m' \<le> len"
  using assms(2-)
proof (induction "len - m" arbitrary: i m rule: less_induct)
  case less
  have ub: "u32_sub (getMaxValidCode d) 1 = getMaxValidCode d - 1"
    using dict_ok_min [OF assms(1)] dict_ok_max [OF assms(1)] by (intro u32_sub_id) auto
  have stop: ?case if "find_loop d s len i m m = Some (i, m)" using that less.prems by auto
  show ?case
  proof (cases "i < getMaxValidCode d - 1 \<and> m < len")
    case False
    show ?thesis by (rule stop) (subst find_loop.simps, use False ub in auto)
  next
    case go: True
    then have a: "aref (lzd_cst d) i = Some (lzd_cst d ! i)" "aref s m = Some (s ! m)"
      using dict_ok_cst [OF assms(1)] less.prems(5) by (auto simp: aref_def)
    show ?thesis
    proof (cases "CST_GET_CHILD (lzd_cst d ! i) = CST_INVALID_CHILD")
      case True
      show ?thesis by (rule stop) (subst find_loop.simps, use True go ub a in auto)
    next
      case False
      have lt: "i < getMaxValidCode d" using go by auto
      obtain high r where r: "cst_high d i 1 = Some high"
          "cstBinSearch d (CST_GET_CHILD (lzd_cst d ! i)) high (s ! m) = Some r"
          "r \<noteq> CST_INVALID_CHILD \<Longrightarrow> r \<le> getMaxValidCode d \<and> str r = str i @ [s ! m]"
        using find_round [OF assms(1) lt False, of "s ! m"] by auto
      have step: "find_loop d s len i m m =
          (if r = CST_INVALID_CHILD then Some (i, m) else find_loop d s len r (m + 1) (m + 1))"
        by (subst find_loop.simps) (use go in \<open>simp add: ub a False r(1,2) Let_def del: One_nat_def\<close>)
      show ?thesis
      proof (cases "r = CST_INVALID_CHILD")
        case True
        show ?thesis by (rule stop) (simp add: step True)
      next
        case False
        with r(3) less.prems go have "str r = take (m + 1) s" by (simp add: take_Suc_conv_app_nth)
        then have "\<exists>i' m'. find_loop d s len r (m + 1) (m + 1) = Some (i', m') \<and> i' \<le> getMaxValidCode d \<and>
           str i' = take m' s \<and> 0 < m' \<and> m' \<le> len"
          by (intro less.hyps) (use False r(3) less.prems go in auto)
        with False show ?thesis by (simp add: step)
      qed
    qed
  qed
qed

text \<open>
  The string that a search matches is a non-empty prefix of the input, and the lookup of the code
  it returns gives back exactly this prefix.
\<close>

lemma findStrExt_ok:
  assumes "dict_ok d str" and "0 < len" and "len \<le> length s"
  shows "\<exists>code m. findStrExt d s len = Some (code, m) \<and> 0 < m \<and> m \<le> len \<and> code \<le> getMaxValidCode d \<and>
           dst_str d code (take m s) \<and> m \<le> 255"
proof -
  have s: "aref s 0 = Some (s ! 0)" "take 1 s = [s ! 0]" using assms(2,3)
    by (cases s; auto simp: aref_def)+
  have c: "unat (s ! 0) < 256" using unsigned_less [of "s ! 0", where ?'a = nat] by simp
  then have "str (unat (s ! 0)) = take 1 s" using dict_ok_single [OF assms(1)] s by simp
  then obtain i m where f: "find_loop d s len (unat (s ! 0)) 1 1 = Some (i, m)" "i \<le> getMaxValidCode d"
      "str i = take m s" "0 < m" "m \<le> len"
    using find_loop_ok [OF assms(1), of "unat (s ! 0)" 1 s len] c dict_ok_min [OF assms(1)] assms(2,3) by auto
  moreover have "aref (lzd_codeMap d) i = Some (lzd_codeMap d ! i)"
    using f(2) dict_ok_map [OF assms(1)] by (simp add: aref_def)
  moreover have "length (take m s) \<le> 255" using dict_ok_len [OF assms(1) f(2)] f(3) by simp
  ultimately show ?thesis
    using dict_ok_str [OF assms(1) f(2)] dict_ok_code [OF assms(1) f(2)] s assms(3)
    by (auto simp: findStrExt_def)
qed

end
