(* ===== verification/LzwItems.thy ===== *)
theory LzwItems
  imports LzwDictionary
begin

text \<open>
  What the item macros of \<^verbatim>\<open>utilLZWDictionary.hpp\<close> read after they were written, bit by bit: the
  character and child of a CST item, the string of a local DST item, position, length and flags of
  a remote one, and the code in the first bytes of a linked string.
\<close>

section \<open>CST items\<close>

text \<open>The bits of the masks. Numerals are kept, so that the facts on masks apply to them.\<close>

lemmas word_bits = bit_and_iff bit_or_iff bit_not_iff bit_push_bit_iff bit_drop_bit_eq bit_unsigned_iff
  bit_mask_iff bit_exp_iff possible_bit_word

lemma bit_pow: "k < 32 \<Longrightarrow> bit (2 ^ k :: 32 word) i \<longleftrightarrow> i = k"
  by (auto simp: bit_simps)

declare bit_numeral_word_iff [simp del]

lemma bit_masks:
  shows bit_valid_flag: "bit CST_VALID_CODE_FLAG i \<longleftrightarrow> i = 31"
    and bit_child_keep: "bit (0x800000FF :: 32 word) i \<longleftrightarrow> i < 8 \<or> i = 31"
    and bit_char_mask: "bit (0x000000FF :: 32 word) i \<longleftrightarrow> i < 8"
    and bit_remote_flag: "bit DST_REMOTE_FLAG i \<longleftrightarrow> i = 31"
    and bit_link_flag: "bit DST_LINK_FLAG i \<longleftrightarrow> i = 30"
    and bit_local_len: "bit DST_LOCAL_LEN_MASK i \<longleftrightarrow> i = 29 \<or> i = 30"
    and bit_remote_len: "bit DST_REMOTE_LEN_MASK i \<longleftrightarrow> i < 8"
    and bit_remote_pos: "bit DST_REMOTE_POS_MASK i \<longleftrightarrow> 8 \<le> i \<and> i < 28"
proof -
  have p31: "bit (0x80000000 :: 32 word) i \<longleftrightarrow> i = 31" using bit_pow [of 31 i] by simp
  have p30: "bit (0x40000000 :: 32 word) i \<longleftrightarrow> i = 30" using bit_pow [of 30 i] by simp
  have ff: "(0x000000FF :: 32 word) = mask 8" by (simp add: mask_eq_exp_minus_1)
  show "bit CST_VALID_CODE_FLAG i \<longleftrightarrow> i = 31" by (simp only: CST_VALID_CODE_FLAG_def p31)
  show "bit DST_REMOTE_FLAG i \<longleftrightarrow> i = 31" by (simp only: DST_REMOTE_FLAG_def p31)
  show "bit DST_LINK_FLAG i \<longleftrightarrow> i = 30" by (simp only: DST_LINK_FLAG_def p30)
  show c: "bit (0x000000FF :: 32 word) i \<longleftrightarrow> i < 8" unfolding ff by (auto simp: word_bits)
  show "bit DST_REMOTE_LEN_MASK i \<longleftrightarrow> i < 8" by (simp only: DST_REMOTE_LEN_MASK_def c)
  have "(0x800000FF :: 32 word) = 0x80000000 OR 0x000000FF" by simp
  then show "bit (0x800000FF :: 32 word) i \<longleftrightarrow> i < 8 \<or> i = 31" by (simp only: bit_or_iff p31 c) auto
  have l: "(0x60000000 :: 32 word) = push_bit 29 (mask 2)" by (simp add: mask_eq_exp_minus_1)
  show "bit DST_LOCAL_LEN_MASK i \<longleftrightarrow> i = 29 \<or> i = 30"
    unfolding DST_LOCAL_LEN_MASK_def l by (auto simp: word_bits)
  have p: "(0x0fffff00 :: 32 word) = push_bit 8 (mask 20)" by (simp add: mask_eq_exp_minus_1)
  show "bit DST_REMOTE_POS_MASK i \<longleftrightarrow> 8 \<le> i \<and> i < 28"
    unfolding DST_REMOTE_POS_MASK_def p by (auto simp: word_bits)
qed

text \<open>An item with a character and, once its children are known, a child.\<close>

definition cst_item :: "byte \<Rightarrow> nat option \<Rightarrow> 32 word" where
  "cst_item ch child = (case child of None \<Rightarrow> ucast ch | Some c \<Rightarrow> CST_SET_CHILD (ucast ch) c)"

lemma CST_SET_CHAR_0: "CST_SET_CHAR 0 ch = cst_item ch None"
  by (simp add: CST_SET_CHAR_def cst_item_def)

lemma CST_SET_CHILD_item: "CST_SET_CHILD (cst_item ch None) c = cst_item ch (Some c)"
  by (simp add: cst_item_def)

lemma bit_byteD: "bit (b :: byte) i \<Longrightarrow> i < 8"
  using bit_imp_le_length [of b i] by simp

lemma bit_small:
  assumes "n < 2 ^ k" shows "bit (word_of_nat n :: 32 word) i \<Longrightarrow> i < k"
proof -
  assume b: "bit (word_of_nat n :: 32 word) i"
  have "take_bit k (word_of_nat n :: 32 word) = word_of_nat n"
    using assms by (simp add: take_bit_of_nat take_bit_nat_eq_self)
  then show "i < k" using b bit_take_bit_iff [of k "word_of_nat n :: 32 word" i] by simp
qed

lemma CST_GET_CHAR_item: "CST_GET_CHAR (cst_item ch child) = ch"
proof (rule bit_word_eqI)
  fix i assume "i < LENGTH(8)"
  then show "bit (CST_GET_CHAR (cst_item ch child)) i = bit ch i"
    by (auto simp: CST_GET_CHAR_def cst_item_def CST_SET_CHILD_def bit_masks word_bits split: option.split)
qed

lemma CST_GET_CHILD_item:
  assumes "c < 2 ^ 23" shows "CST_GET_CHILD (cst_item ch (Some c)) = c"
proof -
  have "drop_bit 8 (cst_item ch (Some c) AND NOT CST_VALID_CODE_FLAG) = (word_of_nat c :: 32 word)"
  proof (rule bit_word_eqI)
    fix i assume "i < LENGTH(32)"
    then show "bit (drop_bit 8 (cst_item ch (Some c) AND NOT CST_VALID_CODE_FLAG)) i = bit (word_of_nat c :: 32 word) i"
      using bit_small [OF assms, of i]
      by (auto simp: cst_item_def CST_SET_CHILD_def bit_masks word_bits dest: bit_byteD)
  qed
  then show ?thesis using assms by (simp add: CST_GET_CHILD_def unat_of_nat take_bit_nat_eq_self)
qed

section \<open>Remote DST items\<close>

definition remote_item :: "bool \<Rightarrow> nat \<Rightarrow> nat \<Rightarrow> 32 word" where
  "remote_item link pos len =
     DST_SET_REMOTE_LEN (DST_SET_REMOTE_POS (DST_SET_REMOTE_FLAG (if link then DST_SET_LINK_FLAG 0 else 0)) pos) len"

lemma remote_item_order:
  "DST_SET_REMOTE_LEN (DST_SET_REMOTE_POS (DST_SET_LINK_FLAG (DST_SET_REMOTE_FLAG 0)) pos) len = remote_item True pos len"
  by (simp add: remote_item_def DST_SET_LINK_FLAG_def DST_SET_REMOTE_FLAG_def or.commute)

lemma bit_remote_item:
  assumes "pos < 2 ^ 20" and "len < 256" and "i < 32"
  shows "bit (remote_item link pos len) i \<longleftrightarrow>
           (if i < 8 then bit (word_of_nat len :: 32 word) i
            else if i < 28 then bit (word_of_nat pos :: 32 word) (i - 8)
            else i = 31 \<or> link \<and> i = 30)"
proof -
  have l: "len < 2 ^ 8" using assms(2) by simp
  show ?thesis using bit_small [OF assms(1), of "i - 8"] bit_small [OF l, of i] assms(3)
    by (auto simp: remote_item_def DST_SET_REMOTE_LEN_def DST_SET_REMOTE_POS_def DST_SET_REMOTE_FLAG_def
        DST_SET_LINK_FLAG_def bit_masks word_bits)
qed


lemma remote_item_fields:
  assumes "pos < 2 ^ 20" and "len < 256"
  shows "DST_IS_REMOTE (remote_item link pos len)" and "DST_IS_LINK (remote_item link pos len) = link"
    and "DST_GET_REMOTE_POS (remote_item link pos len) = pos" and "DST_GET_REMOTE_LEN (remote_item link pos len) = len"
    and "remote_item link pos len \<noteq> 0"
proof -
  note b = bit_remote_item [OF assms, of _ link]
  have l: "len < 2 ^ 8" using assms(2) by simp
  have r: "bit (remote_item link pos len AND DST_REMOTE_FLAG) 31" by (simp add: word_bits bit_masks b)
  then show "DST_IS_REMOTE (remote_item link pos len)" by (auto simp: DST_IS_REMOTE_def)
  from r show "remote_item link pos len \<noteq> 0" by (auto simp: word_bits)
  have "remote_item link pos len AND DST_LINK_FLAG = (if link then DST_LINK_FLAG else 0)"
    by (rule bit_word_eqI) (auto simp: word_bits bit_masks b)
  moreover have "DST_LINK_FLAG \<noteq> 0" by (simp add: DST_LINK_FLAG_def)
  ultimately show "DST_IS_LINK (remote_item link pos len) = link" by (simp add: DST_IS_LINK_def)
  have "drop_bit 8 (remote_item link pos len AND DST_REMOTE_POS_MASK) = word_of_nat pos"
  proof (rule bit_word_eqI)
    fix i assume "i < LENGTH(32)"
    then show "bit (drop_bit 8 (remote_item link pos len AND DST_REMOTE_POS_MASK)) i = bit (word_of_nat pos :: 32 word) i"
      using bit_small [OF assms(1), of i] by (auto simp: bit_drop_bit_eq bit_and_iff bit_masks b)
  qed
  then show "DST_GET_REMOTE_POS (remote_item link pos len) = pos"
    using assms(1) by (simp add: DST_GET_REMOTE_POS_def unat_of_nat take_bit_nat_eq_self)
  have "remote_item link pos len AND DST_REMOTE_LEN_MASK = word_of_nat len"
  proof (rule bit_word_eqI)
    fix i assume "i < LENGTH(32)"
    then show "bit (remote_item link pos len AND DST_REMOTE_LEN_MASK) i = bit (word_of_nat len :: 32 word) i"
      using bit_small [OF l, of i] by (auto simp: bit_and_iff bit_masks b)
  qed
  then show "DST_GET_REMOTE_LEN (remote_item link pos len) = len"
    using assms(2) by (simp add: DST_GET_REMOTE_LEN_def unat_of_nat take_bit_nat_eq_self)
qed

section \<open>Local DST items\<close>

definition local_item :: "byte list \<Rightarrow> 32 word" where
  "local_item str = DST_SET_LOCAL_STR (DST_SET_LOCAL_LEN 0 (length str)) str"

text \<open>The bytes of the value of a string, the last at the lowest position.\<close>

lemma bit_local_value:
  assumes "length str \<le> 3" and "i < 32"
  shows "bit (local_value str) i \<longleftrightarrow> i < 8 * length str \<and> bit (str ! (length str - Suc (i div 8))) (i mod 8)"
  using assms
proof (induction str arbitrary: i rule: rev_induct)
  case Nil
  then show ?case by (simp add: local_value_def)
next
  case (snoc c str)
  have v: "local_value (str @ [c]) = push_bit 8 (local_value str) OR ucast c" by (simp add: local_value_def)
  show ?case
  proof (cases "i < 8")
    case True
    then show ?thesis using snoc.prems by (auto simp: v word_bits nth_append)
  next
    case False
    have "bit (local_value (str @ [c])) i \<longleftrightarrow> bit (local_value str) (i - 8)"
      using False snoc.prems(2) by (auto simp: v word_bits dest: bit_byteD)
    also have "\<dots> \<longleftrightarrow> i - 8 < 8 * length str \<and> bit (str ! (length str - Suc ((i - 8) div 8))) ((i - 8) mod 8)"
      using snoc by simp
    also have "\<dots> \<longleftrightarrow> i < 8 * length (str @ [c]) \<and>
        bit ((str @ [c]) ! (length (str @ [c]) - Suc (i div 8))) (i mod 8)"
      using False by (auto simp: nth_append le_div_geq le_mod_geq)
    finally show ?thesis .
  qed
qed

lemma local_bytes_value:
  assumes "length str \<le> 3"
  shows "local_bytes (length str) (local_value str) = str"
  using assms
proof (induction str rule: rev_induct)
  case (snoc c str)
  have v: "local_value (str @ [c]) = push_bit 8 (local_value str) OR ucast c" by (simp add: local_value_def)
  have small: "bit (local_value str) i \<Longrightarrow> i < 16" if "i < 32" for i
    using bit_local_value [of str i] snoc.prems that by auto
  have "drop_bit 8 (local_value (str @ [c])) = local_value str"
    by (rule bit_word_eqI) (auto simp: v word_bits dest: bit_byteD small)
  moreover have "(ucast (local_value (str @ [c]) AND 0x000000ff) :: byte) = c"
    by (rule bit_word_eqI) (auto simp: v word_bits bit_masks)
  ultimately show ?case using snoc by simp
qed simp

lemma local_item_fields:
  assumes "str \<noteq> []" and "length str \<le> 3"
  shows "\<not> DST_IS_REMOTE (local_item str)" and "DST_GET_LOCAL_LEN (local_item str) = length str"
    and "DST_GET_LOCAL_STR (local_item str) = str" and "local_item str \<noteq> 0"
proof -
  define n where "n = length str"
  have n: "0 < n" "n \<le> 3" using assms by (auto simp: n_def)
  have ones: "bit (0xffffffff :: 32 word) i \<longleftrightarrow> i < 32" for i
  proof -
    have "(0xffffffff :: 32 word) = -1" by simp
    then show ?thesis by (simp only:) (simp add: word_bits)
  qed
  have nb: "bit (word_of_nat n :: 32 word) i \<Longrightarrow> i < 2" for i
    using bit_small [of n 2 i] n by simp
  have val: "bit (local_value str) i \<Longrightarrow> i < 8 * n" if "i < 32" for i
    using bit_local_value [OF assms(2) that] by (simp add: n_def)
  have b: "bit (local_item str) i \<longleftrightarrow> (29 \<le> i \<and> bit (word_of_nat n :: 32 word) (i - 29)) \<or> bit (local_value str) i"
    if "i < 32" for i
    using that n nb by (auto simp: local_item_def DST_SET_LOCAL_STR_def DST_SET_LOCAL_LEN_def word_bits ones n_def)
  have "local_item str AND DST_REMOTE_FLAG = 0"
  proof (rule bit_word_eqI)
    fix i assume "i < LENGTH(32)"
    then show "bit (local_item str AND DST_REMOTE_FLAG) i = bit (0 :: 32 word) i"
      using b [of i] nb [of 2] val [of 31] n by (auto simp: bit_and_iff bit_masks)
  qed
  then show "\<not> DST_IS_REMOTE (local_item str)" by (simp add: DST_IS_REMOTE_def)
  have "drop_bit 29 (local_item str AND DST_LOCAL_LEN_MASK) = word_of_nat n"
  proof (rule bit_word_eqI)
    fix i assume i: "i < LENGTH(32)"
    show "bit (drop_bit 29 (local_item str AND DST_LOCAL_LEN_MASK)) i = bit (word_of_nat n :: 32 word) i"
    proof (cases "i < 2")
      case True
      then show ?thesis using b [of "29 + i"] val [of "29 + i"] n
        by (auto simp: bit_drop_bit_eq bit_and_iff bit_masks less_2_cases_iff)
    next
      case False
      then show ?thesis using nb [of i] by (auto simp: bit_drop_bit_eq bit_and_iff bit_masks)
    qed
  qed
  then show len: "DST_GET_LOCAL_LEN (local_item str) = length str"
    using n by (simp add: DST_GET_LOCAL_LEN_def unat_of_nat take_bit_nat_eq_self n_def)
  then show "local_item str \<noteq> 0" using n by (auto simp: DST_GET_LOCAL_LEN_def n_def)
  have "local_item str AND NOT (push_bit (8 * n) 0xffffffff) = local_value str"
  proof (rule bit_word_eqI)
    fix i assume i: "i < LENGTH(32)"
    have "8 * n \<le> 24" using n by simp
    then show "bit (local_item str AND NOT (push_bit (8 * n) 0xffffffff)) i = bit (local_value str) i"
      using i b [of i] val [of i] by (auto simp: word_bits ones)
  qed
  then show "DST_GET_LOCAL_STR (local_item str) = str"
    using local_bytes_value [OF assms(2)] by (simp add: DST_GET_LOCAL_STR_def len Let_def n_def)
qed

section \<open>Links\<close>

definition link_bytes :: "nat \<Rightarrow> byte list" where
  "link_bytes realCode =
     (let w = word_of_nat realCode :: 32 word in
      [ucast (drop_bit 16 (w AND 0x00ff0000)), ucast (drop_bit 8 (w AND 0x0000ff00)), ucast (w AND 0x000000ff)])"

lemma link_code_bytes:
  assumes "c < 2 ^ 24" shows "link_code (link_bytes c) = c"
proof -
  define w :: "32 word" where "w = word_of_nat c"
  have m: "(0x00ff0000 :: 32 word) = push_bit 16 (mask 8)" "(0x0000ff00 :: 32 word) = push_bit 8 (mask 8)"
    "(0x000000ff :: 32 word) = mask 8" by (simp_all add: mask_eq_exp_minus_1)
  have small: "bit w i \<Longrightarrow> i < 24" for i unfolding w_def by (rule bit_small [OF assms])
  have "push_bit 16 (ucast (ucast (drop_bit 16 (w AND push_bit 16 (mask 8))) :: byte)) OR
      push_bit 8 (ucast (ucast (drop_bit 8 (w AND push_bit 8 (mask 8))) :: byte)) OR
      ucast (ucast (w AND mask 8) :: byte) = w"
  proof (rule bit_word_eqI)
    fix i assume "i < LENGTH(32)"
    then consider "i < 8" | "8 \<le> i" "i < 16" | "16 \<le> i" "i < 24" | "24 \<le> i" "i < 32" by force
    then show "bit (push_bit 16 (ucast (ucast (drop_bit 16 (w AND push_bit 16 (mask 8))) :: byte)) OR
      push_bit 8 (ucast (ucast (drop_bit 8 (w AND push_bit 8 (mask 8))) :: byte)) OR
      (ucast (ucast (w AND mask 8) :: byte) :: 32 word)) i = bit w i"
      by cases (auto simp: word_bits dest: bit_byteD small)
  qed
  then show ?thesis using assms
    by (simp add: link_code_def link_bytes_def m w_def [symmetric] Let_def)
      (simp add: w_def unat_of_nat take_bit_nat_eq_self)
qed


declare bit_numeral_word_iff [simp]

end
