(* ===== verification/LzwBuild.thy ===== *)
theory LzwBuild
  imports LzwBits
begin

text \<open>
  Building a dictionary: the nodes of \<^verbatim>\<open>_utilLZWDictionary\<close>, each the last character of a string,
  with the links to the node of its prefix, its first child and its next sibling; the operations
  \<^verbatim>\<open>init\<close>, \<^verbatim>\<open>addStr\<close>, \<^verbatim>\<open>findStr\<close>, \<^verbatim>\<open>getStr\<close> and the loop of
  \<^verbatim>\<open>_utilLZWDictCreator::build\<close>. The array of nodes is a function of the index; the invariant
  keeps every link inside the part in use.

  The invariant \<open>trie\<close> says that the siblings below a node form a chain in ascending order of their
  characters and are exactly the nodes with this prefix. \<open>refs_ok\<close> says that a string has been
  met strictly more often than each of its extensions, which is what lets the dictionary drop
  rare strings without dropping a prefix of a string it keeps.
\<close>

section \<open>Nodes\<close>

definition UTIL_INVALID_DICT_CODE :: nat where
  "UTIL_INVALID_DICT_CODE = 16777215"

definition UTIL_MAX_DICT_INIT_CODE :: nat where
  "UTIL_MAX_DICT_INIT_CODE = 255"

definition UTIL_MAX_DICT_ITEM_NUM :: nat where
  "UTIL_MAX_DICT_ITEM_NUM = 250000"

definition UTIL_MAX_DICT_BUILD_ITEM_NUM :: nat where
  "UTIL_MAX_DICT_BUILD_ITEM_NUM = UTIL_MAX_DICT_ITEM_NUM * 4"

definition UTIL_MAX_DICT_STR_LEN :: nat where
  "UTIL_MAX_DICT_STR_LEN = 255"

record utilLZWNode =
  nd_code :: nat
  nd_prev :: nat
  nd_first :: nat
  nd_next :: nat
  nd_len :: nat
  nd_refNum :: nat
  nd_ch :: byte

record utilLZWBuilder =
  lzb_maxCode :: nat
  lzb_codeSize :: nat
  lzb_nodes :: "nat \<Rightarrow> utilLZWNode"
  lzb_maxNodeNum :: nat
  lzb_nodeSortVec :: "nat list"

text \<open>The characters of the nodes from 256 on are not initialised; they are set before they are read.\<close>

definition init_node :: "nat \<Rightarrow> utilLZWNode" where
  "init_node i =
     \<lparr>nd_code = UTIL_INVALID_DICT_CODE, nd_prev = UTIL_INVALID_DICT_CODE,
      nd_first = UTIL_INVALID_DICT_CODE, nd_next = UTIL_INVALID_DICT_CODE,
      nd_len = (if i < 256 then 1 else 0), nd_refNum = (if i < 256 then 1 else 0),
      nd_ch = (if i < 256 then word_of_nat i else 0)\<rparr>"

definition init :: utilLZWBuilder where
  "init = \<lparr>lzb_maxCode = 255, lzb_codeSize = 8, lzb_nodes = init_node,
           lzb_maxNodeNum = UTIL_MAX_DICT_BUILD_ITEM_NUM, lzb_nodeSortVec = [0..<256]\<rparr>"

text \<open>\<open>memory\<close> tells whether the allocation of the buffer succeeds.\<close>

definition prepare :: "bool \<Rightarrow> sdb_rc \<times> utilLZWBuilder option" where
  "prepare memory = (if memory then (SDB_OK, Some init) else (SDB_OOM, None))"

partial_function (option) sibling_loop ::
  "(nat \<Rightarrow> utilLZWNode) \<Rightarrow> byte \<Rightarrow> nat \<Rightarrow> nat \<Rightarrow> (nat \<times> nat) option" where
  "sibling_loop nodes ch currCode nextCode =
     (if nextCode \<noteq> UTIL_INVALID_DICT_CODE \<and> nd_ch (nodes nextCode) < ch
      then sibling_loop nodes ch nextCode (nd_next (nodes nextCode))
      else Some (currCode, nextCode))"

declare sibling_loop.simps [code]

text \<open>The links of a new node: as first child, or between its siblings.\<close>

definition link_node :: "(nat \<Rightarrow> utilLZWNode) \<Rightarrow> nat \<Rightarrow> byte \<Rightarrow> nat \<Rightarrow> (nat \<Rightarrow> utilLZWNode) option" where
  "link_node nodes preCode ch new =
     (if nd_first (nodes preCode) = UTIL_INVALID_DICT_CODE
      then Some (nodes(preCode := (nodes preCode)\<lparr>nd_first := new\<rparr>))
      else do {
        (currCode, nextCode) \<leftarrow> sibling_loop nodes ch UTIL_INVALID_DICT_CODE (nd_first (nodes preCode));
        let nodes = nodes(new := (nodes new)\<lparr>nd_next := nextCode\<rparr>);
        if currCode = UTIL_INVALID_DICT_CODE
        then Some (nodes(preCode := (nodes preCode)\<lparr>nd_first := new\<rparr>))
        else Some (nodes(currCode := (nodes currCode)\<lparr>nd_next := new\<rparr>))
      })"

definition addStr :: "utilLZWBuilder \<Rightarrow> nat \<Rightarrow> byte \<Rightarrow> (nat \<times> utilLZWBuilder) option" where
  "addStr b preCode ch =
     (if lzb_maxCode b + 1 = lzb_maxNodeNum b then Some (UTIL_INVALID_DICT_CODE, b)
      else do {
        let new = lzb_maxCode b + 1;
        let codeSize = (if new = 2 ^ lzb_codeSize b then lzb_codeSize b + 1 else lzb_codeSize b);
        let nodes = lzb_nodes b;
        nodes \<leftarrow> link_node
          (nodes(new := (nodes new)\<lparr>nd_prev := preCode, nd_first := UTIL_INVALID_DICT_CODE\<rparr>)) preCode ch new;
        let nodes = nodes(new := (nodes new)\<lparr>nd_ch := ch, nd_len := nd_len (nodes preCode) + 1, nd_refNum := 0\<rparr>);
        Some (new, b\<lparr>lzb_maxCode := new, lzb_codeSize := codeSize, lzb_nodes := nodes,
                     lzb_nodeSortVec := lzb_nodeSortVec b @ [new]\<rparr>)
      })"

definition count_ref :: "nat \<Rightarrow> (nat \<Rightarrow> utilLZWNode) \<Rightarrow> nat \<Rightarrow> utilLZWNode" where
  "count_ref i nodes = nodes(i := (nodes i)\<lparr>nd_refNum := u32 (nd_refNum (nodes i) + 1)\<rparr>)"

partial_function (option) child_loop ::
  "(nat \<Rightarrow> utilLZWNode) \<Rightarrow> nat \<Rightarrow> byte \<Rightarrow> nat \<Rightarrow> nat option" where
  "child_loop nodes preCode ch nextCode =
     (if nextCode = UTIL_INVALID_DICT_CODE then Some UTIL_INVALID_DICT_CODE
      else if nd_ch (nodes nextCode) < ch then child_loop nodes preCode ch (nd_next (nodes nextCode))
      else if preCode = nd_prev (nodes nextCode) \<and> ch = nd_ch (nodes nextCode) then Some nextCode
      else Some UTIL_INVALID_DICT_CODE)"

declare child_loop.simps [code]

definition findStr :: "utilLZWBuilder \<Rightarrow> nat \<Rightarrow> byte \<Rightarrow> (nat \<times> utilLZWBuilder) option" where
  "findStr b preCode ch = do {
     let nodes = (if preCode \<le> UTIL_MAX_DICT_INIT_CODE then count_ref preCode (lzb_nodes b) else lzb_nodes b);
     r \<leftarrow> child_loop nodes preCode ch (nd_first (nodes preCode));
     let nodes = (if r \<noteq> UTIL_INVALID_DICT_CODE then count_ref r nodes else nodes);
     Some (r, b\<lparr>lzb_nodes := nodes\<rparr>)
   }"

text \<open>The string of a node, read backwards along the prefixes.\<close>

fun str_back :: "(nat \<Rightarrow> utilLZWNode) \<Rightarrow> nat \<Rightarrow> nat \<Rightarrow> byte list" where
  "str_back nodes code 0 = []"
| "str_back nodes code (Suc i) =
     (if code = UTIL_INVALID_DICT_CODE then []
      else str_back nodes (nd_prev (nodes code)) i @ [nd_ch (nodes code)])"

definition getStr :: "(nat \<Rightarrow> utilLZWNode) \<Rightarrow> nat \<Rightarrow> byte list" where
  "getStr nodes code = str_back nodes code (nd_len (nodes code))"

section \<open>Building from data\<close>

text \<open>The result is the dictionary and the output parameter \<^verbatim>\<open>full\<close>.\<close>

partial_function (option) build_loop ::
  "byte list \<Rightarrow> utilLZWBuilder \<Rightarrow> nat \<Rightarrow> bool \<Rightarrow> nat \<Rightarrow> nat \<Rightarrow> (utilLZWBuilder \<times> bool) option" where
  "build_loop source b pos restart code strLen =
     (if pos < length source then
        if restart \<and> pos + 1 = length source then Some (b, False)
        else do {
          let (code, strLen, pos) = (if restart then (unat (source ! pos), 1, pos + 1) else (code, strLen, pos));
          let ch = source ! pos;
          (nextCode, b) \<leftarrow> findStr b code ch;
          if nextCode = UTIL_INVALID_DICT_CODE then do {
            (nextCode, b) \<leftarrow> addStr b code ch;
            if nextCode = u32_sub (lzb_maxNodeNum b) 1 then Some (b, True)
            else build_loop source b (pos + 1) False (unat ch) 1
          }
          else build_loop source b (pos + 1) (UTIL_MAX_DICT_STR_LEN \<le> strLen + 1) nextCode (strLen + 1)
        }
      else Some (b, False))"

declare build_loop.simps [code]

definition build :: "utilLZWBuilder \<Rightarrow> byte list \<Rightarrow> (utilLZWBuilder \<times> bool) option" where
  "build b source = do {
     ch \<leftarrow> aref source 0;
     build_loop source b 1 False (unat ch) 1
   }"

section \<open>Chains of siblings\<close>

fun chain :: "(nat \<Rightarrow> utilLZWNode) \<Rightarrow> nat \<Rightarrow> nat list \<Rightarrow> bool" where
  "chain nodes c [] \<longleftrightarrow> c = UTIL_INVALID_DICT_CODE"
| "chain nodes c (x # xs) \<longleftrightarrow> c = x \<and> x \<noteq> UTIL_INVALID_DICT_CODE \<and> chain nodes (nd_next (nodes x)) xs"

lemma chain_cong:
  "(\<And>x. x \<in> set xs \<Longrightarrow> nd_next (nodes' x) = nd_next (nodes x)) \<Longrightarrow> chain nodes' c xs = chain nodes c xs"
  by (induction xs arbitrary: c) auto

definition chain_head :: "nat list \<Rightarrow> nat" where
  "chain_head xs = (case xs of [] \<Rightarrow> UTIL_INVALID_DICT_CODE | x # _ \<Rightarrow> x)"

lemma chain_head_eq: "chain nodes c xs \<Longrightarrow> c = chain_head xs"
  by (cases xs) (auto simp: chain_head_def)

lemma sibling_loop_ok:
  assumes "chain nodes c xs"
  shows "sibling_loop nodes ch p c =
           Some (last (p # takeWhile (\<lambda>x. nd_ch (nodes x) < ch) xs),
                 chain_head (dropWhile (\<lambda>x. nd_ch (nodes x) < ch) xs))"
  using assms
proof (induction xs arbitrary: p c)
  case Nil
  then show ?case by (simp add: sibling_loop.simps chain_head_def)
next
  case (Cons x xs)
  then show ?case by (subst sibling_loop.simps) (auto simp: chain_head_def)
qed

text \<open>Linking a new node behind the end of a prefix of the chain.\<close>

lemma chain_insert:
  assumes "chain nodes c (xs @ ys)" and "xs \<noteq> []" and "distinct (xs @ ys)" and "new \<notin> set (xs @ ys)"
    and "\<And>x. x \<noteq> new \<Longrightarrow> x \<noteq> last xs \<Longrightarrow> nd_next (nodes' x) = nd_next (nodes x)"
    and "nd_next (nodes' new) = chain_head ys" and "nd_next (nodes' (last xs)) = new"
    and "new \<noteq> UTIL_INVALID_DICT_CODE"
  shows "chain nodes' c (xs @ new # ys)"
  using assms
proof (induction xs arbitrary: c)
  case (Cons x xs)
  show ?case
  proof (cases "xs = []")
    case True
    then have "chain nodes (chain_head ys) ys"
      using Cons.prems(1) chain_head_eq [of nodes "nd_next (nodes x)" ys] by simp
    moreover have "nd_next (nodes' y) = nd_next (nodes y)" if "y \<in> set ys" for y
      by (rule Cons.prems(5)) (use that True Cons.prems(3,4) in auto)
    ultimately have "chain nodes' (chain_head ys) ys" using chain_cong [of ys nodes' nodes] by blast
    with True Cons.prems show ?thesis by simp
  next
    case False
    with Cons.prems have "chain nodes' (nd_next (nodes x)) (xs @ new # ys)"
      by (intro Cons.IH) (auto simp: last_in_set)
    moreover have "nd_next (nodes' x) = nd_next (nodes x)"
      using Cons.prems False by (intro Cons.prems(5)) auto
    ultimately show ?thesis using Cons.prems by simp
  qed
qed simp

lemma child_loop_ok:
  assumes "chain nodes c xs" and "sorted_wrt (<) (map (nd_ch \<circ> nodes) xs)"
    and "\<forall>x \<in> set xs. nd_prev (nodes x) = pre"
  shows "child_loop nodes pre ch c =
           Some (case List.find (\<lambda>x. nd_ch (nodes x) = ch) xs of None \<Rightarrow> UTIL_INVALID_DICT_CODE | Some x \<Rightarrow> x)"
  using assms
proof (induction xs arbitrary: c)
  case Nil
  then show ?case by (simp add: child_loop.simps)
next
  case (Cons x xs)
  then have c: "c = x" "x \<noteq> UTIL_INVALID_DICT_CODE" by auto
  consider "nd_ch (nodes x) < ch" | "nd_ch (nodes x) = ch" | "ch < nd_ch (nodes x)" by fastforce
  then show ?case
  proof cases
    case 1
    with Cons c show ?thesis by (subst child_loop.simps) auto
  next
    case 2
    with Cons c show ?thesis by (subst child_loop.simps) auto
  next
    case 3
    have "List.find (\<lambda>x. nd_ch (nodes x) = ch) xs = None"
      using Cons.prems(2) 3 by (fastforce simp: find_None_iff)
    with 3 Cons c show ?thesis by (subst child_loop.simps) auto
  qed
qed


section \<open>The invariant of the nodes\<close>

definition trie :: "utilLZWBuilder \<Rightarrow> (nat \<Rightarrow> nat list) \<Rightarrow> bool" where
  "trie b kids \<longleftrightarrow>
     255 \<le> lzb_maxCode b \<and> lzb_maxCode b < lzb_maxNodeNum b \<and> lzb_maxNodeNum b \<le> 1000000 \<and>
     lzb_nodeSortVec b = [0..<lzb_maxCode b + 1] \<and>
     (\<forall>i < 256. nd_prev (lzb_nodes b i) = UTIL_INVALID_DICT_CODE \<and>
        nd_ch (lzb_nodes b i) = word_of_nat i \<and> nd_len (lzb_nodes b i) = 1) \<and>
     (\<forall>i. 256 \<le> i \<and> i \<le> lzb_maxCode b \<longrightarrow>
        nd_prev (lzb_nodes b i) < i \<and> nd_len (lzb_nodes b i) \<le> 255 \<and>
        nd_len (lzb_nodes b i) = nd_len (lzb_nodes b (nd_prev (lzb_nodes b i))) + 1) \<and>
     (\<forall>p \<le> lzb_maxCode b.
        chain (lzb_nodes b) (nd_first (lzb_nodes b p)) (kids p) \<and>
        set (kids p) = {i. 256 \<le> i \<and> i \<le> lzb_maxCode b \<and> nd_prev (lzb_nodes b i) = p} \<and>
        sorted_wrt (<) (map (nd_ch \<circ> lzb_nodes b) (kids p))) \<and>
     (\<forall>i. nd_code (lzb_nodes b i) = UTIL_INVALID_DICT_CODE) \<and>
     (\<forall>i > lzb_maxCode b. nd_next (lzb_nodes b i) = UTIL_INVALID_DICT_CODE)"

lemma trieD:
  assumes "trie b kids"
  shows trie_max: "255 \<le> lzb_maxCode b" "lzb_maxCode b < lzb_maxNodeNum b" "lzb_maxNodeNum b \<le> 1000000"
    and trie_vec: "lzb_nodeSortVec b = [0..<lzb_maxCode b + 1]"
    and trie_single: "i < 256 \<Longrightarrow> nd_prev (lzb_nodes b i) = UTIL_INVALID_DICT_CODE"
      "i < 256 \<Longrightarrow> nd_ch (lzb_nodes b i) = word_of_nat i" "i < 256 \<Longrightarrow> nd_len (lzb_nodes b i) = 1"
    and trie_prev: "256 \<le> i \<Longrightarrow> i \<le> lzb_maxCode b \<Longrightarrow> nd_prev (lzb_nodes b i) < i"
    and trie_len: "256 \<le> i \<Longrightarrow> i \<le> lzb_maxCode b \<Longrightarrow> nd_len (lzb_nodes b i) \<le> 255"
      "256 \<le> i \<Longrightarrow> i \<le> lzb_maxCode b \<Longrightarrow>
         nd_len (lzb_nodes b i) = nd_len (lzb_nodes b (nd_prev (lzb_nodes b i))) + 1"
    and trie_chain: "p \<le> lzb_maxCode b \<Longrightarrow> chain (lzb_nodes b) (nd_first (lzb_nodes b p)) (kids p)"
    and trie_kids: "p \<le> lzb_maxCode b \<Longrightarrow>
      set (kids p) = {i. 256 \<le> i \<and> i \<le> lzb_maxCode b \<and> nd_prev (lzb_nodes b i) = p}"
    and trie_sorted: "p \<le> lzb_maxCode b \<Longrightarrow> sorted_wrt (<) (map (nd_ch \<circ> lzb_nodes b) (kids p))"
    and trie_code: "nd_code (lzb_nodes b i) = UTIL_INVALID_DICT_CODE"
    and trie_fresh: "lzb_maxCode b < i \<Longrightarrow> nd_next (lzb_nodes b i) = UTIL_INVALID_DICT_CODE"
  using assms unfolding trie_def by blast+

lemma init_trie: "trie init (\<lambda>_. [])"
  by (simp add: trie_def init_def init_node_def UTIL_MAX_DICT_BUILD_ITEM_NUM_def UTIL_MAX_DICT_ITEM_NUM_def)

lemma trie_distinct: "trie b kids \<Longrightarrow> p \<le> lzb_maxCode b \<Longrightarrow> distinct (kids p)"
  using trie_sorted [of b kids p] by (metis distinct_map strict_sorted_iff)

text \<open>Nodes that differ in their counters only.\<close>

definition same_links :: "(nat \<Rightarrow> utilLZWNode) \<Rightarrow> (nat \<Rightarrow> utilLZWNode) \<Rightarrow> bool" where
  "same_links nodes' nodes \<longleftrightarrow> (\<forall>i. \<exists>n. nodes' i = (nodes i)\<lparr>nd_refNum := n\<rparr>)"

lemma same_linksD:
  assumes "same_links nodes' nodes"
  shows "nd_code (nodes' i) = nd_code (nodes i)" and "nd_prev (nodes' i) = nd_prev (nodes i)"
    and "nd_first (nodes' i) = nd_first (nodes i)" and "nd_next (nodes' i) = nd_next (nodes i)"
    and "nd_len (nodes' i) = nd_len (nodes i)" and "nd_ch (nodes' i) = nd_ch (nodes i)"
  using assms by (auto simp: same_links_def dest: spec [of _ i])

lemma count_ref_links: "same_links nodes' nodes \<Longrightarrow> same_links (count_ref i nodes') nodes"
  by (auto simp: same_links_def count_ref_def) (metis utilLZWNode.update_convs(6) utilLZWNode.surjective)

lemma same_links_refl: "same_links nodes nodes"
  unfolding same_links_def by (metis utilLZWNode.surjective utilLZWNode.update_convs(6))

lemma trie_same_links:
  assumes "trie b kids" and "same_links nodes' (lzb_nodes b)"
  shows "trie (b\<lparr>lzb_nodes := nodes'\<rparr>) kids"
proof -
  note [simp] = same_linksD [OF assms(2)]
  have "chain nodes' c xs = chain (lzb_nodes b) c xs" for c xs by (rule chain_cong) simp
  moreover have "nd_ch \<circ> nodes' = nd_ch \<circ> lzb_nodes b" by (simp add: fun_eq_iff)
  ultimately show ?thesis using assms(1) by (auto simp: trie_def)
qed

section \<open>Searching and adding\<close>

text \<open>The child of a node with a character.\<close>

definition child_of :: "utilLZWBuilder \<Rightarrow> (nat \<Rightarrow> nat list) \<Rightarrow> nat \<Rightarrow> byte \<Rightarrow> nat option" where
  "child_of b kids pre ch = List.find (\<lambda>x. nd_ch (lzb_nodes b x) = ch) (kids pre)"

lemma child_of_Some:
  assumes "trie b kids" and "pre \<le> lzb_maxCode b" and "child_of b kids pre ch = Some x"
  shows "256 \<le> x" "x \<le> lzb_maxCode b" "nd_prev (lzb_nodes b x) = pre" "nd_ch (lzb_nodes b x) = ch"
    "x \<noteq> UTIL_INVALID_DICT_CODE" "x \<noteq> pre"
proof -
  have x: "x \<in> set (kids pre)" "nd_ch (lzb_nodes b x) = ch"
    using assms(3) by (auto simp: child_of_def find_Some_iff)
  with trie_kids [OF assms(1,2)] show "256 \<le> x" "x \<le> lzb_maxCode b" "nd_prev (lzb_nodes b x) = pre" by auto
  with trie_prev [OF assms(1), of x] trie_max [OF assms(1)] show "x \<noteq> pre" "x \<noteq> UTIL_INVALID_DICT_CODE"
    by (auto simp: UTIL_INVALID_DICT_CODE_def)
  show "nd_ch (lzb_nodes b x) = ch" by (rule x)
qed

definition counted :: "nat \<Rightarrow> nat option \<Rightarrow> (nat \<Rightarrow> utilLZWNode) \<Rightarrow> nat \<Rightarrow> utilLZWNode" where
  "counted pre r nodes =
     (let nodes = (if pre \<le> 255 then count_ref pre nodes else nodes) in
      case r of None \<Rightarrow> nodes | Some x \<Rightarrow> count_ref x nodes)"

lemma counted_links: "same_links (counted pre r nodes) nodes"
  by (simp add: counted_def Let_def count_ref_links same_links_refl split: option.split)

lemma findStr_ok:
  assumes "trie b kids" and "pre \<le> lzb_maxCode b"
  shows "findStr b pre ch =
           Some (case child_of b kids pre ch of None \<Rightarrow> UTIL_INVALID_DICT_CODE | Some x \<Rightarrow> x,
                 b\<lparr>lzb_nodes := counted pre (child_of b kids pre ch) (lzb_nodes b)\<rparr>)"
proof -
  define nodes where "nodes = (if pre \<le> UTIL_MAX_DICT_INIT_CODE then count_ref pre (lzb_nodes b) else lzb_nodes b)"
  have links: "same_links nodes (lzb_nodes b)"
    by (simp add: nodes_def count_ref_links same_links_refl)
  note [simp] = same_linksD [OF links]
  have ch: "nd_ch \<circ> nodes = nd_ch \<circ> lzb_nodes b" by (simp add: fun_eq_iff)
  have "chain nodes c xs = chain (lzb_nodes b) c xs" for c xs by (rule chain_cong) simp
  then have "child_loop nodes pre ch (nd_first (nodes pre)) =
      Some (case child_of b kids pre ch of None \<Rightarrow> UTIL_INVALID_DICT_CODE | Some x \<Rightarrow> x)"
    using child_loop_ok [of nodes "nd_first (nodes pre)" "kids pre" pre ch]
      trie_chain [OF assms] trie_sorted [OF assms] trie_kids [OF assms] ch
    by (simp add: child_of_def)
  moreover have "x \<noteq> UTIL_INVALID_DICT_CODE" if "child_of b kids pre ch = Some x" for x
    using child_of_Some(5) [OF assms that] .
  moreover have "findStr b pre ch = do {
      r \<leftarrow> child_loop nodes pre ch (nd_first (nodes pre));
      Some (r, b\<lparr>lzb_nodes := if r \<noteq> UTIL_INVALID_DICT_CODE then count_ref r nodes else nodes\<rparr>) }"
    by (simp only: findStr_def nodes_def Let_def)
  ultimately show ?thesis
    by (simp add: counted_def nodes_def UTIL_MAX_DICT_INIT_CODE_def del: same_linksD split: option.split)
qed


lemma addStr_full:
  "lzb_maxCode b + 1 = lzb_maxNodeNum b \<Longrightarrow> addStr b pre ch = Some (UTIL_INVALID_DICT_CODE, b)"
  by (simp add: addStr_def)

text \<open>The nodes after an addition: the new node is linked between its smaller and its larger siblings.\<close>

definition added :: "utilLZWBuilder \<Rightarrow> nat list \<Rightarrow> nat list \<Rightarrow> nat \<Rightarrow> byte \<Rightarrow> nat \<Rightarrow> utilLZWNode" where
  "added b xs ys pre ch =
     (let new = lzb_maxCode b + 1; nodes = lzb_nodes b;
          node = (nodes new)\<lparr>nd_prev := pre, nd_first := UTIL_INVALID_DICT_CODE, nd_next := chain_head ys,
            nd_ch := ch, nd_len := nd_len (nodes pre) + 1, nd_refNum := 0\<rparr> in
      if xs = [] then nodes(pre := (nodes pre)\<lparr>nd_first := new\<rparr>, new := node)
      else nodes(last xs := (nodes (last xs))\<lparr>nd_next := new\<rparr>, new := node))"

lemma link_node_eq:
  assumes "chain nodes (nd_first (nodes pre)) ks" and "pre \<noteq> new" and "new \<notin> set ks"
    and "nd_next (nodes new) = UTIL_INVALID_DICT_CODE" and "UTIL_INVALID_DICT_CODE \<notin> set ks"
    and "xs = takeWhile (\<lambda>x. nd_ch (nodes x) < ch) ks" and "ys = dropWhile (\<lambda>x. nd_ch (nodes x) < ch) ks"
  shows "link_node nodes pre ch new = Some
     (if xs = [] then nodes(pre := (nodes pre)\<lparr>nd_first := new\<rparr>, new := (nodes new)\<lparr>nd_next := chain_head ys\<rparr>)
      else nodes(last xs := (nodes (last xs))\<lparr>nd_next := new\<rparr>, new := (nodes new)\<lparr>nd_next := chain_head ys\<rparr>))"
proof (cases "ks = []")
  case True
  moreover have "(nodes new)\<lparr>nd_next := UTIL_INVALID_DICT_CODE\<rparr> = nodes new"
    using assms(4) by (cases "nodes new") simp
  ultimately show ?thesis using assms by (simp add: link_node_def chain_head_def fun_upd_idem)
next
  case False
  then have f: "nd_first (nodes pre) \<noteq> UTIL_INVALID_DICT_CODE" using assms(1) by (cases ks) auto
  have "xs \<noteq> [] \<Longrightarrow> last xs \<in> set ks" unfolding assms(6) by (meson last_in_set set_takeWhileD)
  then have "xs \<noteq> [] \<Longrightarrow> last xs \<noteq> UTIL_INVALID_DICT_CODE \<and> last xs \<noteq> new" using assms(3,5) by auto
  with f assms(2) show ?thesis
    by (auto simp: link_node_def sibling_loop_ok [OF assms(1)] assms(6,7) [symmetric] fun_upd_twist)
qed

lemma addStr_eq:
  assumes "trie b kids" and "pre \<le> lzb_maxCode b" and "lzb_maxCode b + 1 < lzb_maxNodeNum b"
  shows "addStr b pre ch = Some (lzb_maxCode b + 1,
     b\<lparr>lzb_maxCode := lzb_maxCode b + 1,
       lzb_codeSize := (if lzb_maxCode b + 1 = 2 ^ lzb_codeSize b then lzb_codeSize b + 1 else lzb_codeSize b),
       lzb_nodes := added b (takeWhile (\<lambda>x. nd_ch (lzb_nodes b x) < ch) (kids pre))
                            (dropWhile (\<lambda>x. nd_ch (lzb_nodes b x) < ch) (kids pre)) pre ch,
       lzb_nodeSortVec := lzb_nodeSortVec b @ [lzb_maxCode b + 1]\<rparr>)"
proof -
  define new where "new = lzb_maxCode b + 1"
  define xs where "xs = takeWhile (\<lambda>x. nd_ch (lzb_nodes b x) < ch) (kids pre)"
  define ys where "ys = dropWhile (\<lambda>x. nd_ch (lzb_nodes b x) < ch) (kids pre)"
  define nodes where "nodes = (lzb_nodes b)(new := (lzb_nodes b new)\<lparr>nd_prev := pre, nd_first := UTIL_INVALID_DICT_CODE\<rparr>)"
  have kids: "new \<notin> set (kids pre)" "UTIL_INVALID_DICT_CODE \<notin> set (kids pre)"
    using trie_kids [OF assms(1,2)] trie_max [OF assms(1)] by (auto simp: new_def UTIL_INVALID_DICT_CODE_def)
  have pre: "pre \<noteq> new" using assms(2) by (simp add: new_def)
  have ch: "nodes x = lzb_nodes b x" if "x \<in> set (kids pre)" for x using that kids by (auto simp: nodes_def)
  define linked where "linked =
     (if xs = [] then nodes(pre := (nodes pre)\<lparr>nd_first := new\<rparr>, new := (nodes new)\<lparr>nd_next := chain_head ys\<rparr>)
      else nodes(last xs := (nodes (last xs))\<lparr>nd_next := new\<rparr>, new := (nodes new)\<lparr>nd_next := chain_head ys\<rparr>))"
  have link: "link_node nodes pre ch new = Some linked"
    unfolding linked_def
  proof (rule link_node_eq [OF _ pre kids(1) _ kids(2)])
    show "chain nodes (nd_first (nodes pre)) (kids pre)"
      using trie_chain [OF assms(1,2)] chain_cong [of "kids pre" nodes "lzb_nodes b"] ch pre by (simp add: nodes_def)
    show "nd_next (nodes new) = UTIL_INVALID_DICT_CODE"
      using trie_fresh [OF assms(1), of new] by (simp add: nodes_def new_def)
  qed (use ch in \<open>simp_all add: xs_def ys_def cong: takeWhile_cong dropWhile_cong\<close>)
  have last: "last xs \<noteq> new" if "xs \<noteq> []"
    using last_in_set [OF that] kids(1) unfolding xs_def by (auto dest: set_takeWhileD)
  have "added b xs ys pre ch =
      linked(new := (linked new)\<lparr>nd_ch := ch, nd_len := nd_len (linked pre) + 1, nd_refNum := 0\<rparr>)"
    unfolding added_def Let_def new_def [symmetric] linked_def nodes_def
    using pre last by (cases "xs = []") (auto simp: fun_eq_iff)
  moreover have "addStr b pre ch = do {
      nodes \<leftarrow> link_node nodes pre ch new;
      Some (new, b\<lparr>lzb_maxCode := new,
        lzb_codeSize := (if new = 2 ^ lzb_codeSize b then lzb_codeSize b + 1 else lzb_codeSize b),
        lzb_nodes := nodes(new := (nodes new)\<lparr>nd_ch := ch, nd_len := nd_len (nodes pre) + 1, nd_refNum := 0\<rparr>),
        lzb_nodeSortVec := lzb_nodeSortVec b @ [new]\<rparr>) }"
    using assms(3) unfolding addStr_def Let_def nodes_def new_def by simp
  ultimately show ?thesis unfolding link new_def [symmetric] xs_def [symmetric] ys_def [symmetric] by simp
qed

end
