(* ===== verification/LzwTrie.thy ===== *)
theory LzwTrie
  imports LzwBuild
begin

text \<open>
  Every operation of the dictionary creator keeps the invariant of the nodes, and building from any
  data ends: the nodes stay a trie with ordered siblings, and a string stays strictly more
  frequent than its extensions.
\<close>

section \<open>Adding a string keeps the trie\<close>

lemma added_fields:
  assumes "pre \<noteq> lzb_maxCode b + 1" and "xs \<noteq> [] \<Longrightarrow> last xs \<noteq> lzb_maxCode b + 1"
  shows "nd_prev (added b xs ys pre ch i) = (if i = lzb_maxCode b + 1 then pre else nd_prev (lzb_nodes b i))"
    and "nd_ch (added b xs ys pre ch i) = (if i = lzb_maxCode b + 1 then ch else nd_ch (lzb_nodes b i))"
    and "nd_len (added b xs ys pre ch i) =
           (if i = lzb_maxCode b + 1 then nd_len (lzb_nodes b pre) + 1 else nd_len (lzb_nodes b i))"
    and "nd_refNum (added b xs ys pre ch i) = (if i = lzb_maxCode b + 1 then 0 else nd_refNum (lzb_nodes b i))"
    and "nd_code (added b xs ys pre ch i) = nd_code (lzb_nodes b i)"
    and "nd_first (added b xs ys pre ch i) =
           (if i = lzb_maxCode b + 1 then UTIL_INVALID_DICT_CODE
            else if i = pre \<and> xs = [] then lzb_maxCode b + 1 else nd_first (lzb_nodes b i))"
    and "nd_next (added b xs ys pre ch i) =
           (if i = lzb_maxCode b + 1 then chain_head ys
            else if xs \<noteq> [] \<and> i = last xs then lzb_maxCode b + 1 else nd_next (lzb_nodes b i))"
  using assms by (auto simp: added_def Let_def)

text \<open>The smaller and the larger siblings of a new child.\<close>

definition smaller :: "utilLZWBuilder \<Rightarrow> (nat \<Rightarrow> nat list) \<Rightarrow> nat \<Rightarrow> byte \<Rightarrow> nat list" where
  "smaller b kids pre ch = takeWhile (\<lambda>x. nd_ch (lzb_nodes b x) < ch) (kids pre)"

definition larger :: "utilLZWBuilder \<Rightarrow> (nat \<Rightarrow> nat list) \<Rightarrow> nat \<Rightarrow> byte \<Rightarrow> nat list" where
  "larger b kids pre ch = dropWhile (\<lambda>x. nd_ch (lzb_nodes b x) < ch) (kids pre)"

definition new_nodes :: "utilLZWBuilder \<Rightarrow> (nat \<Rightarrow> nat list) \<Rightarrow> nat \<Rightarrow> byte \<Rightarrow> nat \<Rightarrow> utilLZWNode" where
  "new_nodes b kids pre ch = added b (smaller b kids pre ch) (larger b kids pre ch) pre ch"

lemma kids_split: "kids pre = smaller b kids pre ch @ larger b kids pre ch"
  by (simp add: smaller_def larger_def)

lemma kids_mem:
  assumes "trie b kids" and "p \<le> lzb_maxCode b"
  shows "x \<in> set (kids p) \<longleftrightarrow> 256 \<le> x \<and> x \<le> lzb_maxCode b \<and> nd_prev (lzb_nodes b x) = p"
  using trie_kids [OF assms] by auto

lemma last_smaller:
  assumes "trie b kids" and "pre \<le> lzb_maxCode b" and "smaller b kids pre ch \<noteq> []"
  shows "last (smaller b kids pre ch) \<in> set (kids pre)"
    and "last (smaller b kids pre ch) \<le> lzb_maxCode b"
    and "nd_prev (lzb_nodes b (last (smaller b kids pre ch))) = pre"
proof -
  show "last (smaller b kids pre ch) \<in> set (kids pre)"
    using last_in_set [OF assms(3)] kids_split [of kids pre b ch] by (metis UnI1 set_append)
  then show "last (smaller b kids pre ch) \<le> lzb_maxCode b"
    and "nd_prev (lzb_nodes b (last (smaller b kids pre ch))) = pre"
    using kids_mem [OF assms(1,2)] by auto
qed

lemma new_fields:
  assumes "trie b kids" and "pre \<le> lzb_maxCode b"
  shows "nd_prev (new_nodes b kids pre ch i) = (if i = lzb_maxCode b + 1 then pre else nd_prev (lzb_nodes b i))"
    and "nd_ch (new_nodes b kids pre ch i) = (if i = lzb_maxCode b + 1 then ch else nd_ch (lzb_nodes b i))"
    and "nd_len (new_nodes b kids pre ch i) =
           (if i = lzb_maxCode b + 1 then nd_len (lzb_nodes b pre) + 1 else nd_len (lzb_nodes b i))"
    and "nd_refNum (new_nodes b kids pre ch i) = (if i = lzb_maxCode b + 1 then 0 else nd_refNum (lzb_nodes b i))"
    and "nd_code (new_nodes b kids pre ch i) = nd_code (lzb_nodes b i)"
    and "nd_first (new_nodes b kids pre ch i) =
           (if i = lzb_maxCode b + 1 then UTIL_INVALID_DICT_CODE
            else if i = pre \<and> smaller b kids pre ch = [] then lzb_maxCode b + 1 else nd_first (lzb_nodes b i))"
    and "nd_next (new_nodes b kids pre ch i) =
           (if i = lzb_maxCode b + 1 then chain_head (larger b kids pre ch)
            else if smaller b kids pre ch \<noteq> [] \<and> i = last (smaller b kids pre ch) then lzb_maxCode b + 1
            else nd_next (lzb_nodes b i))"
proof -
  have "pre \<noteq> lzb_maxCode b + 1" using assms(2) by simp
  moreover have "smaller b kids pre ch \<noteq> [] \<Longrightarrow> last (smaller b kids pre ch) \<noteq> lzb_maxCode b + 1"
    using last_smaller(2) [OF assms, of ch] by linarith
  note f = added_fields [OF calculation this, of "larger b kids pre ch" ch i, folded new_nodes_def]
  show "nd_prev (new_nodes b kids pre ch i) = (if i = lzb_maxCode b + 1 then pre else nd_prev (lzb_nodes b i))"
    by (rule f(1))
  show "nd_ch (new_nodes b kids pre ch i) = (if i = lzb_maxCode b + 1 then ch else nd_ch (lzb_nodes b i))"
    by (rule f(2))
  show "nd_len (new_nodes b kids pre ch i) =
           (if i = lzb_maxCode b + 1 then nd_len (lzb_nodes b pre) + 1 else nd_len (lzb_nodes b i))"
    by (rule f(3))
  show "nd_refNum (new_nodes b kids pre ch i) = (if i = lzb_maxCode b + 1 then 0 else nd_refNum (lzb_nodes b i))"
    by (rule f(4))
  show "nd_code (new_nodes b kids pre ch i) = nd_code (lzb_nodes b i)" by (rule f(5))
  show "nd_first (new_nodes b kids pre ch i) =
           (if i = lzb_maxCode b + 1 then UTIL_INVALID_DICT_CODE
            else if i = pre \<and> smaller b kids pre ch = [] then lzb_maxCode b + 1 else nd_first (lzb_nodes b i))"
    by (rule f(6))
  show "nd_next (new_nodes b kids pre ch i) =
           (if i = lzb_maxCode b + 1 then chain_head (larger b kids pre ch)
            else if smaller b kids pre ch \<noteq> [] \<and> i = last (smaller b kids pre ch) then lzb_maxCode b + 1
            else nd_next (lzb_nodes b i))"
    by (rule f(7))
qed

lemma new_chain_pre:
  assumes "trie b kids" and "pre \<le> lzb_maxCode b"
  shows "chain (new_nodes b kids pre ch) (nd_first (new_nodes b kids pre ch pre))
           (smaller b kids pre ch @ (lzb_maxCode b + 1) # larger b kids pre ch)"
proof -
  let ?n = "new_nodes b kids pre ch" and ?new = "lzb_maxCode b + 1"
  let ?xs = "smaller b kids pre ch" and ?ys = "larger b kids pre ch"
  note f = new_fields [OF assms, of ch]
  have pre: "pre \<noteq> ?new" using assms(2) by simp
  have inv: "?new \<noteq> UTIL_INVALID_DICT_CODE" using trie_max [OF assms(1)] by (simp add: UTIL_INVALID_DICT_CODE_def)
  have old: "chain (lzb_nodes b) (nd_first (lzb_nodes b pre)) (?xs @ ?ys)"
    using trie_chain [OF assms] kids_split [of kids pre b ch] by simp
  have dist: "distinct (?xs @ ?ys)" using trie_distinct [OF assms] kids_split [of kids pre b ch] by simp
  have notin: "?new \<notin> set (?xs @ ?ys)"
    using kids_mem [OF assms, of ?new] unfolding kids_split [of kids pre b ch, symmetric] by simp
  show ?thesis
  proof (cases "?xs = []")
    case True
    then have "chain (lzb_nodes b) (chain_head ?ys) ?ys" using old chain_head_eq by fastforce
    moreover have "nd_next (?n y) = nd_next (lzb_nodes b y)" if "y \<in> set ?ys" for y
      using that notin True by (auto simp: f(7))
    ultimately have "chain ?n (chain_head ?ys) ?ys" using chain_cong [of ?ys ?n] by blast
    then show ?thesis using True pre inv by (simp add: f(6,7))
  next
    case False
    have "last ?xs \<noteq> ?new" using last_smaller(2) [OF assms False] by simp
    then have "chain ?n (nd_first (lzb_nodes b pre)) (?xs @ ?new # ?ys)"
      by (intro chain_insert [OF old False dist notin]) (use False inv in \<open>simp_all add: f(7)\<close>)
    then show ?thesis using False pre by (simp add: f(6))
  qed
qed

lemma new_chain_old:
  assumes "trie b kids" and "pre \<le> lzb_maxCode b" and "p \<le> lzb_maxCode b" and "p \<noteq> pre"
  shows "chain (new_nodes b kids pre ch) (nd_first (new_nodes b kids pre ch p)) (kids p)"
proof -
  let ?n = "new_nodes b kids pre ch"
  note f = new_fields [OF assms(1,2), of ch]
  have "nd_next (?n y) = nd_next (lzb_nodes b y)" if "y \<in> set (kids p)" for y
  proof -
    have y: "y \<le> lzb_maxCode b" "nd_prev (lzb_nodes b y) = p" using that kids_mem [OF assms(1,3)] by auto
    then have "\<not> (smaller b kids pre ch \<noteq> [] \<and> y = last (smaller b kids pre ch))"
      using last_smaller(3) [OF assms(1,2)] assms(4) by auto
    with y(1) show ?thesis by (auto simp: f(7))
  qed
  then have "chain ?n (nd_first (lzb_nodes b p)) (kids p)"
    using chain_cong [of "kids p" ?n "lzb_nodes b"] trie_chain [OF assms(1,3)] by blast
  then show ?thesis using assms(3,4) by (simp add: f(6))
qed

lemma new_sorted_pre:
  assumes "trie b kids" and "pre \<le> lzb_maxCode b" and "child_of b kids pre ch = None"
  shows "sorted_wrt (<) (map (nd_ch \<circ> new_nodes b kids pre ch)
           (smaller b kids pre ch @ (lzb_maxCode b + 1) # larger b kids pre ch))"
proof -
  let ?xs = "smaller b kids pre ch" and ?ys = "larger b kids pre ch" and ?ch = "\<lambda>x. nd_ch (lzb_nodes b x)"
  have s: "sorted_wrt (<) (map ?ch (?xs @ ?ys))"
    using trie_sorted [OF assms(1,2)] kids_split [of kids pre b ch] by (simp add: o_def)
  have xs: "\<forall>x \<in> set ?xs. ?ch x < ch" by (auto simp: smaller_def dest: set_takeWhileD)
  have ys: "\<forall>y \<in> set ?ys. ch < ?ch y"
  proof (cases ?ys)
    case (Cons y zs)
    have "y \<in> set (kids pre)" using Cons kids_split [of kids pre b ch] by (metis UnI2 list.set_intros(1) set_append)
    then have "?ch y \<noteq> ch" using assms(3) by (auto simp: child_of_def find_None_iff)
    moreover have "\<not> ?ch y < ch"
      using Cons by (simp add: larger_def dropWhile_eq_Cons_conv)
    ultimately have "ch < ?ch y" by (simp add: not_less order_le_less)
    moreover have "\<forall>z \<in> set zs. ?ch y < ?ch z" using s Cons by (simp add: sorted_wrt_append)
    ultimately show ?thesis using Cons by (auto intro: less_trans)
  qed simp
  have "lzb_maxCode b + 1 \<notin> set (?xs @ ?ys)"
    using kids_mem [OF assms(1,2)] unfolding kids_split [of kids pre b ch, symmetric] by simp
  then have "map (nd_ch \<circ> new_nodes b kids pre ch) ?xs = map ?ch ?xs"
    and "map (nd_ch \<circ> new_nodes b kids pre ch) ?ys = map ?ch ?ys"
    by (auto simp: new_fields(2) [OF assms(1,2)])
  then show ?thesis using s xs ys
    by (auto simp: sorted_wrt_append new_fields(2) [OF assms(1,2)] simp del: map_eq_conv)
qed


definition new_kids :: "utilLZWBuilder \<Rightarrow> (nat \<Rightarrow> nat list) \<Rightarrow> nat \<Rightarrow> byte \<Rightarrow> nat \<Rightarrow> nat list" where
  "new_kids b kids pre ch =
     kids(pre := smaller b kids pre ch @ (lzb_maxCode b + 1) # larger b kids pre ch, lzb_maxCode b + 1 := [])"

lemma new_cases:
  assumes "pre \<le> lzb_maxCode b" and "p \<le> lzb_maxCode b + 1"
  obtains "p = pre" "p \<noteq> lzb_maxCode b + 1" | "p = lzb_maxCode b + 1"
  | "p \<le> lzb_maxCode b" "p \<noteq> pre" "p \<noteq> lzb_maxCode b + 1"
  using assms by linarith

lemma new_kids_chain:
  assumes "trie b kids" and "pre \<le> lzb_maxCode b" and "p \<le> lzb_maxCode b + 1"
  shows "chain (new_nodes b kids pre ch) (nd_first (new_nodes b kids pre ch p)) (new_kids b kids pre ch p)"
  using assms(2,3)
proof (cases rule: new_cases)
  case 1
  then show ?thesis using new_chain_pre [OF assms(1,2), of ch] by (simp add: new_kids_def)
next
  case 2
  then show ?thesis by (simp add: new_kids_def new_fields(6) [OF assms(1,2)])
next
  case 3
  then show ?thesis using new_chain_old [OF assms(1,2) 3(1,2), of ch] by (simp add: new_kids_def)
qed

lemma new_kids_set:
  assumes "trie b kids" and "pre \<le> lzb_maxCode b" and "p \<le> lzb_maxCode b + 1"
  shows "set (new_kids b kids pre ch p) =
           {i. 256 \<le> i \<and> i \<le> lzb_maxCode b + 1 \<and> nd_prev (new_nodes b kids pre ch i) = p}"
  using assms(2,3)
proof (cases rule: new_cases)
  case 1
  have "set (new_kids b kids pre ch p) = insert (lzb_maxCode b + 1) (set (kids pre))"
    using 1 by (subst kids_split [of kids pre b ch]) (simp add: new_kids_def)
  also have "\<dots> = insert (lzb_maxCode b + 1) {i. 256 \<le> i \<and> i \<le> lzb_maxCode b \<and> nd_prev (lzb_nodes b i) = pre}"
    by (simp only: trie_kids [OF assms(1,2)])
  also have "\<dots> = {i. 256 \<le> i \<and> i \<le> lzb_maxCode b + 1 \<and> nd_prev (new_nodes b kids pre ch i) = p}"
    using 1 trie_max(1) [OF assms(1)] by (auto simp: new_fields(1) [OF assms(1,2)])
  finally show ?thesis .
next
  case 2
  have "nd_prev (new_nodes b kids pre ch i) \<noteq> lzb_maxCode b + 1" if "256 \<le> i" "i \<le> lzb_maxCode b + 1" for i
    using that assms(2) trie_prev [OF assms(1), of i] by (cases "i = lzb_maxCode b + 1") (auto simp: new_fields(1) [OF assms(1,2)])
  then show ?thesis using 2 by (auto simp: new_kids_def)
next
  case 3
  have "set (new_kids b kids pre ch p) = set (kids p)" using 3 by (simp add: new_kids_def)
  also have "\<dots> = {i. 256 \<le> i \<and> i \<le> lzb_maxCode b \<and> nd_prev (lzb_nodes b i) = p}" by (rule trie_kids [OF assms(1) 3(1)])
  also have "\<dots> = {i. 256 \<le> i \<and> i \<le> lzb_maxCode b + 1 \<and> nd_prev (new_nodes b kids pre ch i) = p}"
    using 3 by (auto simp: new_fields(1) [OF assms(1,2)])
  finally show ?thesis .
qed

lemma new_kids_sorted:
  assumes "trie b kids" and "pre \<le> lzb_maxCode b" and "child_of b kids pre ch = None" and "p \<le> lzb_maxCode b + 1"
  shows "sorted_wrt (<) (map (nd_ch \<circ> new_nodes b kids pre ch) (new_kids b kids pre ch p))"
  using assms(2,4)
proof (cases rule: new_cases)
  case 1
  then show ?thesis using new_sorted_pre [OF assms(1-3)] by (simp add: new_kids_def)
next
  case 2
  then show ?thesis by (simp add: new_kids_def)
next
  case 3
  have "lzb_maxCode b + 1 \<notin> set (kids p)" using kids_mem [OF assms(1) 3(1)] by simp
  then have eq: "map (nd_ch \<circ> new_nodes b kids pre ch) (kids p) = map (nd_ch \<circ> lzb_nodes b) (kids p)"
    by (auto simp: new_fields(2) [OF assms(1,2)])
  show ?thesis using trie_sorted [OF assms(1) 3(1)] 3 by (simp add: new_kids_def eq)
qed

lemma new_lengths:
  assumes "trie b kids" and "pre \<le> lzb_maxCode b" and "nd_len (lzb_nodes b pre) < 255"
    and "256 \<le> i" and "i \<le> lzb_maxCode b + 1"
  shows "nd_prev (new_nodes b kids pre ch i) < i \<and> nd_len (new_nodes b kids pre ch i) \<le> 255 \<and>
         nd_len (new_nodes b kids pre ch i) =
           nd_len (new_nodes b kids pre ch (nd_prev (new_nodes b kids pre ch i))) + 1"
proof (cases "i = lzb_maxCode b + 1")
  case True
  then show ?thesis using assms(2,3) by (simp add: new_fields [OF assms(1,2)])
next
  case False
  then have i: "i \<le> lzb_maxCode b" using assms(5) by simp
  have "nd_prev (lzb_nodes b i) \<noteq> lzb_maxCode b + 1" using trie_prev [OF assms(1,4) i] i by simp
  then show ?thesis
    using False trie_prev [OF assms(1,4) i] trie_len [OF assms(1,4) i] by (simp add: new_fields [OF assms(1,2)])
qed

lemma addStr_trie:
  assumes "trie b kids" and "pre \<le> lzb_maxCode b" and "lzb_maxCode b + 1 < lzb_maxNodeNum b"
    and "child_of b kids pre ch = None" and "nd_len (lzb_nodes b pre) < 255"
  shows "\<exists>b'. addStr b pre ch = Some (lzb_maxCode b + 1, b') \<and> trie b' (new_kids b kids pre ch) \<and>
           lzb_maxCode b' = lzb_maxCode b + 1 \<and> lzb_maxNodeNum b' = lzb_maxNodeNum b \<and>
           lzb_nodes b' = new_nodes b kids pre ch"
proof -
  note f = new_fields [OF assms(1,2), of ch]
  define b' where "b' = b\<lparr>lzb_maxCode := lzb_maxCode b + 1,
       lzb_codeSize := (if lzb_maxCode b + 1 = 2 ^ lzb_codeSize b then lzb_codeSize b + 1 else lzb_codeSize b),
       lzb_nodes := new_nodes b kids pre ch, lzb_nodeSortVec := lzb_nodeSortVec b @ [lzb_maxCode b + 1]\<rparr>"
  have b': "lzb_maxCode b' = lzb_maxCode b + 1" "lzb_maxNodeNum b' = lzb_maxNodeNum b"
    "lzb_nodes b' = new_nodes b kids pre ch" "lzb_nodeSortVec b' = lzb_nodeSortVec b @ [lzb_maxCode b + 1]"
    by (simp_all add: b'_def)
  have single: "\<forall>i < 256. nd_prev (new_nodes b kids pre ch i) = UTIL_INVALID_DICT_CODE \<and>
        nd_ch (new_nodes b kids pre ch i) = word_of_nat i \<and> nd_len (new_nodes b kids pre ch i) = 1"
    using trie_single [OF assms(1)] trie_max(1) [OF assms(1)] by (simp add: f(1,2,3))
  have fresh: "nd_next (new_nodes b kids pre ch i) = UTIL_INVALID_DICT_CODE" if "lzb_maxCode b + 1 < i" for i
  proof -
    have "\<not> (smaller b kids pre ch \<noteq> [] \<and> i = last (smaller b kids pre ch))"
      using last_smaller(2) [OF assms(1,2), of ch] that by auto
    then show ?thesis using that trie_fresh [OF assms(1), of i] by (auto simp: f(7))
  qed
  have vec: "lzb_nodeSortVec b @ [lzb_maxCode b + 1] = [0..<lzb_maxCode b + 1 + 1]"
    by (simp add: trie_vec [OF assms(1)])
  have lens: "\<forall>i. 256 \<le> i \<and> i \<le> lzb_maxCode b + 1 \<longrightarrow>
        nd_prev (new_nodes b kids pre ch i) < i \<and> nd_len (new_nodes b kids pre ch i) \<le> 255 \<and>
        nd_len (new_nodes b kids pre ch i) =
          nd_len (new_nodes b kids pre ch (nd_prev (new_nodes b kids pre ch i))) + 1"
    using new_lengths [OF assms(1,2,5), of _ ch] by blast
  have kids: "\<forall>p \<le> lzb_maxCode b + 1.
        chain (new_nodes b kids pre ch) (nd_first (new_nodes b kids pre ch p)) (new_kids b kids pre ch p) \<and>
        set (new_kids b kids pre ch p) =
          {i. 256 \<le> i \<and> i \<le> lzb_maxCode b + 1 \<and> nd_prev (new_nodes b kids pre ch i) = p} \<and>
        sorted_wrt (<) (map (nd_ch \<circ> new_nodes b kids pre ch) (new_kids b kids pre ch p))"
    using new_kids_chain [OF assms(1,2)] new_kids_set [OF assms(1,2)] new_kids_sorted [OF assms(1,2,4)] by blast
  have codes: "\<forall>i. nd_code (new_nodes b kids pre ch i) = UTIL_INVALID_DICT_CODE"
    using trie_code [OF assms(1)] f(5) by simp
  have max: "255 \<le> lzb_maxCode b + 1" using trie_max(1) [OF assms(1)] by simp
  have "trie b' (new_kids b kids pre ch)"
    unfolding trie_def b' vec
    using max assms(3) trie_max(3) [OF assms(1)] single lens kids codes fresh by blast
  moreover have "addStr b pre ch = Some (lzb_maxCode b + 1, b')"
    unfolding b'_def new_nodes_def smaller_def larger_def by (rule addStr_eq [OF assms(1-3)])
  ultimately show ?thesis using b' by blast
qed


section \<open>Frequencies\<close>

text \<open>
  After \<open>n\<close> searches the counters are below \<open>n + 2\<close>, and every string has a larger counter than
  its extensions. While a search walks down, the current string is ahead by one more.
\<close>

definition refs_ok :: "utilLZWBuilder \<Rightarrow> nat \<Rightarrow> bool" where
  "refs_ok b n \<longleftrightarrow>
     (\<forall>i < 256. 1 \<le> nd_refNum (lzb_nodes b i)) \<and>
     (\<forall>i. 256 \<le> i \<and> i \<le> lzb_maxCode b \<longrightarrow>
        nd_refNum (lzb_nodes b i) < nd_refNum (lzb_nodes b (nd_prev (lzb_nodes b i)))) \<and>
     (\<forall>i \<le> lzb_maxCode b. nd_refNum (lzb_nodes b i) \<le> n + 1)"

definition walk :: "utilLZWBuilder \<Rightarrow> nat \<Rightarrow> bool" where
  "walk b code \<longleftrightarrow> code \<le> lzb_maxCode b \<and> 1 \<le> nd_refNum (lzb_nodes b code) \<and>
     (256 \<le> code \<longrightarrow> (\<forall>i. 256 \<le> i \<and> i \<le> lzb_maxCode b \<and> nd_prev (lzb_nodes b i) = code \<longrightarrow>
        nd_refNum (lzb_nodes b i) + 2 \<le> nd_refNum (lzb_nodes b code)))"

lemma refs_okD:
  assumes "refs_ok b n"
  shows refs_init: "i < 256 \<Longrightarrow> 1 \<le> nd_refNum (lzb_nodes b i)"
    and refs_prev: "256 \<le> i \<Longrightarrow> i \<le> lzb_maxCode b \<Longrightarrow>
      nd_refNum (lzb_nodes b i) < nd_refNum (lzb_nodes b (nd_prev (lzb_nodes b i)))"
    and refs_max: "i \<le> lzb_maxCode b \<Longrightarrow> nd_refNum (lzb_nodes b i) \<le> n + 1"
  using assms by (auto simp: refs_ok_def)

lemma refs_ok_mono: "refs_ok b n \<Longrightarrow> n \<le> m \<Longrightarrow> refs_ok b m"
  by (force simp: refs_ok_def)

lemma init_refs: "refs_ok init 0"
  by (auto simp: refs_ok_def init_def init_node_def)

lemma walk_single: "trie b kids \<Longrightarrow> refs_ok b n \<Longrightarrow> walk b (unat (c :: byte))"
  using refs_init [of b n "unat c"] unsigned_less [of c, where ?'a = nat] trie_max(1) [of b kids]
  by (simp add: walk_def)

lemma counted_ref:
  assumes "refs_ok b n" and "n < 4294967290" and "i \<le> lzb_maxCode b" and "r \<noteq> Some pre"
  shows "nd_refNum (counted pre r (lzb_nodes b) i) =
           nd_refNum (lzb_nodes b i) + (if (i = pre \<and> pre \<le> 255) \<or> r = Some i then 1 else 0)"
proof -
  have "u32 (nd_refNum (lzb_nodes b i) + 1) = nd_refNum (lzb_nodes b i) + 1"
    using refs_max [OF assms(1,3)] assms(2) by (simp add: u32_id)
  then show ?thesis using assms(4)
    by (auto simp: counted_def count_ref_def Let_def split: option.split)
qed

lemma findStr_refs:
  assumes "trie b kids" and "refs_ok b n" and "n < 4294967290" and "walk b pre"
    and b': "b' = b\<lparr>lzb_nodes := counted pre (child_of b kids pre ch) (lzb_nodes b)\<rparr>"
  shows "refs_ok b' (n + 1)"
    and "child_of b kids pre ch = None \<Longrightarrow> 1 \<le> nd_refNum (lzb_nodes b' pre)"
    and "child_of b kids pre ch = Some x \<Longrightarrow> walk b' x"
proof -
  let ?r = "child_of b kids pre ch"
  have pre: "pre \<le> lzb_maxCode b" "1 \<le> nd_refNum (lzb_nodes b pre)" using assms(4) by (auto simp: walk_def)
  note child = child_of_Some [OF assms(1) pre(1), of ch]
  have ne: "?r \<noteq> Some pre" using child(6) by auto
  have ref: "nd_refNum (lzb_nodes b' i) =
      nd_refNum (lzb_nodes b i) + (if (i = pre \<and> pre \<le> 255) \<or> ?r = Some i then 1 else 0)" if "i \<le> lzb_maxCode b" for i
    using counted_ref [OF assms(2,3) that ne] by (simp add: b')
  have [simp]: "nd_prev (lzb_nodes b' i) = nd_prev (lzb_nodes b i)" "lzb_maxCode b' = lzb_maxCode b" for i
    using same_linksD(2) [OF counted_links] by (simp_all add: b')
  have prev: "nd_prev (lzb_nodes b i) \<le> lzb_maxCode b" if "256 \<le> i" "i \<le> lzb_maxCode b" for i
    using trie_prev [OF assms(1) that] that by simp
  have less: "nd_refNum (lzb_nodes b' i) < nd_refNum (lzb_nodes b' (nd_prev (lzb_nodes b i)))"
    if i: "256 \<le> i" "i \<le> lzb_maxCode b" for i
  proof (cases "?r = Some i")
    case True
    then have "nd_prev (lzb_nodes b i) = pre" using child(3) by blast
    then show ?thesis using refs_prev [OF assms(2) i] ref [OF i(2)] ref [OF pre(1)] True i assms(4)
      by (cases "pre \<le> 255") (auto simp: walk_def)
  next
    case False
    then show ?thesis using refs_prev [OF assms(2) i] ref [OF i(2)] ref [OF prev [OF i]] i by auto
  qed
  show "refs_ok b' (n + 1)"
    unfolding refs_ok_def
  proof (intro conjI allI impI)
    show "1 \<le> nd_refNum (lzb_nodes b' i)" if "i < 256" for i
      using that ref [of i] refs_init [OF assms(2) that] trie_max(1) [OF assms(1)] by auto
    show "nd_refNum (lzb_nodes b' i) \<le> n + 1 + 1" if "i \<le> lzb_maxCode b'" for i
      using that ref [of i] refs_max [OF assms(2), of i] by auto
  qed (use less in auto)
  show "1 \<le> nd_refNum (lzb_nodes b' pre)" if "?r = None" using ref [OF pre(1)] pre(2) by simp
  show "walk b' x" if x: "?r = Some x"
  proof -
    have "nd_refNum (lzb_nodes b' i) + 2 \<le> nd_refNum (lzb_nodes b' x)"
      if i: "256 \<le> i" "i \<le> lzb_maxCode b" "nd_prev (lzb_nodes b i) = x" for i
    proof -
      have "i \<noteq> x" using trie_prev [OF assms(1) i(1,2)] i(3) by auto
      then show ?thesis using refs_prev [OF assms(2) i(1,2)] ref [OF i(2)] ref [OF child(2) [OF x]] i(1,3) x by auto
    qed
    then show ?thesis using ref [OF child(2) [OF x]] child(2) [OF x] x by (auto simp: walk_def)
  qed
qed

lemma addStr_refs:
  assumes "trie b kids" and "refs_ok b n" and "pre \<le> lzb_maxCode b" and "1 \<le> nd_refNum (lzb_nodes b pre)"
    and "lzb_maxCode b' = lzb_maxCode b + 1" and "lzb_nodes b' = new_nodes b kids pre ch"
  shows "refs_ok b' n"
  unfolding refs_ok_def
proof (intro conjI allI impI)
  note f = new_fields [OF assms(1,3), of ch]
  show "1 \<le> nd_refNum (lzb_nodes b' i)" if "i < 256" for i
    using that refs_init [OF assms(2) that] trie_max(1) [OF assms(1)] by (simp add: assms(6) f(4))
  show "nd_refNum (lzb_nodes b' i) \<le> n + 1" if "i \<le> lzb_maxCode b'" for i
    using that refs_max [OF assms(2), of i] by (simp add: assms(5,6) f(4))
  show "nd_refNum (lzb_nodes b' i) < nd_refNum (lzb_nodes b' (nd_prev (lzb_nodes b' i)))"
    if i: "256 \<le> i \<and> i \<le> lzb_maxCode b'" for i
  proof (cases "i = lzb_maxCode b + 1")
    case True
    then show ?thesis using assms(3,4) by (simp add: assms(6) f(1,4))
  next
    case False
    then have "i \<le> lzb_maxCode b" using i assms(5) by simp
    with i trie_prev [OF assms(1), of i] refs_prev [OF assms(2), of i] False show ?thesis
      by (simp add: assms(6) f(1,4))
  qed
qed

section \<open>Building keeps both\<close>

definition dict_inv :: "utilLZWBuilder \<Rightarrow> nat \<Rightarrow> bool" where
  "dict_inv b n \<longleftrightarrow> (\<exists>kids. trie b kids) \<and> refs_ok b n"

lemma build_step:
  assumes "trie b kids" and "refs_ok b n" and "n < 4294967290" and "walk b code"
    and "nd_len (lzb_nodes b code) < 255"
  shows "\<exists>r b1. findStr b code ch = Some (r, b1) \<and> lzb_maxNodeNum b1 = lzb_maxNodeNum b \<and>
     (r = UTIL_INVALID_DICT_CODE \<and>
        (\<exists>r2 b2 kids2. addStr b1 code ch = Some (r2, b2) \<and> trie b2 kids2 \<and> refs_ok b2 (n + 1) \<and>
           lzb_maxNodeNum b2 = lzb_maxNodeNum b) \<or>
      r \<noteq> UTIL_INVALID_DICT_CODE \<and> trie b1 kids \<and> refs_ok b1 (n + 1) \<and> walk b1 r \<and>
        nd_len (lzb_nodes b1 r) = nd_len (lzb_nodes b code) + 1)"
proof -
  have code: "code \<le> lzb_maxCode b" using assms(4) by (simp add: walk_def)
  define b1 where "b1 = b\<lparr>lzb_nodes := counted code (child_of b kids code ch) (lzb_nodes b)\<rparr>"
  note links = same_linksD [OF counted_links]
  have t1: "trie b1 kids" unfolding b1_def by (rule trie_same_links [OF assms(1) counted_links])
  have find: "findStr b code ch = Some (case child_of b kids code ch of None \<Rightarrow> UTIL_INVALID_DICT_CODE | Some x \<Rightarrow> x, b1)"
    using findStr_ok [OF assms(1) code, of ch] by (simp only: b1_def)
  note refs = findStr_refs [OF assms(1-4) b1_def]
  have b1: "lzb_maxCode b1 = lzb_maxCode b" "lzb_maxNodeNum b1 = lzb_maxNodeNum b" by (simp_all add: b1_def)
  show ?thesis
  proof (cases "child_of b kids code ch")
    case None
    then have none: "child_of b1 kids code ch = None" by (simp add: child_of_def b1_def links)
    have "\<exists>r2 b2 kids2. addStr b1 code ch = Some (r2, b2) \<and> trie b2 kids2 \<and> refs_ok b2 (n + 1) \<and>
        lzb_maxNodeNum b2 = lzb_maxNodeNum b"
    proof (cases "lzb_maxCode b1 + 1 = lzb_maxNodeNum b1")
      case True
      then show ?thesis using addStr_full [OF True] t1 refs(1) b1 by auto
    next
      case False
      then have "lzb_maxCode b1 + 1 < lzb_maxNodeNum b1" using trie_max(2) [OF t1] by simp
      then obtain b2 where b2: "addStr b1 code ch = Some (lzb_maxCode b1 + 1, b2)" "trie b2 (new_kids b1 kids code ch)"
          "lzb_maxCode b2 = lzb_maxCode b1 + 1" "lzb_maxNodeNum b2 = lzb_maxNodeNum b1"
          "lzb_nodes b2 = new_nodes b1 kids code ch"
        using addStr_trie [OF t1 _ _ none] code assms(5) b1 by (auto simp: b1_def links)
      have "refs_ok b2 (n + 1)"
        using addStr_refs [OF t1 refs(1) _ refs(2) [OF None] b2(3,5)] code b1 by simp
      with b2 b1 show ?thesis by auto
    qed
    with find None b1 show ?thesis by simp
  next
    case (Some x)
    note child = child_of_Some [OF assms(1) code Some]
    have "nd_len (lzb_nodes b1 x) = nd_len (lzb_nodes b code) + 1"
      using trie_len(2) [OF assms(1) child(1,2)] child(3) by (simp add: b1_def links)
    with find Some b1 t1 refs(1) refs(3) [OF Some] child(5) show ?thesis by simp
  qed
qed


lemma build_loop_ok:
  assumes "trie b kids" and "refs_ok b n" and "n + (length source - pos) < 4294967290"
    and "\<not> restart \<Longrightarrow> walk b code \<and> nd_len (lzb_nodes b code) = strLen \<and> strLen < 255"
  shows "\<exists>b' full. build_loop source b pos restart code strLen = Some (b', full) \<and>
           dict_inv b' (n + (length source - pos)) \<and> lzb_maxNodeNum b' = lzb_maxNodeNum b"
  using assms
proof (induction "length source - pos" arbitrary: b kids n pos restart code strLen rule: less_induct)
  case less
  have stop: "dict_inv b m" if "n \<le> m" for m
    using less.prems(1,2) refs_ok_mono that by (auto simp: dict_inv_def)
  show ?case
  proof (cases "pos < length source \<and> \<not> (restart \<and> pos + 1 = length source)")
    case False
    then have "build_loop source b pos restart code strLen = Some (b, False)"
      by (subst build_loop.simps) auto
    then show ?thesis using stop by auto
  next
    case True
    define code' where "code' = (if restart then unat (source ! pos) else code)"
    define strLen' where "strLen' = (if restart then 1 else strLen)"
    define pos' where "pos' = (if restart then pos + 1 else pos)"
    have pos': "pos' < length source" "pos \<le> pos'" using True by (auto simp: pos'_def)
    have w: "walk b code'" "nd_len (lzb_nodes b code') = strLen'" "strLen' < 255"
      using less.prems(4) walk_single [OF less.prems(1,2), of "source ! pos"]
        trie_single(3) [OF less.prems(1), of "unat (source ! pos)"]
        unsigned_less [of "source ! pos", where ?'a = nat]
      by (auto simp: code'_def strLen'_def)
    have step: "build_loop source b pos restart code strLen = do {
          (nextCode, b) \<leftarrow> findStr b code' (source ! pos');
          if nextCode = UTIL_INVALID_DICT_CODE then do {
            (nextCode, b) \<leftarrow> addStr b code' (source ! pos');
            if nextCode = u32_sub (lzb_maxNodeNum b) 1 then Some (b, True)
            else build_loop source b (pos' + 1) False (unat (source ! pos')) 1
          }
          else build_loop source b (pos' + 1) (UTIL_MAX_DICT_STR_LEN \<le> strLen' + 1) nextCode (strLen' + 1)
        }"
    proof (cases restart)
      case r: True
      have eqs: "code' = unat (source ! pos)" "strLen' = 1" "pos' = pos + 1"
        using r by (simp_all add: code'_def strLen'_def pos'_def)
      show ?thesis unfolding eqs
        by (subst build_loop.simps) (use True r in \<open>simp add: Let_def del: One_nat_def\<close>)
    next
      case r: False
      have eqs: "code' = code" "strLen' = strLen" "pos' = pos"
        using r by (simp_all add: code'_def strLen'_def pos'_def)
      show ?thesis unfolding eqs
        by (subst build_loop.simps) (use True r in \<open>simp add: Let_def del: One_nat_def\<close>)
    qed
    have n: "n < 4294967290" "n + 1 + (length source - (pos' + 1)) < 4294967290"
      "n + 1 + (length source - (pos' + 1)) \<le> n + (length source - pos)"
      using less.prems(3) pos' by auto
    have len: "nd_len (lzb_nodes b code') < 255" using w(2,3) by simp
    obtain r b1 where r: "findStr b code' (source ! pos') = Some (r, b1)" "lzb_maxNodeNum b1 = lzb_maxNodeNum b"
      "r = UTIL_INVALID_DICT_CODE \<and>
        (\<exists>r2 b2 kids2. addStr b1 code' (source ! pos') = Some (r2, b2) \<and> trie b2 kids2 \<and> refs_ok b2 (n + 1) \<and>
           lzb_maxNodeNum b2 = lzb_maxNodeNum b) \<or>
       r \<noteq> UTIL_INVALID_DICT_CODE \<and> trie b1 kids \<and> refs_ok b1 (n + 1) \<and> walk b1 r \<and>
        nd_len (lzb_nodes b1 r) = nd_len (lzb_nodes b code') + 1"
      using build_step [OF less.prems(1,2) n(1) w(1) len, of "source ! pos'"] by blast
    have weaken: "dict_inv b' (n + (length source - pos))" if "dict_inv b' (n + 1 + (length source - (pos' + 1)))" for b'
      using that n(3) refs_ok_mono by (auto simp: dict_inv_def)
    from r(3) show ?thesis
    proof (elim disjE conjE exE)
      fix r2 b2 kids2
      assume a: "r = UTIL_INVALID_DICT_CODE" "addStr b1 code' (source ! pos') = Some (r2, b2)" "trie b2 kids2"
        "refs_ok b2 (n + 1)" "lzb_maxNodeNum b2 = lzb_maxNodeNum b"
      show ?thesis
      proof (cases "r2 = u32_sub (lzb_maxNodeNum b2) 1")
        case True
        have "dict_inv b2 (n + 1 + (length source - (pos' + 1)))"
          using a(3,4) refs_ok_mono by (auto simp: dict_inv_def)
        with True a r(1) weaken show ?thesis by (auto simp: step)
      next
        case False
        have "\<exists>b' full. build_loop source b2 (pos' + 1) False (unat (source ! pos')) 1 = Some (b', full) \<and>
           dict_inv b' (n + 1 + (length source - (pos' + 1))) \<and> lzb_maxNodeNum b' = lzb_maxNodeNum b2"
          by (rule less.hyps [OF _ a(3,4) n(2)])
            (use pos' walk_single [OF a(3,4), of "source ! pos'"] trie_single(3) [OF a(3), of "unat (source ! pos')"]
              unsigned_less [of "source ! pos'", where ?'a = nat] in auto)
        with False a r(1) weaken show ?thesis by (auto simp: step)
      qed
    next
      assume a: "r \<noteq> UTIL_INVALID_DICT_CODE" "trie b1 kids" "refs_ok b1 (n + 1)" "walk b1 r"
        "nd_len (lzb_nodes b1 r) = nd_len (lzb_nodes b code') + 1"
      have "\<exists>b' full. build_loop source b1 (pos' + 1) (UTIL_MAX_DICT_STR_LEN \<le> strLen' + 1) r (strLen' + 1) = Some (b', full) \<and>
           dict_inv b' (n + 1 + (length source - (pos' + 1))) \<and> lzb_maxNodeNum b' = lzb_maxNodeNum b1"
        by (rule less.hyps [OF _ a(2,3) n(2)])
          (use pos' a w(2) in \<open>auto simp: UTIL_MAX_DICT_STR_LEN_def\<close>)
      with a r(1,2) weaken show ?thesis by (auto simp: step)
    qed
  qed
qed

text \<open>Building from data that is not empty ends and keeps the invariant.\<close>

lemma build_ok:
  assumes "dict_inv b n" and "source \<noteq> []" and "n + length source < 4294967290"
  shows "\<exists>b' full. build b source = Some (b', full) \<and> dict_inv b' (n + length source) \<and>
           lzb_maxNodeNum b' = lzb_maxNodeNum b"
proof -
  obtain kids where t: "trie b kids" "refs_ok b n" using assms(1) by (auto simp: dict_inv_def)
  let ?c = "unat (source ! 0)"
  have "\<exists>b' full. build_loop source b 1 False ?c 1 = Some (b', full) \<and>
      dict_inv b' (n + (length source - 1)) \<and> lzb_maxNodeNum b' = lzb_maxNodeNum b"
    by (rule build_loop_ok [OF t])
      (use assms(3) walk_single [OF t, of "source ! 0"] trie_single(3) [OF t(1), of ?c]
        unsigned_less [of "source ! 0", where ?'a = nat] in auto)
  moreover have "aref source 0 = Some (source ! 0)" using assms(2) by (simp add: aref_def)
  moreover have "dict_inv b' (n + (length source - 1)) \<Longrightarrow> dict_inv b' (n + length source)" for b'
    using refs_ok_mono by (force simp: dict_inv_def)
  ultimately show ?thesis by (auto simp: build_def)
qed

text \<open>The creator fed with a list of records.\<close>

fun build_all :: "utilLZWBuilder \<Rightarrow> byte list list \<Rightarrow> utilLZWBuilder option" where
  "build_all b [] = Some b"
| "build_all b (source # sources) = do {
     (b, full) \<leftarrow> build b source;
     if full then Some b else build_all b sources
   }"

lemma init_inv: "dict_inv init 0"
  using init_trie init_refs by (auto simp: dict_inv_def)

lemma build_all_ok:
  assumes "dict_inv b n" and "[] \<notin> set sources" and "n + sum_list (map length sources) < 4294967290"
  shows "\<exists>b'. build_all b sources = Some b' \<and> dict_inv b' (n + sum_list (map length sources)) \<and>
           lzb_maxNodeNum b' = lzb_maxNodeNum b"
  using assms
proof (induction sources arbitrary: b n)
  case (Cons source sources)
  then obtain b1 full where b1: "build b source = Some (b1, full)" "dict_inv b1 (n + length source)"
      "lzb_maxNodeNum b1 = lzb_maxNodeNum b"
    using build_ok [OF Cons.prems(1), of source] by fastforce
  show ?case
  proof (cases full)
    case True
    have "dict_inv b1 (n + sum_list (map length (source # sources)))"
      using b1(2) refs_ok_mono by (force simp: dict_inv_def)
    with True b1 show ?thesis by simp
  next
    case False
    with Cons.IH [OF b1(2)] Cons.prems(2,3) b1 show ?thesis by (simp add: add.assoc)
  qed
qed simp

end
