(* ===== verification/LzwFinalize.thy ===== *)
theory LzwFinalize
  imports LzwItems LzwTrie
begin

text \<open>
  \<^verbatim>\<open>_utilLZWDictionary::finalize\<close>: the nodes are sorted by frequency, the most frequent strings get
  the codes of the finished dictionary, the compression string table is filled level by level and
  the decompression string table from the longest strings to the shortest, with string area and
  links. \<^verbatim>\<open>std::sort\<close> is an argument, since it leaves the order of equal elements open. The
  buffer is split into its parts as \<^verbatim>\<open>attach\<close> splits it; a write outside is \<open>None\<close>.
\<close>

section \<open>Codes\<close>

text \<open>The nodes in the order of the sorted vector get the codes 0, 1, ...; the single characters
  are never left out.\<close>

fun assign_codes ::
  "nat list \<Rightarrow> (nat \<Rightarrow> utilLZWNode) \<Rightarrow> nat \<Rightarrow> nat \<Rightarrow> int \<Rightarrow> int \<Rightarrow> (nat \<Rightarrow> utilLZWNode) \<times> nat" where
  "assign_codes [] nodes code maxValid remainInitNode remainCode = (nodes, maxValid)"
| "assign_codes (currentIdx # rest) nodes code maxValid remainInitNode remainCode =
     (let single = (currentIdx \<le> UTIL_MAX_DICT_INIT_CODE);
          remainInitNode = (if single then remainInitNode - 1 else remainInitNode) in
      if \<not> single \<and> remainCode \<le> remainInitNode
      then assign_codes rest nodes code maxValid remainInitNode remainCode
      else
        (let nodes = nodes(currentIdx := (nodes currentIdx)\<lparr>nd_code := code\<rparr>) in
         if code + 1 = UTIL_MAX_DICT_ITEM_NUM then (nodes, code)
         else assign_codes rest nodes (code + 1) code remainInitNode (remainCode - 1)))"

function calcCodeSize :: "nat \<Rightarrow> nat" where
  "calcCodeSize code = (if code div 2 = 0 then 1 else calcCodeSize (code div 2) + 1)"
  by auto
termination by (relation "measure id") auto

declare calcCodeSize.simps [simp del]

definition setVarLenSplitInfo :: "nat \<Rightarrow> nat list" where
  "setVarLenSplitInfo codeSize = [codeSize - 7, codeSize - 5, codeSize - 3, codeSize]"

definition final_head :: "nat \<Rightarrow> nat \<Rightarrow> utilLZWDictHead" where
  "final_head maxCode maxValid =
     \<lparr>lzh_maxCode = maxCode, lzh_maxValidCode = maxValid, lzh_codeSize = calcCodeSize maxValid,
      lzh_varLenFlagSize = UTIL_VAR_LEN_FLAG_SIZE,
      lzh_splitInfo = setVarLenSplitInfo (calcCodeSize maxValid)\<rparr>"

section \<open>The compression string table\<close>

record cstState =
  ct_nextIdx :: nat
  ct_indexMap :: "nat \<rightharpoonup> nat"
  ct_cst :: "32 word list"
  ct_codeMap :: "nat list"

definition index_of :: "(nat \<rightharpoonup> nat) \<Rightarrow> nat \<Rightarrow> nat" where
  "index_of indexMap k = (case indexMap k of None \<Rightarrow> 0 | Some i \<Rightarrow> i)"

definition cst_set :: "(32 word \<Rightarrow> 32 word) \<Rightarrow> nat \<Rightarrow> cstState \<Rightarrow> cstState option" where
  "cst_set f i st = do {
     item \<leftarrow> aref (ct_cst st) i;
     cst \<leftarrow> aset (ct_cst st) i (f item);
     Some (st\<lparr>ct_cst := cst\<rparr>)
   }"

text \<open>A node is put at the next index: its character, its code and the way back to the node.\<close>

definition cst_place :: "(nat \<Rightarrow> utilLZWNode) \<Rightarrow> nat \<Rightarrow> cstState \<Rightarrow> cstState option" where
  "cst_place nodes index st = do {
     st \<leftarrow> cst_set (\<lambda>item. CST_SET_CHAR item (nd_ch (nodes index))) (ct_nextIdx st) st;
     codeMap \<leftarrow> aset (ct_codeMap st) (ct_nextIdx st) (nd_code (nodes index));
     Some (st\<lparr>ct_indexMap := (ct_indexMap st)(ct_nextIdx st \<mapsto> index), ct_codeMap := codeMap,
              ct_nextIdx := ct_nextIdx st + 1\<rparr>)
   }"

partial_function (option) group_loop ::
  "(nat \<Rightarrow> utilLZWNode) \<Rightarrow> nat \<Rightarrow> nat \<Rightarrow> nat \<Rightarrow> bool \<Rightarrow> cstState \<Rightarrow> (bool \<times> cstState) option" where
  "group_loop nodes parentIdx nextPos index posSet st = do {
     (posSet, st) \<leftarrow>
       (if nd_code (nodes index) \<noteq> UTIL_INVALID_DICT_CODE then do {
          st \<leftarrow> cst_place nodes index st;
          if \<not> posSet then do {
            st \<leftarrow> cst_set (\<lambda>item. CST_SET_CHILD item nextPos) parentIdx st;
            Some (True, st)
          } else Some (posSet, st)
        } else Some (posSet, st));
     let index = nd_next (nodes index);
     if index \<noteq> UTIL_INVALID_DICT_CODE then group_loop nodes parentIdx nextPos index posSet st
     else Some (posSet, st)
   }"

declare group_loop.simps [code]

definition formatOneGrp :: "(nat \<Rightarrow> utilLZWNode) \<Rightarrow> nat \<Rightarrow> cstState \<Rightarrow> cstState option" where
  "formatOneGrp nodes parentIdx st =
     (let code = nd_first (nodes (index_of (ct_indexMap st) parentIdx)) in
      if code = UTIL_INVALID_DICT_CODE then cst_set (\<lambda>item. CST_SET_CHILD item CST_INVALID_CHILD) parentIdx st
      else do {
        (posSet, st) \<leftarrow> group_loop nodes parentIdx (ct_nextIdx st) code False st;
        if \<not> posSet then cst_set (\<lambda>item. CST_SET_CHILD item CST_INVALID_CHILD) parentIdx st
        else Some st
      })"

text \<open>The single characters come first; the counter ends where the children start.\<close>

fun cst_singles :: "(nat \<Rightarrow> utilLZWNode) \<Rightarrow> nat \<Rightarrow> cstState \<Rightarrow> cstState option" where
  "cst_singles nodes 0 st = Some st"
| "cst_singles nodes (Suc n) st = cst_place nodes (ct_nextIdx st) st \<bind> cst_singles nodes n"

partial_function (option) cst_groups :: "(nat \<Rightarrow> utilLZWNode) \<Rightarrow> nat \<Rightarrow> cstState \<Rightarrow> cstState option" where
  "cst_groups nodes index st =
     (if index < ct_nextIdx st then formatOneGrp nodes index st \<bind> cst_groups nodes (index + 1)
      else Some st)"

declare cst_groups.simps [code]

section \<open>The decompression string table\<close>

record dstState =
  dt_dst :: "32 word list"
  dt_strArea :: "byte list"
  dt_offset :: nat

definition dst_set :: "(32 word \<Rightarrow> 32 word) \<Rightarrow> nat \<Rightarrow> dstState \<Rightarrow> dstState option" where
  "dst_set f i st = do {
     item \<leftarrow> aref (dt_dst st) i;
     dst \<leftarrow> aset (dt_dst st) i (f item);
     Some (st\<lparr>dt_dst := dst\<rparr>)
   }"

definition set_local :: "(nat \<Rightarrow> utilLZWNode) \<Rightarrow> nat \<Rightarrow> dstState \<Rightarrow> dstState option" where
  "set_local nodes code st =
     dst_set (\<lambda>item. DST_SET_LOCAL_STR (DST_SET_LOCAL_LEN item (nd_len (nodes code))) (getStr nodes code))
       (nd_code (nodes code)) st"

text \<open>The bytes of a remote string, collected backwards in a buffer of 255 bytes: up to the root, or
  up to a prefix of more than four characters that has an item already, whose code is put in front.\<close>

partial_function (option) remote_bytes ::
  "(nat \<Rightarrow> utilLZWNode) \<Rightarrow> 32 word list \<Rightarrow> nat \<Rightarrow> byte list \<Rightarrow> (sdb_rc \<times> byte list \<times> bool) option" where
  "remote_bytes nodes dst preCode strBuff =
     (if length strBuff = UTIL_MAX_DICT_STR_LEN then Some (SDB_SYS, strBuff, False)
      else do {
        let strBuff = nd_ch (nodes preCode) # strBuff;
        let preCode = nd_prev (nodes preCode);
        if preCode = UTIL_INVALID_DICT_CODE then Some (SDB_OK, strBuff, False)
        else do {
          let realCode = nd_code (nodes preCode);
          item \<leftarrow> aref dst realCode;
          if item \<noteq> 0 \<and> \<not> nd_len (nodes preCode) \<le> 4 then
            if length strBuff + 3 \<le> UTIL_MAX_DICT_STR_LEN
            then Some (SDB_OK, link_bytes realCode @ strBuff, True) else None
          else remote_bytes nodes dst preCode strBuff
        }
      })"

declare remote_bytes.simps [code]

definition set_remote :: "bool \<Rightarrow> nat \<Rightarrow> nat \<Rightarrow> 32 word \<Rightarrow> 32 word" where
  "set_remote link pos len item =
     (let item = DST_SET_REMOTE_FLAG item;
          item = (if link then DST_SET_LINK_FLAG item else item) in
      DST_SET_REMOTE_LEN (DST_SET_REMOTE_POS item pos) len)"

text \<open>The items of the prefixes that have none yet point into the same bytes.\<close>

partial_function (option) remote_prefixes ::
  "(nat \<Rightarrow> utilLZWNode) \<Rightarrow> bool \<Rightarrow> nat \<Rightarrow> nat \<Rightarrow> nat \<Rightarrow> dstState \<Rightarrow> dstState option" where
  "remote_prefixes nodes link totalLen i preCode st =
     (if preCode = UTIL_INVALID_DICT_CODE then Some st
      else do {
        item \<leftarrow> aref (dt_dst st) (nd_code (nodes preCode));
        if item \<noteq> 0 then Some st
        else do {
          st \<leftarrow> (if nd_len (nodes preCode) > DST_MAX_LOCAL_LEN
                 then dst_set (set_remote link (dt_offset st) (u32_sub totalLen i)) (nd_code (nodes preCode)) st
                 else set_local nodes preCode st);
          remote_prefixes nodes link totalLen (i + 1) (nd_prev (nodes preCode)) st
        }
      })"

declare remote_prefixes.simps [code]

definition formatRemoteStr :: "(nat \<Rightarrow> utilLZWNode) \<Rightarrow> nat \<Rightarrow> dstState \<Rightarrow> (sdb_rc \<times> dstState) option" where
  "formatRemoteStr nodes code st = do {
     (rc, bytes, link) \<leftarrow> remote_bytes nodes (dt_dst st) code [];
     if rc \<noteq> SDB_OK then Some (rc, st)
     else do {
       let totalLen = length bytes;
       area \<leftarrow> mem_write (dt_strArea st) (dt_offset st) bytes;
       st \<leftarrow> dst_set (\<lambda>item. DST_SET_REMOTE_LEN (DST_SET_REMOTE_POS
                        (DST_SET_REMOTE_FLAG (if link then DST_SET_LINK_FLAG item else item))
                        (dt_offset st)) totalLen)
               (nd_code (nodes code)) (st\<lparr>dt_strArea := area\<rparr>);
       st \<leftarrow> remote_prefixes nodes link totalLen 1 (nd_prev (nodes code)) st;
       Some (SDB_OK, st\<lparr>dt_offset := dt_offset st + totalLen\<rparr>)
     }
   }"

partial_function (option) local_prefixes ::
  "(nat \<Rightarrow> utilLZWNode) \<Rightarrow> nat \<Rightarrow> dstState \<Rightarrow> dstState option" where
  "local_prefixes nodes preCode st =
     (if preCode = UTIL_INVALID_DICT_CODE then Some st
      else do {
        item \<leftarrow> aref (dt_dst st) (nd_code (nodes preCode));
        st \<leftarrow> (if item = 0 then set_local nodes preCode st else Some st);
        local_prefixes nodes (nd_prev (nodes preCode)) st
      })"

declare local_prefixes.simps [code]

definition formatOneCode :: "(nat \<Rightarrow> utilLZWNode) \<Rightarrow> nat \<Rightarrow> dstState \<Rightarrow> (sdb_rc \<times> dstState) option" where
  "formatOneCode nodes code st = do {
     item \<leftarrow> aref (dt_dst st) (nd_code (nodes code));
     if item \<noteq> 0 then Some (SDB_OK, st)
     else if nd_len (nodes code) > DST_MAX_LOCAL_LEN then formatRemoteStr nodes code st
     else do {
       st \<leftarrow> set_local nodes code st;
       st \<leftarrow> local_prefixes nodes (nd_prev (nodes code)) st;
       Some (SDB_OK, st)
     }
   }"

text \<open>The codes from the largest down to 0; the argument is the number of codes left.\<close>

fun formatDst :: "(nat \<Rightarrow> utilLZWNode) \<Rightarrow> nat \<Rightarrow> dstState \<Rightarrow> (sdb_rc \<times> dstState) option" where
  "formatDst nodes 0 st = Some (SDB_OK, st)"
| "formatDst nodes (Suc currCode) st =
     (if nd_code (nodes currCode) \<noteq> UTIL_INVALID_DICT_CODE then do {
        (rc, st) \<leftarrow> formatOneCode nodes currCode st;
        if rc \<noteq> SDB_OK then Some (rc, st) else formatDst nodes currCode st
      } else formatDst nodes currCode st)"

section \<open>The whole\<close>

text \<open>The sizes of the head and of one item in each of the three tables.\<close>

definition head_size :: nat where
  "head_size = 44"

definition table_size :: "nat \<Rightarrow> nat" where
  "table_size itemNum = head_size + 12 * itemNum"

text \<open>
  \<open>std_sort\<close> is \<^verbatim>\<open>std::sort\<close> with the order of \<^verbatim>\<open>_sortNodeByRef\<close>, by descending key; \<open>addInfo\<close> the bytes of
  the object with the creation time. The result is the finished dictionary as \<^verbatim>\<open>attach\<close> reads it
  and its length.
\<close>

definition finalize ::
  "((nat \<Rightarrow> nat) \<Rightarrow> nat list \<Rightarrow> nat list) \<Rightarrow> byte list \<Rightarrow> utilLZWBuilder \<Rightarrow> nat \<Rightarrow>
   (sdb_rc \<times> utilLZWDictionary option \<times> nat) option" where
  "finalize std_sort addInfo b len = do {
     let order = std_sort (\<lambda>i. nd_refNum (lzb_nodes b i)) (lzb_nodeSortVec b);
     let (nodes, maxValid) = assign_codes order (lzb_nodes b) 0 0 256 (int UTIL_MAX_DICT_ITEM_NUM);
     let itemNum = maxValid + 1;
     if len < table_size itemNum then None
     else do {
       st \<leftarrow> cst_singles nodes 256 \<lparr>ct_nextIdx = 0, ct_indexMap = Map.empty,
               ct_cst = replicate itemNum 0, ct_codeMap = replicate itemNum 0\<rparr>;
       st \<leftarrow> cst_groups nodes 0 st;
       (rc, dt) \<leftarrow> formatDst nodes (lzb_maxCode b + 1)
         \<lparr>dt_dst = replicate itemNum 0, dt_strArea = replicate (len - table_size itemNum) 0, dt_offset = 0\<rparr>;
       if rc \<noteq> SDB_OK then Some (rc, None, len)
       else do {
         let writePos = table_size itemNum + dt_offset dt;
         if len < writePos + length addInfo then Some (SDB_INVALIDARG, None, len)
         else do {
           area \<leftarrow> mem_write (dt_strArea dt) (dt_offset dt) addInfo;
           Some (SDB_OK,
             Some \<lparr>lzd_head = final_head (lzb_maxCode b) maxValid, lzd_cst = ct_cst st,
                   lzd_codeMap = ct_codeMap st, lzd_dst = dt_dst dt,
                   lzd_strArea = take (dt_offset dt + length addInfo) area\<rparr>,
             writePos + length addInfo)
         }
       }
     }
   }"

end
