(* ===== verification/LzwCodes.thy ===== *)
theory LzwCodes
  imports LzwFinalize "HOL-Library.Multiset"
begin

text \<open>
  Which strings keep a code when the dictionary is finished: all single characters, and with a string
  all of its prefixes. The codes are 0 up to \<^verbatim>\<open>_maxValidCode\<close>, each given once.
\<close>

section \<open>The selected nodes\<close>

text \<open>The nodes that get a code, in the order of the codes.\<close>

fun selected :: "nat list \<Rightarrow> int \<Rightarrow> int \<Rightarrow> nat list" where
  "selected [] ri rc = []"
| "selected (x # xs) ri rc =
     (if x \<le> 255 then x # (if rc = 1 then [] else selected xs (ri - 1) (rc - 1))
      else if rc \<le> ri then selected xs ri rc
      else x # (if rc = 1 then [] else selected xs ri (rc - 1)))"

lemma selected_subset: "set (selected xs ri rc) \<subseteq> set xs"
  by (induction xs ri rc rule: selected.induct) auto

lemma selected_distinct: "distinct xs \<Longrightarrow> distinct (selected xs ri rc)"
  by (induction xs ri rc rule: selected.induct) (auto dest: subsetD [OF selected_subset])

lemma selected_length: "1 \<le> rc \<Longrightarrow> int (length (selected xs ri rc)) \<le> rc"
  by (induction xs ri rc rule: selected.induct) auto

lemma selected_singles:
  assumes "int (length (filter (\<lambda>i. i \<le> 255) xs)) = ri" and "ri \<le> rc" and "1 \<le> rc"
    and "i \<in> set xs" and "i \<le> 255"
  shows "i \<in> set (selected xs ri rc)"
  using assms(1-4)
proof (induction xs arbitrary: ri rc)
  case (Cons x xs)
  have len: "1 \<le> int (length (filter (\<lambda>i. i \<le> 255) xs))" if "i \<in> set xs"
  proof -
    have "filter (\<lambda>i. i \<le> 255) xs \<noteq> []" using that assms(5) by (auto simp: filter_empty_conv)
    then show ?thesis by (cases "filter (\<lambda>i. i \<le> 255) xs") auto
  qed
  consider "i = x" | "i \<in> set xs" "x \<le> 255" | "i \<in> set xs" "\<not> x \<le> 255" "rc \<le> ri"
    | "i \<in> set xs" "\<not> x \<le> 255" "\<not> rc \<le> ri" using Cons.prems(4) by auto
  then show ?case
  proof cases
    case 1
    then show ?thesis using assms(5) by auto
  next
    case 2
    then have l: "int (length (filter (\<lambda>i. i \<le> 255) xs)) = ri - 1" using Cons.prems(1) by simp
    then have "2 \<le> rc" using Cons.prems(2) len [OF 2(1)] by linarith
    with l show ?thesis using Cons.IH [of "ri - 1" "rc - 1"] Cons.prems(2) 2 by simp
  next
    case 3
    then show ?thesis using Cons.IH [of ri rc] Cons.prems by simp
  next
    case 4
    then have l: "int (length (filter (\<lambda>i. i \<le> 255) xs)) = ri" using Cons.prems(1) by simp
    then have "2 \<le> rc" using 4(3) len [OF 4(1)] by linarith
    with l show ?thesis using Cons.IH [of ri "rc - 1"] 4 by simp
  qed
qed simp

lemma selected_rest: "rc \<le> ri \<Longrightarrow> y \<in> set (selected xs ri rc) \<Longrightarrow> y \<le> 255"
  by (induction xs ri rc rule: selected.induct) (auto split: if_splits)

text \<open>What comes before a selected string of more than one character is selected.\<close>

lemma selected_before:
  assumes "x \<in> set (selected (ys @ x # zs) ri rc)" and "255 < x" and "y \<in> set ys" and "x \<notin> set ys"
  shows "y \<in> set (selected (ys @ x # zs) ri rc)"
  using assms
proof (induction ys arbitrary: ri rc)
  case (Cons a ys)
  have "\<not> (\<not> a \<le> 255 \<and> rc \<le> ri)"
    using Cons.prems(1,2,4) selected_rest [of rc ri x "ys @ x # zs"] by auto
  with Cons show ?case by (auto split: if_splits)
qed simp

section \<open>The codes\<close>

lemma assign_codes_eq:
  assumes "distinct xs" and "int code + rc = 250000" and "1 \<le> rc"
  shows "\<exists>nodes' maxValid'. assign_codes xs nodes code maxValid ri rc = (nodes', maxValid') \<and>
           (\<forall>j < length (selected xs ri rc).
              nodes' (selected xs ri rc ! j) = (nodes (selected xs ri rc ! j))\<lparr>nd_code := code + j\<rparr>) \<and>
           (\<forall>i. i \<notin> set (selected xs ri rc) \<longrightarrow> nodes' i = nodes i) \<and>
           maxValid' = (if selected xs ri rc = [] then maxValid else code + length (selected xs ri rc) - 1)"
  using assms
proof (induction xs arbitrary: nodes code maxValid ri rc)
  case (Cons x xs)
  let ?ri = "if x \<le> 255 then ri - 1 else ri"
  show ?case
  proof (cases "\<not> x \<le> 255 \<and> rc \<le> ri")
    case True
    then have eqs: "selected (x # xs) ri rc = selected xs ri rc"
      "assign_codes (x # xs) nodes code maxValid ri rc = assign_codes xs nodes code maxValid ri rc"
      by (simp_all add: UTIL_MAX_DICT_INIT_CODE_def)
    show ?thesis unfolding eqs by (rule Cons.IH) (use Cons.prems in auto)
  next
    case keep: False
    define nodes1 where "nodes1 = nodes(x := (nodes x)\<lparr>nd_code := code\<rparr>)"
    have sel: "selected (x # xs) ri rc = x # (if rc = 1 then [] else selected xs ?ri (rc - 1))"
      using keep by auto
    show ?thesis
    proof (cases "rc = 1")
      case True
      then have "code + 1 = UTIL_MAX_DICT_ITEM_NUM" using Cons.prems(2) by (simp add: UTIL_MAX_DICT_ITEM_NUM_def)
      then have "assign_codes (x # xs) nodes code maxValid ri rc = (nodes1, code)"
        using keep by (auto simp: UTIL_MAX_DICT_INIT_CODE_def nodes1_def Let_def)
      then show ?thesis unfolding sel using True by (simp add: nodes1_def)
    next
      case False
      then have "code + 1 \<noteq> UTIL_MAX_DICT_ITEM_NUM" using Cons.prems(2) by (simp add: UTIL_MAX_DICT_ITEM_NUM_def)
      then have step: "assign_codes (x # xs) nodes code maxValid ri rc =
          assign_codes xs nodes1 (code + 1) code ?ri (rc - 1)"
        using keep by (auto simp: UTIL_MAX_DICT_INIT_CODE_def nodes1_def Let_def)
      let ?s = "selected xs ?ri (rc - 1)"
      obtain nodes' maxValid' where r: "assign_codes xs nodes1 (code + 1) code ?ri (rc - 1) = (nodes', maxValid')"
          "\<forall>j < length ?s. nodes' (?s ! j) = (nodes1 (?s ! j))\<lparr>nd_code := (code + 1) + j\<rparr>"
          "\<forall>i. i \<notin> set ?s \<longrightarrow> nodes' i = nodes1 i"
          "maxValid' = (if ?s = [] then code else code + 1 + length ?s - 1)"
        using Cons.IH [of "code + 1" "rc - 1" nodes1 code ?ri] Cons.prems False by auto
      have x: "x \<notin> set ?s" using Cons.prems(1) selected_subset by fastforce
      have "nodes' ((x # ?s) ! j) = (nodes ((x # ?s) ! j))\<lparr>nd_code := code + j\<rparr>" if "j < length (x # ?s)" for j
      proof (cases j)
        case 0
        then show ?thesis using r(3) x by (simp add: nodes1_def)
      next
        case (Suc k)
        then have k: "k < length ?s" using that by simp
        then have "?s ! k \<noteq> x" using x nth_mem by metis
        then show ?thesis using r(2) k Suc by (simp add: nodes1_def)
      qed
      moreover have "i \<notin> set (x # ?s) \<longrightarrow> nodes' i = nodes i" for i using r(3) by (auto simp: nodes1_def)
      moreover have "maxValid' = code + length (x # ?s) - 1" using r(4) by auto
      ultimately show ?thesis unfolding sel step using r(1) False by auto
    qed
  qed
qed simp

section \<open>Strings with a code\<close>

text \<open>What the code relies on of \<^verbatim>\<open>std::sort\<close>: it permutes and orders by descending key.\<close>

definition sorts_descending :: "((nat \<Rightarrow> nat) \<Rightarrow> nat list \<Rightarrow> nat list) \<Rightarrow> bool" where
  "sorts_descending std_sort \<longleftrightarrow>
     (\<forall>key xs. mset (std_sort key xs) = mset xs \<and>
        sorted_wrt (\<lambda>x y. key y \<le> key x) (std_sort key xs))"

text \<open>The nodes \<open>ks\<close> have the codes 0, 1, ... in this order.\<close>

definition coded :: "utilLZWBuilder \<Rightarrow> (nat \<Rightarrow> utilLZWNode) \<Rightarrow> nat list \<Rightarrow> bool" where
  "coded b nodes ks \<longleftrightarrow>
     distinct ks \<and> set ks \<subseteq> {..lzb_maxCode b} \<and> {..<256} \<subseteq> set ks \<and> length ks \<le> 250000 \<and>
     (\<forall>j < length ks. nodes (ks ! j) = (lzb_nodes b (ks ! j))\<lparr>nd_code := j\<rparr>) \<and>
     (\<forall>i. i \<notin> set ks \<longrightarrow> nodes i = lzb_nodes b i) \<and>
     (\<forall>i \<in> set ks. 256 \<le> i \<longrightarrow> nd_prev (lzb_nodes b i) \<in> set ks)"

lemma assign_codes_coded:
  assumes "dict_inv b n" and "sorts_descending std_sort"
  shows "\<exists>nodes maxValid ks. assign_codes (std_sort (\<lambda>i. nd_refNum (lzb_nodes b i)) (lzb_nodeSortVec b))
             (lzb_nodes b) 0 0 256 (int UTIL_MAX_DICT_ITEM_NUM) = (nodes, maxValid) \<and>
           coded b nodes ks \<and> length ks = maxValid + 1"
proof -
  obtain kids where t: "trie b kids" and refs: "refs_ok b n" using assms(1) by (auto simp: dict_inv_def)
  define xs where "xs = std_sort (\<lambda>i. nd_refNum (lzb_nodes b i)) (lzb_nodeSortVec b)"
  define ks where "ks = selected xs 256 250000"
  have sort: "mset (std_sort key zs) = mset zs" "sorted_wrt (\<lambda>x y. key y \<le> key x) (std_sort key zs)" for key zs
    using assms(2) by (simp_all add: sorts_descending_def)
  have m: "mset xs = mset [0..<lzb_maxCode b + 1]"
    unfolding xs_def trie_vec [OF t] by (rule sort(1))
  have sorted: "sorted_wrt (\<lambda>x y. nd_refNum (lzb_nodes b y) \<le> nd_refNum (lzb_nodes b x)) xs"
    unfolding xs_def by (rule sort(2))
  have "set xs = set [0..<lzb_maxCode b + 1]" by (rule mset_eq_setD [OF m])
  also have "\<dots> = {..lzb_maxCode b}" by (simp add: atLeast0LessThan lessThan_Suc_atMost del: upt_Suc)
  finally have set: "set xs = {..lzb_maxCode b}" .
  have dist: "distinct xs" using mset_eq_imp_distinct_iff [OF m] by simp
  have low: "255 \<le> lzb_maxCode b" by (rule trie_max(1) [OF t])
  have "{i. i \<le> 255} \<inter> set xs = {..255}" unfolding set using low by (auto simp only: Int_iff mem_Collect_eq atMost_iff)
  then have cnt: "int (length (filter (\<lambda>i. i \<le> 255) xs)) = 256"
    using distinct_length_filter [OF dist, of "\<lambda>i. i \<le> 255"] by (simp only: card_atMost)
  have closed: "nd_prev (lzb_nodes b i) \<in> set ks" if i: "i \<in> set ks" "256 \<le> i" for i
  proof -
    let ?p = "nd_prev (lzb_nodes b i)"
    have im: "i \<le> lzb_maxCode b" using i(1) subsetD [OF selected_subset, of i xs 256 250000] by (simp add: ks_def set)
    have p: "?p < i" "nd_refNum (lzb_nodes b i) < nd_refNum (lzb_nodes b ?p)"
      using trie_prev [OF t i(2) im] refs_prev [OF refs i(2) im] by auto
    have "i \<in> set xs" using im by (simp add: set)
    then obtain ys zs where xs: "xs = ys @ i # zs" by (meson split_list)
    have "?p \<in> set xs" using p(1) im by (simp add: set)
    moreover have "?p \<notin> set zs" using sorted p(2) by (auto simp: xs sorted_wrt_append)
    ultimately have "?p \<in> set ys" using p(1) by (auto simp: xs)
    then show ?thesis using selected_before [of i ys zs 256 250000 ?p] i dist by (simp add: ks_def xs)
  qed
  have single: "{..<256} \<subseteq> set ks"
  proof
    fix i :: nat assume "i \<in> {..<256}"
    then show "i \<in> set ks"
      using selected_singles [OF cnt, of 250000 i] low by (simp add: ks_def set)
  qed
  have "\<exists>nodes maxValid. assign_codes xs (lzb_nodes b) 0 0 256 250000 = (nodes, maxValid) \<and>
      (\<forall>j < length ks. nodes (ks ! j) = (lzb_nodes b (ks ! j))\<lparr>nd_code := 0 + j\<rparr>) \<and>
      (\<forall>i. i \<notin> set ks \<longrightarrow> nodes i = lzb_nodes b i) \<and>
      maxValid = (if ks = [] then 0 else 0 + length ks - 1)"
    unfolding ks_def by (rule assign_codes_eq [OF dist]) simp_all
  then obtain nodes maxValid where a: "assign_codes xs (lzb_nodes b) 0 0 256 250000 = (nodes, maxValid)"
      "\<forall>j < length ks. nodes (ks ! j) = (lzb_nodes b (ks ! j))\<lparr>nd_code := 0 + j\<rparr>"
      "\<forall>i. i \<notin> set ks \<longrightarrow> nodes i = lzb_nodes b i"
      "maxValid = (if ks = [] then 0 else 0 + length ks - 1)" by blast
  have ne: "ks \<noteq> []" using subsetD [OF single, of 0] by auto
  have len: "length ks \<le> 250000" using selected_length [of 250000 xs 256] by (simp add: ks_def)
  have "distinct ks" "set ks \<subseteq> {..lzb_maxCode b}"
    using selected_distinct [OF dist] selected_subset [of xs 256 250000] set by (auto simp only: ks_def)
  then have "coded b nodes ks"
    unfolding coded_def using single len a(2,3) closed by auto
  moreover have "length ks = maxValid + 1" using a(4) ne by (cases ks) auto
  moreover have "int UTIL_MAX_DICT_ITEM_NUM = 250000" by (simp add: UTIL_MAX_DICT_ITEM_NUM_def)
  ultimately show ?thesis using a(1) unfolding xs_def by metis
qed

end
