(* ===== verification/LzwCst.thy ===== *)
theory LzwCst
  imports LzwCodes
begin

text \<open>
  The compression string table that \<^verbatim>\<open>finalize\<close> fills level by level: the single characters,
  then for each index in turn the children of its string that have a code. Every string with a code
  gets one index; the children of an index are the range the search of the compressor delimits.
\<close>

section \<open>The nodes with codes\<close>

lemma coded_fields:
  assumes "coded b nodes ks"
  shows "nd_prev (nodes i) = nd_prev (lzb_nodes b i)" and "nd_first (nodes i) = nd_first (lzb_nodes b i)"
    and "nd_next (nodes i) = nd_next (lzb_nodes b i)" and "nd_len (nodes i) = nd_len (lzb_nodes b i)"
    and "nd_ch (nodes i) = nd_ch (lzb_nodes b i)"
proof -
  have "\<exists>c. nodes i = (lzb_nodes b i)\<lparr>nd_code := c\<rparr> \<or> nodes i = lzb_nodes b i"
    using assms unfolding coded_def by (metis in_set_conv_nth)
  then show "nd_prev (nodes i) = nd_prev (lzb_nodes b i)" and "nd_first (nodes i) = nd_first (lzb_nodes b i)"
    and "nd_next (nodes i) = nd_next (lzb_nodes b i)" and "nd_len (nodes i) = nd_len (lzb_nodes b i)"
    and "nd_ch (nodes i) = nd_ch (lzb_nodes b i)" by auto
qed

lemma codedD:
  assumes "coded b nodes ks"
  shows coded_distinct: "distinct ks" and coded_max: "i \<in> set ks \<Longrightarrow> i \<le> lzb_maxCode b"
    and coded_single: "i < 256 \<Longrightarrow> i \<in> set ks" and coded_num: "length ks \<le> 250000"
    and coded_code: "j < length ks \<Longrightarrow> nd_code (nodes (ks ! j)) = j"
    and coded_prev: "i \<in> set ks \<Longrightarrow> 256 \<le> i \<Longrightarrow> nd_prev (lzb_nodes b i) \<in> set ks"
proof -
  show "distinct ks" and "i \<in> set ks \<Longrightarrow> i \<le> lzb_maxCode b" and "i < 256 \<Longrightarrow> i \<in> set ks"
    and "length ks \<le> 250000" and "i \<in> set ks \<Longrightarrow> 256 \<le> i \<Longrightarrow> nd_prev (lzb_nodes b i) \<in> set ks"
    using assms unfolding coded_def by blast+
  assume "j < length ks"
  then have "nodes (ks ! j) = (lzb_nodes b (ks ! j))\<lparr>nd_code := j\<rparr>" using assms unfolding coded_def by blast
  then show "nd_code (nodes (ks ! j)) = j" by simp
qed

lemma coded_less:
  assumes "coded b nodes ks" and "i \<in> set ks" shows "nd_code (nodes i) < length ks"
  using assms(2) coded_code [OF assms(1)] by (metis in_set_conv_nth)

lemma coded_inj:
  assumes "coded b nodes ks" and "i \<in> set ks" and "j \<in> set ks" and "nd_code (nodes i) = nd_code (nodes j)"
  shows "i = j"
  using assms(2-4) coded_code [OF assms(1)] by (metis in_set_conv_nth)

lemma coded_iff:
  assumes "coded b nodes ks" and "trie b kids"
  shows "nd_code (nodes i) \<noteq> UTIL_INVALID_DICT_CODE \<longleftrightarrow> i \<in> set ks"
proof
  assume "i \<in> set ks"
  with coded_less [OF assms(1)] coded_num [OF assms(1)] show "nd_code (nodes i) \<noteq> UTIL_INVALID_DICT_CODE"
    by (fastforce simp: UTIL_INVALID_DICT_CODE_def)
next
  assume c: "nd_code (nodes i) \<noteq> UTIL_INVALID_DICT_CODE"
  show "i \<in> set ks"
  proof (rule ccontr)
    assume "i \<notin> set ks"
    then have "nodes i = lzb_nodes b i" using assms(1) unfolding coded_def by blast
    with c trie_code [OF assms(2)] show False by simp
  qed
qed

section \<open>Filling one group\<close>

text \<open>The indexes hold the nodes \<open>ns\<close>, with the children \<open>child\<close> where they are known.\<close>

definition cst_filled :: "(nat \<Rightarrow> utilLZWNode) \<Rightarrow> nat \<Rightarrow> nat list \<Rightarrow> (nat \<Rightarrow> nat option) \<Rightarrow> cstState \<Rightarrow> bool" where
  "cst_filled nodes n ns child st \<longleftrightarrow>
     ct_nextIdx st = length ns \<and> length (ct_cst st) = n \<and> length (ct_codeMap st) = n \<and>
     (\<forall>j < length ns. ct_indexMap st j = Some (ns ! j) \<and> ct_codeMap st ! j = nd_code (nodes (ns ! j)) \<and>
        ct_cst st ! j = cst_item (nd_ch (nodes (ns ! j))) (child j)) \<and>
     (\<forall>j. length ns \<le> j \<and> j < n \<longrightarrow> ct_cst st ! j = 0)"

lemma cst_filled_cong:
  assumes "cst_filled nodes n ns child st" and "\<And>j. j < length ns \<Longrightarrow> child' j = child j"
  shows "cst_filled nodes n ns child' st"
  using assms by (auto simp: cst_filled_def)

lemma cst_place_filled:
  assumes "cst_filled nodes n ns child st" and "length ns < n" and "child (length ns) = None"
  shows "\<exists>st'. cst_place nodes x st = Some st' \<and> cst_filled nodes n (ns @ [x]) child st'"
proof -
  let ?i = "length ns"
  have 0: "ct_cst st ! ?i = 0" "ct_nextIdx st = ?i" "length (ct_cst st) = n" "length (ct_codeMap st) = n"
    using assms(1,2) by (auto simp: cst_filled_def)
  define st' where "st' = st\<lparr>ct_cst := (ct_cst st)[?i := cst_item (nd_ch (nodes x)) None],
      ct_indexMap := (ct_indexMap st)(?i \<mapsto> x), ct_codeMap := (ct_codeMap st)[?i := nd_code (nodes x)],
      ct_nextIdx := ?i + 1\<rparr>"
  have "cst_place nodes x st = Some st'"
    using 0 assms(2) by (simp add: cst_place_def cst_set_def aref_def aset_def CST_SET_CHAR_0 st'_def)
  moreover have "cst_filled nodes n (ns @ [x]) child st'"
    using assms by (auto simp: cst_filled_def st'_def nth_append less_Suc_eq)
  ultimately show ?thesis by blast
qed

lemma cst_child_filled:
  assumes "cst_filled nodes n ns child st" and "k < length ns" and "length ns \<le> n" and "child k = None"
  shows "\<exists>st'. cst_set (\<lambda>item. CST_SET_CHILD item c) k st = Some st' \<and> cst_filled nodes n ns (child(k \<mapsto> c)) st'"
proof -
  let ?st = "st\<lparr>ct_cst := (ct_cst st)[k := CST_SET_CHILD (ct_cst st ! k) c]\<rparr>"
  have "length (ct_cst st) = n" "ct_cst st ! k = cst_item (nd_ch (nodes (ns ! k))) None"
    using assms by (auto simp: cst_filled_def)
  then have "cst_set (\<lambda>item. CST_SET_CHILD item c) k st = Some ?st" "cst_filled nodes n ns (child(k \<mapsto> c)) ?st"
    using assms by (auto simp: cst_set_def aref_def aset_def cst_filled_def CST_SET_CHILD_item nth_list_update)
  then show ?thesis by blast
qed

lemma group_loop_filled:
  assumes "chain nodes c xs" and "xs \<noteq> []" and "cst_filled nodes n ns child st" and "k < length ns"
    and "length (ns @ filter (\<lambda>i. nd_code (nodes i) \<noteq> UTIL_INVALID_DICT_CODE) xs) \<le> n"
    and "\<forall>j \<ge> length ns. child j = None" and "posSet \<longleftrightarrow> child k \<noteq> None"
  shows "\<exists>st'. group_loop nodes k pos c posSet st =
             Some (posSet \<or> filter (\<lambda>i. nd_code (nodes i) \<noteq> UTIL_INVALID_DICT_CODE) xs \<noteq> [], st') \<and>
           cst_filled nodes n (ns @ filter (\<lambda>i. nd_code (nodes i) \<noteq> UTIL_INVALID_DICT_CODE) xs)
             (if \<not> posSet \<and> filter (\<lambda>i. nd_code (nodes i) \<noteq> UTIL_INVALID_DICT_CODE) xs \<noteq> []
              then child(k \<mapsto> pos) else child) st'"
  using assms
proof (induction xs arbitrary: c ns child st posSet)
  case (Cons x xs)
  let ?P = "\<lambda>i. nd_code (nodes i) \<noteq> UTIL_INVALID_DICT_CODE"
  have c: "c = x" and ch: "chain nodes (nd_next (nodes x)) xs" using Cons.prems(1) by auto
  have ends: "nd_next (nodes x) \<noteq> UTIL_INVALID_DICT_CODE \<longleftrightarrow> xs \<noteq> []" using ch by (cases xs) auto
  show ?case
  proof (cases "?P x")
    case False
    have step: "group_loop nodes k pos c posSet st =
        (if xs \<noteq> [] then group_loop nodes k pos (nd_next (nodes x)) posSet st else Some (posSet, st))"
      using False by (subst group_loop.simps) (simp add: c ends Let_def)
    show ?thesis
    proof (cases "xs = []")
      case True
      then show ?thesis unfolding step using False Cons.prems(3) by simp
    next
      case ne: False
      then show ?thesis unfolding step using Cons.IH [OF ch ne Cons.prems(3,4) _ Cons.prems(6,7)] Cons.prems(5) False
        by simp
    qed
  next
    case True
    let ?child = "if posSet then child else child(k \<mapsto> pos)"
    obtain st1 where 1: "cst_place nodes x st = Some st1" "cst_filled nodes n (ns @ [x]) child st1"
      using cst_place_filled [OF Cons.prems(3), of x] Cons.prems(5,6) True by auto
    have "\<exists>st2. (if \<not> posSet then cst_set (\<lambda>item. CST_SET_CHILD item pos) k st1 else Some st1) = Some st2 \<and>
        cst_filled nodes n (ns @ [x]) ?child st2"
      using cst_child_filled [OF 1(2), of k pos] 1(2) Cons.prems(4,5,7) True by auto
    then obtain st2 where 2: "(if \<not> posSet then cst_set (\<lambda>item. CST_SET_CHILD item pos) k st1 else Some st1) = Some st2"
        "cst_filled nodes n (ns @ [x]) ?child st2" by blast
    have step: "group_loop nodes k pos c posSet st =
        (if xs \<noteq> [] then group_loop nodes k pos (nd_next (nodes x)) True st2 else Some (True, st2))"
      using True 2(1) by (subst group_loop.simps) (auto simp: c ends Let_def 1(1) split: if_splits)
    show ?thesis
    proof (cases "xs = []")
      case True
      with \<open>?P x\<close> show ?thesis unfolding step using 2(2) by auto
    next
      case ne: False
      have "\<exists>st'. group_loop nodes k pos (nd_next (nodes x)) True st2 = Some (True \<or> filter ?P xs \<noteq> [], st') \<and>
          cst_filled nodes n ((ns @ [x]) @ filter ?P xs) (if \<not> True \<and> filter ?P xs \<noteq> [] then ?child(k \<mapsto> pos) else ?child) st'"
        by (rule Cons.IH [OF ch ne 2(2)]) (use Cons.prems(4-7) True in auto)
      then show ?thesis unfolding step using ne True by (auto simp: fun_upd_def)
    qed
  qed
qed simp

section \<open>The whole table\<close>

text \<open>The children of a node with a code, and the index of the first child of an index.\<close>

definition kept :: "(nat \<Rightarrow> nat list) \<Rightarrow> nat list \<Rightarrow> nat \<Rightarrow> nat list" where
  "kept kids ks p = filter (\<lambda>i. i \<in> set ks) (kids p)"

definition start :: "(nat \<Rightarrow> nat list) \<Rightarrow> nat list \<Rightarrow> nat list \<Rightarrow> nat \<Rightarrow> nat" where
  "start kids ks ns j = 256 + length (concat (map (kept kids ks) (take j ns)))"

definition first_child :: "(nat \<Rightarrow> nat list) \<Rightarrow> nat list \<Rightarrow> nat list \<Rightarrow> nat \<Rightarrow> nat \<Rightarrow> nat option" where
  "first_child kids ks ns k j =
     (if j < k then Some (if kept kids ks (ns ! j) = [] then CST_INVALID_CHILD else start kids ks ns j) else None)"

definition singles :: "nat list" where
  "singles = [0..<256]"

lemma singles [simp]: "length singles = 256" "set singles = {..<256}" "distinct singles"
  by (auto simp: singles_def simp del: upt_rec_numeral)

text \<open>The order of the indexes when the groups of the first \<open>k\<close> are done.\<close>

definition levels :: "(nat \<Rightarrow> nat list) \<Rightarrow> nat list \<Rightarrow> nat list \<Rightarrow> nat \<Rightarrow> bool" where
  "levels kids ks ns k \<longleftrightarrow>
     k \<le> length ns \<and> distinct ns \<and> set ns \<subseteq> set ks \<and>
     ns = singles @ concat (map (kept kids ks) (take k ns)) \<and> (\<forall>j < k. j < start kids ks ns j)"

lemma levels_length: "levels kids ks ns k \<Longrightarrow> length ns = start kids ks ns k"
  unfolding levels_def start_def by (metis length_append singles(1))

lemma start_append [simp]: "j \<le> length ns \<Longrightarrow> start kids ks (ns @ xs) j = start kids ks ns j"
  by (simp add: start_def)

lemma start_Suc: "j < length ns \<Longrightarrow> start kids ks ns (Suc j) = start kids ks ns j + length (kept kids ks (ns ! j))"
  by (simp add: start_def take_Suc_conv_app_nth)

lemma kept_iff:
  assumes "trie b kids" and "coded b nodes ks" and "p \<le> lzb_maxCode b"
  shows "i \<in> set (kept kids ks p) \<longleftrightarrow> i \<in> set ks \<and> 256 \<le> i \<and> nd_prev (lzb_nodes b i) = p"
  using trie_kids [OF assms(1,3)] coded_max [OF assms(2)] by (auto simp: kept_def)

lemma levels_mem:
  assumes "levels kids ks ns k" and "trie b kids" and "coded b nodes ks" and "i \<in> set ns"
  shows "i < 256 \<or> (\<exists>j < k. nd_prev (lzb_nodes b i) = ns ! j)"
proof -
  have e: "ns = singles @ concat (map (kept kids ks) (take k ns))" and k: "k \<le> length ns" and "set ns \<subseteq> set ks"
    using assms(1) unfolding levels_def by blast+
  have "set ns = set singles \<union> (\<Union>p \<in> set (take k ns). set (kept kids ks p))"
    using arg_cong [OF e, of set] unfolding set_append set_concat set_map by blast
  with assms(4) have "i \<in> set singles \<or> (\<exists>p \<in> set (take k ns). i \<in> set (kept kids ks p))" by blast
  then consider "i < 256" | p where "p \<in> set (take k ns)" "i \<in> set (kept kids ks p)" by auto
  then show ?thesis
  proof cases
    case 2
    then have "p \<le> lzb_maxCode b"
      using \<open>set ns \<subseteq> set ks\<close> coded_max [OF assms(3)] by (meson in_set_takeD subsetD)
    moreover obtain j where "j < k" "p = ns ! j" using 2(1) k by (auto simp: in_set_conv_nth)
    ultimately show ?thesis using kept_iff [OF assms(2,3)] 2(2) by blast
  qed blast
qed

lemma levels_step:
  assumes "levels kids ks ns k" and "trie b kids" and "coded b nodes ks" and "k < length ns"
  shows "levels kids ks (ns @ kept kids ks (ns ! k)) (Suc k)"
proof -
  let ?p = "ns ! k"
  have l: "distinct ns" "set ns \<subseteq> set ks" "ns = singles @ concat (map (kept kids ks) (take k ns))"
    "\<forall>j < k. j < start kids ks ns j"
    using assms(1) unfolding levels_def by blast+
  have p: "?p \<in> set ks" using l(2) assms(4) by (meson nth_mem subsetD)
  then have pm: "?p \<le> lzb_maxCode b" by (rule coded_max [OF assms(3)])
  have "i \<notin> set ns" if i: "i \<in> set (kept kids ks ?p)" for i
  proof
    assume "i \<in> set ns"
    from levels_mem [OF assms(1-3) this] i kept_iff [OF assms(2,3) pm]
    obtain j where "j < k" "ns ! j = ns ! k" by auto
    with l(1) assms(4) show False by (simp add: nth_eq_iff_index_eq)
  qed
  then have "distinct (ns @ kept kids ks ?p)"
    using l(1) trie_distinct [OF assms(2) pm] by (auto simp: kept_def)
  moreover have "set (ns @ kept kids ks ?p) \<subseteq> set ks" using l(2) by (auto simp: kept_def)
  moreover have "ns @ kept kids ks ?p = singles @ concat (map (kept kids ks) (take (Suc k) (ns @ kept kids ks ?p)))"
  proof -
    have "concat (map (kept kids ks) (take (Suc k) (ns @ kept kids ks ?p))) =
        concat (map (kept kids ks) (take k ns)) @ kept kids ks ?p"
      using assms(4) by (simp add: take_Suc_conv_app_nth)
    then show ?thesis using l(3) by (metis append_assoc)
  qed
  moreover have "j < start kids ks (ns @ kept kids ks ?p) j" if "j < Suc k" for j
    using that l(4) levels_length [OF assms(1)] assms(4) by (cases "j = k") auto
  moreover have "Suc k \<le> length (ns @ kept kids ks ?p)" using assms(4) by simp
  ultimately show ?thesis unfolding levels_def by blast
qed

text \<open>A group appends the children with a code and records where they start.\<close>

lemma formatOneGrp_filled:
  assumes t: "trie b kids" and c: "coded b nodes ks" and l: "levels kids ks ns k" and k: "k < length ns"
    and f: "cst_filled nodes (length ks) ns (first_child kids ks ns k) st"
  shows "\<exists>st'. formatOneGrp nodes k st = Some st' \<and>
           cst_filled nodes (length ks) (ns @ kept kids ks (ns ! k))
             (first_child kids ks (ns @ kept kids ks (ns ! k)) (Suc k)) st'"
proof -
  let ?p = "ns ! k" and ?P = "\<lambda>i. nd_code (nodes i) \<noteq> UTIL_INVALID_DICT_CODE"
  let ?child = "(first_child kids ks ns k)(k \<mapsto> if kept kids ks ?p = [] then CST_INVALID_CHILD else length ns)"
  note fields = coded_fields [OF c]
  have "?p \<in> set ks" using l k unfolding levels_def by (meson nth_mem subsetD)
  then have pm: "?p \<le> lzb_maxCode b" by (rule coded_max [OF c])
  have ch: "chain nodes (nd_first (nodes ?p)) (kids ?p)"
    using trie_chain [OF t pm] chain_cong [of "kids ?p" nodes "lzb_nodes b"] fields by simp
  have P: "?P = (\<lambda>i. i \<in> set ks)" using coded_iff [OF c t] by blast
  have "distinct (ns @ kept kids ks ?p)" "set (ns @ kept kids ks ?p) \<subseteq> set ks"
    using levels_step [OF l t c k] unfolding levels_def by blast+
  then have n: "length (ns @ kept kids ks ?p) \<le> length ks"
    by (metis card_mono distinct_card distinct_card [OF coded_distinct [OF c]] finite_set)
  have idx: "index_of (ct_indexMap st) k = ?p" using f k by (simp add: cst_filled_def index_of_def)
  have none: "first_child kids ks ns k k = None" "\<forall>j \<ge> length ns. first_child kids ks ns k j = None"
    using k by (auto simp: first_child_def)
  have empty: "\<exists>st'. cst_set (\<lambda>item. CST_SET_CHILD item CST_INVALID_CHILD) k st1 = Some st' \<and>
      cst_filled nodes (length ks) (ns @ kept kids ks ?p) ?child st'"
    if "cst_filled nodes (length ks) ns (first_child kids ks ns k) st1" "kept kids ks ?p = []" for st1
    using cst_child_filled [OF that(1) k _ none(1), of CST_INVALID_CHILD] n that(2) by simp
  have "\<exists>st'. formatOneGrp nodes k st = Some st' \<and> cst_filled nodes (length ks) (ns @ kept kids ks ?p) ?child st'"
  proof (cases "kids ?p = []")
    case True
    then have "nd_first (nodes ?p) = UTIL_INVALID_DICT_CODE" "kept kids ks ?p = []" using ch by (auto simp: kept_def)
    then show ?thesis using empty [OF f] by (simp add: formatOneGrp_def idx)
  next
    case False
    then have nf: "nd_first (nodes ?p) \<noteq> UTIL_INVALID_DICT_CODE" using ch by (cases "kids ?p") auto
    have "\<exists>st1. group_loop nodes k (length ns) (nd_first (nodes ?p)) False st = Some (False \<or> filter ?P (kids ?p) \<noteq> [], st1) \<and>
        cst_filled nodes (length ks) (ns @ filter ?P (kids ?p))
          (if \<not> False \<and> filter ?P (kids ?p) \<noteq> [] then (first_child kids ks ns k)(k \<mapsto> length ns)
           else first_child kids ks ns k) st1"
      by (rule group_loop_filled [OF ch False f k]) (use n none in \<open>simp_all add: P kept_def\<close>)
    then obtain st1 where g: "group_loop nodes k (length ns) (nd_first (nodes ?p)) False st = Some (kept kids ks ?p \<noteq> [], st1)"
        "cst_filled nodes (length ks) (ns @ kept kids ks ?p)
          (if kept kids ks ?p \<noteq> [] then (first_child kids ks ns k)(k \<mapsto> length ns) else first_child kids ks ns k) st1"
      by (auto simp only: P kept_def simp_thms)
    have nx: "ct_nextIdx st = length ns" using f by (simp add: cst_filled_def)
    show ?thesis
    proof (cases "kept kids ks ?p = []")
      case True
      then show ?thesis using empty [of st1] g nf by (simp add: formatOneGrp_def idx nx)
    next
      case False
      then show ?thesis using g nf by (simp add: formatOneGrp_def idx nx)
    qed
  qed
  then obtain st' where st': "formatOneGrp nodes k st = Some st'"
      "cst_filled nodes (length ks) (ns @ kept kids ks ?p) ?child st'" by blast
  have "first_child kids ks (ns @ kept kids ks ?p) (Suc k) j = ?child j" if "j < length (ns @ kept kids ks ?p)" for j
    using levels_length [OF l] k by (auto simp: first_child_def nth_append less_Suc_eq)
  with st' show ?thesis using cst_filled_cong by blast
qed

lemma levels_num:
  assumes "levels kids ks ns k" and "coded b nodes ks"
  shows "length ns \<le> length ks"
proof -
  have "distinct ns" "set ns \<subseteq> set ks" using assms(1) unfolding levels_def by blast+
  then show ?thesis by (metis card_mono distinct_card distinct_card [OF coded_distinct [OF assms(2)]] finite_set)
qed

lemma cst_groups_filled:
  assumes "trie b kids" and "coded b nodes ks" and "levels kids ks ns k"
    and "cst_filled nodes (length ks) ns (first_child kids ks ns k) st"
  shows "\<exists>st' ns'. cst_groups nodes k st = Some st' \<and> levels kids ks ns' (length ns') \<and>
           cst_filled nodes (length ks) ns' (first_child kids ks ns' (length ns')) st'"
  using assms(3,4)
proof (induction "length ks - k" arbitrary: k ns st rule: less_induct)
  case less
  have nx: "ct_nextIdx st = length ns" and le: "k \<le> length ns"
    using less.prems by (auto simp: cst_filled_def levels_def)
  show ?case
  proof (cases "k < length ns")
    case True
    let ?ns = "ns @ kept kids ks (ns ! k)"
    obtain st1 where st1: "formatOneGrp nodes k st = Some st1"
        "cst_filled nodes (length ks) ?ns (first_child kids ks ?ns (Suc k)) st1"
      using formatOneGrp_filled [OF assms(1,2) less.prems(1) True less.prems(2)] by blast
    have "length ks - Suc k < length ks - k" using True levels_num [OF less.prems(1) assms(2)] by linarith
    then obtain st' ns' where r: "cst_groups nodes (Suc k) st1 = Some st'" "levels kids ks ns' (length ns')"
        "cst_filled nodes (length ks) ns' (first_child kids ks ns' (length ns')) st'"
      using less.hyps [of "Suc k" ?ns st1] levels_step [OF less.prems(1) assms(1,2) True] st1(2) by blast
    have "cst_groups nodes k st = Some st'"
      using r(1) st1(1) True by (subst cst_groups.simps) (simp add: nx)
    with r(2,3) show ?thesis by blast
  next
    case False
    with le have k: "k = length ns" by simp
    have "cst_groups nodes k st = Some st" using False by (subst cst_groups.simps) (simp add: nx)
    with less.prems show ?thesis unfolding k by blast
  qed
qed

lemma cst_singles_filled:
  assumes "cst_filled nodes n [0..<k] (\<lambda>_. None) st" and "k + m \<le> n"
  shows "\<exists>st'. cst_singles nodes m st = Some st' \<and> cst_filled nodes n [0..<k + m] (\<lambda>_. None) st'"
  using assms
proof (induction m arbitrary: k st)
  case (Suc m)
  have nx: "ct_nextIdx st = k" using Suc.prems(1) by (simp add: cst_filled_def)
  obtain st1 where st1: "cst_place nodes k st = Some st1" "cst_filled nodes n ([0..<k] @ [k]) (\<lambda>_. None) st1"
    using cst_place_filled [OF Suc.prems(1), of k] Suc.prems(2) by auto
  then have "cst_filled nodes n [0..<Suc k] (\<lambda>_. None) st1" by simp
  from Suc.IH [OF this] Suc.prems(2) obtain st' where
    "cst_singles nodes m st1 = Some st'" "cst_filled nodes n [0..<Suc k + m] (\<lambda>_. None) st'" by auto
  with st1(1) show ?case by (auto simp: nx simp del: upt_Suc)
qed simp

text \<open>Every node with a code has an index.\<close>

lemma levels_all:
  assumes "trie b kids" and "coded b nodes ks" and "levels kids ks ns (length ns)"
  shows "set ns = set ks" and "length ns = length ks"
proof -
  have l: "distinct ns" "set ns \<subseteq> set ks" and e: "ns = singles @ concat (map (kept kids ks) ns)"
    using assms(3) unfolding levels_def by auto
  have mem: "set ns = set singles \<union> (\<Union>p \<in> set ns. set (kept kids ks p))"
    using arg_cong [OF e, of set] unfolding set_append set_concat set_map by blast
  have "i \<in> set ns" if "i \<in> set ks" for i
    using that
  proof (induction i rule: less_induct)
    case (less i)
    show ?case
    proof (cases "i < 256")
      case True
      then have "i \<in> set singles" by simp
      with mem show ?thesis by blast
    next
      case False
      let ?p = "nd_prev (lzb_nodes b i)"
      have p: "?p < i" "?p \<in> set ks"
        using trie_prev [OF assms(1)] coded_max [OF assms(2) less.prems] coded_prev [OF assms(2) less.prems] False by auto
      have "i \<in> set (kept kids ks ?p)"
        using kept_iff [OF assms(1,2) coded_max [OF assms(2) p(2)]] less.prems False by simp
      with less.IH [OF p] mem show ?thesis by blast
    qed
  qed
  with l(2) show s: "set ns = set ks" by blast
  show "length ns = length ks"
    using distinct_card [OF l(1)] distinct_card [OF coded_distinct [OF assms(2)]] s by simp
qed

text \<open>The finished table: the nodes \<open>ns\<close> in the order of their indexes.\<close>

definition cst_final :: "(nat \<Rightarrow> utilLZWNode) \<Rightarrow> (nat \<Rightarrow> nat list) \<Rightarrow> nat list \<Rightarrow> nat list \<Rightarrow> cstState \<Rightarrow> bool" where
  "cst_final nodes kids ks ns st \<longleftrightarrow>
     levels kids ks ns (length ns) \<and> set ns = set ks \<and> length ns = length ks \<and>
     cst_filled nodes (length ks) ns (first_child kids ks ns (length ns)) st"

lemma cst_ok:
  assumes "trie b kids" and "coded b nodes ks"
  shows "\<exists>st ns. (cst_singles nodes 256 \<lparr>ct_nextIdx = 0, ct_indexMap = Map.empty,
               ct_cst = replicate (length ks) 0, ct_codeMap = replicate (length ks) 0\<rparr> \<bind> cst_groups nodes 0) = Some st \<and>
           cst_final nodes kids ks ns st"
proof -
  let ?st = "\<lparr>ct_nextIdx = 0, ct_indexMap = Map.empty,
               ct_cst = replicate (length ks) 0, ct_codeMap = replicate (length ks) 0\<rparr>"
  have "set singles \<subseteq> set ks" using coded_single [OF assms(2)] by auto
  then have lev: "levels kids ks singles 0" by (simp add: levels_def)
  have "256 \<le> length ks" using levels_num [OF lev assms(2)] by simp
  moreover have "cst_filled nodes (length ks) [0..<0] (\<lambda>_. None) ?st" by (simp add: cst_filled_def)
  ultimately obtain st1 where st1: "cst_singles nodes 256 ?st = Some st1"
      "cst_filled nodes (length ks) [0..<0 + 256] (\<lambda>_. None) st1"
    using cst_singles_filled [of nodes "length ks" 0 ?st 256] by auto
  have "cst_filled nodes (length ks) singles (first_child kids ks singles 0) st1"
  proof -
    have "first_child kids ks singles 0 = (\<lambda>_. None)" by (simp add: fun_eq_iff first_child_def)
    then show ?thesis using st1(2) by (simp only: singles_def [symmetric] add_0)
  qed
  from cst_groups_filled [OF assms lev this] obtain st ns where
    "cst_groups nodes 0 st1 = Some st" "levels kids ks ns (length ns)"
    "cst_filled nodes (length ks) ns (first_child kids ks ns (length ns)) st" by blast
  with st1(1) levels_all [OF assms] show ?thesis unfolding cst_final_def by (metis bind.bind_lunit)
qed

section \<open>The children the search delimits\<close>

lemma cst_final_item:
  assumes "cst_final nodes kids ks ns st" and "coded b nodes ks" and "j < length ks"
  shows "CST_GET_CHAR (ct_cst st ! j) = nd_ch (nodes (ns ! j))"
    and "CST_GET_CHILD (ct_cst st ! j) =
      (if kept kids ks (ns ! j) = [] then CST_INVALID_CHILD else start kids ks ns j)"
    and "start kids ks ns j \<le> length ks" and "j < start kids ks ns j"
    and "start kids ks ns (length ks) = length ks" and "ct_codeMap st ! j = nd_code (nodes (ns ! j))"
proof -
  have l: "levels kids ks ns (length ns)" "length ns = length ks" and
    f: "cst_filled nodes (length ks) ns (first_child kids ks ns (length ns)) st"
    using assms(1) by (auto simp: cst_final_def)
  have it: "ct_cst st ! j = cst_item (nd_ch (nodes (ns ! j)))
      (Some (if kept kids ks (ns ! j) = [] then CST_INVALID_CHILD else start kids ks ns j))"
    and "ct_codeMap st ! j = nd_code (nodes (ns ! j))"
    using f assms(3) l(2) by (auto simp: cst_filled_def first_child_def)
  then show "CST_GET_CHAR (ct_cst st ! j) = nd_ch (nodes (ns ! j))" and "ct_codeMap st ! j = nd_code (nodes (ns ! j))"
    by (simp_all add: CST_GET_CHAR_item)
  have mono: "start kids ks ns j \<le> start kids ks ns (length ks)"
  proof -
    have "take (length ks) ns = take j ns @ drop j (take (length ks) ns)" using assms(3)
      by (metis append_take_drop_id less_or_eq_imp_le min.absorb1 take_take)
    then have "concat (map (kept kids ks) (take (length ks) ns)) =
        concat (map (kept kids ks) (take j ns)) @ concat (map (kept kids ks) (drop j (take (length ks) ns)))"
      by (metis concat_append map_append)
    then show ?thesis by (simp add: start_def)
  qed
  show e: "start kids ks ns (length ks) = length ks" using levels_length [OF l(1)] l(2) by simp
  with mono show le: "start kids ks ns j \<le> length ks" by simp
  show "j < start kids ks ns j" using l assms(3) unfolding levels_def by metis
  have "start kids ks ns j < 2 ^ 23" using le coded_num [OF assms(2)] by simp
  then show "CST_GET_CHILD (ct_cst st ! j) =
      (if kept kids ks (ns ! j) = [] then CST_INVALID_CHILD else start kids ks ns j)"
    by (simp add: it CST_GET_CHILD_item CST_INVALID_CHILD_def)
qed

lemma cst_high_final:
  assumes f: "cst_final nodes kids ks ns st" and c: "coded b nodes ks" and d: "lzd_cst d = ct_cst st"
    and n: "getMaxValidCode d + 1 = length ks" and "i + k \<le> getMaxValidCode d"
  shows "cst_high d i k = Some (start kids ks ns (i + k) - 1)"
  using assms(5)
proof (induction "getMaxValidCode d - (i + k)" arbitrary: k rule: less_induct)
  case less
  let ?m = "i + k"
  have m: "?m < length ks" and len: "length ns = length ks" "length (ct_cst st) = length ks"
    using less.prems n f by (auto simp: cst_final_def cst_filled_def)
  note it = cst_final_item [OF f c m]
  have suc: "start kids ks ns (Suc ?m) = start kids ks ns ?m + length (kept kids ks (ns ! ?m))"
    using m len by (simp add: start_Suc)
  show ?case
  proof (cases "?m < getMaxValidCode d")
    case True
    have a: "aref (lzd_cst d) ?m = Some (ct_cst st ! ?m)" using m len by (simp add: aref_def d)
    have ne: "start kids ks ns ?m \<noteq> CST_INVALID_CHILD" "start kids ks ns ?m < 4294967296" "1 \<le> start kids ks ns ?m"
      using it(3,4) coded_num [OF c] by (auto simp: CST_INVALID_CHILD_def)
    show ?thesis
    proof (cases "kept kids ks (ns ! ?m) = []")
      case True
      then show ?thesis using less.hyps [of "k + 1"] \<open>?m < getMaxValidCode d\<close> suc it(2)
        by (subst cst_high.simps) (simp add: a)
    next
      case False
      then show ?thesis using \<open>?m < getMaxValidCode d\<close> it(2) ne
        by (subst cst_high.simps) (simp add: a u32_sub_id)
    qed
  next
    case False
    with less.prems have e: "?m = getMaxValidCode d" by simp
    then have "start kids ks ns ?m = length ks" using it(3,4) n by linarith
    then show ?thesis using e n by (subst cst_high.simps) simp
  qed
qed

lemma nth_middle:
  "length xs \<le> j \<Longrightarrow> j < length xs + length ys \<Longrightarrow> (xs @ ys @ zs) ! j = ys ! (j - length xs)"
  by (auto simp: nth_append)

lemma levels_nth:
  assumes "levels kids ks ns (length ns)" and "i < length ns"
    and "start kids ks ns i \<le> j" and "j < start kids ks ns (Suc i)"
  shows "ns ! j \<in> set (kept kids ks (ns ! i))"
proof -
  let ?k = "kept kids ks" and ?c = "\<lambda>xs. concat (map (kept kids ks) xs)"
  have "ns = singles @ ?c ns" using assms(1) by (simp add: levels_def)
  moreover have "?c ns = ?c (take i ns) @ ?k (ns ! i) @ ?c (drop (Suc i) ns)"
    using arg_cong [OF id_take_nth_drop [OF assms(2)], of ?c] by simp
  ultimately have "ns ! j = ((singles @ ?c (take i ns)) @ ?k (ns ! i) @ ?c (drop (Suc i) ns)) ! j" by simp
  also have "\<dots> = (?k (ns ! i)) ! (j - start kids ks ns i)"
    using assms(2-4) nth_middle [of "singles @ ?c (take i ns)" j "?k (ns ! i)" "?c (drop (Suc i) ns)"]
    by (simp add: start_Suc) (simp add: start_def add.assoc)
  finally show ?thesis using assms(2-4) by (simp add: start_Suc)
qed

lemma cst_children_final:
  assumes t: "trie b kids" and c: "coded b nodes ks" and f: "cst_final nodes kids ks ns st"
    and d: "lzd_cst d = ct_cst st" and n: "getMaxValidCode d + 1 = length ks"
    and i: "i < getMaxValidCode d" and j: "j \<in> cst_children d i"
  shows "0 < j" and "j \<le> getMaxValidCode d" and "256 \<le> ns ! j" and "nd_prev (nodes (ns ! j)) = ns ! i"
    and "CST_GET_CHAR (lzd_cst d ! j) = nd_ch (nodes (ns ! j))"
proof -
  have il: "i < length ks" and len: "length ns = length ks" using i n f by (auto simp: cst_final_def)
  note it = cst_final_item [OF f c il]
  have hi: "cst_high d i 1 = Some (start kids ks ns (Suc i) - 1)" using cst_high_final [OF f c d n, of i 1] i by simp
  have r: "start kids ks ns i \<le> j" "j \<le> start kids ks ns (Suc i) - 1"
    using j it(2) by (auto simp: cst_children_def d hi simp del: One_nat_def split: if_splits)
  have "start kids ks ns (Suc i) \<le> length ks"
    using cst_final_item(3) [OF f c, of "Suc i"] cst_final_item(5) [OF f c il] i n by fastforce
  moreover have pos: "0 < start kids ks ns (Suc i)" by (simp add: start_def)
  ultimately show "0 < j" and jm: "j \<le> getMaxValidCode d" using r it(4) n by linarith+
  have "ns ! j \<in> set (kept kids ks (ns ! i))"
    by (rule levels_nth) (use f il len r pos in \<open>auto simp: cst_final_def\<close>)
  moreover have "ns ! i \<in> set ks" using f il len by (metis cst_final_def nth_mem)
  ultimately show "256 \<le> ns ! j" and "nd_prev (nodes (ns ! j)) = ns ! i"
    using kept_iff [OF t c coded_max [OF c]] coded_fields [OF c] by auto
  show "CST_GET_CHAR (lzd_cst d ! j) = nd_ch (nodes (ns ! j))"
    using cst_final_item(1) [OF f c, of j] jm n by (simp add: d)
qed

end
