(* ===== verification/LzwDst.thy ===== *)
theory LzwDst
  imports LzwCst
begin

text \<open>
  The decompression string table that \<^verbatim>\<open>finalize\<close> fills from the longest strings to the shortest.
  An item that has been set spells the string of its node, directly, through bytes of the string
  area, or through the code of a prefix and the bytes that follow it. The string area takes at most
  five bytes for each string.
\<close>

section \<open>The strings of the nodes\<close>

text \<open>The node of the string without its last \<open>k\<close> characters.\<close>

definition anc :: "(nat \<Rightarrow> utilLZWNode) \<Rightarrow> nat \<Rightarrow> nat \<Rightarrow> nat" where
  "anc nodes i k = ((\<lambda>j. nd_prev (nodes j)) ^^ k) i"

lemma anc_0 [simp]: "anc nodes i 0 = i"
  by (simp add: anc_def)

lemma anc_Suc: "anc nodes i (Suc k) = nd_prev (nodes (anc nodes i k))"
  by (simp add: anc_def)

lemma node_len:
  assumes "trie b kids" and "coded b nodes ks" and "i \<in> set ks"
  shows "1 \<le> nd_len (nodes i)" and "nd_len (nodes i) \<le> 255" and "256 \<le> i \<longleftrightarrow> 1 < nd_len (nodes i)"
    and "256 \<le> i \<Longrightarrow> nd_prev (nodes i) \<in> set ks \<and> nd_len (nodes (nd_prev (nodes i))) = nd_len (nodes i) - 1"
    and "i < 256 \<Longrightarrow> nd_prev (nodes i) = UTIL_INVALID_DICT_CODE"
    and "i \<noteq> UTIL_INVALID_DICT_CODE"
proof -
  note fields = coded_fields [OF assms(2)]
  have pos: "1 \<le> nd_len (lzb_nodes b j)" if "j \<le> lzb_maxCode b" for j
    using that trie_single(3) [OF assms(1), of j] trie_len(2) [OF assms(1), of j] by (cases "j < 256") auto
  have im: "i \<le> lzb_maxCode b" by (rule coded_max [OF assms(2,3)])
  show "1 \<le> nd_len (nodes i)" using pos [OF im] by (simp add: fields)
  show "nd_len (nodes i) \<le> 255"
    using trie_len(1) [OF assms(1) _ im] trie_single(3) [OF assms(1), of i] by (cases "i < 256") (auto simp: fields)
  show "256 \<le> i \<longleftrightarrow> 1 < nd_len (nodes i)"
  proof (cases "i < 256")
    case False
    then have "nd_prev (lzb_nodes b i) \<le> lzb_maxCode b" using trie_prev [OF assms(1) _ im] im by fastforce
    with False trie_len(2) [OF assms(1) _ im] pos show ?thesis by (fastforce simp: fields)
  qed (use trie_single(3) [OF assms(1), of i] in \<open>simp add: fields\<close>)
  show "256 \<le> i \<Longrightarrow> nd_prev (nodes i) \<in> set ks \<and> nd_len (nodes (nd_prev (nodes i))) = nd_len (nodes i) - 1"
    using trie_len(2) [OF assms(1) _ im] coded_prev [OF assms(2,3)] by (simp add: fields)
  show "i < 256 \<Longrightarrow> nd_prev (nodes i) = UTIL_INVALID_DICT_CODE"
    using trie_single(1) [OF assms(1)] by (simp add: fields)
  show "i \<noteq> UTIL_INVALID_DICT_CODE" using im trie_max [OF assms(1)] by (auto simp: UTIL_INVALID_DICT_CODE_def)
qed

lemma getStr_single:
  assumes "trie b kids" and "coded b nodes ks" and "i < 256"
  shows "getStr nodes i = [word_of_nat i]"
proof -
  have i: "i \<in> set ks" by (rule coded_single [OF assms(2,3)])
  have "nd_len (nodes i) = 1" using node_len(1,3) [OF assms(1,2) i] assms(3) by linarith
  then show ?thesis using trie_single(2) [OF assms(1,3)] node_len(6) [OF assms(1,2) i]
    by (simp add: getStr_def coded_fields(5) [OF assms(2)])
qed

lemma getStr_snoc:
  assumes "trie b kids" and "coded b nodes ks" and "i \<in> set ks" and "256 \<le> i"
  shows "getStr nodes i = getStr nodes (nd_prev (nodes i)) @ [nd_ch (nodes i)]"
proof -
  note len = node_len [OF assms(1-3)]
  obtain n where n: "nd_len (nodes i) = Suc n" using len(1) by (cases "nd_len (nodes i)") auto
  show ?thesis using len(4) [OF assms(4)] len(6) n by (simp add: getStr_def)
qed

lemma length_getStr:
  assumes "trie b kids" and "coded b nodes ks" and "i \<in> set ks"
  shows "length (getStr nodes i) = nd_len (nodes i)"
  using assms(3)
proof (induction "nd_len (nodes i)" arbitrary: i rule: less_induct)
  case less
  note len = node_len [OF assms(1,2) less.prems]
  show ?case
  proof (cases "i < 256")
    case True
    then show ?thesis using getStr_single [OF assms(1,2) True] len(1,3) by simp
  next
    case False
    then show ?thesis
      using less.hyps [of "nd_prev (nodes i)"] getStr_snoc [OF assms(1,2) less.prems] len(1,4) by simp
  qed
qed

lemma anc_node:
  assumes "trie b kids" and "coded b nodes ks" and "i \<in> set ks" and "k < nd_len (nodes i)"
  shows "anc nodes i k \<in> set ks" and "nd_len (nodes (anc nodes i k)) = nd_len (nodes i) - k"
    and "getStr nodes (anc nodes i k) = take (nd_len (nodes i) - k) (getStr nodes i)"
proof -
  have "anc nodes i k \<in> set ks \<and> nd_len (nodes (anc nodes i k)) = nd_len (nodes i) - k \<and>
      getStr nodes (anc nodes i k) = take (nd_len (nodes i) - k) (getStr nodes i)"
    using assms(4)
  proof (induction k)
    case 0
    then show ?case using assms(3) length_getStr [OF assms(1-3)] by simp
  next
    case (Suc k)
    let ?a = "anc nodes i k"
    have a: "?a \<in> set ks" "nd_len (nodes ?a) = nd_len (nodes i) - k"
      and str: "getStr nodes ?a = take (nd_len (nodes i) - k) (getStr nodes i)" using Suc by auto
    note len = node_len [OF assms(1,2) a(1)]
    have big: "256 \<le> ?a" using len(3) a(2) Suc.prems by simp
    have "getStr nodes (nd_prev (nodes ?a)) = butlast (getStr nodes ?a)"
      using getStr_snoc [OF assms(1,2) a(1) big] by simp
    also have "\<dots> = take (nd_len (nodes i) - Suc k) (getStr nodes i)"
      using Suc.prems length_getStr [OF assms(1-3)] by (simp add: str butlast_take)
    finally show ?case using len(4) [OF big] a(2) Suc.prems by (simp add: anc_Suc)
  qed
  then show "anc nodes i k \<in> set ks" and "nd_len (nodes (anc nodes i k)) = nd_len (nodes i) - k"
    and "getStr nodes (anc nodes i k) = take (nd_len (nodes i) - k) (getStr nodes i)" by blast+
qed

lemma anc_root:
  assumes "trie b kids" and "coded b nodes ks" and "i \<in> set ks"
  shows "anc nodes i (nd_len (nodes i)) = UTIL_INVALID_DICT_CODE"
    and "k < nd_len (nodes i) \<Longrightarrow> nd_prev (nodes (anc nodes i k)) = UTIL_INVALID_DICT_CODE \<longleftrightarrow> Suc k = nd_len (nodes i)"
    and "k < nd_len (nodes i) \<Longrightarrow> anc nodes i k \<noteq> UTIL_INVALID_DICT_CODE"
proof -
  have root: "nd_prev (nodes (anc nodes i k)) = UTIL_INVALID_DICT_CODE \<longleftrightarrow> Suc k = nd_len (nodes i)"
    if k: "k < nd_len (nodes i)" for k
  proof -
    note a = anc_node [OF assms k]
    note len = node_len [OF assms(1,2) a(1)]
    show ?thesis
    proof (cases "anc nodes i k < 256")
      case True
      then show ?thesis using len(1,3,5) a(2) by simp
    next
      case False
      then have "nd_prev (nodes (anc nodes i k)) \<noteq> UTIL_INVALID_DICT_CODE"
        using len(4) node_len(6) [OF assms(1,2)] by auto
      moreover have "1 < nd_len (nodes i) - k" using False len(3) a(2) by simp
      ultimately show ?thesis by linarith
    qed
  qed
  show "k < nd_len (nodes i) \<Longrightarrow> nd_prev (nodes (anc nodes i k)) = UTIL_INVALID_DICT_CODE \<longleftrightarrow> Suc k = nd_len (nodes i)"
    by (rule root)
  show "k < nd_len (nodes i) \<Longrightarrow> anc nodes i k \<noteq> UTIL_INVALID_DICT_CODE"
    using anc_node(1) [OF assms] node_len(6) [OF assms(1,2)] by blast
  obtain n where n: "nd_len (nodes i) = Suc n"
    using node_len(1) [OF assms] by (cases "nd_len (nodes i)") auto
  then show "anc nodes i (nd_len (nodes i)) = UTIL_INVALID_DICT_CODE" using root [of n] by (simp add: anc_Suc)
qed

lemma anc_code_inj:
  assumes "trie b kids" and "coded b nodes ks" and "i \<in> set ks" and "k < nd_len (nodes i)" and "m < nd_len (nodes i)"
    and "nd_code (nodes (anc nodes i k)) = nd_code (nodes (anc nodes i m))"
  shows "k = m"
proof -
  have "anc nodes i k = anc nodes i m"
    by (rule coded_inj [OF assms(2)]) (use assms anc_node(1) [OF assms(1-3)] in auto)
  then show ?thesis using anc_node(2) [OF assms(1-3)] assms(4,5) by (metis diff_diff_cancel less_imp_le)
qed

section \<open>The bytes of a remote string\<close>

lemma anc_char:
  assumes t: "trie b kids" and c: "coded b nodes ks" and i: "i \<in> set ks" and k: "k < nd_len (nodes i)"
  shows "nd_ch (nodes (anc nodes i k)) # drop (nd_len (nodes i) - k) (getStr nodes i) =
           drop (nd_len (nodes i) - Suc k) (getStr nodes i)"
proof -
  let ?a = "anc nodes i k" and ?L = "nd_len (nodes i)" and ?s = "getStr nodes i"
  note a = anc_node [OF t c i k] and L = length_getStr [OF t c i]
  have "getStr nodes ?a \<noteq> []" using a(2) length_getStr [OF t c a(1)] k by auto
  moreover have "last (getStr nodes ?a) = nd_ch (nodes ?a)"
  proof (cases "?a < 256")
    case True
    then show ?thesis using getStr_single [OF t c True] trie_single(2) [OF t True] coded_fields(5) [OF c] by simp
  qed (use getStr_snoc [OF t c a(1)] in simp)
  ultimately have "?s ! (?L - Suc k) = nd_ch (nodes ?a)" using a(3) L k by (simp add: last_conv_nth)
  moreover have "?L - Suc k < length ?s" using L k by simp
  moreover have "Suc (?L - Suc k) = ?L - k" using k by simp
  ultimately show ?thesis by (metis Cons_nth_drop_Suc)
qed

lemma remote_bytes_step:
  assumes t: "trie b kids" and c: "coded b nodes ks" and i: "i \<in> set ks" and dst: "length dst = length ks"
    and k: "k < nd_len (nodes i)"
  shows "remote_bytes nodes dst (anc nodes i k) (drop (nd_len (nodes i) - k) (getStr nodes i)) =
     (if Suc k = nd_len (nodes i) then Some (SDB_OK, getStr nodes i, False)
      else if dst ! nd_code (nodes (anc nodes i (Suc k))) \<noteq> 0 \<and> Suc k + 4 < nd_len (nodes i)
      then Some (SDB_OK, link_bytes (nd_code (nodes (anc nodes i (Suc k)))) @
                   drop (nd_len (nodes i) - Suc k) (getStr nodes i), True)
      else remote_bytes nodes dst (anc nodes i (Suc k)) (drop (nd_len (nodes i) - Suc k) (getStr nodes i)))"
proof -
  let ?L = "nd_len (nodes i)" and ?s = "getStr nodes i"
  have L: "?L \<le> 255" "length ?s = ?L" using node_len(2) [OF t c i] length_getStr [OF t c i] by auto
  note ch = anc_char [OF t c i k] and root = anc_root(2) [OF t c i k]
  have short: "length (drop (?L - k) ?s) \<noteq> UTIL_MAX_DICT_STR_LEN" using L k by (simp add: UTIL_MAX_DICT_STR_LEN_def)
  show ?thesis
  proof (cases "Suc k = ?L")
    case True
    then show ?thesis using short root by (subst remote_bytes.simps) (simp add: ch Let_def)
  next
    case False
    then have k1: "Suc k < ?L" using k by simp
    note a1 = anc_node [OF t c i k1]
    have ar: "aref dst (nd_code (nodes (anc nodes i (Suc k)))) = Some (dst ! nd_code (nodes (anc nodes i (Suc k))))"
      using coded_less [OF c a1(1)] dst by (simp add: aref_def)
    have len: "nd_len (nodes (anc nodes i (Suc k))) \<le> 4 \<longleftrightarrow> \<not> Suc k + 4 < ?L" using a1(2) k1 by auto
    have room: "Suc k + 4 < ?L \<Longrightarrow> length (drop (?L - Suc k) ?s) + 3 \<le> UTIL_MAX_DICT_STR_LEN"
      using L by (simp add: UTIL_MAX_DICT_STR_LEN_def)
    show ?thesis using short root False room
      by (subst remote_bytes.simps) (simp add: ch Let_def anc_Suc [symmetric] ar len del: length_drop)
  qed
qed

text \<open>The search for a prefix to link to: the first one upwards that has an item and more than four
  characters.\<close>

lemma remote_bytes_ok:
  assumes t: "trie b kids" and c: "coded b nodes ks" and i: "i \<in> set ks" and dst: "length dst = length ks"
    and "k < nd_len (nodes i)"
  shows "remote_bytes nodes dst (anc nodes i k) (drop (nd_len (nodes i) - k) (getStr nodes i)) =
           Some (SDB_OK, getStr nodes i, False) \<and>
         (\<forall>m. k < m \<and> m + 4 < nd_len (nodes i) \<longrightarrow> dst ! nd_code (nodes (anc nodes i m)) = 0) \<or>
         (\<exists>m. k < m \<and> m + 4 < nd_len (nodes i) \<and> dst ! nd_code (nodes (anc nodes i m)) \<noteq> 0 \<and>
            remote_bytes nodes dst (anc nodes i k) (drop (nd_len (nodes i) - k) (getStr nodes i)) =
              Some (SDB_OK, link_bytes (nd_code (nodes (anc nodes i m))) @
                drop (nd_len (nodes i) - m) (getStr nodes i), True) \<and>
            (\<forall>m'. k < m' \<and> m' < m \<longrightarrow> dst ! nd_code (nodes (anc nodes i m')) = 0))"
  using assms(5)
proof (induction "nd_len (nodes i) - k" arbitrary: k rule: less_induct)
  case less
  let ?L = "nd_len (nodes i)" and ?s = "getStr nodes i"
  let ?code = "\<lambda>m. nd_code (nodes (anc nodes i m))"
  note step = remote_bytes_step [OF t c i dst less.prems]
  consider "Suc k = ?L" | "Suc k \<noteq> ?L" "dst ! ?code (Suc k) \<noteq> 0 \<and> Suc k + 4 < ?L"
    | "Suc k \<noteq> ?L" "\<not> (dst ! ?code (Suc k) \<noteq> 0 \<and> Suc k + 4 < ?L)" by blast
  then show ?case
  proof cases
    case 1
    then show ?thesis unfolding step by auto
  next
    case 2
    have "remote_bytes nodes dst (anc nodes i k) (drop (?L - k) ?s) =
        Some (SDB_OK, link_bytes (?code (Suc k)) @ drop (?L - Suc k) ?s, True)"
      unfolding step if_not_P [OF 2(1)] by (rule if_P [OF 2(2)])
    then show ?thesis using 2(2) by (intro disjI2 exI [of _ "Suc k"]) auto
  next
    case 3
    have eq: "remote_bytes nodes dst (anc nodes i k) (drop (?L - k) ?s) =
        remote_bytes nodes dst (anc nodes i (Suc k)) (drop (?L - Suc k) ?s)"
      unfolding step if_not_P [OF 3(1)] by (rule if_not_P [OF 3(2)])
    have here: "dst ! ?code m = 0" if "m + 4 < ?L" "k < m" "Suc k < m \<longrightarrow> dst ! ?code m = 0" for m
      using that 3(2) by (cases "m = Suc k") auto
    have k: "Suc k < ?L" and "?L - Suc k < ?L - k" using 3(1) less.prems by simp_all
    from less.hyps [OF this(2) k] show ?thesis
    proof (elim disjE exE conjE)
      assume "remote_bytes nodes dst (anc nodes i (Suc k)) (drop (?L - Suc k) ?s) = Some (SDB_OK, ?s, False)"
        and "\<forall>m. Suc k < m \<and> m + 4 < ?L \<longrightarrow> dst ! ?code m = 0"
      then show ?thesis unfolding eq using here by blast
    next
      fix m assume m: "Suc k < m" "m + 4 < ?L" "dst ! ?code m \<noteq> 0"
        "remote_bytes nodes dst (anc nodes i (Suc k)) (drop (?L - Suc k) ?s) =
           Some (SDB_OK, link_bytes (?code m) @ drop (?L - m) ?s, True)"
        "\<forall>m'. Suc k < m' \<and> m' < m \<longrightarrow> dst ! ?code m' = 0"
      have "dst ! ?code m' = 0" if "k < m'" "m' < m" for m' using here [of m'] that m(2,5) by simp
      with m show ?thesis unfolding eq by (intro disjI2 exI [of _ m]) auto
    qed
  qed
qed

section \<open>The items of a string and its prefixes\<close>

lemma set_remote_0: "set_remote link pos len 0 = remote_item link pos len"
  using remote_item_order by (cases link) (simp_all add: set_remote_def remote_item_def)

lemma dst_set_0:
  assumes "c < length (dt_dst st)" and "dt_dst st ! c = 0"
  shows "dst_set f c st = Some (st\<lparr>dt_dst := (dt_dst st)[c := f 0]\<rparr>)"
  using assms by (simp add: dst_set_def aref_def aset_def)

lemma set_local_0:
  assumes "trie b kids" and "coded b nodes ks" and "i \<in> set ks" and "length (dt_dst st) = length ks"
    and "dt_dst st ! nd_code (nodes i) = 0"
  shows "set_local nodes i st =
           Some (st\<lparr>dt_dst := (dt_dst st)[nd_code (nodes i) := local_item (getStr nodes i)]\<rparr>)"
  unfolding set_local_def
  using dst_set_0 [of "nd_code (nodes i)" st] assms(4,5) coded_less [OF assms(2,3)] length_getStr [OF assms(1-3)]
  by (simp add: local_item_def)

text \<open>The items of the prefixes \<open>m\<close> up to \<open>s\<close> of the string of a node are set, and no others.\<close>

definition path_set ::
  "(nat \<Rightarrow> utilLZWNode) \<Rightarrow> nat \<Rightarrow> nat \<Rightarrow> nat \<Rightarrow> (nat \<Rightarrow> 32 word) \<Rightarrow> 32 word list \<Rightarrow> 32 word list \<Rightarrow> bool" where
  "path_set nodes i m s item dst dst' \<longleftrightarrow>
     length dst' = length dst \<and>
     (\<forall>k. m \<le> k \<and> k < s \<longrightarrow> dst' ! nd_code (nodes (anc nodes i k)) = item k) \<and>
     (\<forall>c. (\<forall>k. m \<le> k \<and> k < s \<longrightarrow> c \<noteq> nd_code (nodes (anc nodes i k))) \<longrightarrow> dst' ! c = dst ! c)"

lemma path_set_refl [simp]: "path_set nodes i s s item dst dst"
  by (auto simp: path_set_def)

lemma path_set_step:
  assumes t: "trie b kids" and c: "coded b nodes ks" and i: "i \<in> set ks" and s: "s \<le> nd_len (nodes i)" and m: "m < s"
    and n: "length dst = length ks"
    and p: "path_set nodes i (Suc m) s item (dst[nd_code (nodes (anc nodes i m)) := item m]) dst'"
  shows "path_set nodes i m s item dst dst'"
proof -
  let ?code = "\<lambda>k. nd_code (nodes (anc nodes i k))"
  have a: "anc nodes i m \<in> set ks" using anc_node(1) [OF t c i] m s by simp
  have other: "?code k \<noteq> ?code m" if "Suc m \<le> k" "k < s" for k
    using anc_code_inj [OF t c i, of k m] that m s by auto
  have "dst' ! ?code m = (dst[?code m := item m]) ! ?code m" using p other unfolding path_set_def by metis
  also have "\<dots> = item m" using coded_less [OF c a] n by simp
  finally have "dst' ! ?code k = item k" if "m \<le> k" "k < s" for k
    using p that unfolding path_set_def by (cases "k = m") auto
  moreover have "dst' ! x = dst ! x" if x: "\<forall>k. m \<le> k \<and> k < s \<longrightarrow> x \<noteq> ?code k" for x
  proof -
    have "dst' ! x = (dst[?code m := item m]) ! x" using p x unfolding path_set_def by auto
    also have "\<dots> = dst ! x" using x m by (metis nth_list_update_neq order_refl)
    finally show ?thesis .
  qed
  moreover have "length dst' = length dst" using p by (simp add: path_set_def)
  ultimately show ?thesis unfolding path_set_def by blast
qed

definition prefix_item :: "(nat \<Rightarrow> utilLZWNode) \<Rightarrow> bool \<Rightarrow> nat \<Rightarrow> nat \<Rightarrow> nat \<Rightarrow> nat \<Rightarrow> 32 word" where
  "prefix_item nodes link pos totalLen i k =
     (if 3 < nd_len (nodes i) - k then remote_item link pos (totalLen - k)
      else local_item (getStr nodes (anc nodes i k)))"

lemma remote_prefixes_ok:
  assumes t: "trie b kids" and c: "coded b nodes ks" and i: "i \<in> set ks"
    and "m \<le> s" and s: "s \<le> nd_len (nodes i)" "s \<le> totalLen" and totalLen: "totalLen < 4294967296"
    and "s = nd_len (nodes i) \<or> dt_dst st ! nd_code (nodes (anc nodes i s)) \<noteq> 0"
    and "\<forall>k. m \<le> k \<and> k < s \<longrightarrow> dt_dst st ! nd_code (nodes (anc nodes i k)) = 0"
    and "length (dt_dst st) = length ks"
  shows "\<exists>dst'. remote_prefixes nodes link totalLen m (anc nodes i m) st = Some (st\<lparr>dt_dst := dst'\<rparr>) \<and>
           path_set nodes i m s (prefix_item nodes link (dt_offset st) totalLen i) (dt_dst st) dst'"
  using assms(4,8-10)
proof (induction "s - m" arbitrary: m st rule: less_induct)
  case less
  let ?L = "nd_len (nodes i)" and ?a = "anc nodes i m"
  let ?code = "\<lambda>k. nd_code (nodes (anc nodes i k))"
  show ?case
  proof (cases "m < s")
    case False
    then have ms: "m = s" using less.prems(1) by simp
    have "remote_prefixes nodes link totalLen m ?a st = Some st"
    proof (cases "s = ?L")
      case True
      then show ?thesis using anc_root(1) [OF t c i] ms by (subst remote_prefixes.simps) simp
    next
      case False
      then have sL: "s < ?L" using s by simp
      have "aref (dt_dst st) (?code s) = Some (dt_dst st ! ?code s)"
        using coded_less [OF c anc_node(1) [OF t c i sL]] less.prems(4) by (simp add: aref_def)
      then show ?thesis using less.prems(2) False anc_root(3) [OF t c i sL]
        by (subst remote_prefixes.simps) (simp add: ms)
    qed
    then show ?thesis using ms by (intro exI [of _ "dt_dst st"]) simp
  next
    case True
    then have mL: "m < ?L" using s by simp
    note a = anc_node [OF t c i mL]
    have z: "dt_dst st ! ?code m = 0" and cl: "?code m < length (dt_dst st)"
      using less.prems(3,4) True coded_less [OF c a(1)] by auto
    have ar: "aref (dt_dst st) (?code m) = Some 0" using cl z by (simp add: aref_def)
    define st1 where "st1 = st\<lparr>dt_dst := (dt_dst st)[?code m := prefix_item nodes link (dt_offset st) totalLen i m]\<rparr>"
    have set: "(if nd_len (nodes ?a) > DST_MAX_LOCAL_LEN
                 then dst_set (set_remote link (dt_offset st) (u32_sub totalLen m)) (?code m) st
                 else set_local nodes ?a st) = Some st1"
      using True s totalLen set_local_0 [OF t c a(1) less.prems(4) z] dst_set_0 [OF cl z]
      by (simp add: a(2) DST_MAX_LOCAL_LEN_def st1_def prefix_item_def set_remote_0 u32_sub_id)
    have step: "remote_prefixes nodes link totalLen m ?a st = remote_prefixes nodes link totalLen (Suc m) (anc nodes i (Suc m)) st1"
      using anc_root(3) [OF t c i mL] by (subst remote_prefixes.simps) (simp add: ar set anc_Suc)
    have other: "?code k \<noteq> ?code m" if "Suc m \<le> k" "k < ?L" for k
      using anc_code_inj [OF t c i, of k m] that mL by auto
    have "\<exists>dst'. remote_prefixes nodes link totalLen (Suc m) (anc nodes i (Suc m)) st1 = Some (st1\<lparr>dt_dst := dst'\<rparr>) \<and>
        path_set nodes i (Suc m) s (prefix_item nodes link (dt_offset st1) totalLen i) (dt_dst st1) dst'"
    proof (rule less.hyps)
      show "s = ?L \<or> dt_dst st1 ! ?code s \<noteq> 0"
        using less.prems(2) True other [of s] s by (cases "s = ?L") (auto simp: st1_def)
      show "\<forall>k. Suc m \<le> k \<and> k < s \<longrightarrow> dt_dst st1 ! ?code k = 0"
      proof (intro allI impI)
        fix k assume "Suc m \<le> k \<and> k < s"
        then have "?code m \<noteq> ?code k" "dt_dst st ! ?code k = 0" using other [of k] less.prems(3) s by auto
        then show "dt_dst st1 ! ?code k = 0" by (simp add: st1_def)
      qed
    qed (use True less.prems(4) in \<open>auto simp: st1_def\<close>)
    then obtain dst' where d: "remote_prefixes nodes link totalLen (Suc m) (anc nodes i (Suc m)) st1 = Some (st\<lparr>dt_dst := dst'\<rparr>)"
        "path_set nodes i (Suc m) s (prefix_item nodes link (dt_offset st) totalLen i) (dt_dst st1) dst'"
      by (auto simp: st1_def)
    then show ?thesis unfolding step
      using path_set_step [OF t c i s(1) True less.prems(4), of "prefix_item nodes link (dt_offset st) totalLen i" dst']
      by (auto simp: st1_def)
  qed
qed

lemma local_prefixes_ok:
  assumes t: "trie b kids" and c: "coded b nodes ks" and i: "i \<in> set ks"
    and "m \<le> nd_len (nodes i)" and "length (dt_dst st) = length ks"
  shows "\<exists>dst'. local_prefixes nodes (anc nodes i m) st = Some (st\<lparr>dt_dst := dst'\<rparr>) \<and>
           path_set nodes i m (nd_len (nodes i))
             (\<lambda>k. if dt_dst st ! nd_code (nodes (anc nodes i k)) = 0 then local_item (getStr nodes (anc nodes i k))
                  else dt_dst st ! nd_code (nodes (anc nodes i k))) (dt_dst st) dst'"
  using assms(4,5)
proof (induction "nd_len (nodes i) - m" arbitrary: m st rule: less_induct)
  case less
  let ?L = "nd_len (nodes i)" and ?a = "anc nodes i m"
  let ?code = "\<lambda>k. nd_code (nodes (anc nodes i k))"
  let ?item = "\<lambda>st k. if dt_dst st ! ?code k = 0 then local_item (getStr nodes (anc nodes i k)) else dt_dst st ! ?code k"
  show ?case
  proof (cases "m < ?L")
    case False
    then have m: "m = ?L" using less.prems by simp
    then have "local_prefixes nodes ?a st = Some st" using anc_root(1) [OF t c i] by (subst local_prefixes.simps) simp
    then show ?thesis using m by (intro exI [of _ "dt_dst st"]) simp
  next
    case True
    note a = anc_node [OF t c i True]
    have cl: "?code m < length (dt_dst st)" using less.prems(2) coded_less [OF c a(1)] by simp
    then have ar: "aref (dt_dst st) (?code m) = Some (dt_dst st ! ?code m)" by (simp add: aref_def)
    define st1 where "st1 = st\<lparr>dt_dst := (dt_dst st)[?code m := ?item st m]\<rparr>"
    have set: "(if dt_dst st ! ?code m = 0 then set_local nodes ?a st else Some st) = Some st1"
      using set_local_0 [OF t c a(1) less.prems(2)] by (simp add: st1_def)
    have step: "local_prefixes nodes ?a st = local_prefixes nodes (anc nodes i (Suc m)) st1"
      using anc_root(3) [OF t c i True] by (subst local_prefixes.simps) (simp add: ar set anc_Suc)
    have same: "?item st1 k = ?item st k" if "Suc m \<le> k" "k < ?L" for k
    proof -
      have "?code m \<noteq> ?code k" using anc_code_inj [OF t c i True that(2)] that by auto
      then show ?thesis by (simp add: st1_def)
    qed
    have "\<exists>dst'. local_prefixes nodes (anc nodes i (Suc m)) st1 = Some (st1\<lparr>dt_dst := dst'\<rparr>) \<and>
        path_set nodes i (Suc m) ?L (?item st1) (dt_dst st1) dst'"
      by (rule less.hyps) (use True less.prems(2) in \<open>auto simp: st1_def\<close>)
    then obtain dst' where d: "local_prefixes nodes (anc nodes i (Suc m)) st1 = Some (st\<lparr>dt_dst := dst'\<rparr>)"
        "path_set nodes i (Suc m) ?L (?item st1) (dt_dst st1) dst'" by (auto simp: st1_def)
    have "path_set nodes i (Suc m) ?L (?item st) ((dt_dst st)[?code m := ?item st m]) dst'"
      using d(2) same unfolding path_set_def by (auto simp: st1_def)
    from path_set_step [OF t c i order_refl True less.prems(2) this] d(1) show ?thesis unfolding step by blast
  qed
qed

end
