(* ===== verification/LzwDstInv.thy ===== *)
theory LzwDstInv
  imports LzwDst
begin

text \<open>
  The invariant of the decompression string table while \<^verbatim>\<open>finalize\<close> fills it, and its
  preservation by \<^verbatim>\<open>_formatOneCode\<close>: what has an item is closed under prefixes, every item
  describes the string of its node, and the string area has grown by at most five bytes an item.
\<close>

section \<open>The invariant\<close>

text \<open>What the item of a node says: a local string, a string of the area, or a link to a prefix.\<close>

definition item_ok ::
  "(nat \<Rightarrow> utilLZWNode) \<Rightarrow> nat list \<Rightarrow> 32 word list \<Rightarrow> byte list \<Rightarrow> nat \<Rightarrow> nat \<Rightarrow> bool" where
  "item_ok nodes ks dst area off i \<longleftrightarrow>
     (let item = dst ! nd_code (nodes i); len = nd_len (nodes i) in
      len \<le> 3 \<and> item = local_item (getStr nodes i) \<or>
      3 < len \<and> (\<exists>pos. item = remote_item False pos len \<and> pos + len \<le> off \<and>
         take len (drop pos area) = getStr nodes i) \<or>
      3 < len \<and> (\<exists>pos j t. j \<in> set ks \<and> nd_len (nodes j) < len \<and> 4 < nd_len (nodes j) \<and>
         dst ! nd_code (nodes j) \<noteq> 0 \<and> getStr nodes i = getStr nodes j @ t \<and>
         item = remote_item True pos (3 + length t) \<and> pos + (3 + length t) \<le> off \<and>
         take (3 + length t) (drop pos area) = link_bytes (nd_code (nodes j)) @ t))"

definition has_item :: "(nat \<Rightarrow> utilLZWNode) \<Rightarrow> nat list \<Rightarrow> 32 word list \<Rightarrow> nat set" where
  "has_item nodes ks dst = {i \<in> set ks. dst ! nd_code (nodes i) \<noteq> 0}"

definition dst_inv :: "(nat \<Rightarrow> utilLZWNode) \<Rightarrow> nat list \<Rightarrow> dstState \<Rightarrow> bool" where
  "dst_inv nodes ks st \<longleftrightarrow>
     length (dt_dst st) = length ks \<and> dt_offset st \<le> length (dt_strArea st) \<and>
     dt_offset st \<le> 5 * card (has_item nodes ks (dt_dst st)) \<and>
     (\<forall>i \<in> has_item nodes ks (dt_dst st).
        item_ok nodes ks (dt_dst st) (dt_strArea st) (dt_offset st) i \<and>
        (256 \<le> i \<longrightarrow> nd_prev (nodes i) \<in> has_item nodes ks (dt_dst st)))"

lemma dst_invD:
  assumes "dst_inv nodes ks st"
  shows dst_inv_len: "length (dt_dst st) = length ks" and dst_inv_off: "dt_offset st \<le> length (dt_strArea st)"
    and dst_inv_num: "dt_offset st \<le> 5 * card (has_item nodes ks (dt_dst st))"
    and dst_inv_item: "i \<in> has_item nodes ks (dt_dst st) \<Longrightarrow>
      item_ok nodes ks (dt_dst st) (dt_strArea st) (dt_offset st) i"
    and dst_inv_prev: "i \<in> has_item nodes ks (dt_dst st) \<Longrightarrow> 256 \<le> i \<Longrightarrow>
      nd_prev (nodes i) \<in> has_item nodes ks (dt_dst st)"
  using assms unfolding dst_inv_def by blast+

text \<open>An item stays right when the area grows behind the offset and more items are set.\<close>

lemma item_ok_mono:
  assumes "item_ok nodes ks dst area off i" and "dst' ! nd_code (nodes i) = dst ! nd_code (nodes i)"
    and "take off area' = take off area" and "off \<le> off'"
    and "has_item nodes ks dst \<subseteq> has_item nodes ks dst'"
  shows "item_ok nodes ks dst' area' off' i"
proof -
  have slice: "take n (drop pos area') = take n (drop pos area)" if "pos + n \<le> off" for pos n
  proof -
    have "drop pos (take (pos + n) (take off area')) = drop pos (take (pos + n) (take off area))"
      by (simp only: assms(3))
    with that show ?thesis by (simp add: min_absorb1 drop_take)
  qed
  have keep: "dst' ! nd_code (nodes j) \<noteq> 0" if "j \<in> set ks" "dst ! nd_code (nodes j) \<noteq> 0" for j
    using assms(5) that by (auto simp: has_item_def)
  from assms(1) consider "nd_len (nodes i) \<le> 3" "dst ! nd_code (nodes i) = local_item (getStr nodes i)"
    | pos where "3 < nd_len (nodes i)" "dst ! nd_code (nodes i) = remote_item False pos (nd_len (nodes i))"
        "pos + nd_len (nodes i) \<le> off" "take (nd_len (nodes i)) (drop pos area) = getStr nodes i"
    | pos j t where "3 < nd_len (nodes i)" "j \<in> set ks" "nd_len (nodes j) < nd_len (nodes i)" "4 < nd_len (nodes j)"
        "dst ! nd_code (nodes j) \<noteq> 0" "getStr nodes i = getStr nodes j @ t"
        "dst ! nd_code (nodes i) = remote_item True pos (3 + length t)" "pos + (3 + length t) \<le> off"
        "take (3 + length t) (drop pos area) = link_bytes (nd_code (nodes j)) @ t"
    unfolding item_ok_def Let_def by blast
  then show ?thesis
  proof cases
    case 1
    then show ?thesis by (simp add: item_ok_def assms(2))
  next
    case 2
    then have "pos + nd_len (nodes i) \<le> off'" using assms(4) by simp
    with 2 slice [OF 2(3)] show ?thesis unfolding item_ok_def Let_def assms(2) by metis
  next
    case 3
    then have "pos + (3 + length t) \<le> off'" using assms(4) by simp
    with 3 slice [OF 3(8)] keep [OF 3(2,5)] show ?thesis unfolding item_ok_def Let_def assms(2) by metis
  qed
qed

text \<open>The prefixes of a string that have no item yet: those up to a point, and all below have one.\<close>

lemma first_item:
  assumes "dst ! nd_code (nodes i) = 0" and "0 < nd_len (nodes i)"
  shows "\<exists>s. 0 < s \<and> s \<le> nd_len (nodes i) \<and>
           (s = nd_len (nodes i) \<or> dst ! nd_code (nodes (anc nodes i s)) \<noteq> 0) \<and>
           (\<forall>k < s. dst ! nd_code (nodes (anc nodes i k)) = 0)"
proof -
  let ?P = "\<lambda>s. s = nd_len (nodes i) \<or> dst ! nd_code (nodes (anc nodes i s)) \<noteq> 0"
  have "?P (nd_len (nodes i))" by simp
  from ex_least_nat_le [of ?P, OF this] obtain s where s: "s \<le> nd_len (nodes i)" "\<forall>k < s. \<not> ?P k" "?P s" by blast
  moreover from this assms have "0 < s" by (cases s) auto
  ultimately show ?thesis by blast
qed

lemma path_has_item:
  assumes t: "trie b kids" and c: "coded b nodes ks" and i: "i \<in> set ks" and s: "s \<le> nd_len (nodes i)"
    and p: "path_set nodes i 0 s item dst dst'" and item: "\<And>k. k < s \<Longrightarrow> item k \<noteq> 0"
  shows "has_item nodes ks dst' = has_item nodes ks dst \<union> anc nodes i ` {..<s}"
proof -
  have anc: "anc nodes i k \<in> set ks" "dst' ! nd_code (nodes (anc nodes i k)) \<noteq> 0" if "k < s" for k
    using anc_node(1) [OF t c i] p item that s unfolding path_set_def by auto
  have other: "dst' ! nd_code (nodes j) = dst ! nd_code (nodes j)" if "j \<in> set ks" "j \<notin> anc nodes i ` {..<s}" for j
  proof -
    have "nd_code (nodes j) \<noteq> nd_code (nodes (anc nodes i k))" if "k < s" for k
      using coded_inj [OF c \<open>j \<in> set ks\<close> anc(1) [OF that]] \<open>j \<notin> anc nodes i ` {..<s}\<close> that by blast
    then show ?thesis using p unfolding path_set_def by blast
  qed
  show ?thesis
  proof (rule set_eqI)
    fix j
    show "j \<in> has_item nodes ks dst' \<longleftrightarrow> j \<in> has_item nodes ks dst \<union> anc nodes i ` {..<s}"
      using anc other [of j] by (cases "j \<in> anc nodes i ` {..<s}") (auto simp: has_item_def)
  qed
qed

lemma path_card:
  assumes t: "trie b kids" and c: "coded b nodes ks" and i: "i \<in> set ks" and s: "s \<le> nd_len (nodes i)"
    and fresh: "\<forall>k < s. dst ! nd_code (nodes (anc nodes i k)) = 0"
  shows "card (has_item nodes ks dst \<union> anc nodes i ` {..<s}) = card (has_item nodes ks dst) + s"
    and "card (has_item nodes ks dst) + s \<le> length ks"
proof -
  let ?H = "has_item nodes ks dst" and ?new = "anc nodes i ` {..<s}"
  have disj: "?H \<inter> ?new = {}" using fresh by (auto simp: has_item_def)
  have "inj_on (anc nodes i) {..<s}"
    using anc_code_inj [OF t c i] s by (intro inj_onI) (metis lessThan_iff less_le_trans)
  then show num: "card (?H \<union> ?new) = card ?H + s"
    using disj by (subst card_Un_disjoint) (auto simp: card_image has_item_def)
  have "?H \<union> ?new \<subseteq> set ks" using anc_node(1) [OF t c i] s by (auto simp: has_item_def)
  then have "card (?H \<union> ?new) \<le> card (set ks)" by (intro card_mono) auto
  then show "card ?H + s \<le> length ks" unfolding num using card_length [of ks] by linarith
qed

lemma dst_inv_path:
  assumes t: "trie b kids" and c: "coded b nodes ks" and i: "i \<in> set ks" and s: "s \<le> nd_len (nodes i)"
    and inv: "dst_inv nodes ks st" and p: "path_set nodes i 0 s item (dt_dst st) dst'"
    and stop: "s = nd_len (nodes i) \<or> dt_dst st ! nd_code (nodes (anc nodes i s)) \<noteq> 0"
    and fresh: "\<forall>k < s. dt_dst st ! nd_code (nodes (anc nodes i k)) = 0"
    and item: "\<And>k. k < s \<Longrightarrow> item k \<noteq> 0 \<and> item_ok nodes ks dst' area off (anc nodes i k)"
    and area: "take (dt_offset st) area = take (dt_offset st) (dt_strArea st)" "dt_offset st \<le> off"
      "off \<le> length area" "off \<le> dt_offset st + 5 * s"
  shows "dst_inv nodes ks \<lparr>dt_dst = dst', dt_strArea = area, dt_offset = off\<rparr>"
proof -
  let ?H = "has_item nodes ks (dt_dst st)" and ?new = "anc nodes i ` {..<s}"
  have H: "has_item nodes ks dst' = ?H \<union> ?new" using path_has_item [OF t c i s p] item by blast
  have num: "off \<le> 5 * card (has_item nodes ks dst')" using area(4) dst_inv_num [OF inv] path_card(1) [OF t c i s fresh] H by simp
  have old: "dst' ! nd_code (nodes j) = dt_dst st ! nd_code (nodes j)" if j: "j \<in> ?H" for j
  proof -
    have "nd_code (nodes j) \<noteq> nd_code (nodes (anc nodes i k))" if "k < s" for k
      using fresh that j by (auto simp: has_item_def)
    then show ?thesis using p unfolding path_set_def by blast
  qed
  have "item_ok nodes ks dst' area off j \<and> (256 \<le> j \<longrightarrow> nd_prev (nodes j) \<in> has_item nodes ks dst')"
    if "j \<in> ?H \<union> ?new" for j
    using that
  proof
    assume j: "j \<in> ?H"
    have "item_ok nodes ks dst' area off j"
      by (rule item_ok_mono [OF dst_inv_item [OF inv j] old [OF j] area(1,2)]) (simp add: H)
    then show ?thesis using dst_inv_prev [OF inv j] H by blast
  next
    assume "j \<in> ?new"
    then obtain k where k: "k < s" "j = anc nodes i k" by blast
    have "nd_prev (nodes j) \<in> has_item nodes ks dst'" if "256 \<le> j"
    proof (cases "Suc k < s")
      case True
      then show ?thesis by (auto simp: H k(2) anc_Suc [symmetric])
    next
      case False
      then have sk: "s = Suc k" using k(1) by simp
      have kL: "k < nd_len (nodes i)" using sk s by simp
      have "1 < nd_len (nodes i) - k"
        using node_len(3) [OF t c anc_node(1) [OF t c i kL]] anc_node(2) [OF t c i kL] that k(2) by simp
      then have sL: "s < nd_len (nodes i)" using sk by simp
      then have "anc nodes i s \<in> ?H" using stop anc_node(1) [OF t c i sL] by (auto simp: has_item_def)
      then show ?thesis by (simp add: H k(2) sk anc_Suc)
    qed
    then show ?thesis using item [OF k(1)] k(2) by blast
  qed
  moreover have "length dst' = length ks" using p dst_inv_len [OF inv] by (simp add: path_set_def)
  ultimately show ?thesis using num area(3) H by (simp add: dst_inv_def)
qed

section \<open>One string\<close>

lemma remote_item_nonzero: "remote_item link pos len \<noteq> 0"
proof -
  have "bit (remote_item link pos len) 31"
    by (simp add: remote_item_def DST_SET_REMOTE_LEN_def DST_SET_REMOTE_POS_def DST_SET_REMOTE_FLAG_def
        word_bits bit_masks)
  then show ?thesis by (metis bit_0_eq bot_apply bot_bool_def)
qed

lemma length_link_bytes [simp]: "length (link_bytes c) = 3"
  by (simp add: link_bytes_def Let_def)

lemma take_mem_write:
  assumes "mem_write xs pos ys = Some xs'"
  shows "take pos xs' = take pos xs" and "length xs' = length xs" and "pos + length ys \<le> length xs"
    and "n \<le> length ys \<Longrightarrow> take n (drop pos xs') = take n ys"
  using assms by (auto simp: mem_write_def split: if_splits)

lemma formatRemoteStr_path:
  assumes t: "trie b kids" and c: "coded b nodes ks" and i: "i \<in> set ks" and n: "length (dt_dst st) = length ks"
    and L: "3 < nd_len (nodes i)" and s: "0 < s" "s \<le> nd_len (nodes i)" "s \<le> length bytes"
    and stop: "s = nd_len (nodes i) \<or> dt_dst st ! nd_code (nodes (anc nodes i s)) \<noteq> 0"
    and fresh: "\<forall>k < s. dt_dst st ! nd_code (nodes (anc nodes i k)) = 0"
    and r: "remote_bytes nodes (dt_dst st) i [] = Some (SDB_OK, bytes, link)" and len: "length bytes < 4294967296"
    and room: "dt_offset st + length bytes \<le> length (dt_strArea st)"
  shows "\<exists>dst' area. formatRemoteStr nodes i st =
           Some (SDB_OK, \<lparr>dt_dst = dst', dt_strArea = area, dt_offset = dt_offset st + length bytes\<rparr>) \<and>
         mem_write (dt_strArea st) (dt_offset st) bytes = Some area \<and>
         path_set nodes i 0 s (prefix_item nodes link (dt_offset st) (length bytes) i) (dt_dst st) dst'"
proof -
  let ?code = "\<lambda>k. nd_code (nodes (anc nodes i k))" and ?off = "dt_offset st"
  let ?item = "prefix_item nodes link ?off (length bytes) i"
  obtain area where area: "mem_write (dt_strArea st) ?off bytes = Some area" using room by (simp add: mem_write_def)
  have z: "dt_dst st ! nd_code (nodes i) = 0" using fresh s(1) by auto
  have cl: "nd_code (nodes i) < length ks" by (rule coded_less [OF c i])
  define st1 where "st1 = st\<lparr>dt_strArea := area, dt_dst := (dt_dst st)[nd_code (nodes i) := ?item 0]\<rparr>"
  have set: "dst_set (\<lambda>item. DST_SET_REMOTE_LEN (DST_SET_REMOTE_POS
        (DST_SET_REMOTE_FLAG (if link then DST_SET_LINK_FLAG item else item)) ?off) (length bytes))
      (nd_code (nodes i)) (st\<lparr>dt_strArea := area\<rparr>) = Some st1"
    using dst_set_0 [of "nd_code (nodes i)" "st\<lparr>dt_strArea := area\<rparr>"] z cl n L
    by (simp add: st1_def prefix_item_def remote_item_def)
  have other: "?code k \<noteq> nd_code (nodes i)" if "0 < k" "k < nd_len (nodes i)" for k
    using anc_code_inj [OF t c i, of k 0] that by auto
  have "\<exists>dst'. remote_prefixes nodes link (length bytes) 1 (anc nodes i 1) st1 = Some (st1\<lparr>dt_dst := dst'\<rparr>) \<and>
      path_set nodes i 1 s (prefix_item nodes link (dt_offset st1) (length bytes) i) (dt_dst st1) dst'"
  proof (rule remote_prefixes_ok [OF t c i _ s(2,3) len])
    show "s = nd_len (nodes i) \<or> dt_dst st1 ! ?code s \<noteq> 0"
      using stop other [of s] s by (cases "s = nd_len (nodes i)") (auto simp: st1_def)
    show "\<forall>k. 1 \<le> k \<and> k < s \<longrightarrow> dt_dst st1 ! ?code k = 0"
    proof (intro allI impI)
      fix k assume k: "1 \<le> k \<and> k < s"
      then have "nd_code (nodes i) \<noteq> ?code k" using other [of k] s(2) by auto
      then show "dt_dst st1 ! ?code k = 0" using fresh k by (simp add: st1_def)
    qed
  qed (use s n in \<open>auto simp: st1_def\<close>)
  then obtain dst' where d: "remote_prefixes nodes link (length bytes) 1 (nd_prev (nodes i)) st1 = Some (st1\<lparr>dt_dst := dst'\<rparr>)"
      "path_set nodes i 1 s ?item (dt_dst st1) dst'" by (auto simp: anc_Suc st1_def)
  have p: "path_set nodes i 0 s ?item (dt_dst st) dst'"
    by (rule path_set_step [OF t c i s(2,1) n]) (use d(2) in \<open>simp add: st1_def\<close>)
  have "formatRemoteStr nodes i st =
      Some (SDB_OK, \<lparr>dt_dst = dst', dt_strArea = area, dt_offset = ?off + length bytes\<rparr>)"
    unfolding formatRemoteStr_def using r area set d(1) by (simp add: Let_def st1_def)
  with area p show ?thesis by blast
qed

text \<open>A local string: its prefixes have local items as well.\<close>

lemma path_set_cut:
  assumes t: "trie b kids" and c: "coded b nodes ks" and i: "i \<in> set ks" and s: "s \<le> nd_len (nodes i)"
    and inv: "dst_inv nodes ks st" and stop: "s = nd_len (nodes i) \<or> dt_dst st ! nd_code (nodes (anc nodes i s)) \<noteq> 0"
    and p: "path_set nodes i 0 (nd_len (nodes i)) item (dt_dst st) dst'"
    and item: "\<And>k. k < nd_len (nodes i) \<Longrightarrow> dt_dst st ! nd_code (nodes (anc nodes i k)) \<noteq> 0 \<Longrightarrow>
      item k = dt_dst st ! nd_code (nodes (anc nodes i k))"
  shows "path_set nodes i 0 s item (dt_dst st) dst'"
proof -
  have above: "anc nodes i (s + d) \<in> has_item nodes ks (dt_dst st)" if "s + d < nd_len (nodes i)" for d
    using that
  proof (induction d)
    case 0
    then show ?case using stop anc_node(1) [OF t c i] by (auto simp: has_item_def)
  next
    case (Suc d)
    then have d: "s + d < nd_len (nodes i)" by simp
    have "256 \<le> anc nodes i (s + d)"
      using node_len(3) [OF t c anc_node(1) [OF t c i d]] anc_node(2) [OF t c i d] Suc.prems by simp
    from dst_inv_prev [OF inv Suc.IH [OF d] this] show ?case by (simp add: anc_Suc)
  qed
  have "dst' ! x = dt_dst st ! x" if x: "\<forall>k. 0 \<le> k \<and> k < s \<longrightarrow> x \<noteq> nd_code (nodes (anc nodes i k))" for x
  proof (cases "\<exists>k < nd_len (nodes i). x = nd_code (nodes (anc nodes i k))")
    case True
    then obtain k where k: "k < nd_len (nodes i)" "x = nd_code (nodes (anc nodes i k))" by blast
    have "s \<le> k"
    proof (rule ccontr)
      assume "\<not> s \<le> k"
      with x have "x \<noteq> nd_code (nodes (anc nodes i k))" by simp
      with k(2) show False by contradiction
    qed
    with above [of "k - s"] k(1) have "dt_dst st ! x \<noteq> 0" by (auto simp: k(2) has_item_def)
    with p k item [of k] show ?thesis by (auto simp: path_set_def)
  next
    case False
    then show ?thesis using p unfolding path_set_def by blast
  qed
  then show ?thesis using p s unfolding path_set_def by auto
qed

text \<open>The items of the prefixes describe their strings: with the whole string in the area, or behind
  the code of the prefix \<open>m\<close>.\<close>

lemma local_prefix_ok:
  assumes t: "trie b kids" and c: "coded b nodes ks" and i: "i \<in> set ks" and k: "k < nd_len (nodes i)"
    and short: "nd_len (nodes i) - k \<le> 3" and item: "dst' ! nd_code (nodes (anc nodes i k)) = local_item (getStr nodes (anc nodes i k))"
  shows "dst' ! nd_code (nodes (anc nodes i k)) \<noteq> 0" and "item_ok nodes ks dst' area off (anc nodes i k)"
proof -
  note a = anc_node [OF t c i k]
  have "length (getStr nodes (anc nodes i k)) = nd_len (nodes i) - k" using length_getStr [OF t c a(1)] a(2) by simp
  then show "dst' ! nd_code (nodes (anc nodes i k)) \<noteq> 0"
    unfolding item using short k by (intro local_item_fields(4)) auto
  show "item_ok nodes ks dst' area off (anc nodes i k)" using a(2) short item by (simp add: item_ok_def)
qed

lemma plain_prefix_ok:
  assumes t: "trie b kids" and c: "coded b nodes ks" and i: "i \<in> set ks" and k: "k < nd_len (nodes i)"
    and item: "dst' ! nd_code (nodes (anc nodes i k)) = prefix_item nodes False pos (nd_len (nodes i)) i k"
    and w: "mem_write area0 pos (getStr nodes i) = Some area"
  shows "dst' ! nd_code (nodes (anc nodes i k)) \<noteq> 0 \<and>
         item_ok nodes ks dst' area (pos + nd_len (nodes i)) (anc nodes i k)"
proof (cases "3 < nd_len (nodes i) - k")
  case False
  then show ?thesis using local_prefix_ok [OF t c i k] item by (simp add: prefix_item_def)
next
  case True
  let ?L = "nd_len (nodes i)"
  note a = anc_node [OF t c i k]
  have L: "length (getStr nodes i) = ?L" "?L \<le> 255" using length_getStr [OF t c i] node_len(2) [OF t c i] by auto
  have it: "dst' ! nd_code (nodes (anc nodes i k)) = remote_item False pos (?L - k)"
    using item True by (simp add: prefix_item_def)
  have "take (?L - k) (drop pos area) = getStr nodes (anc nodes i k)"
    using take_mem_write(4) [OF w, of "?L - k"] L(1) by (simp add: a(3))
  moreover have "pos + (?L - k) \<le> pos + ?L" by simp
  ultimately have "item_ok nodes ks dst' area (pos + ?L) (anc nodes i k)"
    using True it a(2) unfolding item_ok_def Let_def by metis
  moreover have "remote_item False pos (?L - k) \<noteq> 0" by (rule remote_item_nonzero)
  ultimately show ?thesis using it by simp
qed

lemma link_prefix_ok:
  assumes t: "trie b kids" and c: "coded b nodes ks" and i: "i \<in> set ks" and m: "m + 4 < nd_len (nodes i)" and k: "k < m"
    and item: "dst' ! nd_code (nodes (anc nodes i k)) = prefix_item nodes True pos (3 + m) i k"
    and w: "mem_write area0 pos (link_bytes (nd_code (nodes (anc nodes i m))) @
      drop (nd_len (nodes i) - m) (getStr nodes i)) = Some area"
    and linked: "dst' ! nd_code (nodes (anc nodes i m)) \<noteq> 0"
  shows "dst' ! nd_code (nodes (anc nodes i k)) \<noteq> 0 \<and> item_ok nodes ks dst' area (pos + (3 + m)) (anc nodes i k)"
proof -
  let ?L = "nd_len (nodes i)" and ?s = "getStr nodes i" and ?c = "nd_code (nodes (anc nodes i m))"
  let ?t = "take (m - k) (drop (?L - m) ?s)"
  have kL: "k < ?L" and mL: "m < ?L" using m k by auto
  note a = anc_node [OF t c i kL] and am = anc_node [OF t c i mL]
  have L: "length ?s = ?L" "?L \<le> 255" using length_getStr [OF t c i] node_len(2) [OF t c i] by auto
  have lt: "length ?t = m - k" using L m by simp
  have it: "dst' ! nd_code (nodes (anc nodes i k)) = remote_item True pos (3 + length ?t)"
  proof -
    have l: "3 < ?L - k" "3 + m - k = 3 + (m - k)" using m k by auto
    show ?thesis unfolding lt item prefix_item_def if_P [OF l(1)] l(2) by (rule refl)
  qed
  have str: "getStr nodes (anc nodes i k) = getStr nodes (anc nodes i m) @ ?t"
  proof -
    have "?L - k = (?L - m) + (m - k)" using m k by simp
    then have "take (?L - k) ?s = take (?L - m) ?s @ ?t" by (simp add: take_add)
    then show ?thesis by (simp add: a(3) am(3))
  qed
  have "take (3 + length ?t) (drop pos area) = take (3 + (m - k)) (link_bytes ?c @ drop (?L - m) ?s)"
    using take_mem_write(4) [OF w, of "3 + (m - k)"] L m k unfolding lt by simp
  also have "\<dots> = link_bytes ?c @ ?t" by simp
  finally have slice: "take (3 + length ?t) (drop pos area) = link_bytes ?c @ ?t" .
  have "3 < nd_len (nodes (anc nodes i k))" "nd_len (nodes (anc nodes i m)) < nd_len (nodes (anc nodes i k))"
    "4 < nd_len (nodes (anc nodes i m))" "pos + (3 + length ?t) \<le> pos + (3 + m)"
    using a(2) am(2) m k lt by auto
  then have "item_ok nodes ks dst' area (pos + (3 + m)) (anc nodes i k)"
    using am(1) linked str it slice unfolding item_ok_def Let_def
    by (intro disjI2 conjI exI [of _ pos] exI [of _ "anc nodes i m"] exI [of _ ?t]) assumption+
  moreover have "remote_item True pos (3 + length ?t) \<noteq> 0" by (rule remote_item_nonzero)
  ultimately show ?thesis using it by simp
qed

text \<open>What setting the items of a string keeps and gives.\<close>

definition formatted :: "(nat \<Rightarrow> utilLZWNode) \<Rightarrow> nat list \<Rightarrow> nat \<Rightarrow> dstState \<Rightarrow> dstState \<Rightarrow> bool" where
  "formatted nodes ks i st st' \<longleftrightarrow>
     dst_inv nodes ks st' \<and> length (dt_strArea st') = length (dt_strArea st) \<and>
     i \<in> has_item nodes ks (dt_dst st') \<and> has_item nodes ks (dt_dst st) \<subseteq> has_item nodes ks (dt_dst st')"

lemma formatted_path:
  assumes t: "trie b kids" and c: "coded b nodes ks" and i: "i \<in> set ks" and s: "0 < s" "s \<le> nd_len (nodes i)"
    and inv: "dst_inv nodes ks st" and p: "path_set nodes i 0 s item (dt_dst st) dst'"
    and stop: "s = nd_len (nodes i) \<or> dt_dst st ! nd_code (nodes (anc nodes i s)) \<noteq> 0"
    and fresh: "\<forall>k < s. dt_dst st ! nd_code (nodes (anc nodes i k)) = 0"
    and item: "\<And>k. k < s \<Longrightarrow> item k \<noteq> 0 \<and> item_ok nodes ks dst' area off (anc nodes i k)"
    and area: "take (dt_offset st) area = take (dt_offset st) (dt_strArea st)" "length area = length (dt_strArea st)"
      "dt_offset st \<le> off" "off \<le> length area" "off \<le> dt_offset st + 5 * s"
  shows "formatted nodes ks i st \<lparr>dt_dst = dst', dt_strArea = area, dt_offset = off\<rparr>"
proof -
  have "has_item nodes ks dst' = has_item nodes ks (dt_dst st) \<union> anc nodes i ` {..<s}"
    using path_has_item [OF t c i s(2) p] item by blast
  moreover have "i \<in> anc nodes i ` {..<s}" using s(1) by (intro image_eqI [of _ _ 0]) auto
  ultimately show ?thesis
    using dst_inv_path [OF t c i s(2) inv p stop fresh item area(1,3-5)] area(2) by (simp add: formatted_def)
qed

lemma path_room:
  assumes "trie b kids" and "coded b nodes ks" and "i \<in> set ks" and "dst_inv nodes ks st"
    and "s \<le> nd_len (nodes i)" and "\<forall>k < s. dt_dst st ! nd_code (nodes (anc nodes i k)) = 0"
  shows "dt_offset st + 5 * s \<le> 5 * length ks"
  using path_card(2) [OF assms(1-3,5,6)] dst_inv_num [OF assms(4)] by linarith

lemma formatRemoteStr_plain:
  assumes t: "trie b kids" and c: "coded b nodes ks" and i: "i \<in> set ks" and inv: "dst_inv nodes ks st"
    and L: "3 < nd_len (nodes i)" and z: "dt_dst st ! nd_code (nodes i) = 0"
    and room: "dt_offset st + nd_len (nodes i) \<le> length (dt_strArea st)"
    and r: "remote_bytes nodes (dt_dst st) i [] = Some (SDB_OK, getStr nodes i, False)"
    and none: "\<forall>m. 0 < m \<and> m + 4 < nd_len (nodes i) \<longrightarrow> dt_dst st ! nd_code (nodes (anc nodes i m)) = 0"
  shows "\<exists>st'. formatRemoteStr nodes i st = Some (SDB_OK, st') \<and> formatted nodes ks i st st'"
proof -
  let ?L = "nd_len (nodes i)" and ?s = "getStr nodes i" and ?off = "dt_offset st"
  let ?code = "\<lambda>k. nd_code (nodes (anc nodes i k))"
  have ls: "length ?s = ?L" "?L \<le> 255" using length_getStr [OF t c i] node_len(2) [OF t c i] by auto
  have "0 < ?L" using L by simp
  then obtain s where s: "0 < s" "s \<le> ?L" "s = ?L \<or> dt_dst st ! ?code s \<noteq> 0" "\<forall>k < s. dt_dst st ! ?code k = 0"
    using first_item [of "dt_dst st" nodes i] z by blast
  have "?L \<le> s + 4" using s(1,3) none by force
  then have five: "?L \<le> 5 * s" using s(1) by linarith
  have "\<exists>dst' area. formatRemoteStr nodes i st =
         Some (SDB_OK, \<lparr>dt_dst = dst', dt_strArea = area, dt_offset = ?off + length ?s\<rparr>) \<and>
       mem_write (dt_strArea st) ?off ?s = Some area \<and>
       path_set nodes i 0 s (prefix_item nodes False ?off (length ?s) i) (dt_dst st) dst'"
    by (rule formatRemoteStr_path [OF t c i dst_inv_len [OF inv] L s(1,2) _ s(3,4)]) (use r ls s(2) room in auto)
  then obtain dst' area where f: "formatRemoteStr nodes i st =
        Some (SDB_OK, \<lparr>dt_dst = dst', dt_strArea = area, dt_offset = ?off + ?L\<rparr>)"
      "mem_write (dt_strArea st) ?off ?s = Some area"
      "path_set nodes i 0 s (prefix_item nodes False ?off ?L i) (dt_dst st) dst'" unfolding ls(1) by blast
  have it: "prefix_item nodes False ?off ?L i k \<noteq> 0 \<and> item_ok nodes ks dst' area (?off + ?L) (anc nodes i k)"
    if "k < s" for k
  proof -
    have "dst' ! ?code k = prefix_item nodes False ?off ?L i k" using f(3) that by (simp add: path_set_def)
    moreover have "k < ?L" using that s(2) by simp
    ultimately show ?thesis using plain_prefix_ok [OF t c i _ _ f(2)] by metis
  qed
  have "formatted nodes ks i st \<lparr>dt_dst = dst', dt_strArea = area, dt_offset = ?off + ?L\<rparr>"
    by (rule formatted_path [OF t c i s(1,2) inv f(3) s(3,4) it]) (use take_mem_write [OF f(2)] ls five in auto)
  with f(1) show ?thesis by blast
qed

lemma formatRemoteStr_link:
  assumes t: "trie b kids" and c: "coded b nodes ks" and i: "i \<in> set ks" and inv: "dst_inv nodes ks st"
    and L: "3 < nd_len (nodes i)" and z: "dt_dst st ! nd_code (nodes i) = 0"
    and room: "dt_offset st + (3 + m) \<le> length (dt_strArea st)"
    and m: "0 < m" "m + 4 < nd_len (nodes i)" "dt_dst st ! nd_code (nodes (anc nodes i m)) \<noteq> 0"
    and r: "remote_bytes nodes (dt_dst st) i [] = Some (SDB_OK,
      link_bytes (nd_code (nodes (anc nodes i m))) @ drop (nd_len (nodes i) - m) (getStr nodes i), True)"
    and none: "\<forall>k. 0 < k \<and> k < m \<longrightarrow> dt_dst st ! nd_code (nodes (anc nodes i k)) = 0"
  shows "\<exists>st'. formatRemoteStr nodes i st = Some (SDB_OK, st') \<and> formatted nodes ks i st st'"
proof -
  let ?L = "nd_len (nodes i)" and ?s = "getStr nodes i" and ?off = "dt_offset st"
  let ?code = "\<lambda>k. nd_code (nodes (anc nodes i k))"
  let ?bytes = "link_bytes (?code m) @ drop (?L - m) ?s"
  have ls: "length ?s = ?L" "?L \<le> 255" using length_getStr [OF t c i] node_len(2) [OF t c i] by auto
  have lb: "length ?bytes = 3 + m" using ls m(2) by simp
  have fresh: "\<forall>k < m. dt_dst st ! ?code k = 0"
  proof (intro allI impI)
    fix k assume "k < m"
    then show "dt_dst st ! ?code k = 0" using none z by (cases "k = 0") auto
  qed
  have mL: "m \<le> ?L" using m(2) by simp
  have "\<exists>dst' area. formatRemoteStr nodes i st =
         Some (SDB_OK, \<lparr>dt_dst = dst', dt_strArea = area, dt_offset = ?off + length ?bytes\<rparr>) \<and>
       mem_write (dt_strArea st) ?off ?bytes = Some area \<and>
       path_set nodes i 0 m (prefix_item nodes True ?off (length ?bytes) i) (dt_dst st) dst'"
  proof (rule formatRemoteStr_path [OF t c i dst_inv_len [OF inv] L m(1) mL _ _ fresh r])
    show "m \<le> length ?bytes" "length ?bytes < 4294967296" unfolding lb using m(2) ls(2) by simp_all
    show "?off + length ?bytes \<le> length (dt_strArea st)" unfolding lb by (rule room)
  qed (use m(3) in simp)
  then obtain dst' area where f: "formatRemoteStr nodes i st =
        Some (SDB_OK, \<lparr>dt_dst = dst', dt_strArea = area, dt_offset = ?off + (3 + m)\<rparr>)"
      "mem_write (dt_strArea st) ?off ?bytes = Some area"
      "path_set nodes i 0 m (prefix_item nodes True ?off (3 + m) i) (dt_dst st) dst'" unfolding lb by blast
  have "?code m \<noteq> ?code k" if "k < m" for k using fresh that m(3) by metis
  then have linked: "dst' ! ?code m \<noteq> 0" using f(3) m(3) unfolding path_set_def by metis
  have it: "prefix_item nodes True ?off (3 + m) i k \<noteq> 0 \<and> item_ok nodes ks dst' area (?off + (3 + m)) (anc nodes i k)"
    if "k < m" for k
  proof -
    have "dst' ! ?code k = prefix_item nodes True ?off (3 + m) i k" using f(3) that by (simp add: path_set_def)
    then show ?thesis using link_prefix_ok [OF t c i m(2) that _ f(2) linked] by metis
  qed
  have "?off + (3 + m) \<le> length area" using take_mem_write(2,3) [OF f(2)] lb by simp
  then have "formatted nodes ks i st \<lparr>dt_dst = dst', dt_strArea = area, dt_offset = ?off + (3 + m)\<rparr>"
    by (intro formatted_path [OF t c i m(1) mL inv f(3) _ fresh it]) (use take_mem_write(1,2) [OF f(2)] m in auto)
  with f(1) show ?thesis by blast
qed

text \<open>Setting a string succeeds unless the area is full, which takes less than five bytes a string.\<close>

definition fits :: "(nat \<Rightarrow> utilLZWNode) \<Rightarrow> nat list \<Rightarrow> nat \<Rightarrow> dstState \<Rightarrow> (sdb_rc \<times> dstState) option \<Rightarrow> bool" where
  "fits nodes ks i st r \<longleftrightarrow>
     (case r of
        None \<Rightarrow> length (dt_strArea st) < 5 * length ks
      | Some (rc, st') \<Rightarrow> rc = SDB_OK \<and> formatted nodes ks i st st')"

lemma formatRemoteStr_fits:
  assumes t: "trie b kids" and c: "coded b nodes ks" and i: "i \<in> set ks" and inv: "dst_inv nodes ks st"
    and L: "3 < nd_len (nodes i)" and z: "dt_dst st ! nd_code (nodes i) = 0"
  shows "fits nodes ks i st (formatRemoteStr nodes i st)"
proof -
  let ?L = "nd_len (nodes i)" and ?code = "\<lambda>k. nd_code (nodes (anc nodes i k))"
  have ls: "length (getStr nodes i) = ?L" by (rule length_getStr [OF t c i])
  have "0 < ?L" using L by simp
  then obtain s where s: "0 < s" "s \<le> ?L" "s = ?L \<or> dt_dst st ! ?code s \<noteq> 0" "\<forall>k < s. dt_dst st ! ?code k = 0"
    using first_item [of "dt_dst st" nodes i] z by blast
  have full: "fits nodes ks i st (formatRemoteStr nodes i st)"
    if "remote_bytes nodes (dt_dst st) i [] = Some (SDB_OK, bytes, link)" "length bytes \<le> 5 * s"
      "\<not> dt_offset st + length bytes \<le> length (dt_strArea st)" for bytes link
    using that path_room [OF t c i inv s(2,4)] by (simp add: formatRemoteStr_def fits_def mem_write_def)
  from remote_bytes_ok [OF t c i dst_inv_len [OF inv] \<open>0 < ?L\<close>] show ?thesis
  proof (elim disjE exE conjE)
    assume "remote_bytes nodes (dt_dst st) (anc nodes i 0) (drop (?L - 0) (getStr nodes i)) = Some (SDB_OK, getStr nodes i, False)"
      and none: "\<forall>m. 0 < m \<and> m + 4 < ?L \<longrightarrow> dt_dst st ! ?code m = 0"
    then have r: "remote_bytes nodes (dt_dst st) i [] = Some (SDB_OK, getStr nodes i, False)" by (simp add: ls)
    have "?L \<le> s + 4" using s(1,3) none by force
    then have "?L \<le> 5 * s" using s(1) by linarith
    with full [OF r] formatRemoteStr_plain [OF assms _ r none] show ?thesis
      by (cases "dt_offset st + ?L \<le> length (dt_strArea st)") (auto simp: ls fits_def)
  next
    fix m assume m: "0 < m" "m + 4 < ?L" "dt_dst st ! ?code m \<noteq> 0"
      and "remote_bytes nodes (dt_dst st) (anc nodes i 0) (drop (?L - 0) (getStr nodes i)) =
        Some (SDB_OK, link_bytes (?code m) @ drop (?L - m) (getStr nodes i), True)"
      and none: "\<forall>k. 0 < k \<and> k < m \<longrightarrow> dt_dst st ! ?code k = 0"
    then have r: "remote_bytes nodes (dt_dst st) i [] =
        Some (SDB_OK, link_bytes (?code m) @ drop (?L - m) (getStr nodes i), True)" by (simp add: ls)
    have ms: "m \<le> s"
    proof (rule ccontr)
      assume "\<not> m \<le> s"
      then have "s < m" by simp
      with none s(1) have "dt_dst st ! ?code s = 0" by blast
      with s(3) m(2) \<open>s < m\<close> show False by simp
    qed
    then have lb: "length (link_bytes (?code m) @ drop (?L - m) (getStr nodes i)) = 3 + m" "3 + m \<le> 5 * s"
      using ls m(1,2) s(1) by simp_all
    with full [OF r] formatRemoteStr_link [OF assms _ m r none] show ?thesis
      by (cases "dt_offset st + (3 + m) \<le> length (dt_strArea st)") (auto simp: fits_def)
  qed
qed

lemma formatOneCode_fits:
  assumes t: "trie b kids" and c: "coded b nodes ks" and i: "i \<in> set ks" and inv: "dst_inv nodes ks st"
  shows "fits nodes ks i st (formatOneCode nodes i st)"
proof -
  let ?L = "nd_len (nodes i)" and ?c = "nd_code (nodes i)"
  note n = dst_inv_len [OF inv]
  have ar: "aref (dt_dst st) ?c = Some (dt_dst st ! ?c)" using coded_less [OF c i] n by (simp add: aref_def)
  consider "dt_dst st ! ?c \<noteq> 0" | "dt_dst st ! ?c = 0" "3 < ?L" | "dt_dst st ! ?c = 0" "?L \<le> 3" by linarith
  then show ?thesis
  proof cases
    case 1
    then show ?thesis using inv i by (simp add: formatOneCode_def ar fits_def formatted_def has_item_def)
  next
    case 2
    then show ?thesis using formatRemoteStr_fits [OF t c i inv 2(2,1)] by (simp add: formatOneCode_def ar DST_MAX_LOCAL_LEN_def)
  next
    case 3
    let ?code = "\<lambda>k. nd_code (nodes (anc nodes i k))"
    let ?item = "\<lambda>k. if dt_dst st ! ?code k = 0 then local_item (getStr nodes (anc nodes i k)) else dt_dst st ! ?code k"
    let ?st1 = "st\<lparr>dt_dst := (dt_dst st)[?c := local_item (getStr nodes i)]\<rparr>"
    have "0 < ?L" using node_len(1) [OF t c i] by simp
    then obtain s where s: "0 < s" "s \<le> ?L" "s = ?L \<or> dt_dst st ! ?code s \<noteq> 0" "\<forall>k < s. dt_dst st ! ?code k = 0"
      using first_item [of "dt_dst st" nodes i] 3(1) by blast
    obtain dst' where d: "local_prefixes nodes (nd_prev (nodes i)) ?st1 = Some (?st1\<lparr>dt_dst := dst'\<rparr>)"
        "path_set nodes i 1 ?L (\<lambda>k. if dt_dst ?st1 ! ?code k = 0 then local_item (getStr nodes (anc nodes i k))
           else dt_dst ?st1 ! ?code k) (dt_dst ?st1) dst'"
      using local_prefixes_ok [OF t c i, of 1 ?st1] \<open>0 < ?L\<close> n by (auto simp: anc_Suc)
    have "dt_dst ?st1 ! ?code k = dt_dst st ! ?code k" if "1 \<le> k" "k < ?L" for k
      using anc_code_inj [OF t c i that(2) \<open>0 < ?L\<close>] that by (cases "?code k = ?c") auto
    then have "path_set nodes i (Suc 0) ?L ?item ((dt_dst st)[nd_code (nodes (anc nodes i 0)) := ?item 0]) dst'"
      using d(2) 3(1) unfolding path_set_def by simp
    from path_set_step [OF t c i order_refl \<open>0 < ?L\<close> n this]
    have p: "path_set nodes i 0 s ?item (dt_dst st) dst'" by (rule path_set_cut [OF t c i s(2) inv s(3)]) simp
    have it: "?item k \<noteq> 0 \<and> item_ok nodes ks dst' (dt_strArea st) (dt_offset st) (anc nodes i k)" if "k < s" for k
    proof -
      have "dst' ! ?code k = ?item k" "?item k = local_item (getStr nodes (anc nodes i k))"
        using p s(4) that unfolding path_set_def by auto
      then show ?thesis using local_prefix_ok [OF t c i, of k dst'] that s(2) 3(2) by simp
    qed
    have "formatted nodes ks i st \<lparr>dt_dst = dst', dt_strArea = dt_strArea st, dt_offset = dt_offset st\<rparr>"
      by (rule formatted_path [OF t c i s(1,2) inv p s(3,4) it]) (use dst_inv_off [OF inv] in auto)
    moreover have "formatOneCode nodes i st =
        Some (SDB_OK, \<lparr>dt_dst = dst', dt_strArea = dt_strArea st, dt_offset = dt_offset st\<rparr>)"
      using 3 set_local_0 [OF t c i n 3(1)] d(1) by (simp add: formatOneCode_def ar DST_MAX_LOCAL_LEN_def)
    ultimately show ?thesis by (simp add: fits_def)
  qed
qed

end
