(* ===== verification/LzwBuilt.thy ===== *)
theory LzwBuilt
  imports LzwDstInv
begin

text \<open>
  A finished dictionary is well-formed: the head, the compression string table and the
  decompression string table agree on one string for each index.
\<close>

section \<open>All strings\<close>

lemma formatDst_ok:
  assumes "trie b kids" and "coded b nodes ks" and "dst_inv nodes ks st"
  shows "formatDst nodes n st = None \<and> length (dt_strArea st) < 5 * length ks \<or>
         (\<exists>st'. formatDst nodes n st = Some (SDB_OK, st') \<and> dst_inv nodes ks st' \<and>
           length (dt_strArea st') = length (dt_strArea st) \<and>
           has_item nodes ks (dt_dst st) \<subseteq> has_item nodes ks (dt_dst st') \<and>
           {i \<in> set ks. i < n} \<subseteq> has_item nodes ks (dt_dst st'))"
  using assms(3)
proof (induction n arbitrary: st)
  case (Suc n)
  show ?case
  proof (cases "n \<in> set ks")
    case True
    show ?thesis
    proof (cases "formatOneCode nodes n st")
      case None
      then show ?thesis
        using formatOneCode_fits [OF assms(1,2) True Suc.prems] True coded_iff [OF assms(2,1)] by (simp add: fits_def)
    next
      case (Some r)
      then obtain st1 where st1: "formatOneCode nodes n st = Some (SDB_OK, st1)" "formatted nodes ks n st st1"
        using formatOneCode_fits [OF assms(1,2) True Suc.prems] by (cases r) (auto simp: fits_def)
      then have f: "dst_inv nodes ks st1" "length (dt_strArea st1) = length (dt_strArea st)"
        "n \<in> has_item nodes ks (dt_dst st1)" "has_item nodes ks (dt_dst st) \<subseteq> has_item nodes ks (dt_dst st1)"
        by (auto simp: formatted_def)
      have step: "formatDst nodes (Suc n) st = formatDst nodes n st1"
        using st1(1) True coded_iff [OF assms(2,1)] by simp
      have "{i \<in> set ks. i < Suc n} \<subseteq> insert n {i \<in> set ks. i < n}" by (auto simp: less_Suc_eq)
      with Suc.IH [OF f(1)] f(2-4) show ?thesis unfolding step by (auto 0 4)
    qed
  next
    case False
    then have "formatDst nodes (Suc n) st = formatDst nodes n st" using coded_iff [OF assms(2,1)] by simp
    moreover have "{i \<in> set ks. i < Suc n} = {i \<in> set ks. i < n}" using False less_Suc_eq by auto
    ultimately show ?thesis using Suc.IH [OF Suc.prems] by simp
  qed
qed simp

lemma dst_inv_start: "dst_inv nodes ks \<lparr>dt_dst = replicate (length ks) 0, dt_strArea = area, dt_offset = 0\<rparr>" if "coded b nodes ks"
proof -
  have "has_item nodes ks (replicate (length ks) 0) = {}" using coded_less [OF that] by (auto simp: has_item_def)
  then show ?thesis by (simp add: dst_inv_def)
qed

lemma item_ok_remote:
  assumes t: "trie b kids" and c: "coded b nodes ks" and j: "j \<in> set ks"
    and "item_ok nodes ks dst area off j" and "3 < nd_len (nodes j)" and "off \<le> 2 ^ 20"
  shows "DST_IS_REMOTE (dst ! nd_code (nodes j))"
proof -
  have ls: "length (getStr nodes j) = nd_len (nodes j)" "nd_len (nodes j) \<le> 255"
    using length_getStr [OF t c j] node_len(2) [OF t c j] by auto
  have "\<exists>link pos n. dst ! nd_code (nodes j) = remote_item link pos n \<and> pos + n \<le> off \<and> 0 < n \<and> n < 256"
    using assms(4,5) unfolding item_ok_def Let_def
  proof (elim disjE exE conjE)
    fix pos assume "dst ! nd_code (nodes j) = remote_item False pos (nd_len (nodes j))" "pos + nd_len (nodes j) \<le> off"
    then show ?thesis using assms(5) ls(2) by (intro exI [of _ False] exI [of _ pos] exI [of _ "nd_len (nodes j)"]) simp
  next
    fix pos k t' assume k: "k \<in> set ks" "4 < nd_len (nodes k)" "getStr nodes j = getStr nodes k @ t'"
      and it: "dst ! nd_code (nodes j) = remote_item True pos (3 + length t')" "pos + (3 + length t') \<le> off"
    have "nd_len (nodes j) = nd_len (nodes k) + length t'" using k(3) ls(1) length_getStr [OF t c k(1)] by simp
    then have "3 + length t' < 256" using ls(2) k(2) by linarith
    with it show ?thesis by (intro exI [of _ True] exI [of _ pos] exI [of _ "3 + length t'"]) simp
  qed (use assms(5) in simp)
  then obtain link pos n where "dst ! nd_code (nodes j) = remote_item link pos n" "pos + n \<le> off" "0 < n" "n < 256" by blast
  then show ?thesis using remote_item_fields(1) [of pos n link] assms(6) by simp
qed

text \<open>The table spells the string of every node, also when the area is cut off behind the offset.\<close>

lemma dst_str_final:
  assumes t: "trie b kids" and c: "coded b nodes ks" and inv: "dst_inv nodes ks st"
    and all: "has_item nodes ks (dt_dst st) = set ks" and off: "dt_offset st \<le> 2 ^ 20"
    and d: "lzd_dst d = dt_dst st" and area: "take (dt_offset st) (lzd_strArea d) = take (dt_offset st) (dt_strArea st)"
    and "i \<in> set ks"
  shows "dst_str d (nd_code (nodes i)) (getStr nodes i)"
  using assms(8)
proof (induction "nd_len (nodes i)" arbitrary: i rule: less_induct)
  case less
  let ?L = "nd_len (nodes i)" and ?c = "nd_code (nodes i)" and ?s = "getStr nodes i"
  have ls: "length ?s = ?L" "1 \<le> ?L" "?L \<le> 255"
    using length_getStr [OF t c less.prems] node_len(1,2) [OF t c less.prems] by auto
  have cl: "?c < length (lzd_dst d)" using coded_less [OF c less.prems] dst_inv_len [OF inv] by (simp add: d)
  have read: "mem_read (lzd_strArea d) pos n = Some (take n (drop pos (dt_strArea st)))" if "pos + n \<le> dt_offset st" for pos n
  proof -
    have "drop pos (take (pos + n) (take (dt_offset st) (lzd_strArea d))) =
        drop pos (take (pos + n) (take (dt_offset st) (dt_strArea st)))" by (simp only: area)
    moreover have "dt_offset st \<le> length (lzd_strArea d)"
      using arg_cong [OF area, of length] dst_inv_off [OF inv] by simp
    ultimately show ?thesis using that by (simp add: mem_read_def min_absorb1 drop_take)
  qed
  have ok: "item_ok nodes ks (dt_dst st) (dt_strArea st) (dt_offset st) j" if "j \<in> set ks" for j
    using dst_inv_item [OF inv] that all by blast
  from ok [OF less.prems] consider "?L \<le> 3" "dt_dst st ! ?c = local_item ?s"
    | pos where "3 < ?L" "dt_dst st ! ?c = remote_item False pos ?L" "pos + ?L \<le> dt_offset st"
        "take ?L (drop pos (dt_strArea st)) = ?s"
    | pos j t where "j \<in> set ks" "nd_len (nodes j) < ?L" "4 < nd_len (nodes j)" "?s = getStr nodes j @ t"
        "dt_dst st ! ?c = remote_item True pos (3 + length t)" "pos + (3 + length t) \<le> dt_offset st"
        "take (3 + length t) (drop pos (dt_strArea st)) = link_bytes (nd_code (nodes j)) @ t"
    unfolding item_ok_def Let_def by blast
  then show ?case
  proof cases
    case 1
    have "?s \<noteq> []" "length ?s \<le> 3" using ls 1(1) by auto
    then show ?thesis using dst_str.dst_local [OF cl] 1(2) local_item_fields [of ?s] by (simp add: d)
  next
    case 2
    have "pos < 2 ^ 20" "?L < 256" using 2(1,3) off ls(3) by linarith+
    then show ?thesis using dst_str.dst_plain [OF cl] remote_item_fields [of pos ?L False] read [OF 2(3)] 2(2,4) by (simp add: d)
  next
    case 3
    let ?cj = "nd_code (nodes j)" and ?n = "3 + length t"
    have "length ?s = nd_len (nodes j) + length t" using 3(4) length_getStr [OF t c 3(1)] by simp
    then have n: "?n < 256" using ls(1,3) 3(3) by linarith
    have pos: "pos < 2 ^ 20" using 3(6) off by linarith
    note it = remote_item_fields [OF pos n, of True]
    have "?cj < 2 ^ 24" using coded_less [OF c 3(1)] coded_num [OF c] by simp
    then have link: "link_code (link_bytes ?cj) = ?cj" by (rule link_code_bytes)
    have "DST_IS_REMOTE (dt_dst st ! ?cj)" using item_ok_remote [OF t c 3(1) ok [OF 3(1)] _ off] 3(3) by simp
    with dst_str.dst_link [OF cl, of "link_bytes ?cj" t "getStr nodes j"] it 3(4,5) read [OF 3(6)] 3(7) link
      less.hyps [OF 3(2,1)] show ?thesis by (simp add: d)
  qed
qed

section \<open>The head\<close>

lemma calcCodeSize_bounds:
  assumes "0 < n"
  shows "n < 2 ^ calcCodeSize n" and "2 ^ calcCodeSize n \<le> 2 * n"
proof -
  have "n < 2 ^ calcCodeSize n \<and> 2 ^ calcCodeSize n \<le> 2 * n"
    using assms
  proof (induction n rule: calcCodeSize.induct)
    case (1 n)
    show ?case
    proof (cases "n div 2 = 0")
      case True
      with 1 have "n = 1" by linarith
      then show ?thesis by (simp add: calcCodeSize.simps)
    next
      case False
      then have c: "calcCodeSize n = calcCodeSize (n div 2) + 1" by (subst calcCodeSize.simps) simp
      from 1(1) [OF False] False have h: "n div 2 < 2 ^ calcCodeSize (n div 2)" "2 ^ calcCodeSize (n div 2) \<le> 2 * (n div 2)"
        by auto
      have "n < 2 * 2 ^ calcCodeSize (n div 2)" using h(1) by linarith
      moreover have "2 * 2 ^ calcCodeSize (n div 2) \<le> 2 * n" using h(2) by linarith
      ultimately show ?thesis by (simp add: c)
    qed
  qed
  then show "n < 2 ^ calcCodeSize n" and "2 ^ calcCodeSize n \<le> 2 * n" by auto
qed

lemma final_head_ok:
  assumes "255 \<le> maxValid" and "maxValid < 250000"
  shows "head_ok (final_head maxCode maxValid)"
proof -
  let ?n = "calcCodeSize maxValid"
  have b: "maxValid < 2 ^ ?n" "2 ^ ?n \<le> 2 * maxValid" using calcCodeSize_bounds [of maxValid] assms by auto
  have "8 \<le> ?n"
  proof (rule ccontr)
    assume "\<not> 8 \<le> ?n"
    then have "(2::nat) ^ ?n \<le> 2 ^ 7" by (intro power_increasing) auto
    with b(1) assms(1) show False by simp
  qed
  moreover have "?n \<le> 18"
  proof (rule ccontr)
    assume "\<not> ?n \<le> 18"
    then have "(2::nat) ^ 19 \<le> 2 ^ ?n" by (intro power_increasing) auto
    with b(2) assms(2) show False by simp
  qed
  ultimately show ?thesis using b(1) by (simp add: head_ok_def final_head_def setVarLenSplitInfo_def)
qed

section \<open>The finished dictionary\<close>

text \<open>Tables of the nodes with codes make a well-formed dictionary; an index stands for the string of
  its node.\<close>

lemma tables_ok:
  assumes t: "trie b kids" and c: "coded b nodes ks" and f: "cst_final nodes kids ks ns ct"
    and inv: "dst_inv nodes ks dt" and all: "has_item nodes ks (dt_dst dt) = set ks" and off: "dt_offset dt \<le> 2 ^ 20"
    and head: "head_ok (lzd_head d)" "lzh_maxValidCode (lzd_head d) + 1 = length ks"
    and d: "lzd_cst d = ct_cst ct" "lzd_codeMap d = ct_codeMap ct" "lzd_dst d = dt_dst dt"
    and area: "take (dt_offset dt) (lzd_strArea d) = take (dt_offset dt) (dt_strArea dt)"
  shows "dict_ok d (\<lambda>i. getStr nodes (ns ! i))"
proof -
  have n: "getMaxValidCode d + 1 = length ks" using head(2) by (simp add: getMaxValidCode_def)
  have lev: "levels kids ks ns (length ns)" and len: "length ns = length ks" and mem: "set ns = set ks"
    and tab: "length (ct_cst ct) = length ks" "length (ct_codeMap ct) = length ks"
    using f by (auto simp: cst_final_def cst_filled_def)
  have ns: "ns ! i \<in> set ks" if "i \<le> getMaxValidCode d" for i
    using that n len mem by (metis Suc_eq_plus1 less_Suc_eq_le nth_mem)
  have min: "256 \<le> length ks" using levels_length [OF lev] len by (simp add: start_def)
  have single: "ns ! i = i" if "i < 256" for i
  proof -
    have "ns = singles @ concat (map (kept kids ks) ns)" using lev by (simp add: levels_def)
    then have "ns ! i = (singles @ concat (map (kept kids ks) ns)) ! i" by (rule arg_cong)
    also have "\<dots> = i" using that by (simp add: nth_append singles_def del: upt_rec_numeral)
    finally show ?thesis .
  qed
  have "getStr nodes (ns ! i) = [word_of_nat i]" if "i < 256" for i
    using getStr_single [OF t c that] single [OF that] by simp
  moreover have "ct_codeMap ct ! i \<le> getMaxValidCode d \<and> dst_str d (ct_codeMap ct ! i) (getStr nodes (ns ! i)) \<and>
      length (getStr nodes (ns ! i)) \<le> 255" if i: "i \<le> getMaxValidCode d" for i
  proof -
    have "ct_codeMap ct ! i = nd_code (nodes (ns ! i))" using cst_final_item(6) [OF f c, of i] i n by simp
    then show ?thesis
      using coded_less [OF c ns [OF i]] n dst_str_final [OF t c inv all off d(3) area ns [OF i]]
        length_getStr [OF t c ns [OF i]] node_len(2) [OF t c ns [OF i]] by simp
  qed
  moreover have "0 < j \<and> j \<le> getMaxValidCode d \<and>
      getStr nodes (ns ! j) = getStr nodes (ns ! i) @ [CST_GET_CHAR (lzd_cst d ! j)]"
    if i: "i < getMaxValidCode d" and j: "j \<in> cst_children d i" for i j
  proof -
    note ch = cst_children_final [OF t c f d(1) n i j]
    show ?thesis using ch getStr_snoc [OF t c ns [OF ch(2)] ch(3)] by simp
  qed
  ultimately show ?thesis
    using head(1) n min tab dst_inv_len [OF inv] unfolding dict_ok_def d by auto
qed

lemma formatDst_all:
  assumes t: "trie b kids" and c: "coded b nodes ks"
  shows "formatDst nodes (lzb_maxCode b + 1)
           \<lparr>dt_dst = replicate (length ks) 0, dt_strArea = replicate m 0, dt_offset = 0\<rparr> = None \<and> m < 5 * length ks \<or>
         (\<exists>dt. formatDst nodes (lzb_maxCode b + 1)
             \<lparr>dt_dst = replicate (length ks) 0, dt_strArea = replicate m 0, dt_offset = 0\<rparr> = Some (SDB_OK, dt) \<and>
           dst_inv nodes ks dt \<and> length (dt_strArea dt) = m \<and> has_item nodes ks (dt_dst dt) = set ks \<and>
           dt_offset dt \<le> 5 * length ks)"
proof -
  let ?st = "\<lparr>dt_dst = replicate (length ks) 0, dt_strArea = replicate m (0 :: byte), dt_offset = 0\<rparr>"
  have len: "length (dt_strArea ?st) = m" by simp
  from formatDst_ok [OF t c dst_inv_start [OF c], of "lzb_maxCode b + 1" "replicate m 0"] show ?thesis
  proof (elim disjE exE conjE)
    assume "formatDst nodes (lzb_maxCode b + 1) ?st = None" "length (dt_strArea ?st) < 5 * length ks"
    then show ?thesis unfolding len by blast
  next
    fix dt assume dt: "formatDst nodes (lzb_maxCode b + 1) ?st = Some (SDB_OK, dt)" "dst_inv nodes ks dt"
      "length (dt_strArea dt) = length (dt_strArea ?st)"
      "{i \<in> set ks. i < lzb_maxCode b + 1} \<subseteq> has_item nodes ks (dt_dst dt)"
    have "set ks \<subseteq> {i \<in> set ks. i < lzb_maxCode b + 1}" using coded_max [OF c] by fastforce
    then have all: "has_item nodes ks (dt_dst dt) = set ks" using dt(4) by (auto simp: has_item_def)
    have "dt_offset dt \<le> 5 * length ks" using dst_inv_num [OF dt(2)] card_length [of ks] unfolding all by linarith
    with dt(1-3) all show ?thesis unfolding len by blast
  qed
qed

text \<open>The number of strings that get a code is at most that of the nodes and of the codes.\<close>

definition code_num :: "utilLZWBuilder \<Rightarrow> nat" where
  "code_num b = min (lzb_maxCode b + 1) UTIL_MAX_DICT_ITEM_NUM"

lemma coded_code_num: "coded b nodes ks \<Longrightarrow> length ks \<le> code_num b"
proof -
  assume c: "coded b nodes ks"
  have "set ks \<subseteq> {..lzb_maxCode b}" using coded_max [OF c] by blast
  then have "card (set ks) \<le> card {..lzb_maxCode b}" by (rule card_mono [OF finite_atMost])
  then show ?thesis using distinct_card [OF coded_distinct [OF c]] coded_num [OF c]
    by (simp add: code_num_def UTIL_MAX_DICT_ITEM_NUM_def)
qed

text \<open>The dictionary \<^verbatim>\<open>finalize\<close> returns once both tables are filled.\<close>

definition finished ::
  "utilLZWBuilder \<Rightarrow> nat \<Rightarrow> cstState \<Rightarrow> dstState \<Rightarrow> byte list \<Rightarrow> byte list \<Rightarrow> utilLZWDictionary" where
  "finished b maxValid ct dt addInfo area =
     \<lparr>lzd_head = final_head (lzb_maxCode b) maxValid, lzd_cst = ct_cst ct, lzd_codeMap = ct_codeMap ct,
      lzd_dst = dt_dst dt, lzd_strArea = take (dt_offset dt + length addInfo) area\<rparr>"

definition finish ::
  "utilLZWBuilder \<Rightarrow> byte list \<Rightarrow> nat \<Rightarrow> (nat \<Rightarrow> utilLZWNode) \<Rightarrow> nat \<Rightarrow> cstState \<Rightarrow>
   (sdb_rc \<times> utilLZWDictionary option \<times> nat) option" where
  "finish b addInfo len nodes num ct =
     (if len < table_size num then None
     else do {
       (rc, dt) \<leftarrow> formatDst nodes (lzb_maxCode b + 1)
         \<lparr>dt_dst = replicate num 0, dt_strArea = replicate (len - table_size num) 0, dt_offset = 0\<rparr>;
       if rc \<noteq> SDB_OK then Some (rc, None, len)
       else if len < table_size num + dt_offset dt + length addInfo then Some (SDB_INVALIDARG, None, len)
       else do {
         area \<leftarrow> mem_write (dt_strArea dt) (dt_offset dt) addInfo;
         Some (SDB_OK, Some (finished b (num - 1) ct dt addInfo area),
               table_size num + dt_offset dt + length addInfo)
       }
     })"

lemma finalize_result:
  assumes inv: "dict_inv b n" and sort: "sorts_descending std_sort"
  shows "\<exists>kids nodes ks ns ct. trie b kids \<and> coded b nodes ks \<and> cst_final nodes kids ks ns ct \<and>
    finalize std_sort addInfo b len =
      finish b addInfo len nodes (length ks) ct"
proof -
  obtain kids where t: "trie b kids" using inv by (auto simp: dict_inv_def)
  obtain nodes maxValid ks where a: "assign_codes (std_sort (\<lambda>i. nd_refNum (lzb_nodes b i)) (lzb_nodeSortVec b))
        (lzb_nodes b) 0 0 256 (int UTIL_MAX_DICT_ITEM_NUM) = (nodes, maxValid)"
      and c: "coded b nodes ks" and ks: "length ks = maxValid + 1"
    using assign_codes_coded [OF inv sort] by blast
  obtain ct ns where ct: "(cst_singles nodes 256 \<lparr>ct_nextIdx = 0, ct_indexMap = Map.empty,
        ct_cst = replicate (length ks) 0, ct_codeMap = replicate (length ks) 0\<rparr> \<bind> cst_groups nodes 0) = Some ct"
      and f: "cst_final nodes kids ks ns ct"
    using cst_ok [OF t c] by blast
  have m: "length ks - 1 = maxValid" using ks by simp
  obtain st1 where st1: "cst_singles nodes 256 \<lparr>ct_nextIdx = 0, ct_indexMap = Map.empty,
        ct_cst = replicate (length ks) 0, ct_codeMap = replicate (length ks) 0\<rparr> = Some st1" "cst_groups nodes 0 st1 = Some ct"
    using ct by (auto simp: bind_eq_Some_conv)
  have "finalize std_sort addInfo b len =
      finish b addInfo len nodes (length ks) ct"
    unfolding finish_def finalize_def a Let_def prod.case ks [symmetric] st1 finished_def m bind.bind_lunit by (rule refl)
  with t c f show ?thesis by blast
qed

lemma finished_ok:
  assumes t: "trie b kids" and c: "coded b nodes ks" and f: "cst_final nodes kids ks ns ct"
    and inv: "dst_inv nodes ks dt" and all: "has_item nodes ks (dt_dst dt) = set ks"
    and w: "mem_write (dt_strArea dt) (dt_offset dt) addInfo = Some area"
  shows "getMaxValidCode (finished b (length ks - 1) ct dt addInfo area) + 1 = length ks"
    and "length (lzd_strArea (finished b (length ks - 1) ct dt addInfo area)) = dt_offset dt + length addInfo"
    and "dt_offset dt \<le> 2 ^ 20 \<Longrightarrow>
      dict_ok (finished b (length ks - 1) ct dt addInfo area) (\<lambda>i. getStr nodes (ns ! i))"
proof -
  let ?d = "finished b (length ks - 1) ct dt addInfo area"
  have "levels kids ks ns (length ns)" "length ns = length ks" using f by (auto simp: cst_final_def)
  then have min: "256 \<le> length ks" using levels_length [of kids ks ns "length ns"] by (simp add: start_def)
  then show "getMaxValidCode ?d + 1 = length ks" by (simp add: finished_def getMaxValidCode_def final_head_def)
  show "length (lzd_strArea ?d) = dt_offset dt + length addInfo"
    using take_mem_write(2,3) [OF w] by (simp add: finished_def)
  assume off: "dt_offset dt \<le> 2 ^ 20"
  have head: "head_ok (lzd_head ?d)"
    using final_head_ok [of "length ks - 1"] min coded_num [OF c] by (simp add: finished_def)
  show "dict_ok ?d (\<lambda>i. getStr nodes (ns ! i))"
    by (rule tables_ok [OF t c f inv all off head])
      (use min take_mem_write(1) [OF w] in \<open>auto simp: finished_def final_head_def\<close>)
qed

text \<open>With five bytes of string area for each string \<^verbatim>\<open>finalize\<close> succeeds, and the dictionary is well-formed
  if the positions in the area fit into their 20 bits.\<close>

lemma finalize_ok:
  assumes inv: "dict_inv b n" and sort: "sorts_descending std_sort"
  shows "len < table_size (code_num b) + 5 * code_num b + length addInfo \<and>
           (finalize std_sort addInfo b len = None \<or> finalize std_sort addInfo b len = Some (SDB_INVALIDARG, None, len)) \<or>
         (\<exists>d used. finalize std_sort addInfo b len = Some (SDB_OK, Some d, used) \<and> used \<le> len \<and>
           getMaxValidCode d < code_num b \<and>
           length (lzd_strArea d) \<le> 5 * (getMaxValidCode d + 1) + length addInfo \<and>
           (length (lzd_strArea d) \<le> 2 ^ 20 \<longrightarrow> (\<exists>str. dict_ok d str)))"
proof -
  obtain kids nodes ks ns ct where t: "trie b kids" and c: "coded b nodes ks" and f: "cst_final nodes kids ks ns ct"
    and eq: "finalize std_sort addInfo b len =
      finish b addInfo len nodes (length ks) ct"
    using finalize_result [OF inv sort, of addInfo len] by blast
  let ?m = "len - table_size (length ks)" and ?n = "length ks"
  have num: "?n \<le> code_num b" by (rule coded_code_num [OF c])
  then have mono: "table_size ?n + 5 * ?n + x \<le> table_size (code_num b) + 5 * code_num b + x" for x
    by (simp add: table_size_def)
  show ?thesis
  proof (cases "len < table_size ?n")
    case True
    then show ?thesis using mono [of "length addInfo"] by (auto simp: eq finish_def)
  next
    case room: False
    from formatDst_all [OF t c, of ?m] show ?thesis
    proof (elim disjE exE conjE)
      assume dt: "formatDst nodes (lzb_maxCode b + 1)
          \<lparr>dt_dst = replicate ?n 0, dt_strArea = replicate ?m 0, dt_offset = 0\<rparr> = None" and "?m < 5 * ?n"
      then show ?thesis using mono [of "length addInfo"] room unfolding eq finish_def dt by simp
    next
      fix dt assume dt: "formatDst nodes (lzb_maxCode b + 1)
          \<lparr>dt_dst = replicate ?n 0, dt_strArea = replicate ?m 0, dt_offset = 0\<rparr> = Some (SDB_OK, dt)"
        and inv: "dst_inv nodes ks dt" and m: "length (dt_strArea dt) = ?m"
        and all: "has_item nodes ks (dt_dst dt) = set ks" and off: "dt_offset dt \<le> 5 * ?n"
      show ?thesis
      proof (cases "len < table_size ?n + dt_offset dt + length addInfo")
        case True
        then show ?thesis using mono [of "length addInfo"] room off unfolding eq finish_def dt by simp
      next
        case False
        then have "dt_offset dt + length addInfo \<le> length (dt_strArea dt)" using m room by linarith
        then obtain area where w: "mem_write (dt_strArea dt) (dt_offset dt) addInfo = Some area"
          by (simp add: mem_write_def)
        have fin: "finalize std_sort addInfo b len = Some (SDB_OK, Some (finished b (?n - 1) ct dt addInfo area),
            table_size ?n + dt_offset dt + length addInfo)"
          unfolding eq finish_def dt using False room by (simp add: w)
        note ok = finished_ok [OF t c f inv all w]
        show ?thesis
          by (rule disjI2, rule exI, rule exI, rule conjI [OF fin]) (use False off num ok in \<open>auto simp del: One_nat_def\<close>)
      qed
    qed
  qed
qed

end
