(* ===== verification/LzwCompressor.thy ===== *)
theory LzwCompressor
  imports LzwDictionary
begin

text \<open>
  \<^verbatim>\<open>_utilCompressorLZW\<close>: the three levels of compression, the two decoders,
  \<^verbatim>\<open>compress\<close>, \<^verbatim>\<open>decompress\<close>, \<^verbatim>\<open>compressBound\<close> and the head of compressed data. The source
  is the list of its bytes; the destination is a list as long as the buffer, and a write behind
  its end is \<open>None\<close>, as is a search in a source without bytes.

  A locale states what the compressor needs of a dictionary: a search returns a non-empty prefix
  and the code that is expanded to it. It is interpreted on the lookups of the dictionary.
  The lemmas show that both formats are decoded to the source and fit the announced bound.
\<close>

section \<open>Compression\<close>

datatype UTIL_COMPRESSION_LEVEL =
    UTIL_COMP_BEST_SPEED
  | UTIL_COMP_BALANCE
  | UTIL_COMP_BEST_COMPRESSION

record utilCompressStrategy =
  cs_minRatio :: nat
  cs_level :: UTIL_COMPRESSION_LEVEL

definition UTIL_COMPRESSOR_DFT_MIN_RATIO :: nat where
  "UTIL_COMPRESSOR_DFT_MIN_RATIO = 80"

partial_function (option) levelOne_loop ::
  "utilLZWDictionary \<Rightarrow> byte list \<Rightarrow> nat \<Rightarrow> utilLZWContext \<Rightarrow> nat \<Rightarrow> nat \<Rightarrow> nat \<Rightarrow>
   (sdb_rc \<times> utilLZWContext) option" where
  "levelOne_loop d source maxCodeNum context currPos remainLen codeNum = do {
     (code, len) \<leftarrow> findStrExt d (drop currPos source) remainLen;
     context \<leftarrow> writeCode (lzd_head d) code context;
     let codeNum = u32 (codeNum + 1);
     if maxCodeNum < codeNum then Some (SDB_UTIL_COMPRESS_ABORT, context)
     else do {
       let remainLen = u32_sub remainLen len;
       if 0 < remainLen then levelOne_loop d source maxCodeNum context (currPos + len) remainLen codeNum
       else Some (SDB_OK, context)
     }
   }"

declare levelOne_loop.simps [code]

definition flush_ok :: "sdb_rc \<times> utilLZWContext \<Rightarrow> (sdb_rc \<times> utilLZWContext) option" where
  "flush_ok r =
     (if fst r = SDB_OK then do { context \<leftarrow> flushBits (snd r); Some (SDB_OK, context) } else Some r)"

definition compressLevelOne ::
  "utilLZWDictionary \<Rightarrow> utilLZWContext \<Rightarrow> byte list \<Rightarrow> nat \<Rightarrow> (sdb_rc \<times> utilLZWContext) option" where
  "compressLevelOne d context source maxSize =
     (if lzh_codeSize (lzd_head d) = 0 then None
      else levelOne_loop d source (u32 (maxSize * 8) div lzh_codeSize (lzd_head d)) context
             0 (length source) 0 \<bind> flush_ok)"

partial_function (option) levelTwo_loop ::
  "utilLZWDictionary \<Rightarrow> byte list \<Rightarrow> nat \<Rightarrow> utilLZWContext \<Rightarrow> nat \<Rightarrow> nat \<Rightarrow> nat \<Rightarrow>
   (sdb_rc \<times> utilLZWContext) option" where
  "levelTwo_loop d source maxBitNum context currPos remainLen totalBitNum = do {
     (code, len) \<leftarrow> findStrExt d (drop currPos source) remainLen;
     (splitSize, context) \<leftarrow> writeVarLenCode (lzd_head d) code context;
     let totalBitNum = u32 (totalBitNum + splitSize);
     if maxBitNum < totalBitNum then Some (SDB_UTIL_COMPRESS_ABORT, context)
     else do {
       let remainLen = u32_sub remainLen len;
       if 0 < remainLen then levelTwo_loop d source maxBitNum context (currPos + len) remainLen totalBitNum
       else Some (SDB_OK, context)
     }
   }"

declare levelTwo_loop.simps [code]

definition compressLevelTwo ::
  "utilLZWDictionary \<Rightarrow> utilLZWContext \<Rightarrow> byte list \<Rightarrow> nat \<Rightarrow> (sdb_rc \<times> utilLZWContext) option" where
  "compressLevelTwo d context source maxSize =
     levelTwo_loop d source (u32 (maxSize * 8)) context 0 (length source) 0 \<bind> flush_ok"

text \<open>The first pass of the third level: the codes, and their size in the format with length flags.\<close>

partial_function (option) levelThree_loop ::
  "utilLZWDictionary \<Rightarrow> byte list \<Rightarrow> nat \<Rightarrow> nat \<Rightarrow> nat \<times> nat \<Rightarrow> nat \<Rightarrow> nat list \<Rightarrow>
   (nat list \<times> nat) option" where
  "levelThree_loop d source currPos remainLen info varLenTotalBits codeVec = do {
     (code, len) \<leftarrow> findStrExt d (drop currPos source) remainLen;
     let info = getVarLenInfo (lzd_head d) code info;
     let codeVec = codeVec @ [code];
     let varLenTotalBits = u32 (varLenTotalBits + (snd info + UTIL_VAR_LEN_FLAG_SIZE));
     let remainLen = u32_sub remainLen len;
     if 0 < remainLen then levelThree_loop d source (currPos + len) remainLen info varLenTotalBits codeVec
     else Some (codeVec, varLenTotalBits)
   }"

declare levelThree_loop.simps [code]

fun write_codes ::
  "(nat \<Rightarrow> utilLZWContext \<Rightarrow> utilLZWContext option) \<Rightarrow> nat list \<Rightarrow> utilLZWContext \<Rightarrow> utilLZWContext option" where
  "write_codes f [] context = Some context"
| "write_codes f (code # codes) context = f code context \<bind> write_codes f codes"

definition varLen_writer :: "utilLZWDictHead \<Rightarrow> nat \<Rightarrow> utilLZWContext \<Rightarrow> utilLZWContext option" where
  "varLen_writer h code context = map_option snd (writeVarLenCode h code context)"

text \<open>The return code, the context and the output parameter \<^verbatim>\<open>varLenCode\<close>.\<close>

definition compressLevelThree ::
  "utilLZWDictionary \<Rightarrow> utilLZWContext \<Rightarrow> byte list \<Rightarrow> nat \<Rightarrow> (sdb_rc \<times> utilLZWContext \<times> bool) option" where
  "compressLevelThree d context source maxSize = do {
     (codeVec, varLenTotalBits) \<leftarrow> levelThree_loop d source 0 (length source) (0, 0) 0 [];
     let fixLenTotalBits = u32 (length codeVec * lzh_codeSize (lzd_head d));
     if fixLenTotalBits = 0 then None
     else do {
       let useVarLenComp = (u32 (varLenTotalBits * 100) div fixLenTotalBits \<le> 95);
       if useVarLenComp then
         if u32 (maxSize * 8) < varLenTotalBits then Some (SDB_UTIL_COMPRESS_ABORT, context, False)
         else do {
           context \<leftarrow> write_codes (varLen_writer (lzd_head d)) codeVec context;
           context \<leftarrow> flushBits context;
           Some (SDB_OK, context, True)
         }
       else
         if u32 (maxSize * 8) < fixLenTotalBits then Some (SDB_UTIL_COMPRESS_ABORT, context, False)
         else do {
           context \<leftarrow> write_codes (writeCode (lzd_head d)) codeVec context;
           context \<leftarrow> flushBits context;
           Some (SDB_OK, context, False)
         }
     }
   }"

section \<open>The head of compressed data\<close>

definition UTIL_VAR_LEN_FLAG :: "32 word" where
  "UTIL_VAR_LEN_FLAG = 0x80000000"

definition UTIL_VAR_LEN_LENGTH_MASK :: "32 word" where
  "UTIL_VAR_LEN_LENGTH_MASK = 0x00FFFFFF"

definition setVarLenFlag :: "32 word \<Rightarrow> 32 word" where
  "setVarLenFlag v = v OR UTIL_VAR_LEN_FLAG"

definition isVarLenCode :: "32 word \<Rightarrow> bool" where
  "isVarLenCode v \<longleftrightarrow> v AND UTIL_VAR_LEN_FLAG \<noteq> 0"

definition setLength :: "32 word \<Rightarrow> nat \<Rightarrow> 32 word" where
  "setLength v len = (v AND UTIL_VAR_LEN_FLAG) OR word_of_nat len"

definition getLength :: "32 word \<Rightarrow> nat" where
  "getLength v = unat (v AND UTIL_VAR_LEN_LENGTH_MASK)"

text \<open>The head in memory, in the byte order of the platform.\<close>

definition head_bytes :: "32 word \<Rightarrow> byte list" where
  "head_bytes v = [ucast v, ucast (drop_bit 8 v), ucast (drop_bit 16 v), ucast (drop_bit 24 v)]"

definition head_of :: "byte list \<Rightarrow> 32 word option" where
  "head_of bs = do {
     b0 \<leftarrow> aref bs 0; b1 \<leftarrow> aref bs 1; b2 \<leftarrow> aref bs 2; b3 \<leftarrow> aref bs 3;
     Some (ucast b0 OR push_bit 8 (ucast b1) OR push_bit 16 (ucast b2) OR push_bit 24 (ucast b3))
   }"

section \<open>The interface of the compressor\<close>

text \<open>
  The product of code size and source length is one of 32-bit numbers, although its result is
  assigned to a 64-bit variable.
\<close>

definition compressBound :: "utilLZWDictionary option \<Rightarrow> nat \<Rightarrow> sdb_rc \<times> nat option" where
  "compressBound dictionary srcLen =
     (case dictionary of
        None \<Rightarrow> (SDB_INVALIDARG, None)
      | Some d \<Rightarrow>
          (let size = u32 (u32 (lzh_codeSize (lzd_head d) * srcLen) + 7) div 8 + 4 in
           if drop_bit 32 size \<noteq> 0 then (SDB_INVALIDARG, None) else (SDB_OK, Some size)))"

text \<open>The switch over the level; only the third level sets \<^verbatim>\<open>varLenCode\<close>.\<close>

definition compress_level ::
  "UTIL_COMPRESSION_LEVEL \<Rightarrow> utilLZWDictionary \<Rightarrow> utilLZWContext \<Rightarrow> byte list \<Rightarrow> nat \<Rightarrow>
   (sdb_rc \<times> utilLZWContext \<times> bool) option" where
  "compress_level level d context source maxSize =
     (case level of
        UTIL_COMP_BEST_SPEED \<Rightarrow>
          map_option (\<lambda>(rc, c). (rc, c, False)) (compressLevelOne d context source maxSize)
      | UTIL_COMP_BALANCE \<Rightarrow>
          map_option (\<lambda>(rc, c). (rc, c, False)) (compressLevelTwo d context source maxSize)
      | UTIL_COMP_BEST_COMPRESSION \<Rightarrow> compressLevelThree d context source maxSize)"

definition strategy_ratio :: "utilCompressStrategy option \<Rightarrow> nat" where
  "strategy_ratio strategy =
     (case strategy of None \<Rightarrow> UTIL_COMPRESSOR_DFT_MIN_RATIO | Some s \<Rightarrow> cs_minRatio s)"

definition strategy_level :: "utilCompressStrategy option \<Rightarrow> UTIL_COMPRESSION_LEVEL" where
  "strategy_level strategy =
     (case strategy of None \<Rightarrow> UTIL_COMP_BEST_SPEED | Some s \<Rightarrow> cs_level s)"

definition start_context :: "byte list \<Rightarrow> nat \<Rightarrow> utilLZWContext" where
  "start_context dest destLen =
     \<lparr>lzc_stream = dest, lzc_streamLen = destLen, lzc_streamPos = 4, lzc_buf = 0, lzc_n = 0\<rparr>"

text \<open>The return code, the destination buffer and the output length.\<close>

definition compress ::
  "utilLZWDictionary option \<Rightarrow> byte list \<Rightarrow> byte list \<Rightarrow> nat \<Rightarrow> utilCompressStrategy option \<Rightarrow>
   (sdb_rc \<times> byte list \<times> nat) option" where
  "compress dictHandle source dest destLen strategy =
     (case dictHandle of
        None \<Rightarrow> Some (SDB_INVALIDARG, dest, destLen)
      | Some d \<Rightarrow>
          (let maxSize = u32 (length source * strategy_ratio strategy div 100);
               head = setLength 0 (length source) in do {
             (rc, context, varLenCode) \<leftarrow>
               compress_level (strategy_level strategy) d (start_context dest destLen) source maxSize;
             if rc \<noteq> SDB_OK then Some (rc, lzc_stream context, destLen)
             else do {
               let head = (if varLenCode then setVarLenFlag head else head);
               dest \<leftarrow> mem_write (lzc_stream context) 0 (head_bytes head);
               Some (SDB_OK, dest, lzc_streamPos context)
             }
           }))"

definition getUncompressedLen :: "byte list \<Rightarrow> nat option" where
  "getUncompressedLen source = map_option getLength (head_of source)"

text \<open>The loops of the two decoders differ in the reader of a code.\<close>

partial_function (option) decode_loop ::
  "utilLZWDictionary \<Rightarrow> (utilLZWContext \<Rightarrow> (nat \<times> utilLZWContext) option) \<Rightarrow>
   utilLZWContext \<Rightarrow> byte list \<Rightarrow> nat \<Rightarrow> (nat \<times> byte list) option" where
  "decode_loop d reader context dest totalOut =
     (if lzc_streamPos context < lzc_streamLen context then do {
        (code, context) \<leftarrow> reader context;
        (strLen, dest) \<leftarrow> getStrExt d code dest totalOut;
        decode_loop d reader context dest (totalOut + strLen)
      } else Some (totalOut, dest))"

declare decode_loop.simps [code]

definition decodeFixLenCode ::
  "utilLZWDictionary \<Rightarrow> utilLZWContext \<Rightarrow> byte list \<Rightarrow> (nat \<times> byte list) option" where
  "decodeFixLenCode d context dest = decode_loop d (readCode (lzd_head d)) context dest 0"

definition decodeVarLenCode ::
  "utilLZWDictionary \<Rightarrow> utilLZWContext \<Rightarrow> byte list \<Rightarrow> (nat \<times> byte list) option" where
  "decodeVarLenCode d context dest = decode_loop d (readVarLenCode (lzd_head d)) context dest 0"

definition decompress ::
  "utilLZWDictionary option \<Rightarrow> byte list \<Rightarrow> byte list \<Rightarrow> nat \<Rightarrow> (sdb_rc \<times> byte list \<times> nat) option" where
  "decompress dictHandle source dest destLen =
     (case dictHandle of
        None \<Rightarrow> Some (SDB_INVALIDARG, dest, destLen)
      | Some d \<Rightarrow> do {
          let context = start_context source (length source);
          head \<leftarrow> head_of source;
          (totalOut, dest) \<leftarrow>
            (if isVarLenCode head then decodeVarLenCode d context dest
             else decodeFixLenCode d context dest);
          Some (SDB_OK, dest, totalOut)
        })"

section \<open>Factorisation and expansion\<close>

text \<open>
  What a compressor does with a dictionary: it cuts the source into the strings that the search
  matches, and expands a list of codes again.
\<close>

partial_function (option) factorise ::
  "(byte list \<Rightarrow> nat \<Rightarrow> (nat \<times> nat) option) \<Rightarrow> byte list \<Rightarrow> nat list option" where
  "factorise search s =
     (if s = [] then Some [] else do {
        (code, m) \<leftarrow> search s (length s);
        codes \<leftarrow> factorise search (drop m s);
        Some (code # codes)
      })"

declare factorise.simps [code]

fun expand ::
  "(nat \<Rightarrow> byte list \<Rightarrow> nat \<Rightarrow> (nat \<times> byte list) option) \<Rightarrow> nat list \<Rightarrow> byte list \<Rightarrow> nat \<Rightarrow>
   (nat \<times> byte list) option" where
  "expand get [] buff at = Some (at, buff)"
| "expand get (code # codes) buff at = do {
     (n, buff) \<leftarrow> get code buff at;
     expand get codes buff (at + n)
   }"

lemma take_drop_app: "take m s @ drop m s @ xs = s @ xs"
  by (metis append.assoc append_take_drop_id)

locale string_dictionary =
  fixes usable :: "'d \<Rightarrow> bool"
    and search :: "'d \<Rightarrow> byte list \<Rightarrow> nat \<Rightarrow> (nat \<times> nat) option"
    and get :: "'d \<Rightarrow> nat \<Rightarrow> byte list \<Rightarrow> nat \<Rightarrow> (nat \<times> byte list) option"
    and top_code :: "'d \<Rightarrow> nat"
  assumes search_get: "usable d \<Longrightarrow> s \<noteq> [] \<Longrightarrow>
    \<exists>code m. search d s (length s) = Some (code, m) \<and> 0 < m \<and> m \<le> length s \<and> code \<le> top_code d \<and>
      (\<forall>buff at. at + m \<le> length buff \<longrightarrow>
         get d code buff at = Some (m, take at buff @ take m s @ drop (at + m) buff))"
begin

lemma factorise_total:
  assumes "usable d"
  shows "\<exists>codes. factorise (search d) s = Some codes \<and> length codes \<le> length s \<and>
           (s \<noteq> [] \<longrightarrow> codes \<noteq> []) \<and> (\<forall>code \<in> set codes. code \<le> top_code d) \<and>
           (\<forall>buff at. at + length s \<le> length buff \<longrightarrow>
              expand (get d) codes buff at = Some (at + length s, take at buff @ s @ drop (at + length s) buff))"
proof (induction s rule: length_induct)
  case (1 s)
  show ?case
  proof (cases "s = []")
    case True
    then show ?thesis by (simp add: factorise.simps)
  next
    case False
    obtain code m where f: "search d s (length s) = Some (code, m)" "0 < m" "m \<le> length s" "code \<le> top_code d"
        "\<And>buff at. at + m \<le> length buff \<Longrightarrow> get d code buff at = Some (m, take at buff @ take m s @ drop (at + m) buff)"
      using search_get [OF assms False] by blast
    have "length (drop m s) < length s" using f(2) False by (cases s) auto
    then obtain codes where c: "factorise (search d) (drop m s) = Some codes" "length codes \<le> length (drop m s)"
        "\<forall>code \<in> set codes. code \<le> top_code d"
        "\<And>buff at. at + length (drop m s) \<le> length buff \<Longrightarrow> expand (get d) codes buff at =
           Some (at + length (drop m s), take at buff @ drop m s @ drop (at + length (drop m s)) buff)"
      using 1 by blast
    have "expand (get d) (code # codes) buff at = Some (at + length s, take at buff @ s @ drop (at + length s) buff)"
      if "at + length s \<le> length buff" for buff at
    proof -
      have "at + m \<le> length buff" using that f(3) by simp
      then have "expand (get d) (code # codes) buff at =
          expand (get d) codes (take at buff @ take m s @ drop (at + m) buff) (at + m)" by (simp add: f(5))
      also have "\<dots> = Some (at + length s, take at buff @ s @ drop (at + length s) buff)"
        by (subst c(4)) (use that f(3) in \<open>simp_all add: take_drop_app add.commute\<close>)
      finally show ?thesis .
    qed
    then show ?thesis using f c False
      by (intro exI [of _ "code # codes"]) (auto simp: factorise.simps [of _ s])
  qed
qed

end

interpretation lzd: string_dictionary "\<lambda>d. \<exists>str. dict_ok d str" findStrExt getStrExt getMaxValidCode
proof unfold_locales
  fix d and s :: "byte list"
  assume "\<exists>str. dict_ok d str" and s: "s \<noteq> []"
  then obtain str where ok: "dict_ok d str" by blast
  obtain code m where f: "findStrExt d s (length s) = Some (code, m)" "0 < m" "m \<le> length s"
      "code \<le> getMaxValidCode d" "dst_str d code (take m s)" "m \<le> 255"
    using findStrExt_ok [OF ok, of "length s" s] s by auto
  then show "\<exists>code m. findStrExt d s (length s) = Some (code, m) \<and> 0 < m \<and> m \<le> length s \<and>
      code \<le> getMaxValidCode d \<and> (\<forall>buff at. at + m \<le> length buff \<longrightarrow>
         getStrExt d code buff at = Some (m, take at buff @ take m s @ drop (at + m) buff))"
    using getStrExt_ok [OF f(5)] by (intro exI [of _ code] exI [of _ m]) (simp add: min_def)
qed


section \<open>Writing and reading a list of codes\<close>

definition code_bits :: "utilLZWDictHead \<Rightarrow> nat \<Rightarrow> bool list" where
  "code_bits h code = to_bits (lzh_codeSize h) (word_of_nat code :: 32 word)"

definition fix_bits :: "utilLZWDictHead \<Rightarrow> nat list \<Rightarrow> bool list" where
  "fix_bits h codes = concat (map (code_bits h) codes)"

definition var_bits :: "utilLZWDictHead \<Rightarrow> nat list \<Rightarrow> bool list" where
  "var_bits h codes = concat (map (varLen_bits h) codes)"

lemma fix_bits_simps [simp]:
  "fix_bits h [] = []" "fix_bits h (c # cs) = code_bits h c @ fix_bits h cs"
  by (simp_all add: fix_bits_def)

lemma var_bits_simps [simp]:
  "var_bits h [] = []" "var_bits h (c # cs) = varLen_bits h c @ var_bits h cs"
  by (simp_all add: var_bits_def)

lemma length_code_bits [simp]: "length (code_bits h c) = lzh_codeSize h"
  by (simp add: code_bits_def)

lemma length_fix_bits [simp]: "length (fix_bits h cs) = lzh_codeSize h * length cs"
  by (induction cs) auto

lemma head_ok_size: "head_ok h \<Longrightarrow> 8 \<le> lzh_codeSize h" "head_ok h \<Longrightarrow> lzh_codeSize h \<le> 18"
  by (simp_all add: head_ok_def)

lemma writeCode_ok:
  assumes "head_ok h" and "writing cap bs ctx" and "length bs + lzh_codeSize h < 8 * cap + 8"
  shows "\<exists>ctx'. writeCode h code ctx = Some ctx' \<and> writing cap (bs @ code_bits h code) ctx'"
  using writeBits_ok [OF assms(2) _ assms(3)] head_ok_size [OF assms(1)]
  by (simp add: writeCode_def code_bits_def)

lemma varLen_writer_ok:
  assumes "head_ok h" and "writing cap bs ctx" and "code < 2 ^ lzh_codeSize h - 1"
    and "length bs + length (varLen_bits h code) < 8 * cap + 8"
  shows "\<exists>ctx'. varLen_writer h code ctx = Some ctx' \<and> writing cap (bs @ varLen_bits h code) ctx'"
  using writeVarLenCode_ok [OF assms] by (auto simp: varLen_writer_def)

lemma write_fix_codes:
  assumes "head_ok h" and "writing cap bs ctx" and "length bs + length (fix_bits h codes) \<le> 8 * cap"
  shows "\<exists>ctx'. write_codes (writeCode h) codes ctx = Some ctx' \<and> writing cap (bs @ fix_bits h codes) ctx'"
  using assms(2,3)
proof (induction codes arbitrary: bs ctx)
  case (Cons c cs)
  obtain ctx1 where w: "writeCode h c ctx = Some ctx1" "writing cap (bs @ code_bits h c) ctx1"
    using writeCode_ok [OF assms(1) Cons.prems(1), of c] Cons.prems(2) by auto
  show ?case using Cons.IH [OF w(2)] Cons.prems(2) w(1) by auto
qed simp

lemma write_var_codes:
  assumes "head_ok h" and "writing cap bs ctx" and "length bs + length (var_bits h codes) \<le> 8 * cap"
    and "\<forall>c \<in> set codes. c < 2 ^ lzh_codeSize h - 1"
  shows "\<exists>ctx'. write_codes (varLen_writer h) codes ctx = Some ctx' \<and> writing cap (bs @ var_bits h codes) ctx'"
  using assms(2-)
proof (induction codes arbitrary: bs ctx)
  case (Cons c cs)
  obtain ctx1 where w: "varLen_writer h c ctx = Some ctx1" "writing cap (bs @ varLen_bits h c) ctx1"
    using varLen_writer_ok [OF assms(1) Cons.prems(1), of c] Cons.prems(2,3) by auto
  show ?case using Cons.IH [OF w(2)] Cons.prems(2,3) w(1) by auto
qed simp

text \<open>
  A decoder whose codes are at least eight bits long reads exactly the codes that were written:
  it stops when fewer bits than a byte are left.
\<close>

lemma decode_loop_ok:
  assumes reader: "\<And>code bs ctx. code \<in> set codes \<Longrightarrow> reading src (code_of code @ bs) ctx \<Longrightarrow>
      \<exists>ctx'. reader ctx = Some (code, ctx') \<and> reading src bs ctx' \<and> lzc_streamLen ctx' = lzc_streamLen ctx"
    and long: "\<And>code. code \<in> set codes \<Longrightarrow> 8 \<le> length (code_of code)"
    and "reading src (concat (map code_of codes) @ pad) ctx" and "length pad < 8"
    and "lzc_streamLen ctx = length src"
  shows "decode_loop d reader ctx dest at = expand (getStrExt d) codes dest at"
  using assms
proof (induction codes arbitrary: ctx dest at)
  case Nil
  then have "lzc_streamPos ctx = length src"
    using reading_length [OF Nil.prems(3)] by (auto simp: reading_def)
  then show ?case using Nil.prems(5) by (simp add: decode_loop.simps)
next
  case (Cons c cs)
  have r: "reading src (code_of c @ (concat (map code_of cs) @ pad)) ctx" using Cons.prems(3) by simp
  obtain ctx' where c: "reader ctx = Some (c, ctx')" "reading src (concat (map code_of cs) @ pad) ctx'"
      "lzc_streamLen ctx' = lzc_streamLen ctx"
    using Cons.prems(1) [OF _ r] by auto
  have "8 \<le> length (code_of c)" by (rule Cons.prems(2)) simp
  then have "lzc_streamPos ctx < length src"
    using reading_length [OF r] r by (cases "lzc_streamPos ctx < length src") (auto simp: reading_def)
  then have "decode_loop d reader ctx dest at =
      (case getStrExt d c dest at of None \<Rightarrow> None
       | Some (n, dest') \<Rightarrow> decode_loop d reader ctx' dest' (at + n))"
    by (subst decode_loop.simps) (simp add: Cons.prems(5) c(1) split: option.split)
  moreover have "decode_loop d reader ctx' dest' at' = expand (getStrExt d) cs dest' at'" for dest' at'
    by (rule Cons.IH [OF _ _ c(2) Cons.prems(4)]) (use Cons.prems(1,2,5) c(3) in auto)
  ultimately show ?case by (simp split: option.split)
qed

lemma decodeFixLenCode_ok:
  assumes "head_ok (lzd_head d)" and "reading src (fix_bits (lzd_head d) codes @ pad) ctx" and "length pad < 8"
    and "lzc_streamLen ctx = length src" and "\<forall>c \<in> set codes. c < 2 ^ lzh_codeSize (lzd_head d)"
  shows "decodeFixLenCode d ctx dest = expand (getStrExt d) codes dest 0"
  unfolding decodeFixLenCode_def
  by (rule decode_loop_ok [where code_of = "code_bits (lzd_head d)"])
    (use assms head_ok_size [OF assms(1)] in \<open>auto simp: code_bits_def fix_bits_def intro!: readCode_ok\<close>)

text \<open>With length flags this needs dictionaries of at least 13 bits: the smallest size then has six.\<close>

lemma getVarLenInfo_out:
  assumes "head_ok h" and "c < 2 ^ lzh_codeSize h - 1"
  shows "getVarLenInfo h c out = getVarLenInfo h c (0, 0)"
proof -
  have eq: "varLen_search c ss k o1 = varLen_search c ss k o2" if "\<exists>s \<in> set ss. c < DICT_BITS_UPBOUND s" for ss k o1 o2
    using that by (induction ss arbitrary: k) auto
  have "\<exists>s \<in> set (take UTIL_MAX_DICT_SPLIT_NUM (lzh_splitInfo h)). c < DICT_BITS_UPBOUND s"
    using assms by (auto simp: head_ok_def UTIL_MAX_DICT_SPLIT_NUM_def DICT_BITS_UPBOUND_def)
  then show ?thesis unfolding getVarLenInfo_def by (rule eq)
qed

lemma length_varLen_bits:
  assumes "head_ok h" and "c < 2 ^ lzh_codeSize h - 1"
  shows "length (varLen_bits h c) = snd (getVarLenInfo h c out) + 2"
    and "lzh_codeSize h - 5 \<le> length (varLen_bits h c)"
    and "length (varLen_bits h c) \<le> lzh_codeSize h + 2"
proof -
  obtain i s where g: "getVarLenInfo h c (0, 0) = (i, s)" by fastforce
  note ok = getVarLenInfo_ok [OF assms g]
  have "getVarLenInfo h c out = (i, s)" using getVarLenInfo_out [OF assms, of out] g by simp
  then show "length (varLen_bits h c) = snd (getVarLenInfo h c out) + 2"
    by (simp add: varLen_bits_def g)
  show "lzh_codeSize h - 5 \<le> length (varLen_bits h c)" using ok(5) by (simp add: varLen_bits_def g)
  show "length (varLen_bits h c) \<le> lzh_codeSize h + 2" using ok(6) by (simp add: varLen_bits_def g)
qed

lemma decodeVarLenCode_ok:
  assumes "head_ok (lzd_head d)" and "13 \<le> lzh_codeSize (lzd_head d)"
    and "reading src (var_bits (lzd_head d) codes @ pad) ctx" and "length pad < 8"
    and "lzc_streamLen ctx = length src" and "\<forall>c \<in> set codes. c < 2 ^ lzh_codeSize (lzd_head d) - 1"
  shows "decodeVarLenCode d ctx dest = expand (getStrExt d) codes dest 0"
  unfolding decodeVarLenCode_def
proof (rule decode_loop_ok [where code_of = "varLen_bits (lzd_head d)"])
  show "8 \<le> length (varLen_bits (lzd_head d) code)" if "code \<in> set codes" for code
    using length_varLen_bits(2) [OF assms(1), of code] assms(2,6) that by auto
qed (use assms in \<open>auto simp: var_bits_def intro!: readVarLenCode_ok\<close>)


section \<open>The loops follow the factorisation\<close>

inductive factors :: "utilLZWDictionary \<Rightarrow> byte list \<Rightarrow> nat list \<Rightarrow> bool" for d where
  factors_last: "findStrExt d s (length s) = Some (c, length s) \<Longrightarrow> s \<noteq> [] \<Longrightarrow> factors d s [c]"
| factors_more: "findStrExt d s (length s) = Some (c, m) \<Longrightarrow> 0 < m \<Longrightarrow> m < length s \<Longrightarrow>
    factors d (drop m s) cs \<Longrightarrow> factors d s (c # cs)"

lemma factorise_factors:
  assumes "\<exists>str. dict_ok d str" and "factorise (findStrExt d) s = Some codes" and "s \<noteq> []"
  shows "factors d s codes"
  using assms(2,3)
proof (induction codes arbitrary: s)
  case Nil
  then show ?case by (subst (asm) factorise.simps) (auto split: Option.bind_splits)
next
  case (Cons c cs)
  obtain m where f: "findStrExt d s (length s) = Some (c, m)" "factorise (findStrExt d) (drop m s) = Some cs"
    using Cons.prems by (subst (asm) factorise.simps) (auto split: Option.bind_splits)
  have m: "0 < m" "m \<le> length s" using lzd.search_get [OF assms(1) Cons.prems(2)] f(1) by auto
  show ?case
  proof (cases "m = length s")
    case True
    with f have "cs = []" by (simp add: factorise.simps)
    with True f Cons.prems(2) show ?thesis by (auto intro: factors_last)
  next
    case False
    with m Cons.IH [OF f(2)] f(1) show ?thesis by (auto intro: factors_more)
  qed
qed

text \<open>The codes of a source: below the largest, and expanded to the source.\<close>

lemma source_codes:
  assumes "dict_ok d str" and "source \<noteq> []"
  shows "\<exists>codes. factorise (findStrExt d) source = Some codes \<and> factors d source codes \<and>
           length codes \<le> length source \<and> codes \<noteq> [] \<and>
           (\<forall>c \<in> set codes. c \<le> getMaxValidCode d) \<and>
           (\<forall>buff. length source \<le> length buff \<longrightarrow>
              expand (getStrExt d) codes buff 0 = Some (length source, source @ drop (length source) buff))"
proof -
  have ok: "\<exists>str. dict_ok d str" using assms(1) by blast
  from lzd.factorise_total [OF ok, of source] obtain codes where
    c: "factorise (findStrExt d) source = Some codes" "length codes \<le> length source"
      "codes \<noteq> []" "\<forall>c \<in> set codes. c \<le> getMaxValidCode d"
      "\<forall>buff at. at + length source \<le> length buff \<longrightarrow> expand (getStrExt d) codes buff at =
         Some (at + length source, take at buff @ source @ drop (at + length source) buff)"
    using assms(2) by blast
  have "expand (getStrExt d) codes buff 0 = Some (length source, source @ drop (length source) buff)"
    if "length source \<le> length buff" for buff
    using c(5) that by (metis add_0 append_Nil take_0)
  with factorise_factors [OF ok c(1) assms(2)] c(1-4) show ?thesis by blast
qed

lemma levelOne_loop_ok:
  assumes "factors d s codes" and "head_ok (lzd_head d)" and "s = drop pos source"
    and "length source < 4294967296" and "writing cap bs ctx"
    and "length bs + length (fix_bits (lzd_head d) codes) \<le> 8 * cap" and "num + length codes < 4294967296"
  shows "\<exists>ctx'. levelOne_loop d source limit ctx pos (length s) num =
             Some (if limit < num + length codes then SDB_UTIL_COMPRESS_ABORT else SDB_OK, ctx') \<and>
           (num + length codes \<le> limit \<longrightarrow> writing cap (bs @ fix_bits (lzd_head d) codes) ctx')"
  using assms
proof (induction arbitrary: pos bs ctx num)
  case (factors_last s c)
  obtain ctx1 where w: "writeCode (lzd_head d) c ctx = Some ctx1"
      "writing cap (bs @ code_bits (lzd_head d) c) ctx1"
    using writeCode_ok [OF factors_last.prems(1,4), of c] factors_last.prems(5) by auto
  have "u32_sub (length s) (length s) = 0" using factors_last.prems(2,3) by (subst u32_sub_id) auto
  moreover have "u32 (num + 1) = num + 1" using factors_last.prems(6) by (simp add: u32_id)
  ultimately show ?case using factors_last w
    by (subst levelOne_loop.simps) (auto simp: Let_def)
next
  case (factors_more s c m cs)
  obtain ctx1 where w: "writeCode (lzd_head d) c ctx = Some ctx1"
      "writing cap (bs @ code_bits (lzd_head d) c) ctx1"
    using writeCode_ok [OF factors_more.prems(1,4), of c] factors_more.prems(5) by auto
  have sub: "u32_sub (length s) m = length (drop m s)"
    using factors_more.hyps(2,3) factors_more.prems(2,3) by (subst u32_sub_id) auto
  have num: "u32 (num + 1) = num + 1" using factors_more.prems(6) by (simp add: u32_id)
  have step: "levelOne_loop d source limit ctx pos (length s) num =
      (if limit < num + 1 then Some (SDB_UTIL_COMPRESS_ABORT, ctx1)
       else levelOne_loop d source limit ctx1 (pos + m) (length (drop m s)) (num + 1))"
    by (subst levelOne_loop.simps)
      (simp add: factors_more.prems(2) [symmetric] factors_more.hyps(1,3) w(1) num sub Let_def del: One_nat_def)
  have "\<exists>ctx'. levelOne_loop d source limit ctx1 (pos + m) (length (drop m s)) (num + 1) =
             Some (if limit < num + 1 + length cs then SDB_UTIL_COMPRESS_ABORT else SDB_OK, ctx') \<and>
           (num + 1 + length cs \<le> limit \<longrightarrow>
            writing cap ((bs @ code_bits (lzd_head d) c) @ fix_bits (lzd_head d) cs) ctx')"
    by (rule factors_more.IH [OF factors_more.prems(1) _ factors_more.prems(3) w(2)])
      (use factors_more.prems(2,5,6) in \<open>auto simp: add.commute\<close>)
  then show ?case unfolding step by auto
qed


text \<open>The level in between: the same codes in the format with length flags.\<close>

lemma levelTwo_loop_ok:
  assumes "factors d s codes" and "head_ok (lzd_head d)" and "s = drop pos source"
    and "length source < 4294967296" and "writing cap bs ctx"
    and "length bs + length (var_bits (lzd_head d) codes) \<le> 8 * cap"
    and "\<forall>c \<in> set codes. c < 2 ^ lzh_codeSize (lzd_head d) - 1"
  shows "\<exists>rc ctx'. levelTwo_loop d source limit ctx pos (length s) num = Some (rc, ctx') \<and>
           (rc = SDB_UTIL_COMPRESS_ABORT \<or>
            rc = SDB_OK \<and> writing cap (bs @ var_bits (lzd_head d) codes) ctx')"
  using assms
proof (induction arbitrary: pos bs ctx num)
  case (factors_last s c)
  obtain k ctx1 where w: "writeVarLenCode (lzd_head d) c ctx = Some (k, ctx1)"
      "writing cap (bs @ varLen_bits (lzd_head d) c) ctx1"
    using writeVarLenCode_ok [OF factors_last.prems(1,4), of c] factors_last.prems(5,6) by auto
  have "u32_sub (length s) (length s) = 0" using factors_last.prems(2,3) by (subst u32_sub_id) auto
  then show ?case using factors_last w
    by (subst levelTwo_loop.simps) (auto simp: Let_def)
next
  case (factors_more s c m cs)
  obtain k ctx1 where w: "writeVarLenCode (lzd_head d) c ctx = Some (k, ctx1)"
      "writing cap (bs @ varLen_bits (lzd_head d) c) ctx1"
    using writeVarLenCode_ok [OF factors_more.prems(1,4), of c] factors_more.prems(5,6) by auto
  have sub: "u32_sub (length s) m = length (drop m s)"
    using factors_more.hyps(2,3) factors_more.prems(2,3) by (subst u32_sub_id) auto
  have step: "levelTwo_loop d source limit ctx pos (length s) num =
      (if limit < u32 (num + k) then Some (SDB_UTIL_COMPRESS_ABORT, ctx1)
       else levelTwo_loop d source limit ctx1 (pos + m) (length (drop m s)) (u32 (num + k)))"
    by (subst levelTwo_loop.simps)
      (simp add: factors_more.prems(2) [symmetric] factors_more.hyps(1,3) w(1) sub Let_def)
  have "\<exists>rc ctx'. levelTwo_loop d source limit ctx1 (pos + m) (length (drop m s)) (u32 (num + k)) = Some (rc, ctx') \<and>
           (rc = SDB_UTIL_COMPRESS_ABORT \<or>
            rc = SDB_OK \<and> writing cap ((bs @ varLen_bits (lzd_head d) c) @ var_bits (lzd_head d) cs) ctx')"
    by (rule factors_more.IH [OF factors_more.prems(1) _ factors_more.prems(3) w(2)])
      (use factors_more.prems(2,5,6) in \<open>auto simp: add.commute\<close>)
  then show ?case unfolding step by auto
qed

lemma levelThree_loop_ok:
  assumes "factors d s codes" and "head_ok (lzd_head d)" and "s = drop pos source"
    and "length source < 4294967296" and "n + length (var_bits (lzd_head d) codes) < 4294967296"
    and "\<forall>c \<in> set codes. c < 2 ^ lzh_codeSize (lzd_head d) - 1"
  shows "levelThree_loop d source pos (length s) info n acc =
           Some (acc @ codes, n + length (var_bits (lzd_head d) codes))"
  using assms
proof (induction arbitrary: pos info n acc)
  case (factors_last s c)
  have "u32_sub (length s) (length s) = 0" using factors_last.prems(2,3) by (subst u32_sub_id) auto
  moreover have "length (varLen_bits (lzd_head d) c) = snd (getVarLenInfo (lzd_head d) c info) + 2"
    by (rule length_varLen_bits(1) [OF factors_last.prems(1)]) (use factors_last.prems(5) in simp)
  ultimately show ?case
    by (subst levelThree_loop.simps)
      (use factors_last.prems(4) in \<open>simp add: factors_last.prems(2) [symmetric] factors_last.hyps(1) Let_def
        UTIL_VAR_LEN_FLAG_SIZE_def u32_id\<close>)
next
  case (factors_more s c m cs)
  let ?info = "getVarLenInfo (lzd_head d) c info"
  have sub: "u32_sub (length s) m = length (drop m s)"
    using factors_more.hyps(2,3) factors_more.prems(2,3) by (subst u32_sub_id) auto
  have len: "length (varLen_bits (lzd_head d) c) = snd ?info + 2"
    by (rule length_varLen_bits(1) [OF factors_more.prems(1)]) (use factors_more.prems(5) in simp)
  have n: "u32 (n + (snd ?info + UTIL_VAR_LEN_FLAG_SIZE)) = n + (snd ?info + 2)"
    using factors_more.prems(4) len by (simp add: UTIL_VAR_LEN_FLAG_SIZE_def u32_id)
  have step: "levelThree_loop d source pos (length s) info n acc =
      levelThree_loop d source (pos + m) (length (drop m s)) ?info (n + (snd ?info + 2)) (acc @ [c])"
    by (subst levelThree_loop.simps)
      (simp add: factors_more.prems(2) [symmetric] factors_more.hyps(1,3) sub n Let_def)
  have "levelThree_loop d source (pos + m) (length (drop m s)) ?info (n + (snd ?info + 2)) (acc @ [c]) =
      Some ((acc @ [c]) @ cs, (n + (snd ?info + 2)) + length (var_bits (lzd_head d) cs))"
    by (rule factors_more.IH [OF factors_more.prems(1) _ factors_more.prems(3)])
      (use factors_more.prems(2,4,5) len in \<open>auto simp: add.commute\<close>)
  then show ?case unfolding step by (simp add: len)
qed

section \<open>The head\<close>

lemma head_of_bytes:
  assumes "take 4 bs = head_bytes v" shows "head_of bs = Some v"
proof -
  have "length (take 4 bs) = 4" by (simp only: assms) (simp add: head_bytes_def)
  then have "4 \<le> length bs" by simp
  then obtain b0 b1 b2 b3 r where bs: "bs = b0 # b1 # b2 # b3 # r"
    by (auto simp: eval_nat_numeral Suc_le_length_iff)
  then have b: "b0 = ucast v" "b1 = ucast (drop_bit 8 v)" "b2 = ucast (drop_bit 16 v)" "b3 = ucast (drop_bit 24 v)"
    using assms by (auto simp: head_bytes_def)
  have "ucast b0 OR push_bit 8 (ucast b1) OR push_bit 16 (ucast b2) OR push_bit 24 (ucast b3) = v"
    unfolding b
  proof (rule bit_word_eqI)
    fix n assume "n < LENGTH(32)"
    then consider "n < 8" | "8 \<le> n" "n < 16" | "16 \<le> n" "n < 24" | "24 \<le> n" "n < 32" by force
    then show "bit ((ucast (ucast v :: byte) :: 32 word) OR push_bit 8 (ucast (ucast (drop_bit 8 v) :: byte)) OR
        push_bit 16 (ucast (ucast (drop_bit 16 v) :: byte)) OR
        push_bit 24 (ucast (ucast (drop_bit 24 v) :: byte))) n = bit v n"
      by cases (auto simp: bit_simps)
  qed
  then show ?thesis by (simp add: bs head_of_def aref_def)
qed

lemma head_length:
  assumes "n < 16777216"
  shows "getLength (setLength 0 n) = n" and "getLength (setVarLenFlag (setLength 0 n)) = n"
    and "\<not> isVarLenCode (setLength 0 n)" and "isVarLenCode (setVarLenFlag v)"
proof -
  define w :: "32 word" where "w = word_of_nat n"
  have m: "UTIL_VAR_LEN_LENGTH_MASK = mask 24" "UTIL_VAR_LEN_FLAG = push_bit 31 1"
    by (simp_all add: UTIL_VAR_LEN_LENGTH_MASK_def UTIL_VAR_LEN_FLAG_def mask_eq_exp_minus_1)
  have w: "w AND mask 24 = w" "unat w = n" using assms
    by (simp_all add: w_def take_bit_of_nat take_bit_nat_eq_self unat_of_nat flip: take_bit_eq_mask)
  have f: "2147483648 AND mask 24 = (0 :: 32 word)" by (simp add: mask_eq_exp_minus_1)
  show "getLength (setLength 0 n) = n" by (simp add: getLength_def setLength_def m w flip: w_def)
  show "getLength (setVarLenFlag (setLength 0 n)) = n"
    by (simp add: getLength_def setLength_def setVarLenFlag_def m bit.conj_disj_distrib2 w f flip: w_def)
  have "w AND 2147483648 = (w AND mask 24) AND 2147483648" by (simp only: w(1))
  also have "\<dots> = w AND (2147483648 AND mask 24)" by (simp only: and.assoc and.commute [of "mask 24"])
  also have "\<dots> = 0" by (simp only: f and_zero_eq)
  finally have "w AND 2147483648 = 0" .
  then show "\<not> isVarLenCode (setLength 0 n)" by (simp add: isVarLenCode_def setLength_def m flip: w_def)
  have "bit ((v OR push_bit 31 1) AND push_bit 31 1) 31" by (simp add: bit_simps)
  then show "isVarLenCode (setVarLenFlag v)" by (auto simp: isVarLenCode_def setVarLenFlag_def m)
qed

end
