(* ===== verification/LzwRoundtrip.thy ===== *)
theory LzwRoundtrip
  imports LzwCompressor
begin

text \<open>
  The whole compressor: with a well-formed dictionary and a buffer of the announced size
  \<^verbatim>\<open>compress\<close> returns a result or gives up because the ratio is not met, never leaving the
  buffer, and \<^verbatim>\<open>decompress\<close> restores the source from the result.
\<close>

section \<open>The announced bound\<close>

lemma compressBound_eq:
  assumes "lzh_codeSize (lzd_head d) \<le> 18" and "n < 16777216"
  shows "compressBound (Some d) n = (SDB_OK, Some ((lzh_codeSize (lzd_head d) * n + 7) div 8 + 4))"
proof -
  have le: "lzh_codeSize (lzd_head d) * n \<le> 18 * 16777215" using assms by (intro mult_le_mono) auto
  then have u: "u32 (u32 (lzh_codeSize (lzd_head d) * n) + 7) = lzh_codeSize (lzd_head d) * n + 7"
    by (simp add: u32_id)
  have "drop_bit 32 ((lzh_codeSize (lzd_head d) * n + 7) div 8 + 4) = (0::nat)"
    using le by (simp add: drop_bit_eq_div)
  then show ?thesis by (simp add: compressBound_def u Let_def)
qed

section \<open>The levels\<close>

lemma start_writing:
  "4 \<le> length dest \<Longrightarrow> writing (length dest) (stream_bits (take 4 dest)) (start_context dest destLen)"
  by (simp add: writing_def written_def start_context_def)

text \<open>What a level leaves: the flushed bits of the codes behind the place of the head.\<close>

definition wrote :: "byte list \<Rightarrow> bool list \<Rightarrow> utilLZWContext \<Rightarrow> bool" where
  "wrote dest bits ctx \<longleftrightarrow> lzc_n ctx = 0 \<and>
     (\<exists>pad. length pad < 8 \<and> writing (length dest) (stream_bits (take 4 dest) @ bits @ pad) ctx)"

lemma flush_wrote:
  assumes "writing (length dest) (stream_bits (take 4 dest) @ bits) ctx"
    and "4 \<le> length dest" and "32 + length bits \<le> 8 * length dest"
  shows "\<exists>ctx'. flushBits ctx = Some ctx' \<and> wrote dest bits ctx'"
  using flushBits_ok [OF assms(1)] assms(2,3) by (fastforce simp: wrote_def)

lemma compressLevelOne_ok:
  assumes "head_ok (lzd_head d)" and "factors d source codes" and "length codes \<le> length source"
    and "length source < 16777216" and "4 \<le> length dest" and "maxSize \<le> length source"
    and "32 + length (fix_bits (lzd_head d) codes) \<le> 8 * length dest"
  shows "\<exists>ctx. compressLevelOne d (start_context dest destLen) source maxSize =
             Some (if 8 * maxSize < length (fix_bits (lzd_head d) codes) then SDB_UTIL_COMPRESS_ABORT else SDB_OK, ctx) \<and>
           (length (fix_bits (lzd_head d) codes) \<le> 8 * maxSize \<longrightarrow> wrote dest (fix_bits (lzd_head d) codes) ctx)"
proof -
  let ?h = "lzd_head d"
  let ?limit = "u32 (maxSize * 8) div lzh_codeSize ?h"
  have "0 < lzh_codeSize ?h" using head_ok_size(1) [OF assms(1)] by simp
  then have limit: "?limit < length codes \<longleftrightarrow> 8 * maxSize < length (fix_bits ?h codes)"
    using assms(4,6) by (simp add: u32_id div_less_iff_less_mult mult.commute)
  obtain ctx where l: "levelOne_loop d source ?limit (start_context dest destLen) 0 (length source) 0 =
        Some (if ?limit < length codes then SDB_UTIL_COMPRESS_ABORT else SDB_OK, ctx)"
      "length codes \<le> ?limit \<Longrightarrow> writing (length dest) (stream_bits (take 4 dest) @ fix_bits ?h codes) ctx"
    using levelOne_loop_ok [OF assms(2,1) _ _ start_writing [OF assms(5)], of 0 source 0 ?limit destLen] assms(3-7)
    by auto
  have eq: "compressLevelOne d (start_context dest destLen) source maxSize =
      flush_ok (if ?limit < length codes then SDB_UTIL_COMPRESS_ABORT else SDB_OK, ctx)"
    using \<open>0 < lzh_codeSize ?h\<close> by (simp add: compressLevelOne_def l(1))
  show ?thesis
  proof (cases "?limit < length codes")
    case True
    then show ?thesis using limit by (simp add: eq flush_ok_def)
  next
    case False
    then obtain ctx' where "flushBits ctx = Some ctx'" "wrote dest (fix_bits ?h codes) ctx'"
      using flush_wrote [OF l(2)] assms(5,7) by auto
    with False limit show ?thesis by (simp add: eq flush_ok_def)
  qed
qed

lemma compressLevelTwo_ok:
  assumes "head_ok (lzd_head d)" and "factors d source codes"
    and "length source < 16777216" and "4 \<le> length dest"
    and "32 + length (var_bits (lzd_head d) codes) \<le> 8 * length dest"
    and "\<forall>c \<in> set codes. c < 2 ^ lzh_codeSize (lzd_head d) - 1"
  shows "\<exists>rc ctx. compressLevelTwo d (start_context dest destLen) source maxSize = Some (rc, ctx) \<and>
           (rc = SDB_UTIL_COMPRESS_ABORT \<or> rc = SDB_OK \<and> wrote dest (var_bits (lzd_head d) codes) ctx)"
proof -
  let ?limit = "u32 (maxSize * 8)"
  obtain rc ctx where l: "levelTwo_loop d source ?limit (start_context dest destLen) 0 (length source) 0 = Some (rc, ctx)"
      "rc = SDB_UTIL_COMPRESS_ABORT \<or>
       rc = SDB_OK \<and> writing (length dest) (stream_bits (take 4 dest) @ var_bits (lzd_head d) codes) ctx"
    using levelTwo_loop_ok [OF assms(2,1) _ _ start_writing [OF assms(4)], of 0 source ?limit destLen 0] assms(3-6)
    by auto
  have eq: "compressLevelTwo d (start_context dest destLen) source maxSize = flush_ok (rc, ctx)"
    by (simp add: compressLevelTwo_def l(1))
  from l(2) show ?thesis
  proof
    assume "rc = SDB_UTIL_COMPRESS_ABORT"
    then show ?thesis by (simp add: eq flush_ok_def)
  next
    assume ok: "rc = SDB_OK \<and> writing (length dest) (stream_bits (take 4 dest) @ var_bits (lzd_head d) codes) ctx"
    with flush_wrote [of dest "var_bits (lzd_head d) codes" ctx] assms(4,5)
    obtain ctx' where "flushBits ctx = Some ctx'" "wrote dest (var_bits (lzd_head d) codes) ctx'" by auto
    with ok show ?thesis by (simp add: eq flush_ok_def)
  qed
qed

lemma length_var_bits_le:
  assumes "head_ok h" and "\<forall>c \<in> set codes. c < 2 ^ lzh_codeSize h - 1"
  shows "length (var_bits h codes) \<le> (lzh_codeSize h + 2) * length codes"
  using assms(2)
proof (induction codes)
  case (Cons c cs)
  with length_varLen_bits(3) [OF assms(1), of c] show ?case by simp
qed simp

text \<open>The bits of the codes of a source: the third level takes the shorter format.\<close>

definition uses_varLen :: "utilLZWDictionary \<Rightarrow> utilCompressStrategy option \<Rightarrow> nat list \<Rightarrow> bool" where
  "uses_varLen d strategy codes \<longleftrightarrow> strategy_level strategy = UTIL_COMP_BEST_COMPRESSION \<and>
     u32 (length (var_bits (lzd_head d) codes) * 100) div length (fix_bits (lzd_head d) codes) \<le> 95"

definition encoding :: "utilLZWDictionary \<Rightarrow> utilCompressStrategy option \<Rightarrow> nat list \<Rightarrow> bool list" where
  "encoding d strategy codes =
     (if uses_varLen d strategy codes then var_bits (lzd_head d) codes else fix_bits (lzd_head d) codes)"

lemma compressLevelThree_ok:
  assumes "head_ok (lzd_head d)" and "factors d source codes" and "length codes \<le> length source" and "codes \<noteq> []"
    and "length source < 16777216" and "maxSize \<le> length source"
    and "32 + 8 * length source \<le> 8 * length dest"
    and "\<forall>c \<in> set codes. c < 2 ^ lzh_codeSize (lzd_head d) - 1" and "strategy_level strategy = UTIL_COMP_BEST_COMPRESSION"
  shows "\<exists>ctx var. compressLevelThree d (start_context dest destLen) source maxSize =
             Some (if 8 * maxSize < length (encoding d strategy codes) then SDB_UTIL_COMPRESS_ABORT else SDB_OK, ctx, var) \<and>
           (length (encoding d strategy codes) \<le> 8 * maxSize \<longrightarrow>
            wrote dest (encoding d strategy codes) ctx \<and> var = uses_varLen d strategy codes)"
proof -
  let ?h = "lzd_head d"
  note sz = head_ok_size [OF assms(1)]
  have "(lzh_codeSize ?h + 2) * length codes \<le> 20 * 16777215"
    using assms(3,5) sz by (intro mult_le_mono) auto
  then have vb: "length (var_bits ?h codes) < 4294967296"
    using length_var_bits_le [OF assms(1,8)] by simp
  have fb: "length codes * lzh_codeSize ?h < 4294967296"
    using \<open>(lzh_codeSize ?h + 2) * length codes \<le> 20 * 16777215\<close> by (simp add: algebra_simps)
  have loop: "levelThree_loop d source 0 (length source) (0, 0) 0 [] = Some (codes, length (var_bits ?h codes))"
    using levelThree_loop_ok [OF assms(2,1), of 0 source 0 "(0, 0)" "[]"] assms(5,8) vb by simp
  have fixb: "u32 (length codes * lzh_codeSize ?h) = length (fix_bits ?h codes)"
    using fb by (simp add: u32_id mult.commute)
  have pos: "length (fix_bits ?h codes) \<noteq> 0" using sz assms(4) by simp
  have ne: "fix_bits ?h codes \<noteq> []" using pos by (metis list.size(3))
  have max: "u32 (maxSize * 8) = 8 * maxSize" using assms(5,6) by (simp add: u32_id)
  have d4: "4 \<le> length dest" using assms(7) by simp
  note start = start_writing [OF d4, of destLen]
  define useVar where "useVar \<longleftrightarrow> u32 (length (var_bits ?h codes) * 100) div length (fix_bits ?h codes) \<le> 95"
  define bits where "bits = (if useVar then var_bits ?h codes else fix_bits ?h codes)"
  have enc: "uses_varLen d strategy codes = useVar" "encoding d strategy codes = bits"
    using assms(9) by (simp_all add: uses_varLen_def useVar_def encoding_def bits_def del: length_fix_bits)
  define writer where "writer = (if useVar then varLen_writer ?h else writeCode ?h)"
  have eq: "compressLevelThree d (start_context dest destLen) source maxSize =
      (if 8 * maxSize < length bits then Some (SDB_UTIL_COMPRESS_ABORT, start_context dest destLen, False)
       else do {
         context \<leftarrow> write_codes writer codes (start_context dest destLen);
         context \<leftarrow> flushBits context;
         Some (SDB_OK, context, useVar)
       })"
    unfolding compressLevelThree_def
    by (simp add: loop fixb ne max Let_def bits_def writer_def del: length_fix_bits flip: useVar_def)
  show ?thesis
  proof (cases "8 * maxSize < length bits")
    case True
    then show ?thesis by (auto simp: eq enc)
  next
    case False
    then have room: "32 + length bits \<le> 8 * length dest" using assms(6,7) by simp
    have "\<exists>ctx. write_codes writer codes (start_context dest destLen) = Some ctx \<and>
        writing (length dest) (stream_bits (take 4 dest) @ bits) ctx"
      using write_fix_codes [OF assms(1) start, of codes] write_var_codes [OF assms(1) start _ assms(8)] room d4
      by (cases useVar) (simp_all add: bits_def writer_def)
    then obtain ctx where w: "write_codes writer codes (start_context dest destLen) = Some ctx"
        "writing (length dest) (stream_bits (take 4 dest) @ bits) ctx" by blast
    obtain ctx' where "flushBits ctx = Some ctx'" "wrote dest bits ctx'"
      using flush_wrote [OF w(2) d4 room] by blast
    with w(1) False show ?thesis by (simp add: eq enc)
  qed
qed

section \<open>Decompression of what was written\<close>

lemma wrote_result:
  assumes "wrote dest bits ctx" and "4 \<le> length dest"
  shows "\<exists>dest'. mem_write (lzc_stream ctx) 0 (head_bytes v) = Some dest' \<and> length dest' = length dest \<and>
           lzc_streamPos ctx \<le> length dest \<and> lzc_streamPos ctx = 4 + (length bits + 7) div 8 \<and>
           head_of (take (lzc_streamPos ctx) dest') = Some v \<and>
           (\<exists>pad. length pad < 8 \<and>
              reading (take (lzc_streamPos ctx) dest') (bits @ pad)
                (start_context (take (lzc_streamPos ctx) dest') (lzc_streamPos ctx)))"
proof -
  let ?k = "lzc_streamPos ctx" and ?s = "lzc_stream ctx"
  define dest' where "dest' = head_bytes v @ drop 4 ?s"
  obtain pad where w: "lzc_n ctx = 0" "length pad < 8"
      "writing (length dest) (stream_bits (take 4 dest) @ bits @ pad) ctx"
    using assms(1) by (auto simp: wrote_def)
  have ls: "length ?s = length dest" "?k \<le> length dest" using w(3) by (auto simp: writing_def)
  have k: "8 * ?k = 32 + length bits + length pad"
    using writing_length [OF w(3)] w(1) assms(2) by simp
  have lh: "length (head_bytes v) = 4" by (simp add: head_bytes_def)
  have mw: "mem_write ?s 0 (head_bytes v) = Some dest'"
    using ls assms(2) lh by (simp add: mem_write_def dest'_def)
  have len: "length dest' = length dest" using ls assms(2) lh by (simp add: dest'_def)
  have "stream_bits (take ?k ?s) = stream_bits (take 4 dest) @ bits @ pad"
    by (rule writing_flushed [OF w(3,1)])
  moreover have "take ?k ?s = take 4 ?s @ take (?k - 4) (drop 4 ?s)"
    using k take_add [of 4 "?k - 4" ?s] by simp
  moreover have "length (stream_bits (take 4 ?s)) = length (stream_bits (take 4 dest))" using ls by simp
  ultimately have "stream_bits (take (?k - 4) (drop 4 ?s)) = bits @ pad"
    by (simp add: append_eq_append_conv del: length_stream_bits)
  moreover have "drop 4 (take ?k dest') = take (?k - 4) (drop 4 ?s)"
    using lh k by (simp add: dest'_def drop_take min_def)
  ultimately have "reading (take ?k dest') (bits @ pad) (start_context (take ?k dest') ?k)"
    using k len ls by (simp add: reading_def unread_def start_context_def)
  moreover have "take 4 (take ?k dest') = head_bytes v" using lh k by (simp add: dest'_def min_def)
  moreover have "?k = 4 + (length bits + 7) div 8"
  proof -
    have "length bits + 7 = (7 - length pad) + 8 * (?k - 4)" using k w(2) by linarith
    then have "(length bits + 7) div 8 = ?k - 4" by simp
    then show ?thesis using k by linarith
  qed
  ultimately show ?thesis using mw len ls w(2) head_of_bytes by auto
qed

text \<open>Both decoders restore the source from the bits of its codes.\<close>

lemma decompress_codes:
  assumes "head_ok (lzd_head d)" and "\<forall>c \<in> set codes. c \<le> getMaxValidCode d"
    and "\<forall>buff. length source \<le> length buff \<longrightarrow>
           expand (getStrExt d) codes buff 0 = Some (length source, source @ drop (length source) buff)"
    and "length pad < 8" and "head_of src = Some v" and "length source \<le> length out"
    and "reading src ((if isVarLenCode v then var_bits (lzd_head d) codes else fix_bits (lzd_head d) codes) @ pad)
           (start_context src (length src))"
    and "isVarLenCode v \<Longrightarrow> 13 \<le> lzh_codeSize (lzd_head d) \<and>
           getMaxValidCode d < 2 ^ lzh_codeSize (lzd_head d) - 1"
  shows "decompress (Some d) src out destLen =
           Some (SDB_OK, source @ drop (length source) out, length source)"
proof -
  let ?c = "start_context src (length src)"
  have len: "lzc_streamLen ?c = length src" by (simp add: start_context_def)
  have "getMaxValidCode d < 2 ^ lzh_codeSize (lzd_head d)"
    using assms(1) by (simp add: head_ok_def getMaxValidCode_def)
  then have lt: "\<forall>c \<in> set codes. c < 2 ^ lzh_codeSize (lzd_head d)" using assms(2) by fastforce
  have e: "expand (getStrExt d) codes out 0 = Some (length source, source @ drop (length source) out)"
    using assms(3,6) by blast
  have "(if isVarLenCode v then decodeVarLenCode d ?c out else decodeFixLenCode d ?c out) =
      expand (getStrExt d) codes out 0"
  proof (cases "isVarLenCode v")
    case True
    with assms(2,8) have "\<forall>c \<in> set codes. c < 2 ^ lzh_codeSize (lzd_head d) - 1" by fastforce
    with True assms(7,8) decodeVarLenCode_ok [OF assms(1) _ _ assms(4) len, of codes out] show ?thesis by simp
  next
    case False
    with assms(7) decodeFixLenCode_ok [OF assms(1) _ assms(4) len lt, of out] show ?thesis by simp
  qed
  with e show ?thesis
    by (simp add: decompress_def assms(5))
qed

section \<open>Round trip\<close>

text \<open>
  The conditions under which a level restores its source: not the middle level, which writes
  flagged codes without marking the head, and at the third level a dictionary of at least 13 bits
  whose codes leave out the largest number of their size.
\<close>

definition level_ok :: "utilLZWDictionary \<Rightarrow> utilCompressStrategy option \<Rightarrow> bool" where
  "level_ok d strategy \<longleftrightarrow> strategy_ratio strategy \<le> 100 \<and>
     (case strategy_level strategy of
        UTIL_COMP_BEST_SPEED \<Rightarrow> True
      | UTIL_COMP_BALANCE \<Rightarrow> False
      | UTIL_COMP_BEST_COMPRESSION \<Rightarrow> 13 \<le> lzh_codeSize (lzd_head d) \<and>
          getMaxValidCode d < 2 ^ lzh_codeSize (lzd_head d) - 1)"

definition restores :: "utilLZWDictionary \<Rightarrow> byte list \<Rightarrow> byte list \<Rightarrow> nat \<Rightarrow> bool" where
  "restores d source dest n \<longleftrightarrow>
     n \<le> length dest \<and> getUncompressedLen (take n dest) = Some (length source) \<and>
     (\<forall>out. length source \<le> length out \<longrightarrow>
        decompress (Some d) (take n dest) out (length out) =
          Some (SDB_OK, source @ drop (length source) out, length source))"

text \<open>A level that wrote the codes of the source, in the format its result names.\<close>

lemma wrote_restores:
  assumes ok: "dict_ok d str" and "length source < 16777216" and "4 \<le> length dest"
    and codes: "\<forall>c \<in> set codes. c \<le> getMaxValidCode d"
      "\<forall>buff. length source \<le> length buff \<longrightarrow>
         expand (getStrExt d) codes buff 0 = Some (length source, source @ drop (length source) buff)"
    and w: "wrote dest (encoding d strategy codes) ctx" and level: "level_ok d strategy"
  shows "\<exists>dest'. mem_write (lzc_stream ctx) 0
             (head_bytes (if uses_varLen d strategy codes then setVarLenFlag (setLength 0 (length source))
                          else setLength 0 (length source))) = Some dest' \<and>
           lzc_streamPos ctx = 4 + (length (encoding d strategy codes) + 7) div 8 \<and>
           restores d source dest' (lzc_streamPos ctx)"
proof -
  define var where "var = uses_varLen d strategy codes"
  define v where "v = (if var then setVarLenFlag (setLength 0 (length source)) else setLength 0 (length source))"
  have v: "isVarLenCode v = var" "getLength v = length source"
    using head_length [OF assms(2)] by (auto simp: v_def)
  have enc: "encoding d strategy codes = (if var then var_bits (lzd_head d) codes else fix_bits (lzd_head d) codes)"
    by (simp add: encoding_def var_def)
  have var: "13 \<le> lzh_codeSize (lzd_head d) \<and> getMaxValidCode d < 2 ^ lzh_codeSize (lzd_head d) - 1" if "var"
    using level that by (auto simp: var_def uses_varLen_def level_ok_def)
  let ?k = "lzc_streamPos ctx"
  obtain dest' pad where r: "mem_write (lzc_stream ctx) 0 (head_bytes v) = Some dest'"
      "length dest' = length dest" "?k \<le> length dest"
      "?k = 4 + (length (encoding d strategy codes) + 7) div 8"
      "head_of (take ?k dest') = Some v" "length pad < 8"
      "reading (take ?k dest') (encoding d strategy codes @ pad) (start_context (take ?k dest') ?k)"
    using wrote_result [OF w assms(3), of v] by blast
  have k: "?k = length (take ?k dest')" using r(2,3) by simp
  have "decompress (Some d) (take ?k dest') out (length out) =
      Some (SDB_OK, source @ drop (length source) out, length source)" if "length source \<le> length out" for out
    by (rule decompress_codes [OF dict_ok_head [OF ok] codes r(6,5) that])
      (use r(7) var k v enc in auto)
  with r v show ?thesis unfolding var_def [symmetric] v_def [symmetric]
    by (auto simp: restores_def getUncompressedLen_def)
qed

lemma compress_level_ok:
  assumes ok: "dict_ok d str" and f: "factors d source codes" "length codes \<le> length source" "codes \<noteq> []"
      "\<forall>c \<in> set codes. c \<le> getMaxValidCode d"
    and len: "length source < 16777216" and level: "level_ok d strategy" and max: "maxSize \<le> length source"
    and b: "bound = (lzh_codeSize (lzd_head d) * length source + 7) div 8 + 4" and dest: "bound \<le> length dest"
  shows "\<exists>ctx var. compress_level (strategy_level strategy) d (start_context dest destLen) source maxSize =
             Some (if 8 * maxSize < length (encoding d strategy codes) then SDB_UTIL_COMPRESS_ABORT else SDB_OK, ctx, var) \<and>
           (length (encoding d strategy codes) \<le> 8 * maxSize \<longrightarrow>
              wrote dest (encoding d strategy codes) ctx \<and> var = uses_varLen d strategy codes)"
proof -
  let ?h = "lzd_head d"
  have head: "head_ok ?h" by (rule dict_ok_head [OF ok])
  note sz = head_ok_size [OF head]
  have up: "x \<le> 8 * ((x + 7) div 8)" for x :: nat by presburger
  have "length (fix_bits ?h codes) \<le> lzh_codeSize ?h * length source" using f(2) by simp
  then have fix_room: "32 + length (fix_bits ?h codes) \<le> 8 * length dest"
    using up [of "lzh_codeSize ?h * length source"] b dest by linarith
  have src_room: "32 + 8 * length source \<le> 8 * length dest"
    using mult_le_mono1 [OF sz(1), of "length source"] up [of "lzh_codeSize ?h * length source"] b dest by linarith
  have d4: "4 \<le> length dest" using b dest by simp
  consider "strategy_level strategy = UTIL_COMP_BEST_SPEED"
    | "strategy_level strategy = UTIL_COMP_BEST_COMPRESSION" "getMaxValidCode d < 2 ^ lzh_codeSize ?h - 1"
    using level by (auto simp: level_ok_def split: UTIL_COMPRESSION_LEVEL.splits)
  then show ?thesis
  proof cases
    case 1
    then have "encoding d strategy codes = fix_bits ?h codes" "\<not> uses_varLen d strategy codes"
      by (simp_all add: encoding_def uses_varLen_def)
    with compressLevelOne_ok [OF head f(1,2) len d4 max fix_room, of destLen] 1 show ?thesis
      by (auto simp: compress_level_def simp del: length_fix_bits)
  next
    case 2
    have "\<forall>c \<in> set codes. c < 2 ^ lzh_codeSize ?h - 1" using f(4) 2(2) by fastforce
    from compressLevelThree_ok [OF head f(1-3) len max src_room this 2(1), of destLen] 2(1) show ?thesis
      by (simp add: compress_level_def)
  qed
qed

text \<open>
  With a buffer of the announced size, compression ends without leaving the buffer: it gives up
  exactly when the codes take more than the wanted share of the source, and otherwise
  decompression of its result restores the source.
\<close>

definition wanted_size :: "byte list \<Rightarrow> utilCompressStrategy option \<Rightarrow> nat" where
  "wanted_size source strategy = length source * strategy_ratio strategy div 100"

lemma wanted_size_le: "level_ok d strategy \<Longrightarrow> wanted_size source strategy \<le> length source"
  using div_le_mono [OF mult_le_mono2 [of "strategy_ratio strategy" 100 "length source"], of 100]
  by (simp add: level_ok_def wanted_size_def)

lemma compress_restores:
  assumes ok: "dict_ok d str" and "source \<noteq> []" and len: "length source < 16777216"
    and level: "level_ok d strategy" and bound: "compressBound (Some d) (length source) = (SDB_OK, Some bound)"
    and dest: "bound \<le> length dest"
  shows "\<exists>codes rc dest' n. factorise (findStrExt d) source = Some codes \<and>
           compress (Some d) source dest destLen strategy = Some (rc, dest', n) \<and>
           (if 8 * wanted_size source strategy < length (encoding d strategy codes) then rc = SDB_UTIL_COMPRESS_ABORT
            else rc = SDB_OK \<and> n = 4 + (length (encoding d strategy codes) + 7) div 8 \<and> n \<le> bound \<and>
              restores d source dest' n)"
proof -
  let ?h = "lzd_head d"
  have b: "bound = (lzh_codeSize ?h * length source + 7) div 8 + 4"
    using bound compressBound_eq [OF head_ok_size(2) [OF dict_ok_head [OF ok]] len] by simp
  note max = wanted_size_le [OF level, of source]
  then have u: "u32 (length source * strategy_ratio strategy div 100) = wanted_size source strategy"
    using len by (simp add: u32_id wanted_size_def)
  obtain codes where c: "factorise (findStrExt d) source = Some codes" "factors d source codes"
      "length codes \<le> length source" "codes \<noteq> []" "\<forall>c \<in> set codes. c \<le> getMaxValidCode d"
      "\<forall>buff. length source \<le> length buff \<longrightarrow>
         expand (getStrExt d) codes buff 0 = Some (length source, source @ drop (length source) buff)"
    using source_codes [OF ok assms(2)] by blast
  obtain ctx var where r: "compress_level (strategy_level strategy) d (start_context dest destLen) source (wanted_size source strategy) =
        Some (if 8 * wanted_size source strategy < length (encoding d strategy codes) then SDB_UTIL_COMPRESS_ABORT else SDB_OK, ctx, var)"
      "length (encoding d strategy codes) \<le> 8 * wanted_size source strategy \<longrightarrow>
         wrote dest (encoding d strategy codes) ctx \<and> var = uses_varLen d strategy codes"
    using compress_level_ok [OF ok c(2-5) len level max b dest, of destLen] by blast
  show ?thesis
  proof (cases "8 * wanted_size source strategy < length (encoding d strategy codes)")
    case True
    then have "compress (Some d) source dest destLen strategy = Some (SDB_UTIL_COMPRESS_ABORT, lzc_stream ctx, destLen)"
      by (simp add: compress_def Let_def u r(1))
    with c(1) True show ?thesis by (intro exI [of _ codes]) simp
  next
    case False
    then have w: "wrote dest (encoding d strategy codes) ctx" "var = uses_varLen d strategy codes" using r(2) by simp_all
    obtain dest' where d: "mem_write (lzc_stream ctx) 0
        (head_bytes (if var then setVarLenFlag (setLength 0 (length source)) else setLength 0 (length source))) = Some dest'"
        "lzc_streamPos ctx = 4 + (length (encoding d strategy codes) + 7) div 8"
        "restores d source dest' (lzc_streamPos ctx)"
      using wrote_restores [OF ok len _ c(5,6) w(1) level] b dest unfolding w(2) by auto
    from False have "compress (Some d) source dest destLen strategy = Some (SDB_OK, dest', lzc_streamPos ctx)"
      by (simp add: compress_def Let_def u r(1) d(1))
    moreover have "lzc_streamPos ctx \<le> bound"
    proof -
      have "length (encoding d strategy codes) + 7 \<le> lzh_codeSize ?h * length source + 7"
        using False max mult_le_mono1 [OF head_ok_size(1) [OF dict_ok_head [OF ok]], of "length source"] by linarith
      from div_le_mono [OF this, of 8] show ?thesis using b d(2) by linarith
    qed
    ultimately show ?thesis using c(1) d(2,3) False by (intro exI [of _ codes]) simp
  qed
qed

end
