(* ===== verification/LzwPlain.thy ===== *)
theory LzwPlain
  imports LzwBuilt LzwRoundtrip "HOL-Library.Code_Target_Nat"
begin

text \<open>
  The smallest dictionary, of the 256 single characters, and what the three levels of the compressor
  make of two zero bytes with it.
\<close>

section \<open>The dictionary of the single characters\<close>

definition plain_head :: utilLZWDictHead where
  "plain_head = \<lparr>lzh_maxCode = 255, lzh_maxValidCode = 255, lzh_codeSize = 8, lzh_varLenFlagSize = 2,
                 lzh_splitInfo = [1, 3, 5, 8]\<rparr>"

definition plain_dictionary :: utilLZWDictionary where
  "plain_dictionary =
     \<lparr>lzd_head = plain_head,
      lzd_cst = map (\<lambda>i. cst_item (word_of_nat i) (Some CST_INVALID_CHILD)) singles,
      lzd_codeMap = singles, lzd_dst = map (\<lambda>i. local_item [word_of_nat i]) singles, lzd_strArea = []\<rparr>"

lemma nth_singles: "i < 256 \<Longrightarrow> singles ! i = i"
  by (simp add: singles_def del: upt_rec_numeral)

lemma plain_max: "getMaxValidCode plain_dictionary = 255"
  by (simp add: getMaxValidCode_def plain_dictionary_def plain_head_def)

lemma plain_child:
  assumes "i < 256" shows "CST_GET_CHILD (lzd_cst plain_dictionary ! i) = CST_INVALID_CHILD"
  using assms CST_GET_CHILD_item [of CST_INVALID_CHILD]
  by (simp add: plain_dictionary_def nth_singles CST_INVALID_CHILD_def)

lemma plain_dst:
  assumes "i < 256" shows "dst_str plain_dictionary i [word_of_nat i]"
proof -
  let ?item = "lzd_dst plain_dictionary ! i"
  have it: "?item = local_item [word_of_nat i]" using assms by (simp add: plain_dictionary_def nth_singles)
  have "dst_str plain_dictionary i (DST_GET_LOCAL_STR ?item)"
    by (rule dst_str.dst_local) (use assms it local_item_fields(1) in \<open>auto simp: plain_dictionary_def\<close>)
  then show ?thesis unfolding it using local_item_fields(3) [of "[word_of_nat i]"] by simp
qed

lemma plain_ok: "dict_ok plain_dictionary (\<lambda>i. [word_of_nat i])"
proof -
  have "head_ok (lzd_head plain_dictionary)"
    by (simp add: head_ok_def plain_dictionary_def plain_head_def UTIL_VAR_LEN_FLAG_SIZE_def)
  moreover have "length (lzd_cst plain_dictionary) = 256" "lzd_codeMap plain_dictionary = singles"
    "length (lzd_dst plain_dictionary) = 256" by (simp_all add: plain_dictionary_def)
  moreover have "cst_children plain_dictionary i = {}" if "i < 255" for i
    using that plain_child [of i] by (simp add: cst_children_def)
  moreover have "singles ! i \<le> 255 \<and> dst_str plain_dictionary (singles ! i) [word_of_nat i]" if "i \<le> 255" for i
    using that plain_dst [of i] by (simp add: nth_singles)
  ultimately show ?thesis unfolding dict_ok_def plain_max by simp
qed

lemma plain_find:
  assumes "0 < n" shows "findStrExt plain_dictionary (0 # s) n = Some (0, 1)"
proof -
  have "aref (lzd_cst plain_dictionary) 0 = Some (lzd_cst plain_dictionary ! 0)" by (simp add: aref_def plain_dictionary_def)
  then have "find_loop plain_dictionary (0 # s) n 0 1 1 = Some (0, 1)"
    using plain_child [of 0] by (subst find_loop.simps) (simp add: plain_max)
  moreover have "aref (lzd_codeMap plain_dictionary) 0 = Some 0"
    by (simp add: aref_def plain_dictionary_def nth_singles)
  ultimately show ?thesis by (simp add: findStrExt_def aref_def)
qed

lemma plain_get: "getStrExt plain_dictionary 0 [9, 9] 0 = Some (1, [0, 9])"
  using getStrExt_ok [OF plain_dst, of 0 0 "[9, 9]"] by simp

lemma plain_dictionary_head [simp]: "lzd_head plain_dictionary = plain_head"
  by (simp add: plain_dictionary_def)

lemma plain_head_size [simp]: "lzh_codeSize plain_head = 8"
  by (simp add: plain_head_def)

section \<open>Two zero bytes\<close>

definition zeros_context :: "nat \<Rightarrow> nat \<Rightarrow> utilLZWContext" where
  "zeros_context pos n =
     \<lparr>lzc_stream = replicate 6 0, lzc_streamLen = 6, lzc_streamPos = pos, lzc_buf = 0, lzc_n = n\<rparr>"

lemma zeros_start: "start_context (replicate 6 0) 6 = zeros_context 4 0"
  by (simp add: start_context_def zeros_context_def)

lemma zeros_write:
  shows "writeVarLenCode plain_head 0 (zeros_context 4 0) = Some (1, zeros_context 4 3)"
    and "writeVarLenCode plain_head 0 (zeros_context 4 3) = Some (1, zeros_context 4 6)"
    and "flushBits (zeros_context 4 6) = Some (zeros_context 5 0)"
    and "getVarLenInfo plain_head 0 (0, 0) = (0, 1)" and "getVarLenInfo plain_head 0 (0, 1) = (0, 1)"
    and "mem_write (lzc_stream (zeros_context 5 0)) 0 (head_bytes (setLength 0 2)) = Some [2, 0, 0, 0, 0, 0]"
    and "mem_write (lzc_stream (zeros_context 5 0)) 0 (head_bytes (setVarLenFlag (setLength 0 2))) = Some [2, 0, 0, 128, 0, 0]"
    and "lzc_streamPos (zeros_context 5 0) = 5"
  by code_simp+

lemma zeros_balance:
  "compress (Some plain_dictionary) [0, 0] (replicate 6 0) 6 (Some \<lparr>cs_minRatio = 80, cs_level = UTIL_COMP_BALANCE\<rparr>) =
     Some (SDB_OK, [2, 0, 0, 0, 0, 0], 5)"
proof -
  have "levelTwo_loop plain_dictionary [0, 0] 8 (zeros_context 4 0) 0 2 0 = Some (SDB_OK, zeros_context 4 6)"
    using zeros_write(1,2) plain_find
    by (subst levelTwo_loop.simps, simp add: u32_def u32_sub_def, subst levelTwo_loop.simps, simp add: u32_def u32_sub_def)
  then show ?thesis using zeros_write
    by (simp add: compress_def compress_level_def strategy_level_def strategy_ratio_def compressLevelTwo_def
        flush_ok_def zeros_start u32_def Let_def numeral_2_eq_2 [symmetric])
qed

lemma zeros_best:
  "compress (Some plain_dictionary) [0, 0] (replicate 6 0) 6 (Some \<lparr>cs_minRatio = 80, cs_level = UTIL_COMP_BEST_COMPRESSION\<rparr>) =
     Some (SDB_OK, [2, 0, 0, 128, 0, 0], 5)"
proof -
  have "levelThree_loop plain_dictionary [0, 0] 0 2 (0, 0) 0 [] = Some ([0, 0], 6)"
    using zeros_write(4,5) plain_find
    by (subst levelThree_loop.simps, simp add: u32_def u32_sub_def UTIL_VAR_LEN_FLAG_SIZE_def,
        subst levelThree_loop.simps, simp add: u32_def u32_sub_def UTIL_VAR_LEN_FLAG_SIZE_def)
  then show ?thesis using zeros_write
    by (simp add: compress_def compress_level_def strategy_level_def strategy_ratio_def compressLevelThree_def
        varLen_writer_def zeros_start u32_def Let_def numeral_2_eq_2 [symmetric])
qed

text \<open>Both decoders stop after the one byte of codes, with one character.\<close>

definition zeros_read :: "byte \<Rightarrow> nat \<Rightarrow> utilLZWContext" where
  "zeros_read flag n = \<lparr>lzc_stream = [2, 0, 0, flag, 0], lzc_streamLen = 5, lzc_streamPos = 5, lzc_buf = 0, lzc_n = n\<rparr>"

lemma zeros_reads:
  shows "readCode plain_head (start_context [2, 0, 0, 0, 0] 5) = Some (0, zeros_read 0 0)"
    and "readVarLenCode plain_head (start_context [2, 0, 0, 128, 0] 5) = Some (0, zeros_read 128 5)"
    and "map_option isVarLenCode (head_of [2, 0, 0, 0, 0]) = Some False"
    and "map_option isVarLenCode (head_of [2, 0, 0, 128, 0]) = Some True"
  by code_simp+

lemma zeros_decode:
  assumes "reader (start_context src 5) = Some (0, zeros_read flag n)"
  shows "decode_loop plain_dictionary reader (start_context src 5) [9, 9] 0 = Some (1, [0, 9])"
proof -
  have "decode_loop plain_dictionary reader (zeros_read flag n) [0, 9] 1 = Some (1, [0, 9])"
    by (subst decode_loop.simps) (simp add: zeros_read_def)
  then show ?thesis using assms plain_get by (subst decode_loop.simps) (simp add: start_context_def)
qed

lemma zeros_lost:
  shows "decompress (Some plain_dictionary) [2, 0, 0, 0, 0] [9, 9] 2 = Some (SDB_OK, [0, 9], 1)"
    and "decompress (Some plain_dictionary) [2, 0, 0, 128, 0] [9, 9] 2 = Some (SDB_OK, [0, 9], 1)"
proof -
  have len: "length [2, 0, 0, flag, 0 :: byte] = 5" for flag :: byte by simp
  obtain h where h: "head_of [2, 0, 0, 0, 0] = Some h" "\<not> isVarLenCode h" using zeros_reads(3) by auto
  show "decompress (Some plain_dictionary) [2, 0, 0, 0, 0] [9, 9] 2 = Some (SDB_OK, [0, 9], 1)"
    using zeros_decode [of "readCode plain_head" "[2, 0, 0, 0, 0]", OF zeros_reads(1)] h
    by (simp add: decompress_def decodeFixLenCode_def Let_def del: list.size) (simp add: len del: list.size)
  obtain h where h: "head_of [2, 0, 0, 128, 0] = Some h" "isVarLenCode h" using zeros_reads(4) by auto
  show "decompress (Some plain_dictionary) [2, 0, 0, 128, 0] [9, 9] 2 = Some (SDB_OK, [0, 9], 1)"
    using zeros_decode [of "readVarLenCode plain_head" "[2, 0, 0, 128, 0]", OF zeros_reads(2)] h
    by (simp add: decompress_def decodeVarLenCode_def Let_def del: list.size) (simp add: len del: list.size)
qed

end
