(* ===== verification/LzwProps.thy ===== *)
theory LzwProps
  imports LzwPlain
begin

text \<open>The properties of the LZW compressor and of the dictionaries it works with.\<close>

section \<open>A sample of data\<close>

definition sort_descending :: "(nat \<Rightarrow> nat) \<Rightarrow> nat list \<Rightarrow> nat list" where
  "sort_descending key xs = rev (sort_key key xs)"

lemma sorts_sort_descending: "sorts_descending sort_descending"
proof -
  have "sorted_wrt (\<lambda>x y. key y \<le> key x) (rev (sort_key key xs))" for key :: "nat \<Rightarrow> nat" and xs
    using sorted_sort_key [of key xs] by (simp add: sorted_wrt_rev sorted_wrt_map)
  then show ?thesis by (simp add: sorts_descending_def sort_descending_def)
qed

definition sample :: "byte list" where
  "sample = [97, 98]"

lemma sample_max: "map_option lzb_maxCode (build_all init [sample]) = Some 256"
  by code_simp

lemma sample_built:
  "\<exists>b. build_all init [sample] = Some b \<and> dict_inv b 2 \<and> code_num b = 257 \<and>
     table_size (code_num b) + 5 * code_num b = 4413"
proof -
  have s: "[] \<notin> set [sample]" "0 + sum_list (map length [sample]) = 2" by (simp_all add: sample_def)
  obtain b where b: "build_all init [sample] = Some b" "dict_inv b 2"
    using build_all_ok [OF init_inv s(1)] unfolding s(2) by (auto simp del: build_all.simps)
  then have "code_num b = 257" using sample_max by (simp add: code_num_def UTIL_MAX_DICT_ITEM_NUM_def del: build_all.simps)
  with b show ?thesis by (simp add: table_size_def head_size_def del: build_all.simps)
qed

section \<open>Compression\<close>

text \<open>
  C4. A round trip. With a well-formed dictionary and a destination of the size that
  \<^verbatim>\<open>compressBound\<close> announces, \<^verbatim>\<open>compress\<close> of a non-empty source below 16 MB never accesses memory outside its
  buffers. It cuts the source into strings of the dictionary and gives up exactly when the bits of their
  codes exceed the wanted share of the source. Otherwise it succeeds, and the result is four bytes of head
  and the bits of the codes, within the announced size; from it \<^verbatim>\<open>getUncompressedLen\<close> gives the length of the source and \<^verbatim>\<open>decompress\<close>
  the source. This holds for the level of best speed, which is the default, and for the level of best
  compression if codes have at least 13 bits and the largest code is not all ones.
\<close>

theorem lzw_round_trip:
  assumes "dict_ok d str" and "source \<noteq> []" and "length source < 16777216" and "level_ok d strategy"
    and "compressBound (Some d) (length source) = (SDB_OK, Some bound)" and "bound \<le> length dest"
  shows "\<exists>codes rc dest' n. factorise (findStrExt d) source = Some codes \<and>
           compress (Some d) source dest destLen strategy = Some (rc, dest', n) \<and>
           (if 8 * wanted_size source strategy < length (encoding d strategy codes) then rc = SDB_UTIL_COMPRESS_ABORT
            else rc = SDB_OK \<and> n = 4 + (length (encoding d strategy codes) + 7) div 8 \<and> n \<le> bound \<and>
              restores d source dest' n)"
  by (rule compress_restores [OF assms])

theorem lzw_round_trip_witness:
  "dict_ok plain_dictionary (\<lambda>i. [word_of_nat i]) \<and>
   compressBound (Some plain_dictionary) 2 = (SDB_OK, Some 6) \<and>
   (\<exists>dest'. compress (Some plain_dictionary) [0, 0] (replicate 6 0) 6 (Some \<lparr>cs_minRatio = 100, cs_level = UTIL_COMP_BEST_SPEED\<rparr>) =
        Some (SDB_OK, dest', 6) \<and> restores plain_dictionary [0, 0] dest' 6)"
proof -
  let ?s = "Some \<lparr>cs_minRatio = 100, cs_level = UTIL_COMP_BEST_SPEED\<rparr>"
  have b: "compressBound (Some plain_dictionary) 2 = (SDB_OK, Some 6)"
    by (simp add: compressBound_def u32_def drop_bit_eq_div)
  have l: "level_ok plain_dictionary ?s" and e: "\<not> uses_varLen plain_dictionary ?s codes"
    and w: "wanted_size [0, 0] ?s = 2" for codes
    by (simp_all add: level_ok_def strategy_ratio_def strategy_level_def uses_varLen_def wanted_size_def)
  have f: "factorise (findStrExt plain_dictionary) [0, 0] = Some [0, 0]"
    using plain_find by (simp add: factorise.simps)
  from lzw_round_trip [OF plain_ok, of "[0, 0]" ?s 6 "replicate 6 0" 6] l b f e w plain_ok show ?thesis
    by (simp add: numeral_2_eq_2 encoding_def)
qed

text \<open>
  C8. The whole chain. From any records a creator builds a dictionary; the strings of the highest
  frequency are kept and \<^verbatim>\<open>finalize\<close> writes the tables. With the dictionary it returns, as long as the string
  area is within the 20 bits of a position, the compressor of a collection with its default strategy
  restores every non-empty source below 16 MB, unless the codes of the strings it cuts the source into take
  more than 80 percent of the size of the source, when it gives up. \<open>std_sort\<close> is any function
  that sorts in descending order, as \<^verbatim>\<open>std::sort\<close> does.
\<close>

theorem lzw_built_round_trip:
  assumes "sorts_descending std_sort" and "[] \<notin> set records" and "sum_list (map length records) < 4294967290"
    and "build_all init records = Some b" and "finalize std_sort addInfo b len = Some (rc, Some d, used)"
    and "length (lzd_strArea d) \<le> 2 ^ 20" and "source \<noteq> []" and "length source < 16777216"
    and "compressBound (Some d) (length source) = (SDB_OK, Some bound)" and "bound \<le> length dest"
  shows "rc = SDB_OK \<and> used \<le> len \<and>
         (\<exists>codes rc dest' n. factorise (findStrExt d) source = Some codes \<and>
           compress (Some d) source dest destLen None = Some (rc, dest', n) \<and>
           (if 8 * (length source * 80 div 100) < lzh_codeSize (lzd_head d) * length codes then rc = SDB_UTIL_COMPRESS_ABORT
            else rc = SDB_OK \<and> n \<le> bound \<and> restores d source dest' n))"
proof -
  have "dict_inv b (0 + sum_list (map length records))"
    using build_all_ok [OF init_inv assms(2)] assms(3,4) by auto
  from finalize_ok [OF this assms(1), of len addInfo] assms(5,6)
  obtain str where ok: "dict_ok d str" and "rc = SDB_OK" "used \<le> len" by auto
  moreover have "level_ok d None"
    by (simp add: level_ok_def strategy_ratio_def strategy_level_def UTIL_COMPRESSOR_DFT_MIN_RATIO_def)
  moreover have "wanted_size source None = length source * 80 div 100" "\<And>codes. encoding d None codes = fix_bits (lzd_head d) codes"
    by (simp_all add: wanted_size_def encoding_def uses_varLen_def strategy_ratio_def strategy_level_def
        UTIL_COMPRESSOR_DFT_MIN_RATIO_def)
  ultimately show ?thesis using compress_restores [OF ok assms(7,8) _ assms(9,10), of None destLen]
    by (metis length_fix_bits)
qed

theorem lzw_built_round_trip_witness:
  "\<exists>b d used bound. build_all init [sample] = Some b \<and>
     finalize sort_descending [] b 5000 = Some (SDB_OK, Some d, used) \<and> used \<le> 5000 \<and>
     compressBound (Some d) 4 = (SDB_OK, Some bound) \<and>
     (\<exists>codes rc dest' n. factorise (findStrExt d) (sample @ sample) = Some codes \<and>
        compress (Some d) (sample @ sample) (replicate bound 0) bound None = Some (rc, dest', n) \<and>
        (if 8 * (4 * 80 div 100) < lzh_codeSize (lzd_head d) * length codes then rc = SDB_UTIL_COMPRESS_ABORT
         else rc = SDB_OK \<and> n \<le> bound \<and> restores d (sample @ sample) dest' n))"
proof -
  obtain b where b: "build_all init [sample] = Some b" "dict_inv b 2" "code_num b = 257"
      "table_size (code_num b) + 5 * code_num b = 4413"
    using sample_built by blast
  obtain d used where d: "finalize sort_descending [] b 5000 = Some (SDB_OK, Some d, used)"
      "getMaxValidCode d < 257" "length (lzd_strArea d) \<le> 5 * (getMaxValidCode d + 1)"
    using finalize_ok [OF b(2) sorts_sort_descending, of 5000 "[]"] b(3,4) by auto
  then have area: "length (lzd_strArea d) \<le> 2 ^ 20" by simp
  obtain str where "dict_ok d str"
    using finalize_ok [OF b(2) sorts_sort_descending, of 5000 "[]"] d(1) area b(4) by auto
  then have size: "lzh_codeSize (lzd_head d) \<le> 18" by (rule head_ok_size(2) [OF dict_ok_head])
  have len: "length (sample @ sample) = 4" by (simp add: sample_def)
  obtain bound where bound: "compressBound (Some d) 4 = (SDB_OK, Some bound)" using compressBound_eq [OF size, of 4] by simp
  have s: "[] \<notin> set [sample]" "sum_list (map length [sample]) < 4294967290" "sample @ sample \<noteq> []"
    "length (sample @ sample) < 16777216" by (simp_all add: sample_def)
  have bound': "compressBound (Some d) (length (sample @ sample)) = (SDB_OK, Some bound)" unfolding len by (rule bound)
  have "bound \<le> length (replicate bound (0 :: byte))" by simp
  from lzw_built_round_trip [OF sorts_sort_descending s(1,2) b(1) d(1) area s(3,4) bound' this, of bound]
  show ?thesis unfolding len using b(1) d(1) bound by blast
qed

section \<open>The finished dictionary\<close>

text \<open>
  C13. \<^verbatim>\<open>finalize\<close> of a dictionary under construction fills at most five bytes of the string area for each string
  it keeps (where the size of the buffer assumes four on average). With that much room it always succeeds;
  otherwise it may also refuse or write outside of the buffer. Whenever it returns a dictionary whose
  string area is within the 20 bits of a position, the dictionary is well-formed: there is one string
  for each index, a child of an index extends its string by its character, and the item of the code of an
  index spells its string.
\<close>

theorem lzw_finalize_well_formed:
  assumes "dict_inv b n" and "sorts_descending std_sort"
  shows "len < table_size (code_num b) + 5 * code_num b + length addInfo \<and>
           (finalize std_sort addInfo b len = None \<or> finalize std_sort addInfo b len = Some (SDB_INVALIDARG, None, len)) \<or>
         (\<exists>d used. finalize std_sort addInfo b len = Some (SDB_OK, Some d, used) \<and> used \<le> len \<and>
           getMaxValidCode d < code_num b \<and>
           length (lzd_strArea d) \<le> 5 * (getMaxValidCode d + 1) + length addInfo \<and>
           (length (lzd_strArea d) \<le> 2 ^ 20 \<longrightarrow> (\<exists>str. dict_ok d str)))"
  by (rule finalize_ok [OF assms])

theorem lzw_finalize_well_formed_witness:
  "\<exists>b d used str. build_all init [sample] = Some b \<and> dict_inv b 2 \<and>
     finalize sort_descending [] b 5000 = Some (SDB_OK, Some d, used) \<and> used \<le> 5000 \<and> dict_ok d str"
proof -
  obtain b where b: "build_all init [sample] = Some b" "dict_inv b 2" "code_num b = 257"
      "table_size (code_num b) + 5 * code_num b = 4413"
    using sample_built by blast
  from lzw_finalize_well_formed [OF b(2) sorts_sort_descending, of 5000 "[]"] b(3,4)
  obtain d used where d: "finalize sort_descending [] b 5000 = Some (SDB_OK, Some d, used)" "used \<le> 5000"
      "getMaxValidCode d < 257" "length (lzd_strArea d) \<le> 5 * (getMaxValidCode d + 1)"
      "length (lzd_strArea d) \<le> 2 ^ 20 \<longrightarrow> (\<exists>str. dict_ok d str)" by auto
  from d(3,4) have "length (lzd_strArea d) \<le> 2 ^ 20" by simp
  with b(1,2) d show ?thesis by blast
qed

text \<open>
  C17. \<^verbatim>\<open>build\<close> returns for every non-empty source and keeps the invariant of a dictionary under construction, as
  long as less than 4294967290 bytes have been fed: the nodes form a trie whose siblings are linked in the
  order of their characters, the length of a node is its depth, and a string has been met strictly more
  often than each of its extensions.
\<close>

theorem lzw_build_invariant:
  assumes "dict_inv b n" and "source \<noteq> []" and "n + length source < 4294967290"
  shows "\<exists>b' full. build b source = Some (b', full) \<and> dict_inv b' (n + length source)"
  using build_ok [OF assms] by blast

theorem lzw_build_invariant_witness:
  "\<exists>b' full. build init sample = Some (b', full) \<and> dict_inv b' 2"
  using lzw_build_invariant [OF init_inv, of sample] by (simp add: sample_def numeral_2_eq_2)

text \<open>
  C23. The strings that get a code are closed under prefixes: the codes 0, 1, ... go to distinct nodes,
  all single characters among them, at most 250000, and with a string also to the string without its last
  character. So no string of the dictionary refers to one that was left out.
\<close>

theorem lzw_codes_prefix_closed:
  assumes "dict_inv b n" and "sorts_descending std_sort"
  shows "\<exists>nodes maxValid ks. assign_codes (std_sort (\<lambda>i. nd_refNum (lzb_nodes b i)) (lzb_nodeSortVec b))
             (lzb_nodes b) 0 0 256 (int UTIL_MAX_DICT_ITEM_NUM) = (nodes, maxValid) \<and>
           coded b nodes ks \<and> length ks = maxValid + 1"
  by (rule assign_codes_coded [OF assms])

theorem lzw_codes_prefix_closed_witness:
  "\<exists>b nodes maxValid ks. build_all init [sample] = Some b \<and>
     assign_codes (sort_descending (\<lambda>i. nd_refNum (lzb_nodes b i)) (lzb_nodeSortVec b))
       (lzb_nodes b) 0 0 256 (int UTIL_MAX_DICT_ITEM_NUM) = (nodes, maxValid) \<and>
     coded b nodes ks \<and> length ks = maxValid + 1"
  using sample_built lzw_codes_prefix_closed [OF _ sorts_sort_descending] by blast


end
