(* ===== verification/Spec2Isabelle.thy ===== *)
theory Spec2Isabelle
  imports SMEMgr TransLockProps LobPiecesProps LobSectionsProps LobSystemProps SyncManagerProps ElectionProps LzwProps
begin

text \<open>
  Verification of the SequoiaDB engine: the parts of \<^verbatim>\<open>src/SequoiaDB/engine/\<close> that decide who
  may use what (pages, locks, LOBs, replicated log positions), modelled operation by operation.
  File names below are relative to that directory.

  \<^bold>\<open>The program and its parts.\<close>  A data node keeps collections in storage units. A storage unit
  hands out runs of pages (\<^verbatim>\<open>dms/dmsSMEMgr.cpp\<close>) and records them in a page bitmap. Transactions lock
  spaces, collections and records through a lock manager (\<^verbatim>\<open>dps/dpsTransLock*.cpp\<close>). Large objects
  (LOBs) are opened by streams, which ask an access manager for a privilege, lock sections of bytes,
  and remember which pieces they have written (\<^verbatim>\<open>rtn/rtnLob*.cpp\<close>). A write is acknowledged when
  enough members of the replica group have passed its log position; the synchronisation manager
  (\<^verbatim>\<open>cls/clsSyncManager.cpp\<close>) keeps the waiting sessions. The members of a
  group elect the primary among themselves (\<^verbatim>\<open>cls/clsVoteMachine.cpp\<close>, \<^verbatim>\<open>cls/clsVS*.cpp\<close>), driven by the
  beats, messages and timers of \<^verbatim>\<open>cls/clsReplicateSet.cpp\<close>; a primary that steps down fails the sessions
  that wait in its synchronisation manager. Records are compressed with a dictionary that a
  creator learns from the records of a collection (\<^verbatim>\<open>util/utilLZWDictionary.cpp\<close>, \<^verbatim>\<open>util/utilCompressorLZW.cpp\<close>).

  \<^bold>\<open>Storage of a node.\<close>
  \<^item> \<open>PageAllocator\<close>: locale \<open>page_allocator\<close>, the contract of an allocator of runs of pages, and
    what its clients may conclude over sequences of calls.
  \<^item> \<open>SegmentSpace\<close>: \<^verbatim>\<open>_dmsSegmentSpace\<close> (the free list of a segment, nodes packed in 32 bits, counters of 16
    bits) and \<^verbatim>\<open>_dmsSpaceManagementExtent\<close> (the bitmap, \<^verbatim>\<open>include/dmsStorageBase.hpp\<close>). Every
    operation keeps the list sorted and maximal and the counters exact; \<open>releasePages\<close> is the insertion
    of a run into a list of maximal runs.
  \<^item> \<open>SMEMgr\<close>: \<^verbatim>\<open>_dmsSMEMgr\<close> (\<open>init\<close>, \<open>reservePages\<close>, \<open>releasePages\<close>, \<open>depositASegment\<close>); interpretations
    \<open>segment\<close> and \<open>mgr\<close> of the allocator contract. No page is handed out twice or lost, and a manager
    rebuilt from the bitmap equals the running one.

  \<^bold>\<open>Transaction locks.\<close>
  \<^item> \<open>TransLockDef\<close>, \<open>TransLockBucket\<close>, \<open>TransLock\<close>: \<^verbatim>\<open>dpsTransLockDef.cpp\<close>, \<^verbatim>\<open>dpsTransLockBucket.cpp\<close> and
    \<^verbatim>\<open>dpsTransLock.cpp\<close>: modes, buckets with their run lists and wait queues, and every try, test,
    acquire, upgrade, wait and release. What other EDUs (threads of the engine) do while one waits is
    an argument of the blocking operations.
  \<^item> \<open>TransLockTable\<close>: the refinement to a flat table of modes and counts per EDU and lock.
  \<^item> \<open>LockService\<close>: locale \<open>lock_service\<close>, the contract of a hierarchical lock service; \<open>TransLockService\<close>
    interprets it on the lock manager (\<open>trans\<close>).
  \<^item> \<open>TransLockProps\<close>: held modes are compatible, counts are exact, release wakes the queue; and the
    runs that break the contract (a timed-out wait, an upgrade that waited, mode S on a space).

  \<^bold>\<open>LOBs.\<close>
  \<^item> \<open>Bson\<close>: the BSON values the LOB bookkeeping stores.
  \<^item> \<open>PieceSet\<close>, \<open>LobPieces\<close>, \<open>LobPiecesProps\<close>: \<^verbatim>\<open>rtn/rtnLobPieces.cpp\<close>, the set of written pieces as a vector of
    intervals of \<^verbatim>\<open>UINT32\<close>, its contract (\<open>piece_container\<close>, interpretation \<open>pieces\<close>), its two serialised forms, and
    the values at which its loops do not end. The loops are partial functions, so that not returning
    is a value, and termination is proved where it holds.
  \<^item> \<open>RangeLock\<close>, \<open>LobSections\<close>, \<open>LobSectionsProps\<close>: \<^verbatim>\<open>rtn/rtnLobSections.cpp\<close>, the sections of bytes that
    writers have locked, against a map from bytes to owners (\<open>range_lock\<close>, interpretations \<open>lobsec\<close> and
    \<open>lobinfo\<close>).
  \<^item> \<open>LobAccess\<close>, \<open>LobSystem\<close>, \<open>LobSystemProps\<close>: \<^verbatim>\<open>rtn/rtnLobAccessManager.cpp\<close> and the streams that use it
    (\<^verbatim>\<open>rtn/rtnLocalLobStream.cpp\<close>, \<^verbatim>\<open>rtn/rtnContextShdOfLob.cpp\<close>) as a step relation. The invariant ties
    reference counts and byte locks to open streams.

  \<^bold>\<open>Replication.\<close>
  \<^item> \<open>DpsLsn\<close>: log sequence numbers (\<^verbatim>\<open>include/dpsLogDef.hpp\<close>) and their order.
  \<^item> \<open>SyncQueue\<close>, \<open>SyncHeap\<close>: the container of waiting sessions as an interface (\<open>session_pool\<close>,
    \<open>session_queue\<close>) and \<^verbatim>\<open>include/clsSyncMinHeap.hpp\<close> as its implementation (\<open>heap_pool\<close>, \<open>heap_queue\<close>).
  \<^item> \<open>GroupInfo\<close>: what a node knows of its group (\<^verbatim>\<open>include/clsDef.hpp\<close>).
  \<^item> \<open>SyncManager\<close>, \<open>SyncManagerProps\<close>: \<^verbatim>\<open>cls/clsSyncManager.cpp\<close>: which members must have passed the position of
    a session when it is woken, and the two paths that leave this contract.

  \<^bold>\<open>Election.\<close>
  \<^item> \<open>VoteMachine\<close>: the five status objects of \<^verbatim>\<open>cls/clsVSSilence.cpp\<close>, \<^verbatim>\<open>clsVSSecondary.cpp\<close>, \<^verbatim>\<open>clsVSVote.cpp\<close>,
    \<^verbatim>\<open>clsVSAnnounce.cpp\<close> and \<^verbatim>\<open>clsVSPrimary.cpp\<close>, the ballots of \<^verbatim>\<open>clsVoteStatus.cpp\<close>, and the machine, whose loop
    over activations terminates because a status only hands over to the next one.
  \<^item> \<open>ReplicateSet\<close>: \<^verbatim>\<open>cls/clsReplicateSet.cpp\<close>: beats, alive members, the reply of the catalogue, messages, timers
    and the events to step up and down. The record \<open>clsNode\<close> joins the group information, the vote machine and
    the synchronisation manager of a node.
  \<^item> \<open>NodeInvariant\<close>, \<open>NodeSteps\<close>, \<open>NodeLife\<close>: the invariant that ties the three together, kept by every operation
    except the removal of a member (see \<open>SyncManagerProps\<close> for what happens there).
  \<^item> \<open>VoteMoves\<close>: every message and timer of a node is a \<open>vote_move\<close> on its view (status, votes counted, time of
    silence). \<open>Ballots\<close>: the protocol these moves form, with its invariant. \<open>Election\<close>: the group as a
    system of nodes and messages in flight, and its refinement to the protocol.
  \<^item> \<open>ElectionRun\<close>, \<open>ElectionProps\<close>: a concrete election of two nodes, and the properties. The bound of 6000
    milliseconds in them is the least value of the option \<^verbatim>\<open>sharingbreak\<close> (5000) plus the second that
    \<^verbatim>\<open>_clsVSSilence\<close> adds: the time a voter keeps silent.

  \<^bold>\<open>LZW compression.\<close>
  \<^item> \<open>LzwBits\<close>: the bit buffer of \<^verbatim>\<open>include/utilCompressorLZW.hpp\<close> over bytes and a 32-bit word, against the list of the
    bits of a stream (\<open>writing\<close>, \<open>reading\<close>). An access outside a buffer is \<open>None\<close>.
  \<^item> \<open>LzwDictionary\<close>: the packed items of the two string tables and the lookups \<open>findStrExt\<close> and \<open>getStrExt\<close> of
    \<^verbatim>\<open>include/utilLZWDictionary.hpp\<close>; \<open>dict_ok\<close> says that the tables spell one string for each index.
  \<^item> \<open>LzwCompressor\<close>, \<open>LzwRoundtrip\<close>: \<^verbatim>\<open>util/utilCompressorLZW.cpp\<close>. Locale \<open>string_dictionary\<close> is what a compressor needs of a
    dictionary (interpretation \<open>lzd\<close>): a source is cut into strings of the dictionary, which expand to it.
  \<^item> \<open>LzwBuild\<close>, \<open>LzwTrie\<close>: the dictionary under construction (\<open>addStr\<close>, \<open>findStr\<close>, \<open>build\<close>) as a trie of linked nodes with
    reference counts. The bound of 4294967290 bytes of input keeps the 32-bit counts exact.
  \<^item> \<open>LzwItems\<close>, \<open>LzwFinalize\<close>, \<open>LzwCodes\<close>, \<open>LzwCst\<close>, \<open>LzwDst\<close>, \<open>LzwDstInv\<close>, \<open>LzwBuilt\<close>: \<open>finalize\<close>, from the choice of the strings to the
    tables. \<^verbatim>\<open>std::sort\<close> is the argument \<open>std_sort\<close> with the hypothesis \<open>sorts_descending\<close>: it permutes its input into
    descending order. A string takes at most five bytes of the string area, whose positions have 20 bits.
  \<^item> \<open>LzwPlain\<close>, \<open>LzwProps\<close>: the dictionary of the 256 single characters, and the properties: compression with the default
    strategy loses nothing; the levels with codes of variable length do. Sources are below 16 MB because the head keeps
    24 bits of their length.

  \<^bold>\<open>Representation.\<close>  A class is a record, an enumeration a datatype, a \<^verbatim>\<open>std::map\<close> a sorted association list
  or a map, a return code a value of \<open>sdb_rc\<close>. Unsigned integers are natural numbers with the
  truncation written out where the code stores them (\<open>u16\<close>, \<open>u32\<close>, \<open>u32_sub\<close> of \<open>Prelude\<close>). A latch makes the
  section it guards one step. A write outside an array is the value \<open>None\<close>. Recursion over fuel is
  not used: every loop is a terminating function, or a partial function whose termination is a
  theorem.

  \<^bold>\<open>Not modelled.\<close>  Failing allocations (\<open>SDB_OOM\<close>, but for the buffer of a dictionary creator), tracing and diagnostics. Records, indexes, LOB data and
  log files, which live in memory-mapped pages reached through raw pointers. The network layer and
  the byte layout of messages and of BSON. The catalogue, the coordinator and the runtime commands,
  which move data between these parts. The matcher, the optimizer and the SQL parser (the latter
  built on Boost.Spirit, a third-party library). The management service, tools, drivers and the
  third-party libraries kept in the tree. Of the replica
  set, the requests to the catalogue and the notification of log readers; the system of theory
  \<open>Election\<close> has a fixed group and no forced step up or down. Of the
  compression, the debug checks of the dictionary, the unused \<^verbatim>\<open>_findStrIdx\<close>, the job that feeds records into a creator, and
  the compressors that wrap third-party libraries (snappy, LZ4, zlib).
\<close>

end
